(* ===== verification/Prelude.thy ===== *)
theory Prelude
  imports Main "HOL-Library.Word" "HOL-Library.Monad_Syntax"
begin

text \<open>
  Shared vocabulary of the development: the machine types of the Rust sources, the
  slice operations of the core library whose bounds checks can panic, byte order
  conversions, and the generic lemmas on lists and masks that the component theories use.

  A Rust operation that can panic or fail to return is a function into
  \<^typ>\<open>'a option\<close>; \<^term>\<open>None\<close> stands for "does not return normally". A Rust
  \<open>Result<T, E>\<close> is the sum \<^typ>\<open>'e + 'a\<close> with \<^term>\<open>Inl\<close> for \<open>Err\<close>.
\<close>

unbundle bit_operations_syntax

section \<open>Machine types\<close>

type_synonym u8 = "8 word"
type_synonym u16 = "16 word"
type_synonym u32 = "32 word"
type_synonym u64 = "64 word"
type_synonym byte = u8

text \<open>\<open>usize\<close> and \<open>isize\<close> of the 64-bit targets.\<close>

type_synonym usize = "64 word"

named_theorems slice_simps "bounds-checked slice operations"
named_theorems byte_simps "byte order conversions"

section \<open>Slices with bounds checks\<close>

text \<open>Indexing \<open>xs[i]\<close>: out of range panics. The same function models \<open>xs.get(i)\<close>.\<close>

definition index_at :: "'a list \<Rightarrow> nat \<Rightarrow> 'a option" where
  "index_at xs i = (if i < length xs then Some (xs ! i) else None)"

text \<open>The range slice \<open>&xs[a..b]\<close>: panics unless \<open>a <= b <= len\<close>.\<close>

definition slice_range :: "'a list \<Rightarrow> nat \<Rightarrow> nat \<Rightarrow> 'a list option" where
  "slice_range xs a b = (if a \<le> b \<and> b \<le> length xs then Some (take (b - a) (drop a xs)) else None)"

lemma index_at_Some [slice_simps]: "i < length xs \<Longrightarrow> index_at xs i = Some (xs ! i)"
  by (simp add: index_at_def)

lemma index_at_None [slice_simps]: "length xs \<le> i \<Longrightarrow> index_at xs i = None"
  by (simp add: index_at_def)

lemma slice_range_Some [slice_simps]:
  "a \<le> b \<Longrightarrow> b \<le> length xs \<Longrightarrow> slice_range xs a b = Some (take (b - a) (drop a xs))"
  by (simp add: slice_range_def)

lemma slice_range_None [slice_simps]:
  "b < a \<or> length xs < b \<Longrightarrow> slice_range xs a b = None"
  by (auto simp: slice_range_def)

text \<open>Unsigned subtraction \<open>a - b\<close>: underflow panics.\<close>

definition usub :: "nat \<Rightarrow> nat \<Rightarrow> nat option" where
  "usub a b = (if b \<le> a then Some (a - b) else None)"

lemma usub_Some [slice_simps]: "b \<le> a \<Longrightarrow> usub a b = Some (a - b)"
  by (simp add: usub_def)

section \<open>Byte order\<close>

text \<open>\<open>from_le_bytes\<close> and \<open>from_be_bytes\<close> on a byte list, \<open>to_le_bytes\<close>/\<open>to_be_bytes\<close> back.\<close>

fun from_le_bytes :: "byte list \<Rightarrow> 'a::len word" where
  "from_le_bytes [] = 0"
| "from_le_bytes (b # bs) = ucast b OR push_bit 8 (from_le_bytes bs)"

definition from_be_bytes :: "byte list \<Rightarrow> 'a::len word" where
  "from_be_bytes bs = from_le_bytes (rev bs)"

fun to_le_bytes :: "nat \<Rightarrow> 'a::len word \<Rightarrow> byte list" where
  "to_le_bytes 0 w = []"
| "to_le_bytes (Suc n) w = ucast w # to_le_bytes n (drop_bit 8 w)"

definition to_be_bytes :: "nat \<Rightarrow> 'a::len word \<Rightarrow> byte list" where
  "to_be_bytes n w = rev (to_le_bytes n w)"

lemma length_to_le_bytes [simp]: "length (to_le_bytes n w) = n"
  by (induction n arbitrary: w) auto

lemma length_to_be_bytes [simp]: "length (to_be_bytes n w) = n"
  by (simp add: to_be_bytes_def)

lemma word_split_low_byte:
  "(ucast (ucast w :: byte) OR push_bit 8 (drop_bit 8 w)) = (w :: 'a::len word)"
proof (rule bit_word_eqI)
  fix i assume "i < LENGTH('a)"
  then show "bit (ucast (ucast w :: byte) OR push_bit 8 (drop_bit 8 w)) i = bit w i"
    by (cases "i < 8") (auto simp: bit_simps)
qed

lemma from_to_le_bytes_aux:
  "drop_bit (8 * n) w = 0 \<Longrightarrow> from_le_bytes (to_le_bytes n w) = (w :: 'a::len word)"
proof (induction n arbitrary: w)
  case 0
  then show ?case by simp
next
  case (Suc n)
  have "drop_bit (8 * n) (drop_bit 8 w) = 0"
    using Suc.prems by (simp add: drop_bit_drop_bit ac_simps)
  then have "from_le_bytes (to_le_bytes n (drop_bit 8 w)) = drop_bit 8 w"
    by (rule Suc.IH)
  then show ?case by (simp add: word_split_low_byte)
qed

lemma drop_bit_length_zero:
  fixes w :: "'a::len word"
  assumes "LENGTH('a) \<le> n"
  shows "drop_bit n w = 0"
proof (rule bit_word_eqI)
  fix i assume "i < LENGTH('a)"
  with assms show "bit (drop_bit n w) i = bit (0 :: 'a word) i"
    using bit_imp_le_length [of w "n + i"] by (auto simp: bit_simps)
qed

lemma from_to_le_bytes [byte_simps]:
  fixes w :: "'a::len word"
  assumes "LENGTH('a) \<le> 8 * n"
  shows "from_le_bytes (to_le_bytes n w) = w"
  using assms by (intro from_to_le_bytes_aux drop_bit_length_zero)

lemma from_to_be_bytes [byte_simps]:
  fixes w :: "'a::len word"
  assumes "LENGTH('a) \<le> 8 * n"
  shows "from_be_bytes (to_be_bytes n w) = w"
  using assms by (simp add: from_be_bytes_def to_be_bytes_def from_to_le_bytes)

lemma from_le_bytes_append:
  "from_le_bytes (xs @ ys) = (from_le_bytes xs OR push_bit (8 * length xs) (from_le_bytes ys) :: 'a::len word)"
  by (induction xs) (auto simp: ac_simps)

section \<open>Masks and circular indices\<close>

text \<open>\<open>i & (cap - 1)\<close> for a power of two \<open>cap\<close> is reduction modulo \<open>cap\<close>.\<close>

lemma and_mask_mod: "(i::nat) AND (2 ^ k - 1) = i mod 2 ^ k"
  unfolding mask_eq_exp_minus_1 [symmetric] take_bit_eq_mask [symmetric] take_bit_eq_mod ..

section \<open>Lists\<close>

lemma take_Suc_index: "i < length xs \<Longrightarrow> take (Suc i) xs = take i xs @ [xs ! i]"
  by (rule take_Suc_conv_app_nth)

lemma drop_index: "i < length xs \<Longrightarrow> drop i xs = xs ! i # drop (Suc i) xs"
  by (rule Cons_nth_drop_Suc [symmetric])

lemma length_filter_update:
  assumes "i < length xs"
  shows "length (filter P (xs[i := y])) + (if P (xs ! i) then 1 else 0)
    = length (filter P xs) + (if P y then 1 else 0)"
proof -
  have xs: "filter P xs = filter P (take i xs @ xs ! i # drop (Suc i) xs)"
    using assms by (simp add: id_take_nth_drop [symmetric])
  have "xs[i := y] = take i xs @ y # drop (Suc i) xs"
    using assms by (rule upd_conv_take_nth_drop)
  then show ?thesis by (simp add: xs del: filter_append) simp
qed

section \<open>Alignment masks on words\<close>

lemma and_not_mask_minus: "(w :: 'a :: len word) AND NOT (mask n) = w - take_bit n w"
proof -
  have "w AND NOT (mask n) = push_bit n (drop_bit n w)"
    by (rule bit_word_eqI) (auto simp: bit_simps)
  then show ?thesis using bits_ident [of n w] by (metis add_diff_cancel_right')
qed

lemma unat_take_bit_mod: "unat (take_bit n (w :: 'a :: len word)) = unat w mod 2 ^ n"
  by (simp add: unsigned_take_bit_eq flip: take_bit_eq_mod)

lemma unat_and_not_mask: "unat ((w :: 'a :: len word) AND NOT (mask n)) = unat w div 2 ^ n * 2 ^ n"
proof -
  have "take_bit n w \<le> w" by (simp add: word_le_nat_alt unat_take_bit_mod)
  then show ?thesis unfolding and_not_mask_minus
    by (simp add: unat_sub unat_take_bit_mod minus_mod_eq_div_mult)
qed

lemma unat_of_nat_u64: "n < 2 ^ 64 \<Longrightarrow> unat (of_nat n :: u64) = n"
  by (simp add: unsigned_of_nat take_bit_nat_eq_self)

lemma unat_of_nat_u32: "n < 2 ^ 32 \<Longrightarrow> unat (of_nat n :: u32) = n"
  by (simp add: unsigned_of_nat take_bit_nat_eq_self)

end
