(* ===== verification/Syscalls.thy ===== *)
theory Syscalls
  imports Prelude
begin

text \<open>
  The system call wrappers of \<open>src/syscall.rs\<close> for the 64-bit targets. The kernel behind
  \<open>arch::syscallN\<close> is not part of the sources: it is the parameter \<open>p_syscall\<close> of a
  \<open>platform\<close>, a function of the kernel's state, the call number and the arguments. A
  pointer argument is the memory it points to: \<open>In\<close> is a buffer the kernel reads, \<open>Out\<close>
  one it may overwrite from its start, and the reply carries what it wrote to each.
  The wrapper's \<open>cfg\<close> alternatives are decided by \<open>p_target\<close>.
\<close>

section \<open>The platform\<close>

datatype target = Linux_x86_64 | Linux_aarch64 | Linux_riscv64 | Macos_aarch64 | Macos_x86_64

fun is_macos :: "target \<Rightarrow> bool" where
  "is_macos Macos_aarch64 = True"
| "is_macos Macos_x86_64 = True"
| "is_macos _ = False"

text \<open>The names of \<open>arch::nr\<close>; their numeric values differ per target.\<close>

datatype (plugins only: size) nr =
    READ | WRITE | READV | WRITEV | CLOSE | OPENAT | MMAP | MUNMAP | GETPID | GETCWD | CHDIR | LSEEK
  | FTRUNCATE | FSYNC | DUP | NEWFSTATAT | STAT64 | LSTAT64 | FSTAT | RENAMEAT | RENAMEAT2 | UNLINKAT
  | GETDENTS64 | GETDIRENTRIES64 | CLOCK_GETTIME | GETTIMEOFDAY | GETRANDOM | GETENTROPY | MKDIRAT
  | SOCKET | CONNECT | BIND | LISTEN | ACCEPT | SENDTO | RECVFROM | SETSOCKOPT | GETSOCKNAME
  | GETPEERNAME | SHUTDOWN | FORK | CLONE | EXECVE | WAIT4 | PIPE2 | DUP2 | DUP3 | EXIT_GROUP | EXIT
  | FCNTL | SCHED_GETAFFINITY | SYSCTL | GETTID | THREAD_SELFID | NANOSLEEP | SCHED_YIELD | ULOCK_WAIT

datatype arg =
    W u64
  | In "byte list"
  | Out "byte list"
  | CStr string
  | Iov "byte list list"
  | Strs "string list"

type_synonym 'k reply = "'k \<times> u64 \<times> byte list list"

record 'k platform =
  p_target :: target
  p_syscall :: "'k \<Rightarrow> nr \<Rightarrow> arg list \<Rightarrow> 'k reply"
  p_svc2 :: "'k \<Rightarrow> u64 \<Rightarrow> 'k \<times> u64 \<times> u64 \<times> bool"

text \<open>What a buffer holds after the kernel wrote \<open>new\<close> at its start.\<close>

definition overwrite :: "'a list \<Rightarrow> 'a list \<Rightarrow> 'a list" where
  "overwrite old new = take (length old) new @ drop (length new) old"

definition out_buf :: "byte list \<Rightarrow> byte list list \<Rightarrow> nat \<Rightarrow> byte list" where
  "out_buf old ws i = (if i < length ws then overwrite old (ws ! i) else old)"

lemma length_overwrite [simp]: "length (overwrite old new) = length old"
  by (simp add: overwrite_def)

lemma length_out_buf [simp]: "length (out_buf old ws i) = length old"
  by (simp add: out_buf_def)

lemma out_buf_take: "i < length ws \<Longrightarrow> n \<le> length (ws ! i) \<Longrightarrow> n \<le> length old \<Longrightarrow>
    take n (out_buf old ws i) = take n (ws ! i)"
  by (simp add: out_buf_def overwrite_def)

section \<open>Errors\<close>

type_synonym i32 = "32 word"
type_synonym i64 = "64 word"

datatype Errno = Errno i32

definition from_ret :: "u64 \<Rightarrow> Errno + u64" where
  "from_ret ret =
     (if - 4095 \<le> sint ret \<and> sint ret < 0 then Inl (Errno (ucast (- ret))) else Inr ret)"

text \<open>\<open>Result::map\<close>.\<close>

definition map_ok :: "('a \<Rightarrow> 'b) \<Rightarrow> 'e + 'a \<Rightarrow> 'e + 'b" where
  "map_ok f r = (case r of Inl e \<Rightarrow> Inl e | Inr x \<Rightarrow> Inr (f x))"

lemma map_ok_simps [simp]: "map_ok f (Inl e) = Inl e" "map_ok f (Inr x) = Inr (f x)"
  by (simp_all add: map_ok_def)

text \<open>\<open>i32 as usize\<close> extends the sign, \<open>u32 as usize\<close> does not, \<open>usize as i32\<close> truncates.\<close>

definition i32_usize :: "i32 \<Rightarrow> u64" where
  "i32_usize x = scast x"

section \<open>Files\<close>

definition O_RDONLY :: u64 where "O_RDONLY = 0"
definition O_WRONLY :: u64 where "O_WRONLY = 1"
definition O_RDWR :: u64 where "O_RDWR = 2"
definition O_CREAT :: "target \<Rightarrow> u64" where "O_CREAT t = (if is_macos t then 0x200 else 64)"
definition O_TRUNC :: "target \<Rightarrow> u64" where "O_TRUNC t = (if is_macos t then 0x400 else 512)"
definition O_APPEND :: "target \<Rightarrow> u64" where "O_APPEND t = (if is_macos t then 0x8 else 1024)"

definition sys_read :: "'k platform \<Rightarrow> 'k \<Rightarrow> i32 \<Rightarrow> byte list \<Rightarrow> 'k \<times> byte list \<times> (Errno + u64)" where
  "sys_read P k fd buf =
     (case p_syscall P k READ [W (i32_usize fd), Out buf, W (of_nat (length buf))] of
        (k', r, ws) \<Rightarrow> (k', out_buf buf ws 0, from_ret r))"

definition sys_write :: "'k platform \<Rightarrow> 'k \<Rightarrow> i32 \<Rightarrow> byte list \<Rightarrow> 'k \<times> (Errno + u64)" where
  "sys_write P k fd buf =
     (case p_syscall P k WRITE [W (i32_usize fd), In buf, W (of_nat (length buf))] of
        (k', r, _) \<Rightarrow> (k', from_ret r))"

definition sys_writev :: "'k platform \<Rightarrow> 'k \<Rightarrow> i32 \<Rightarrow> byte list list \<Rightarrow> 'k \<times> (Errno + u64)" where
  "sys_writev P k fd iov =
     (case p_syscall P k WRITEV [W (i32_usize fd), Iov iov, W (of_nat (length iov))] of
        (k', r, _) \<Rightarrow> (k', from_ret r))"

text \<open>\<open>readv\<close>: the kernel may overwrite every region; the reply lists them in order.\<close>

definition sys_readv :: "'k platform \<Rightarrow> 'k \<Rightarrow> i32 \<Rightarrow> byte list list \<Rightarrow> 'k \<times> byte list list \<times> (Errno + u64)" where
  "sys_readv P k fd iov =
     (case p_syscall P k READV [W (i32_usize fd), Iov iov, W (of_nat (length iov))] of
        (k', r, ws) \<Rightarrow> (k', map (\<lambda>i. out_buf (iov ! i) ws i) [0..<length iov], from_ret r))"

definition sys_close :: "'k platform \<Rightarrow> 'k \<Rightarrow> i32 \<Rightarrow> 'k \<times> (Errno + unit)" where
  "sys_close P k fd =
     (case p_syscall P k CLOSE [W (i32_usize fd)] of (k', r, _) \<Rightarrow> (k', map_ok (\<lambda>_. ()) (from_ret r)))"

text \<open>\<open>AT_FDCWD\<close>, -100 on Linux and -2 on macOS.\<close>

definition AT_FDCWD :: "target \<Rightarrow> u64" where
  "AT_FDCWD t = (if is_macos t then - 2 else - 100)"

definition sys_open :: "'k platform \<Rightarrow> 'k \<Rightarrow> string \<Rightarrow> u64 \<Rightarrow> u32 \<Rightarrow> 'k \<times> (Errno + i32)" where
  "sys_open P k path flags mode =
     (case p_syscall P k OPENAT [W (AT_FDCWD (p_target P)), CStr path, W flags, W (ucast mode)] of
        (k', r, _) \<Rightarrow> (k', map_ok ucast (from_ret r)))"

text \<open>\<open>MAP_PRIVATE | MAP_ANONYMOUS\<close>, 0x22 on Linux and 0x1002 on macOS.\<close>

definition map_flags :: "target \<Rightarrow> u64" where
  "map_flags t = (if is_macos t then 0x1002 else 0x22)"

definition mmap_anon :: "'k platform \<Rightarrow> 'k \<Rightarrow> u64 \<Rightarrow> u64 \<Rightarrow> 'k \<times> (Errno + u64)" where
  "mmap_anon P k len prot =
     (case p_syscall P k MMAP [W 0, W len, W prot, W (map_flags (p_target P)), W (- 1), W 0] of
        (k', r, _) \<Rightarrow> (k', from_ret r))"

definition sys_munmap :: "'k platform \<Rightarrow> 'k \<Rightarrow> u64 \<Rightarrow> u64 \<Rightarrow> 'k \<times> (Errno + unit)" where
  "sys_munmap P k addr len =
     (case p_syscall P k MUNMAP [W addr, W len] of (k', r, _) \<Rightarrow> (k', map_ok (\<lambda>_. ()) (from_ret r)))"

definition sys_getpid :: "'k platform \<Rightarrow> 'k \<Rightarrow> 'k \<times> u32" where
  "sys_getpid P k = (case p_syscall P k GETPID [] of (k', r, _) \<Rightarrow> (k', ucast r))"

definition position0 :: "byte list \<Rightarrow> nat option" where
  "position0 bs = (if 0 \<in> set bs then Some (length (takeWhile (\<lambda>b. b \<noteq> 0) bs)) else None)"

definition sys_getcwd :: "'k platform \<Rightarrow> 'k \<Rightarrow> byte list \<Rightarrow> 'k \<times> byte list \<times> (Errno + u64)" where
  "sys_getcwd P k buf =
     (if is_macos (p_target P)
      then case sys_open P k ''.'' O_RDONLY 0 of
             (k1, Inl e) \<Rightarrow> (k1, buf, Inl e)
           | (k1, Inr fd) \<Rightarrow>
               (case p_syscall P k1 FCNTL [W (i32_usize fd), W 50, Out buf] of
                  (k2, r, ws) \<Rightarrow>
                    let buf' = out_buf buf ws 0; (k3, _) = sys_close P k2 fd in
                    (k3, buf', map_ok (\<lambda>_. of_nat (case position0 buf' of Some i \<Rightarrow> i | None \<Rightarrow> length buf'))
                                 (from_ret r)))
      else case p_syscall P k GETCWD [Out buf, W (of_nat (length buf))] of
             (k', r, ws) \<Rightarrow> (k', out_buf buf ws 0, from_ret r))"

definition sys_chdir :: "'k platform \<Rightarrow> 'k \<Rightarrow> string \<Rightarrow> 'k \<times> (Errno + unit)" where
  "sys_chdir P k path =
     (case p_syscall P k CHDIR [CStr path] of (k', r, _) \<Rightarrow> (k', map_ok (\<lambda>_. ()) (from_ret r)))"

definition sys_lseek :: "'k platform \<Rightarrow> 'k \<Rightarrow> i32 \<Rightarrow> i64 \<Rightarrow> i32 \<Rightarrow> 'k \<times> (Errno + u64)" where
  "sys_lseek P k fd offset whence =
     (case p_syscall P k LSEEK [W (i32_usize fd), W offset, W (i32_usize whence)] of
        (k', r, _) \<Rightarrow> (k', from_ret r))"

definition sys_ftruncate :: "'k platform \<Rightarrow> 'k \<Rightarrow> i32 \<Rightarrow> u64 \<Rightarrow> 'k \<times> (Errno + unit)" where
  "sys_ftruncate P k fd len =
     (case p_syscall P k FTRUNCATE [W (i32_usize fd), W len] of
        (k', r, _) \<Rightarrow> (k', map_ok (\<lambda>_. ()) (from_ret r)))"

definition sys_fsync :: "'k platform \<Rightarrow> 'k \<Rightarrow> i32 \<Rightarrow> 'k \<times> (Errno + unit)" where
  "sys_fsync P k fd =
     (case p_syscall P k FSYNC [W (i32_usize fd)] of (k', r, _) \<Rightarrow> (k', map_ok (\<lambda>_. ()) (from_ret r)))"

definition sys_dup :: "'k platform \<Rightarrow> 'k \<Rightarrow> i32 \<Rightarrow> 'k \<times> (Errno + i32)" where
  "sys_dup P k fd =
     (case p_syscall P k DUP [W (i32_usize fd)] of (k', r, _) \<Rightarrow> (k', map_ok ucast (from_ret r)))"

definition AT_SYMLINK_NOFOLLOW :: "target \<Rightarrow> u64" where
  "AT_SYMLINK_NOFOLLOW t = (if is_macos t then 0x20 else 0x100)"

definition AT_REMOVEDIR :: "target \<Rightarrow> u64" where
  "AT_REMOVEDIR t = (if is_macos t then 0x80 else 0x200)"

definition stat_zero :: "byte list" where
  "stat_zero = replicate 256 0"

definition sys_statat :: "'k platform \<Rightarrow> 'k \<Rightarrow> string \<Rightarrow> bool \<Rightarrow> 'k \<times> (Errno + byte list)" where
  "sys_statat P k path follow =
     (if is_macos (p_target P)
      then case p_syscall P k (if follow then STAT64 else LSTAT64) [CStr path, Out stat_zero] of
             (k', r, ws) \<Rightarrow> (k', map_ok (\<lambda>_. out_buf stat_zero ws 0) (from_ret r))
      else case p_syscall P k NEWFSTATAT
                  [W (AT_FDCWD (p_target P)), CStr path, Out stat_zero,
                   W (if follow then 0 else AT_SYMLINK_NOFOLLOW (p_target P))] of
             (k', r, ws) \<Rightarrow> (k', map_ok (\<lambda>_. out_buf stat_zero ws 0) (from_ret r)))"

definition sys_fstat :: "'k platform \<Rightarrow> 'k \<Rightarrow> i32 \<Rightarrow> 'k \<times> (Errno + byte list)" where
  "sys_fstat P k fd =
     (case p_syscall P k FSTAT [W (i32_usize fd), Out stat_zero] of
        (k', r, ws) \<Rightarrow> (k', map_ok (\<lambda>_. out_buf stat_zero ws 0) (from_ret r)))"

definition sys_rename :: "'k platform \<Rightarrow> 'k \<Rightarrow> string \<Rightarrow> string \<Rightarrow> 'k \<times> (Errno + unit)" where
  "sys_rename P k old new =
     (let cwd = W (AT_FDCWD (p_target P)) in
      case (if p_target P = Linux_riscv64
            then p_syscall P k RENAMEAT2 [cwd, CStr old, cwd, CStr new, W 0]
            else p_syscall P k RENAMEAT [cwd, CStr old, cwd, CStr new]) of
        (k', r, _) \<Rightarrow> (k', map_ok (\<lambda>_. ()) (from_ret r)))"

definition sys_rmdir :: "'k platform \<Rightarrow> 'k \<Rightarrow> string \<Rightarrow> 'k \<times> (Errno + unit)" where
  "sys_rmdir P k path =
     (case p_syscall P k UNLINKAT [W (AT_FDCWD (p_target P)), CStr path, W (AT_REMOVEDIR (p_target P))] of
        (k', r, _) \<Rightarrow> (k', map_ok (\<lambda>_. ()) (from_ret r)))"

definition sys_getdirentries :: "'k platform \<Rightarrow> 'k \<Rightarrow> i32 \<Rightarrow> byte list \<Rightarrow> 'k \<times> byte list \<times> (Errno + u64)" where
  "sys_getdirentries P k fd buf =
     (case (if is_macos (p_target P)
            then p_syscall P k GETDIRENTRIES64
                   [W (i32_usize fd), Out buf, W (of_nat (length buf)), Out (replicate 8 0)]
            else p_syscall P k GETDENTS64 [W (i32_usize fd), Out buf, W (of_nat (length buf))]) of
        (k', r, ws) \<Rightarrow> (k', out_buf buf ws 0, from_ret r))"

section \<open>Clocks and entropy\<close>

text \<open>The two \<open>i64\<close> fields of a \<open>timespec\<close> or \<open>timeval\<close> buffer.\<close>

definition time_zero :: "byte list" where
  "time_zero = replicate 16 0"

definition time_field :: "byte list \<Rightarrow> nat \<Rightarrow> u64" where
  "time_field bs i = from_le_bytes (take 8 (drop (8 * i) bs))"

text \<open>
  \<open>monotonic\<close>. On macOS/arm64 the counter and its frequency are read by instructions,
  here the result registers of \<open>p_svc2\<close> at the pseudo number 0; a zero frequency would
  panic in the division.
\<close>

definition sys_monotonic :: "'k platform \<Rightarrow> 'k \<Rightarrow> ('k \<times> u64 \<times> u32) option" where
  "sys_monotonic P k =
     (case p_target P of
        Macos_aarch64 \<Rightarrow>
          (case p_svc2 P k 0 of (k', cnt, freq, _) \<Rightarrow>
             if freq = 0 then None
             else Some (k', cnt div freq,
                    of_nat (unat (cnt mod freq) * 1000000000 div unat freq)))
      | Macos_x86_64 \<Rightarrow>
          (case p_syscall P k GETTIMEOFDAY [Out time_zero, W 0] of (k', _, ws) \<Rightarrow>
             let tv = out_buf time_zero ws 0 in
             Some (k', time_field tv 0, ucast (time_field tv 1) * 1000))
      | _ \<Rightarrow>
          (case p_syscall P k CLOCK_GETTIME [W 1, Out time_zero] of (k', _, ws) \<Rightarrow>
             let ts = out_buf time_zero ws 0 in
             Some (k', time_field ts 0, ucast (time_field ts 1))))"

definition sys_gettimeofday :: "'k platform \<Rightarrow> 'k \<Rightarrow> 'k \<times> (Errno + u64 \<times> u64)" where
  "sys_gettimeofday P k =
     (case p_syscall P k GETTIMEOFDAY [Out time_zero, W 0] of (k', r, ws) \<Rightarrow>
        let tv = out_buf time_zero ws 0 in
        (k', map_ok (\<lambda>_. (time_field tv 0, time_field tv 1)) (from_ret r)))"

text \<open>
  The two loops of \<open>getrandom\<close>. They hold the whole buffer and the offset \<open>off\<close>; a
  kernel that never makes progress is refused on Linux, so only a kernel reporting more
  bytes than asked could leave the buffer's range.
\<close>

partial_function (option) getrandom_linux ::
    "'k platform \<Rightarrow> 'k \<Rightarrow> byte list \<Rightarrow> nat \<Rightarrow> ('k \<times> byte list \<times> (Errno + unit)) option" where
  "getrandom_linux P k buf off =
     (if off < length buf
      then case p_syscall P k GETRANDOM [Out (drop off buf), W (of_nat (length buf - off)), W 0] of
             (k', r, ws) \<Rightarrow>
               let buf' = take off buf @ out_buf (drop off buf) ws 0 in
               (case from_ret r of
                  Inl e \<Rightarrow> Some (k', buf', Inl e)
                | Inr n \<Rightarrow>
                    if n = 0 then Some (k', buf', Inl (Errno 5))
                    else getrandom_linux P k' buf' (off + unat n))
      else Some (k, buf, Inr ()))"

partial_function (option) getrandom_macos ::
    "'k platform \<Rightarrow> 'k \<Rightarrow> byte list \<Rightarrow> nat \<Rightarrow> ('k \<times> byte list \<times> (Errno + unit)) option" where
  "getrandom_macos P k buf off =
     (if off < length buf
      then let n = min 256 (length buf - off) in
           case p_syscall P k GETENTROPY [Out (drop off buf), W (of_nat n)] of
             (k', r, ws) \<Rightarrow>
               let buf' = take off buf @ out_buf (drop off buf) ws 0 in
               (case from_ret r of
                  Inl e \<Rightarrow> Some (k', buf', Inl e)
                | Inr _ \<Rightarrow> getrandom_macos P k' buf' (off + n))
      else Some (k, buf, Inr ()))"

definition sys_getrandom ::
    "'k platform \<Rightarrow> 'k \<Rightarrow> byte list \<Rightarrow> ('k \<times> byte list \<times> (Errno + unit)) option" where
  "sys_getrandom P k buf =
     (if is_macos (p_target P) then getrandom_macos P k buf 0 else getrandom_linux P k buf 0)"

definition sys_unlink :: "'k platform \<Rightarrow> 'k \<Rightarrow> string \<Rightarrow> 'k \<times> (Errno + unit)" where
  "sys_unlink P k path =
     (case p_syscall P k UNLINKAT [W (AT_FDCWD (p_target P)), CStr path, W 0] of
        (k', r, _) \<Rightarrow> (k', map_ok (\<lambda>_. ()) (from_ret r)))"

definition sys_mkdir :: "'k platform \<Rightarrow> 'k \<Rightarrow> string \<Rightarrow> u32 \<Rightarrow> 'k \<times> (Errno + unit)" where
  "sys_mkdir P k path mode =
     (case p_syscall P k MKDIRAT [W (AT_FDCWD (p_target P)), CStr path, W (ucast mode)] of
        (k', r, _) \<Rightarrow> (k', map_ok (\<lambda>_. ()) (from_ret r)))"

section \<open>Sockets\<close>

definition sys_socket :: "'k platform \<Rightarrow> 'k \<Rightarrow> i32 \<Rightarrow> i32 \<Rightarrow> i32 \<Rightarrow> 'k \<times> (Errno + i32)" where
  "sys_socket P k domain ty protocol =
     (case p_syscall P k SOCKET [W (i32_usize domain), W (i32_usize ty), W (i32_usize protocol)] of
        (k', r, _) \<Rightarrow> (k', map_ok ucast (from_ret r)))"

definition sys_connect :: "'k platform \<Rightarrow> 'k \<Rightarrow> i32 \<Rightarrow> byte list \<Rightarrow> u32 \<Rightarrow> 'k \<times> (Errno + unit)" where
  "sys_connect P k fd addr addrlen =
     (case p_syscall P k CONNECT [W (i32_usize fd), In addr, W (ucast addrlen)] of
        (k', r, _) \<Rightarrow> (k', map_ok (\<lambda>_. ()) (from_ret r)))"

definition sys_bind :: "'k platform \<Rightarrow> 'k \<Rightarrow> i32 \<Rightarrow> byte list \<Rightarrow> u32 \<Rightarrow> 'k \<times> (Errno + unit)" where
  "sys_bind P k fd addr addrlen =
     (case p_syscall P k BIND [W (i32_usize fd), In addr, W (ucast addrlen)] of
        (k', r, _) \<Rightarrow> (k', map_ok (\<lambda>_. ()) (from_ret r)))"

definition sys_listen :: "'k platform \<Rightarrow> 'k \<Rightarrow> i32 \<Rightarrow> i32 \<Rightarrow> 'k \<times> (Errno + unit)" where
  "sys_listen P k fd backlog =
     (case p_syscall P k LISTEN [W (i32_usize fd), W (i32_usize backlog)] of
        (k', r, _) \<Rightarrow> (k', map_ok (\<lambda>_. ()) (from_ret r)))"

text \<open>An address length the kernel updates is the second \<open>Out\<close> buffer, four bytes.\<close>

definition len_buf :: "u32 \<Rightarrow> byte list" where
  "len_buf n = to_le_bytes 4 n"

definition sys_accept ::
    "'k platform \<Rightarrow> 'k \<Rightarrow> i32 \<Rightarrow> byte list \<Rightarrow> u32 \<Rightarrow> 'k \<times> byte list \<times> u32 \<times> (Errno + i32)" where
  "sys_accept P k fd addr addrlen =
     (case p_syscall P k ACCEPT [W (i32_usize fd), Out addr, Out (len_buf addrlen)] of
        (k', r, ws) \<Rightarrow> (k', out_buf addr ws 0, from_le_bytes (out_buf (len_buf addrlen) ws 1),
                       map_ok ucast (from_ret r)))"

text \<open>The address of a datagram may be a null pointer, and then so is its length.\<close>

definition sys_sendto ::
    "'k platform \<Rightarrow> 'k \<Rightarrow> i32 \<Rightarrow> byte list \<Rightarrow> i32 \<Rightarrow> byte list option \<Rightarrow> u32 \<Rightarrow> 'k \<times> (Errno + u64)" where
  "sys_sendto P k fd buf flags addr addrlen =
     (case p_syscall P k SENDTO
             [W (i32_usize fd), In buf, W (of_nat (length buf)), W (i32_usize flags),
              (case addr of Some a \<Rightarrow> In a | None \<Rightarrow> W 0), W (ucast addrlen)] of
        (k', r, _) \<Rightarrow> (k', from_ret r))"

definition sys_recvfrom ::
    "'k platform \<Rightarrow> 'k \<Rightarrow> i32 \<Rightarrow> byte list \<Rightarrow> i32 \<Rightarrow> (byte list \<times> u32) option \<Rightarrow>
     'k \<times> byte list \<times> (byte list \<times> u32) option \<times> (Errno + u64)" where
  "sys_recvfrom P k fd buf flags from =
     (case p_syscall P k RECVFROM
             ([W (i32_usize fd), Out buf, W (of_nat (length buf)), W (i32_usize flags)]
                @ (case from of Some (a, l) \<Rightarrow> [Out a, Out (len_buf l)] | None \<Rightarrow> [W 0, W 0])) of
        (k', r, ws) \<Rightarrow> (k', out_buf buf ws 0,
                       map_option (\<lambda>(a, l). (out_buf a ws 1, from_le_bytes (out_buf (len_buf l) ws 2))) from,
                       from_ret r))"

definition sys_setsockopt ::
    "'k platform \<Rightarrow> 'k \<Rightarrow> i32 \<Rightarrow> i32 \<Rightarrow> i32 \<Rightarrow> byte list \<Rightarrow> u32 \<Rightarrow> 'k \<times> (Errno + unit)" where
  "sys_setsockopt P k fd level name val len =
     (case p_syscall P k SETSOCKOPT
             [W (i32_usize fd), W (i32_usize level), W (i32_usize name), In val, W (ucast len)] of
        (k', r, _) \<Rightarrow> (k', map_ok (\<lambda>_. ()) (from_ret r)))"

text \<open>\<open>getsockname\<close> and \<open>getpeername\<close>.\<close>

definition sys_sockname ::
    "nr \<Rightarrow> 'k platform \<Rightarrow> 'k \<Rightarrow> i32 \<Rightarrow> byte list \<Rightarrow> u32 \<Rightarrow> 'k \<times> byte list \<times> u32 \<times> (Errno + unit)" where
  "sys_sockname n P k fd addr addrlen =
     (case p_syscall P k n [W (i32_usize fd), Out addr, Out (len_buf addrlen)] of
        (k', r, ws) \<Rightarrow> (k', out_buf addr ws 0, from_le_bytes (out_buf (len_buf addrlen) ws 1),
                       map_ok (\<lambda>_. ()) (from_ret r)))"

definition sys_getsockname ::
    "'k platform \<Rightarrow> 'k \<Rightarrow> i32 \<Rightarrow> byte list \<Rightarrow> u32 \<Rightarrow> 'k \<times> byte list \<times> u32 \<times> (Errno + unit)" where
  "sys_getsockname = sys_sockname GETSOCKNAME"

definition sys_getpeername ::
    "'k platform \<Rightarrow> 'k \<Rightarrow> i32 \<Rightarrow> byte list \<Rightarrow> u32 \<Rightarrow> 'k \<times> byte list \<times> u32 \<times> (Errno + unit)" where
  "sys_getpeername = sys_sockname GETPEERNAME"

definition sys_shutdown :: "'k platform \<Rightarrow> 'k \<Rightarrow> i32 \<Rightarrow> i32 \<Rightarrow> 'k \<times> (Errno + unit)" where
  "sys_shutdown P k fd how =
     (case p_syscall P k SHUTDOWN [W (i32_usize fd), W (i32_usize how)] of
        (k', r, _) \<Rightarrow> (k', map_ok (\<lambda>_. ()) (from_ret r)))"

section \<open>Processes\<close>

text \<open>On macOS the second result register tells the child from the parent.\<close>

definition sys_fork :: "'k platform \<Rightarrow> 'k \<Rightarrow> 'k \<times> (Errno + i32)" where
  "sys_fork P k =
     (case p_target P of
        Linux_x86_64 \<Rightarrow>
          (case p_syscall P k FORK [] of (k', r, _) \<Rightarrow> (k', map_ok ucast (from_ret r)))
      | Linux_aarch64 \<Rightarrow>
          (case p_syscall P k CLONE [W 17, W 0, W 0, W 0, W 0] of (k', r, _) \<Rightarrow> (k', map_ok ucast (from_ret r)))
      | Linux_riscv64 \<Rightarrow>
          (case p_syscall P k CLONE [W 17, W 0, W 0, W 0, W 0] of (k', r, _) \<Rightarrow> (k', map_ok ucast (from_ret r)))
      | _ \<Rightarrow>
          (case p_svc2 P k (0x2000000 OR 2) of (k', x0, x1, err) \<Rightarrow>
             (k', if err then Inl (Errno (ucast x0))
                  else if x1 = 1 then Inr 0 else Inr (ucast x0))))"

definition sys_execve :: "'k platform \<Rightarrow> 'k \<Rightarrow> string \<Rightarrow> string list \<Rightarrow> string list \<Rightarrow> 'k \<times> Errno" where
  "sys_execve P k path argv envp =
     (case p_syscall P k EXECVE [CStr path, Strs argv, Strs envp] of
        (k', r, _) \<Rightarrow> (k', Errno (ucast (- r))))"

definition sys_wait4 :: "'k platform \<Rightarrow> 'k \<Rightarrow> i32 \<Rightarrow> i32 \<Rightarrow> i32 \<Rightarrow> 'k \<times> i32 \<times> (Errno + i32)" where
  "sys_wait4 P k pid status options =
     (case p_syscall P k WAIT4 [W (i32_usize pid), Out (to_le_bytes 4 status), W (i32_usize options), W 0] of
        (k', r, ws) \<Rightarrow> (k', from_le_bytes (out_buf (to_le_bytes 4 status) ws 0), map_ok ucast (from_ret r)))"

definition sys_pipe :: "'k platform \<Rightarrow> 'k \<Rightarrow> 'k \<times> (Errno + i32 \<times> i32)" where
  "sys_pipe P k =
     (if is_macos (p_target P)
      then case p_svc2 P k (0x2000000 OR 42) of (k', r, w, err) \<Rightarrow>
             (k', if err then Inl (Errno (ucast r)) else Inr (ucast r, ucast w))
      else case p_syscall P k PIPE2 [Out (replicate 8 0), W 0] of (k', r, ws) \<Rightarrow>
             let fds = out_buf (replicate 8 0) ws 0 in
             (k', map_ok (\<lambda>_. (from_le_bytes (take 4 fds), from_le_bytes (drop 4 fds))) (from_ret r)))"

definition sys_dup2 :: "'k platform \<Rightarrow> 'k \<Rightarrow> i32 \<Rightarrow> i32 \<Rightarrow> 'k \<times> (Errno + unit)" where
  "sys_dup2 P k old new =
     (case (if p_target P = Linux_aarch64 \<or> p_target P = Linux_riscv64
            then p_syscall P k DUP3 [W (i32_usize old), W (i32_usize new), W 0]
            else p_syscall P k DUP2 [W (i32_usize old), W (i32_usize new)]) of
        (k', r, _) \<Rightarrow> (k', map_ok (\<lambda>_. ()) (from_ret r)))"

text \<open>\<open>exit_group\<close> does not return: the result is the kernel state it leaves behind.\<close>

definition sys_exit_group :: "'k platform \<Rightarrow> 'k \<Rightarrow> i32 \<Rightarrow> 'k" where
  "sys_exit_group P k code =
     (case p_syscall P k EXIT_GROUP [W (i32_usize code)] of (k1, _, _) \<Rightarrow>
        (case p_syscall P k1 EXIT [W (i32_usize code)] of (k2, _, _) \<Rightarrow> k2))"

definition sys_fcntl :: "'k platform \<Rightarrow> 'k \<Rightarrow> i32 \<Rightarrow> i32 \<Rightarrow> i32 \<Rightarrow> 'k \<times> (Errno + i32)" where
  "sys_fcntl P k fd cmd a =
     (case p_syscall P k FCNTL [W (i32_usize fd), W (i32_usize cmd), W (i32_usize a)] of
        (k', r, _) \<Rightarrow> (k', map_ok ucast (from_ret r)))"

definition count_ones :: "byte \<Rightarrow> nat" where
  "count_ones b = length (filter (\<lambda>i. bit b i) [0..<8])"

definition sys_num_cpus :: "'k platform \<Rightarrow> 'k \<Rightarrow> 'k \<times> nat" where
  "sys_num_cpus P k =
     (if is_macos (p_target P)
      then case p_syscall P k SYSCTL
                  [In (to_le_bytes 4 (6 :: i32) @ to_le_bytes 4 (3 :: i32)), W 2, Out (replicate 4 0),
                   Out (to_le_bytes 8 (4 :: u64)), W 0, W 0] of
             (k', r, ws) \<Rightarrow>
               let ncpu = from_le_bytes (out_buf (replicate 4 0) ws 0) :: i32 in
               (k', case from_ret r of Inr _ \<Rightarrow> (if 0 < sint ncpu then unat ncpu else 1) | Inl _ \<Rightarrow> 1)
      else case p_syscall P k SCHED_GETAFFINITY [W 0, W 128, Out (replicate 128 0)] of
             (k', r, ws) \<Rightarrow>
               let affinity = out_buf (replicate 128 0) ws 0 in
               (k', case from_ret r of
                      Inr n \<Rightarrow> max (sum_list (map count_ones (take (min (unat n) 128) affinity))) 1
                    | Inl _ \<Rightarrow> 1))"

definition sys_gettid :: "'k platform \<Rightarrow> 'k \<Rightarrow> 'k \<times> u64" where
  "sys_gettid P k =
     (case p_syscall P k (if is_macos (p_target P) then THREAD_SELFID else GETTID) [] of
        (k', r, _) \<Rightarrow> (k', r))"

section \<open>Properties of the wrappers\<close>

lemma small_errno:
  assumes "n \<le> 4095"
  shows "ucast (of_nat n :: u64) = (of_nat n :: i32)" "sint (of_nat n :: i32) = int n"
    "scast (of_nat n :: i32) = (of_nat n :: u64)"
  using assms by (simp_all add: unsigned_of_nat take_bit_nat_eq_self signed_of_nat signed_take_bit_int_eq_self)

lemma from_ret_cases:
  obtains (err) e where "from_ret r = Inl (Errno e)" "1 \<le> sint e" "sint e \<le> 4095" "r = - scast e"
  | (ok) "from_ret r = Inr r" "sint r < - 4095 \<or> 0 \<le> sint r"
proof (cases "- 4095 \<le> sint r \<and> sint r < 0")
  case True
  define n where "n = nat (- sint r)"
  have n: "1 \<le> n" "n \<le> 4095" "sint r = - int n" using True by (auto simp: n_def)
  have "r = word_of_int (sint r)" by simp
  then have r: "r = - of_nat n" unfolding n(3) by simp
  show ?thesis
  proof (rule err)
    have "ucast (- r) = (of_nat n :: i32)" unfolding r minus_minus by (rule small_errno(1) [OF n(2)])
    then show "from_ret r = Inl (Errno (of_nat n))" using True by (simp add: from_ret_def)
    show "r = - scast (of_nat n :: i32)" using small_errno(3) [OF n(2)] r by simp
  qed (use small_errno(2) [OF n(2)] n in simp_all)
next
  case False
  then show ?thesis using ok by (auto simp: from_ret_def)
qed

lemma from_ret_err: "1 \<le> n \<Longrightarrow> n \<le> 4095 \<Longrightarrow> from_ret (- of_nat n) = Inl (Errno (of_nat n))"
proof -
  assume n: "1 \<le> n" "n \<le> 4095"
  have "sint (word_of_int (- int n) :: u64) = - int n"
    unfolding signed_of_int using n by (simp add: signed_take_bit_int_eq_self)
  moreover have "ucast (- (word_of_int (- int n) :: u64)) = (of_nat n :: i32)"
    using small_errno(1) [OF n(2)] by simp
  ultimately have "from_ret (word_of_int (- int n)) = Inl (Errno (of_nat n))"
    unfolding from_ret_def using n by presburger
  then show ?thesis by simp
qed

text \<open>\<open>from_ret\<close> splits the raw results exactly: the values \<open>-1\<close> to \<open>-4095\<close> become the
  error number they encode, every other value is passed through unchanged.
\<close>

theorem from_ret_exact:
  "(from_ret r = Inl (Errno e) \<longleftrightarrow> (\<exists>n. 1 \<le> n \<and> n \<le> 4095 \<and> r = - of_nat n \<and> e = of_nat n)) \<and>
   (from_ret r = Inr v \<longleftrightarrow> v = r \<and> (sint r < - 4095 \<or> 0 \<le> sint r))"
proof (cases r rule: from_ret_cases)
  case (err e')
  define n where "n = nat (sint e')"
  have n: "1 \<le> n" "n \<le> 4095" "e' = of_nat n"
    using err(2,3) by (auto simp: n_def)
  moreover have "r = - of_nat n" using err(4) small_errno(3) [OF n(2)] n(3) by simp
  moreover have "\<not> (sint r < - 4095 \<or> 0 \<le> sint r)"
    using err(1) by (auto simp: from_ret_def split: if_splits)
  moreover have "e = e' \<longleftrightarrow> (\<exists>n. 1 \<le> n \<and> n \<le> 4095 \<and> r = - of_nat n \<and> e = of_nat n)"
    using calculation err(1) from_ret_err by (metis Errno.inject Inl_inject)
  ultimately show ?thesis using err(1) by auto
next
  case ok
  then show ?thesis by (metis from_ret_err Inl_Inr_False Inr_inject)
qed

text \<open>
  What \<open>getrandom(2)\<close> documents: a successful call reports how many bytes it wrote, at
  most as many as it was asked for.
\<close>

definition getrandom_contract :: "'k platform \<Rightarrow> bool" where
  "getrandom_contract P \<longleftrightarrow>
     (\<forall>k buf k' r ws n. p_syscall P k GETRANDOM [Out buf, W (of_nat (length buf)), W 0] = (k', r, ws) \<longrightarrow>
        from_ret r = Inr n \<longrightarrow> unat n \<le> length buf \<and> ws \<noteq> [] \<and> length (ws ! 0) = unat n)"

text \<open>The chunks the kernel wrote in successive calls.\<close>

definition random_chunk :: "'k platform \<Rightarrow> byte list \<Rightarrow> bool" where
  "random_chunk P c \<longleftrightarrow>
     (\<exists>k buf k' r ws. p_syscall P k GETRANDOM [Out buf, W (of_nat (length buf)), W 0] = (k', r, ws) \<and>
        c = ws ! 0 \<and> from_ret r = Inr (of_nat (length c)))"

lemma getrandom_linux_spec:
  assumes P: "getrandom_contract P" and "off \<le> length buf"
  shows "\<exists>k' buf' r. getrandom_linux P k buf off = Some (k', buf', r) \<and> length buf' = length buf \<and>
           (r = Inr () \<longrightarrow> (\<exists>cs. buf' = take off buf @ concat cs \<and> (\<forall>c\<in>set cs. random_chunk P c)))"
  using assms(2)
proof (induction "length buf - off" arbitrary: k buf off rule: less_induct)
  case less
  show ?case
  proof (cases "off < length buf")
    case True
    let ?d = "drop off buf"
    obtain k' r ws where call:
        "p_syscall P k GETRANDOM [Out ?d, W (of_nat (length ?d)), W 0] = (k', r, ws)"
      by (metis prod_cases3)
    let ?buf = "take off buf @ out_buf ?d ws 0"
    have step: "getrandom_linux P k buf off =
        (case from_ret r of
           Inl e \<Rightarrow> Some (k', ?buf, Inl e)
         | Inr n \<Rightarrow> if n = 0 then Some (k', ?buf, Inl (Errno 5))
                   else getrandom_linux P k' ?buf (off + unat n))"
      using True call by (subst getrandom_linux.simps) (simp add: Let_def)
    have len: "length ?buf = length buf" using True by simp
    show ?thesis
    proof (cases "from_ret r")
      case (Inl e)
      then show ?thesis using step len by simp
    next
      case (Inr n)
      have n: "unat n \<le> length ?d" "ws \<noteq> []" "length (ws ! 0) = unat n"
        using P call Inr unfolding getrandom_contract_def by blast+
      show ?thesis
      proof (cases "n = 0")
        case False
        then have "0 < unat n" by (simp add: unat_gt_0)
        have chunk: "random_chunk P (ws ! 0)"
          unfolding random_chunk_def using call Inr n(3)
          by (intro exI [of _ k] exI [of _ ?d] exI [of _ k'] exI [of _ r] exI [of _ ws]) simp
        have pre: "take (off + unat n) ?buf = take off buf @ ws ! 0"
          using n True by (simp add: out_buf_take [of 0 ws "unat n" ?d])
        have "length ?buf - (off + unat n) < length buf - off"
          using \<open>0 < unat n\<close> True len by linarith
        moreover have "off + unat n \<le> length ?buf" using n(1) True len by simp
        ultimately obtain k2 b2 r2 where
          rec: "getrandom_linux P k' ?buf (off + unat n) = Some (k2, b2, r2)" "length b2 = length ?buf"
            "r2 = Inr () \<longrightarrow> (\<exists>cs. b2 = take (off + unat n) ?buf @ concat cs \<and> (\<forall>c\<in>set cs. random_chunk P c))"
          using less.hyps [of ?buf "off + unat n" k'] by blast
        have "\<exists>cs. b2 = take off buf @ concat cs \<and> (\<forall>c\<in>set cs. random_chunk P c)" if succ: "r2 = Inr ()"
        proof -
          obtain cs where "b2 = take off buf @ ws ! 0 @ concat cs" "\<forall>c\<in>set cs. random_chunk P c"
            using rec(3) succ unfolding pre by auto
          then show ?thesis using chunk by (intro exI [of _ "ws ! 0 # cs"]) simp
        qed
        then show ?thesis using step Inr False rec(1,2) len by auto
      qed (use step Inr len in simp)
    qed
  next
    case False
    then have "getrandom_linux P k buf off = Some (k, buf, Inr ())"
      by (subst getrandom_linux.simps) simp
    then show ?thesis using False less.prems by (auto intro!: exI [of _ "[]"])
  qed
qed

text \<open>On Linux \<open>getrandom\<close> returns, never changes the buffer's length, and when it
  reports success every byte of the buffer was written by the kernel: the buffer is the
  concatenation of what successful calls delivered.
\<close>

theorem getrandom_fills:
  assumes "getrandom_contract P" "\<not> is_macos (p_target P)"
  shows "\<exists>k' buf' r. sys_getrandom P k buf = Some (k', buf', r) \<and> length buf' = length buf \<and>
           (r = Inr () \<longrightarrow> (\<exists>cs. buf' = concat cs \<and> (\<forall>c\<in>set cs. random_chunk P c)))"
  using getrandom_linux_spec [OF assms(1), of 0 buf k] assms(2) by (simp add: sys_getrandom_def)

text \<open>A kernel that delivers one byte per call.\<close>

definition one_byte_kernel :: "nat platform" where
  "one_byte_kernel =
     \<lparr> p_target = Linux_x86_64,
       p_syscall = (\<lambda>k n args. case args of [Out (b # bs), _, _] \<Rightarrow> (Suc k, 1, [[of_nat k]]) | _ \<Rightarrow> (k, 0, [[]])),
       p_svc2 = (\<lambda>k n. (k, 0, 0, True)) \<rparr>"

lemma one_byte_kernel_contract: "getrandom_contract one_byte_kernel"
proof -
  have "from_ret 1 = Inr 1" "from_ret 0 = Inr 0" by (simp_all add: from_ret_def)
  then show ?thesis
    by (auto simp: getrandom_contract_def one_byte_kernel_def split: list.splits)
qed

theorem getrandom_fills_witness:
  "\<exists>k' buf' r. sys_getrandom one_byte_kernel 7 [0, 0, 0] = Some (k', buf', r) \<and> length buf' = 3 \<and>
     (r = Inr () \<longrightarrow> (\<exists>cs. buf' = concat cs \<and> (\<forall>c\<in>set cs. random_chunk one_byte_kernel c)))"
proof -
  have "\<not> is_macos (p_target one_byte_kernel)" by (simp add: one_byte_kernel_def)
  from getrandom_fills [OF one_byte_kernel_contract this, of 7 "[0, 0, 0]"] show ?thesis
    by (simp add: numeral_3_eq_3)
qed

end
