(* ===== verification/Allocator.thy ===== *)
theory Allocator
  imports Syscalls
begin

text \<open>
  The global allocator of \<open>src/allocator.rs\<close>. Addresses are natural numbers, 0 is the null
  pointer, and \<open>h_mem\<close> holds the pointer-sized word stored at an address, which is how the
  intrusive free lists are linked. The critical sections under the spinlock are atomic;
  \<open>lock\<close> on a held lock would spin, which is \<^term>\<open>None\<close>.
\<close>

section \<open>Constants and size classes\<close>

definition GRAN :: nat where "GRAN = 16384"
definition MIN_MAP_ALIGN :: nat where "MIN_MAP_ALIGN = 4096"
definition MIN_SHIFT :: nat where "MIN_SHIFT = 4"
definition MAX_SMALL :: nat where "MAX_SMALL = MIN_MAP_ALIGN"
definition NUM_CLASSES :: nat where "NUM_CLASSES = 12 - MIN_SHIFT + 1"
definition ARENA :: nat where "ARENA = 2 ^ 20"

lemmas alloc_consts = GRAN_def MIN_MAP_ALIGN_def MIN_SHIFT_def MAX_SMALL_def NUM_CLASSES_def ARENA_def

record Layout =
  lay_size :: nat
  lay_align :: nat

definition round_up :: "u64 \<Rightarrow> u64 \<Rightarrow> u64" where
  "round_up v to = (v + to - 1) AND NOT (to - 1)"

function class_shift :: "nat \<Rightarrow> nat \<Rightarrow> nat" where
  "class_shift need shift = (if 2 ^ shift < need then class_shift need (shift + 1) else shift)"
  by pat_completeness auto
termination
proof (relation "measure (\<lambda>(need, shift). need - shift)")
  fix need shift :: nat assume "2 ^ shift < need"
  then have "shift < need" using less_exp [of shift] by linarith
  then show "((need, shift + 1), need, shift) \<in> measure (\<lambda>(need, shift). need - shift)" by simp
qed simp

declare class_shift.simps [simp del]

definition class_for :: "nat \<Rightarrow> nat \<Rightarrow> nat option" where
  "class_for sz align =
     (let need = max (max sz align) (2 ^ MIN_SHIFT) in
      if need > MAX_SMALL then None else Some (class_shift need MIN_SHIFT - MIN_SHIFT))"

definition class_size :: "nat \<Rightarrow> nat" where
  "class_size idx = 2 ^ (idx + MIN_SHIFT)"

section \<open>The allocator\<close>

record 'k heap =
  h_lock :: bool
  h_free :: "nat list"
  h_mem :: "nat \<Rightarrow> nat"
  h_kernel :: 'k

definition allocator_new :: "(nat \<Rightarrow> nat) \<Rightarrow> 'k \<Rightarrow> 'k heap" where
  "allocator_new m k = \<lparr> h_lock = False, h_free = replicate NUM_CLASSES 0, h_mem = m, h_kernel = k \<rparr>"

text \<open>\<open>map\<close>: an anonymous mapping, or null. \<open>PROT_READ | PROT_WRITE\<close> is 3.\<close>

definition map_region :: "'k platform \<Rightarrow> 'k \<Rightarrow> u64 \<Rightarrow> 'k \<times> nat" where
  "map_region P k len =
     (case mmap_anon P k len 3 of (k', Inr p) \<Rightarrow> (k', unat p) | (k', Inl _) \<Rightarrow> (k', 0))"

definition spin_lock :: "'k heap \<Rightarrow> 'k heap option" where
  "spin_lock h = (if h_lock h then None else Some (h \<lparr> h_lock := True \<rparr>))"

definition spin_unlock :: "'k heap \<Rightarrow> 'k heap" where
  "spin_unlock h = h \<lparr> h_lock := False \<rparr>"

text \<open>The loop of \<open>refill\<close> with \<open>i\<close> blocks left to thread onto the list.\<close>

primrec refill_loop :: "nat \<Rightarrow> nat \<Rightarrow> nat \<Rightarrow> nat \<Rightarrow> (nat \<Rightarrow> nat) \<Rightarrow> nat \<times> (nat \<Rightarrow> nat)" where
  "refill_loop base block 0 nxt mem = (nxt, mem)"
| "refill_loop base block (Suc i) nxt mem =
     (let blk = base + i * block in refill_loop base block i blk (mem(blk := nxt)))"

definition refill :: "'k platform \<Rightarrow> 'k heap \<Rightarrow> nat \<Rightarrow> ('k heap \<times> bool) option" where
  "refill P h idx =
     (let block = class_size idx; (k', base) = map_region P (h_kernel h) (of_nat ARENA);
          h' = h \<lparr> h_kernel := k' \<rparr> in
      if base = 0 then Some (h', False)
      else do {
        nxt \<leftarrow> index_at (h_free h') idx;
        let (nxt', mem') = refill_loop base block (ARENA div block) nxt (h_mem h');
        Some (h' \<lparr> h_free := (h_free h')[idx := nxt'], h_mem := mem' \<rparr>, True)
      })"

definition alloc_small :: "'k platform \<Rightarrow> 'k heap \<Rightarrow> nat \<Rightarrow> ('k heap \<times> nat) option" where
  "alloc_small P h0 idx = do {
     h \<leftarrow> spin_lock h0;
     head \<leftarrow> index_at (h_free h) idx;
     (h1, ok) \<leftarrow> (if head = 0 then refill P h idx else Some (h, True));
     if \<not> ok then Some (spin_unlock h1, 0)
     else do {
       blk \<leftarrow> index_at (h_free h1) idx;
       Some (spin_unlock (h1 \<lparr> h_free := (h_free h1)[idx := h_mem h1 blk] \<rparr>), blk)
     }
   }"

definition free_small :: "'k heap \<Rightarrow> nat \<Rightarrow> nat \<Rightarrow> 'k heap option" where
  "free_small h0 idx ptr = do {
     h \<leftarrow> spin_lock h0;
     head \<leftarrow> index_at (h_free h) idx;
     Some (spin_unlock (h \<lparr> h_mem := (h_mem h)(ptr := head), h_free := (h_free h)[idx := ptr] \<rparr>))
   }"

definition heap_alloc :: "'k platform \<Rightarrow> 'k heap \<Rightarrow> Layout \<Rightarrow> ('k heap \<times> nat) option" where
  "heap_alloc P h layout =
     (case class_for (lay_size layout) (lay_align layout) of
        Some idx \<Rightarrow> alloc_small P h idx
      | None \<Rightarrow>
          if lay_align layout > GRAN then Some (h, 0)
          else (case map_region P (h_kernel h) (round_up (of_nat (lay_size layout)) (of_nat GRAN)) of
                  (k', p) \<Rightarrow> Some (h \<lparr> h_kernel := k' \<rparr>, p)))"

definition heap_dealloc :: "'k platform \<Rightarrow> 'k heap \<Rightarrow> nat \<Rightarrow> Layout \<Rightarrow> 'k heap option" where
  "heap_dealloc P h ptr layout =
     (if ptr = 0 then Some h
      else case class_for (lay_size layout) (lay_align layout) of
             Some idx \<Rightarrow> free_small h idx ptr
           | None \<Rightarrow>
               (case sys_munmap P (h_kernel h) (of_nat ptr) (round_up (of_nat (lay_size layout)) (of_nat GRAN)) of
                  (k', _) \<Rightarrow> Some (h \<lparr> h_kernel := k' \<rparr>)))"

section \<open>Size classes\<close>

lemma class_shift_spec:
  assumes "need \<le> 2 ^ m" "s \<le> m"
  shows "s \<le> class_shift need s \<and> class_shift need s \<le> m \<and> need \<le> 2 ^ class_shift need s \<and>
         (s < class_shift need s \<longrightarrow> 2 ^ (class_shift need s - 1) < need)"
  using assms
proof (induction need s rule: class_shift.induct)
  case (1 need s)
  show ?case
  proof (cases "2 ^ s < need")
    case True
    have "s \<noteq> m" using True "1.prems" by auto
    then have IH: "s + 1 \<le> class_shift need (s + 1) \<and> class_shift need (s + 1) \<le> m \<and>
        need \<le> 2 ^ class_shift need (s + 1) \<and>
        (s + 1 < class_shift need (s + 1) \<longrightarrow> 2 ^ (class_shift need (s + 1) - 1) < need)"
      using "1.IH" [OF True] "1.prems" by simp
    then show ?thesis using True
      by (cases "class_shift need (s + 1) = s + 1") (auto simp: class_shift.simps [of need s])
  next
    case False
    then show ?thesis using "1.prems" by (simp add: class_shift.simps [of need s])
  qed
qed

lemma class_for_Some:
  assumes "class_for sz align = Some i"
  shows "i < NUM_CLASSES" "sz \<le> class_size i" "align \<le> class_size i"
    "i = 0 \<or> class_size (i - 1) < max sz align"
proof -
  let ?n = "max (max sz align) 16"
  let ?s = "class_shift ?n 4"
  have n: "?n \<le> 4096" and i: "i = ?s - 4"
    using assms by (auto simp: class_for_def alloc_consts Let_def split: if_splits)
  have s: "4 \<le> ?s" "?s \<le> 12" "?n \<le> 2 ^ ?s" "4 < ?s \<longrightarrow> 2 ^ (?s - 1) < ?n"
    using class_shift_spec [of ?n 12 4] n by auto
  show "i < NUM_CLASSES" unfolding alloc_consts i using s(2) by linarith
  have cs: "class_size i = 2 ^ ?s" using s(1) i by (simp add: class_size_def alloc_consts)
  show "sz \<le> class_size i" "align \<le> class_size i" using s(3) cs by simp_all
  show "i = 0 \<or> class_size (i - 1) < max sz align"
  proof (cases "4 < ?s")
    case True
    have "class_size (i - 1) = 2 ^ (?s - 1)" using True i by (simp add: class_size_def alloc_consts)
    moreover have "(2 :: nat) ^ 4 \<le> 2 ^ (?s - 1)" using True by (intro power_increasing) auto
    ultimately show ?thesis using s(4) True by (auto simp: less_max_iff_disj)
  qed (use i s(1) in auto)
qed

lemma class_for_None: "class_for sz align = None \<longleftrightarrow> 4096 < sz \<or> 4096 < align"
  by (auto simp: class_for_def alloc_consts Let_def)

lemma class_size_pos [simp]: "0 < class_size i"
  by (simp add: class_size_def)

lemma class_size_ge: "16 \<le> class_size i"
  using power_increasing [of 4 "i + 4" "2 :: nat"] by (simp add: class_size_def alloc_consts)

lemma class_size_dvd_page: "i < NUM_CLASSES \<Longrightarrow> class_size i dvd 4096"
  using le_imp_power_dvd [of "i + 4" 12 "2 :: nat"] by (simp add: class_size_def alloc_consts)

lemma class_size_dvd_arena: "i < NUM_CLASSES \<Longrightarrow> class_size i dvd ARENA"
  using le_imp_power_dvd [of "i + 4" 20 "2 :: nat"] by (simp add: class_size_def alloc_consts)

lemma pow2_le_dvd: "(2 :: nat) ^ a \<le> 2 ^ b \<Longrightarrow> (2 :: nat) ^ a dvd 2 ^ b"
  by (intro le_imp_power_dvd) (simp add: power_le_imp_le_exp)

lemma align_dvd_class_size:
  "class_for sz (2 ^ a) = Some i \<Longrightarrow> 2 ^ a dvd class_size i"
  using class_for_Some(3) [of sz "2 ^ a" i] by (auto simp: class_size_def intro: pow2_le_dvd)

lemma round_up_spec:
  assumes "unat v + 16383 < 2 ^ 64"
  shows "unat (round_up v (of_nat GRAN)) = (unat v + 16383) div 16384 * 16384"
proof -
  have m: "of_nat GRAN - 1 = (mask 14 :: u64)" by (simp add: GRAN_def mask_eq_exp_minus_1)
  have "round_up v (of_nat GRAN) = (v + (of_nat GRAN - 1)) AND NOT (of_nat GRAN - 1)"
    by (simp only: round_up_def add_diff_eq)
  then have "unat (round_up v (of_nat GRAN)) = unat (v + mask 14) div 2 ^ 14 * 2 ^ 14"
    unfolding m by (simp only: unat_and_not_mask)
  moreover have "unat (v + mask 14) = unat v + 16383"
    using assms by (subst unat_add_lem [THEN iffD1]) (simp_all add: mask_eq_exp_minus_1)
  ultimately show ?thesis by simp
qed

section \<open>What the kernel promises\<close>

text \<open>
  \<open>mapped k\<close> is the set of addresses mapped in kernel state \<open>k\<close>. A successful anonymous
  \<open>mmap\<close> returns a non-null page-aligned address of a region that was not mapped before,
  a failed one changes nothing, and \<open>munmap\<close> unmaps nothing outside its range.
\<close>

abbreviation span :: "nat \<Rightarrow> nat \<Rightarrow> nat set" where
  "span p n \<equiv> {p..<p + n}"

definition mmap_contract :: "'k platform \<Rightarrow> ('k \<Rightarrow> nat set) \<Rightarrow> bool" where
  "mmap_contract P mapped \<longleftrightarrow>
     (\<forall>k len prot k' r. mmap_anon P k len prot = (k', r) \<longrightarrow>
        (case r of
           Inl _ \<Rightarrow> mapped k' = mapped k
         | Inr p \<Rightarrow> p \<noteq> 0 \<and> 4096 dvd unat p \<and> unat p + unat len \<le> 2 ^ 64 \<and>
                   span (unat p) (unat len) \<inter> mapped k = {} \<and>
                   mapped k' = mapped k \<union> span (unat p) (unat len))) \<and>
     (\<forall>k p len k' r. sys_munmap P k p len = (k', r) \<longrightarrow>
        mapped k - span (unat p) (unat len) \<subseteq> mapped k' \<and> mapped k' \<subseteq> mapped k)"

lemma map_region_spec:
  assumes "mmap_contract P mapped" "map_region P k len = (k', p)"
  shows "p = 0 \<and> mapped k' = mapped k \<or>
         p \<noteq> 0 \<and> 4096 dvd p \<and> p + unat len \<le> 2 ^ 64 \<and> span p (unat len) \<inter> mapped k = {} \<and>
         mapped k' = mapped k \<union> span p (unat len)"
proof -
  obtain r where r: "mmap_anon P k len 3 = (k', r)" "p = (case r of Inl _ \<Rightarrow> 0 | Inr q \<Rightarrow> unat q)"
    using assms(2) by (auto simp: map_region_def split: prod.splits sum.splits)
  have "case r of
           Inl _ \<Rightarrow> mapped k' = mapped k
         | Inr p \<Rightarrow> p \<noteq> 0 \<and> 4096 dvd unat p \<and> unat p + unat len \<le> 2 ^ 64 \<and>
                   span (unat p) (unat len) \<inter> mapped k = {} \<and>
                   mapped k' = mapped k \<union> span (unat p) (unat len)"
    using assms(1) r(1) unfolding mmap_contract_def by blast
  then show ?thesis using r(2) by (cases r) (auto simp: unat_eq_zero)
qed

section \<open>Blocks\<close>

text \<open>
  The ghost state: which block starts at an address, either on the free list of a class
  or handed out for a layout.
\<close>

datatype block = Free nat | Live Layout

definition layout_ok :: "Layout \<Rightarrow> bool" where
  "layout_ok l \<longleftrightarrow> 0 < lay_size l \<and> (\<exists>a. lay_align l = 2 ^ a) \<and> lay_size l + lay_align l \<le> 2 ^ 63"

text \<open>The bytes that belong to a live block: its class, or whole granules.\<close>

definition region_len :: "Layout \<Rightarrow> nat" where
  "region_len l =
     (case class_for (lay_size l) (lay_align l) of
        Some i \<Rightarrow> class_size i
      | None \<Rightarrow> (lay_size l + 16383) div 16384 * 16384)"

fun block_len :: "block \<Rightarrow> nat" where
  "block_len (Free i) = class_size i"
| "block_len (Live l) = region_len l"

fun block_align :: "block \<Rightarrow> nat" where
  "block_align (Free i) = class_size i"
| "block_align (Live l) = (case class_for (lay_size l) (lay_align l) of Some i \<Rightarrow> class_size i | None \<Rightarrow> 4096)"

fun block_wf :: "block \<Rightarrow> bool" where
  "block_wf (Free i) \<longleftrightarrow> i < NUM_CLASSES"
| "block_wf (Live l) \<longleftrightarrow> layout_ok l \<and> lay_align l \<le> GRAN"

primrec free_list :: "(nat \<Rightarrow> nat) \<Rightarrow> nat \<Rightarrow> nat list \<Rightarrow> bool" where
  "free_list mem p [] \<longleftrightarrow> p = 0"
| "free_list mem p (q # qs) \<longleftrightarrow> p = q \<and> q \<noteq> 0 \<and> free_list mem (mem q) qs"

definition blocks_ok :: "nat set \<Rightarrow> (nat \<rightharpoonup> block) \<Rightarrow> bool" where
  "blocks_ok M st \<longleftrightarrow>
     (\<forall>p b. st p = Some b \<longrightarrow>
        p \<noteq> 0 \<and> block_wf b \<and> block_align b dvd p \<and> span p (block_len b) \<subseteq> M \<and>
        p + block_len b \<le> 2 ^ 64) \<and>
     (\<forall>p q b c. st p = Some b \<longrightarrow> st q = Some c \<longrightarrow> p \<noteq> q \<longrightarrow>
        span p (block_len b) \<inter> span q (block_len c) = {})"

definition lists_ok :: "(nat \<Rightarrow> nat) \<Rightarrow> nat list \<Rightarrow> (nat \<rightharpoonup> block) \<Rightarrow> bool" where
  "lists_ok mem heads st \<longleftrightarrow> length heads = NUM_CLASSES \<and>
     (\<forall>i<NUM_CLASSES. \<exists>ps. free_list mem (heads ! i) ps \<and> distinct ps \<and> set ps = {p. st p = Some (Free i)})"

definition heap_inv :: "('k \<Rightarrow> nat set) \<Rightarrow> 'k heap \<Rightarrow> (nat \<rightharpoonup> block) \<Rightarrow> bool" where
  "heap_inv mapped h st \<longleftrightarrow>
     \<not> h_lock h \<and> blocks_ok (mapped (h_kernel h)) st \<and> lists_ok (h_mem h) (h_free h) st"

definition live_of :: "(nat \<rightharpoonup> block) \<Rightarrow> nat \<rightharpoonup> Layout" where
  "live_of st p = (case st p of Some (Live l) \<Rightarrow> Some l | _ \<Rightarrow> None)"

lemma region_len_bounds:
  assumes "layout_ok l"
  shows "lay_size l \<le> region_len l" "8 \<le> region_len l"
proof -
  have "lay_size l \<le> (lay_size l + 16383) div 16384 * 16384" by linarith
  moreover have "16384 \<le> (lay_size l + 16383) div 16384 * 16384"
    using assms by (simp add: layout_ok_def) linarith
  ultimately show "lay_size l \<le> region_len l" "8 \<le> region_len l"
    using class_for_Some(2) [of "lay_size l" "lay_align l"] class_size_ge
    by (auto simp: region_len_def intro: order_trans [of 8 16] split: option.splits)
qed

lemma region_len_large:
  assumes "layout_ok l" "class_for (lay_size l) (lay_align l) = None"
  shows "unat (round_up (of_nat (lay_size l)) (of_nat GRAN)) = region_len l"
proof -
  obtain a where "lay_align l = 2 ^ a" "lay_size l + lay_align l \<le> 2 ^ 63"
    using assms(1) by (auto simp: layout_ok_def)
  moreover have "(0 :: nat) < 2 ^ a" by simp
  ultimately have "lay_size l < 2 ^ 63" by linarith
  then have "unat (of_nat (lay_size l) :: u64) = lay_size l" by (simp add: unat_of_nat_u64)
  then show ?thesis
    using round_up_spec [of "of_nat (lay_size l)"] assms(2) \<open>lay_size l < 2 ^ 63\<close> by (simp add: region_len_def)
qed

lemma free_list_update:
  "free_list mem p ps \<Longrightarrow> \<forall>q\<in>set ps. mem' q = mem q \<Longrightarrow> free_list mem' p ps"
  by (induction ps arbitrary: p) auto

lemma free_list_head: "free_list mem p ps \<Longrightarrow> p \<noteq> 0 \<Longrightarrow> \<exists>qs. ps = p # qs \<and> free_list mem (mem p) qs"
  by (cases ps) auto

lemma free_list_0: "free_list mem 0 ps \<Longrightarrow> ps = []"
  by (cases ps) auto

lemma blocks_okD:
  assumes "blocks_ok M st" "st p = Some b"
  shows "p \<noteq> 0" "block_wf b" "block_align b dvd p" "span p (block_len b) \<subseteq> M" "p + block_len b \<le> 2 ^ 64"
  using assms by (auto simp: blocks_ok_def)

lemma blocks_ok_disjoint:
  "blocks_ok M st \<Longrightarrow> st p = Some b \<Longrightarrow> st q = Some c \<Longrightarrow> p \<noteq> q \<Longrightarrow>
   span p (block_len b) \<inter> span q (block_len c) = {}"
  by (simp add: blocks_ok_def)

text \<open>Handing a block out or taking it back does not move it.\<close>

lemma blocks_ok_retag:
  assumes ok: "blocks_ok M st" and b: "st p = Some b"
    and c: "block_len c = block_len b" "block_align c = block_align b" "block_wf c"
  shows "blocks_ok M (st(p \<mapsto> c))"
  unfolding blocks_ok_def
proof (intro conjI allI impI)
  fix q d assume "(st(p \<mapsto> c)) q = Some d"
  then consider "q = p" "d = c" | "q \<noteq> p" "st q = Some d" by (auto split: if_splits)
  then show "q \<noteq> 0" "block_wf d" "block_align d dvd q" "span q (block_len d) \<subseteq> M" "q + block_len d \<le> 2 ^ 64"
    using blocks_okD [OF ok b] blocks_okD [OF ok, of q d] c by (cases; simp)+
next
  fix q r d e assume "(st(p \<mapsto> c)) q = Some d" "(st(p \<mapsto> c)) r = Some e" "q \<noteq> r"
  then show "span q (block_len d) \<inter> span r (block_len e) = {}"
    using blocks_ok_disjoint [OF ok] b c(1) by (metis fun_upd_apply option.inject)
qed

lemma blocks_ok_remove:
  assumes ok: "blocks_ok M st" and b: "st p = Some b" and M': "M - span p (block_len b) \<subseteq> M'"
  shows "blocks_ok M' (st(p := None))"
  unfolding blocks_ok_def
proof (intro conjI allI impI)
  fix q d assume "(st(p := None)) q = Some d"
  then have q: "q \<noteq> p" "st q = Some d" by (auto split: if_splits)
  show "q \<noteq> 0" "block_wf d" "block_align d dvd q" "q + block_len d \<le> 2 ^ 64"
    using blocks_okD [OF ok q(2)] by simp_all
  show "span q (block_len d) \<subseteq> M'"
    using blocks_okD(4) [OF ok q(2)] blocks_ok_disjoint [OF ok q(2) b q(1)] M' by blast
next
  fix q r d e assume "(st(p := None)) q = Some d" "(st(p := None)) r = Some e" "q \<noteq> r"
  then show "span q (block_len d) \<inter> span r (block_len e) = {}"
    using blocks_ok_disjoint [OF ok] by (auto split: if_splits)
qed

lemma blocks_ok_new:
  assumes ok: "blocks_ok M st" and fresh: "span p n \<inter> M = {}"
    and N: "\<And>q b. N q = Some b \<Longrightarrow> q \<noteq> 0 \<and> block_wf b \<and> block_align b dvd q \<and>
              span q (block_len b) \<subseteq> span p n \<and> q + block_len b \<le> 2 ^ 64"
    and disj: "\<And>q r b c. N q = Some b \<Longrightarrow> N r = Some c \<Longrightarrow> q \<noteq> r \<Longrightarrow>
              span q (block_len b) \<inter> span r (block_len c) = {}"
  shows "blocks_ok (M \<union> span p n) (st ++ N)"
  unfolding blocks_ok_def
proof (intro conjI allI impI)
  fix q d assume "(st ++ N) q = Some d"
  then consider "N q = Some d" | "st q = Some d" by blast
  then show "q \<noteq> 0" "block_wf d" "block_align d dvd q" "span q (block_len d) \<subseteq> M \<union> span p n"
      "q + block_len d \<le> 2 ^ 64"
    using N [of q d] blocks_okD [OF ok, of q d] by (cases; force)+
next
  fix q r d e assume qr: "(st ++ N) q = Some d" "(st ++ N) r = Some e" "q \<noteq> r"
  have mix: "span a (block_len x) \<inter> span b (block_len y) = {}" if "N a = Some x" "st b = Some y" for a b x y
    using N [OF that(1)] blocks_okD(4) [OF ok that(2)] fresh by blast
  consider "N q = Some d" | "st q = Some d" using qr(1) by blast
  then show "span q (block_len d) \<inter> span r (block_len e) = {}"
    using qr disj mix blocks_ok_disjoint [OF ok] by (cases; metis Int_commute map_add_Some_iff)
qed

section \<open>Refilling a free list\<close>

lemma refill_loop_spec:
  assumes "free_list mem nxt ps" "\<And>i. i < n \<Longrightarrow> base + i * block \<noteq> 0 \<and> base + i * block \<notin> set ps" "0 < block"
  shows "\<exists>p' mem'. refill_loop base block n nxt mem = (p', mem') \<and>
           free_list mem' p' (map (\<lambda>i. base + i * block) [0..<n] @ ps) \<and>
           (\<forall>q. q \<notin> (\<lambda>i. base + i * block) ` {..<n} \<longrightarrow> mem' q = mem q)"
  using assms(1,2)
proof (induction n arbitrary: nxt mem ps)
  case (Suc n)
  let ?b = "base + n * block"
  have b: "?b \<noteq> 0" "?b \<notin> set ps" using Suc.prems(2) [of n] by auto
  have "free_list (mem(?b := nxt)) ?b (?b # ps)"
    using b free_list_update [OF Suc.prems(1), of "mem(?b := nxt)"] by auto
  moreover have "base + i * block \<noteq> 0 \<and> base + i * block \<notin> set (?b # ps)" if "i < n" for i
    using that Suc.prems(2) [of i] assms(3) by auto
  ultimately obtain p' mem' where "refill_loop base block n ?b (mem(?b := nxt)) = (p', mem')"
      "free_list mem' p' (map (\<lambda>i. base + i * block) [0..<n] @ ?b # ps)"
      "\<forall>q. q \<notin> (\<lambda>i. base + i * block) ` {..<n} \<longrightarrow> mem' q = (mem(?b := nxt)) q"
    using Suc.IH by blast
  then show ?case by (auto simp: lessThan_Suc)
qed simp

definition heap_core :: "('k \<Rightarrow> nat set) \<Rightarrow> 'k heap \<Rightarrow> (nat \<rightharpoonup> block) \<Rightarrow> bool" where
  "heap_core mapped h st \<longleftrightarrow> blocks_ok (mapped (h_kernel h)) st \<and> lists_ok (h_mem h) (h_free h) st"

lemma heap_inv_core: "heap_inv mapped h st \<longleftrightarrow> \<not> h_lock h \<and> heap_core mapped h st"
  by (simp add: heap_inv_def heap_core_def)

lemma heap_core_lock [simp]: "heap_core mapped (h \<lparr> h_lock := b \<rparr>) st = heap_core mapped h st"
  by (simp add: heap_core_def)

definition arena_blocks :: "nat \<Rightarrow> nat \<Rightarrow> nat \<rightharpoonup> block" where
  "arena_blocks base i = (\<lambda>q. if q \<in> (\<lambda>j. base + j * class_size i) ` {..<ARENA div class_size i} then Some (Free i) else None)"

lemma arena_block_span:
  assumes "i < NUM_CLASSES" "j < ARENA div class_size i"
  shows "span (base + j * class_size i) (class_size i) \<subseteq> span base ARENA"
    "base + j * class_size i + class_size i \<le> base + ARENA"
proof -
  have "Suc j * class_size i \<le> ARENA div class_size i * class_size i"
    using assms(2) by (intro mult_le_mono1) simp
  also have "\<dots> = ARENA" using class_size_dvd_arena [OF assms(1)] by simp
  finally show "span (base + j * class_size i) (class_size i) \<subseteq> span base ARENA"
    "base + j * class_size i + class_size i \<le> base + ARENA" by auto
qed

lemma arena_blocks_ok:
  assumes ok: "blocks_ok M st" and i: "i < NUM_CLASSES"
    and base: "base \<noteq> 0" "4096 dvd base" "base + ARENA \<le> 2 ^ 64" "span base ARENA \<inter> M = {}"
  shows "blocks_ok (M \<union> span base ARENA) (st ++ arena_blocks base i)"
proof (rule blocks_ok_new [OF ok base(4)])
  fix q b assume "arena_blocks base i q = Some b"
  then obtain j where j: "j < ARENA div class_size i" "q = base + j * class_size i" "b = Free i"
    by (auto simp: arena_blocks_def split: if_splits)
  have "class_size i dvd base" using class_size_dvd_page [OF i] base(2) by (rule dvd_trans)
  then show "q \<noteq> 0 \<and> block_wf b \<and> block_align b dvd q \<and> span q (block_len b) \<subseteq> span base ARENA \<and>
      q + block_len b \<le> 2 ^ 64"
    using j i base arena_block_span [OF i j(1), of base] by auto
next
  fix q r b c assume "arena_blocks base i q = Some b" "arena_blocks base i r = Some c" "q \<noteq> r"
  then obtain j k where j: "q = base + j * class_size i" "r = base + k * class_size i" "b = Free i" "c = Free i" "j \<noteq> k"
    by (auto simp: arena_blocks_def split: if_splits)
  have "Suc j * class_size i \<le> k * class_size i \<or> Suc k * class_size i \<le> j * class_size i"
    using j(5) by (cases "j < k") (auto intro!: mult_le_mono1 simp del: mult_Suc)
  then show "span q (block_len b) \<inter> span r (block_len c) = {}" using j by auto
qed

lemma refill_spec:
  assumes P: "mmap_contract P mapped" and core: "heap_core mapped h st" and i: "i < NUM_CLASSES"
    and empty: "h_free h ! i = 0"
  shows "\<exists>h' ok st'. refill P h i = Some (h', ok) \<and> heap_core mapped h' st' \<and> live_of st' = live_of st \<and>
           h_lock h' = h_lock h \<and> (ok \<longrightarrow> h_free h' ! i \<noteq> 0)"
proof -
  let ?n = "ARENA div class_size i"
  obtain k' base where m: "map_region P (h_kernel h) (of_nat ARENA) = (k', base)" by fastforce
  have ua: "unat (of_nat ARENA :: u64) = ARENA" by (simp add: unat_of_nat_u64 alloc_consts)
  note blocks = core [unfolded heap_core_def, THEN conjunct1]
  note lists = core [unfolded heap_core_def, THEN conjunct2]
  show ?thesis
  proof (cases "base = 0")
    case True
    then have "mapped k' = mapped (h_kernel h)" using map_region_spec [OF P m] by simp
    then show ?thesis
      using True m core by (auto simp: refill_def heap_core_def)
  next
    case False
    then have b: "4096 dvd base" "base + ARENA \<le> 2 ^ 64" "span base ARENA \<inter> mapped (h_kernel h) = {}"
        "mapped k' = mapped (h_kernel h) \<union> span base ARENA"
      using map_region_spec [OF P m] unfolding ua by auto
    let ?B = "(\<lambda>j. base + j * class_size i) ` {..<?n}" and ?st = "st ++ arena_blocks base i"
    have old: "st q = None" if qB: "q \<in> ?B" for q
    proof (rule ccontr)
      assume "st q \<noteq> None"
      then obtain c where c: "st q = Some c" by blast
      have "0 < block_len c" using blocks_okD(2) [OF blocks c] region_len_bounds(2) by (cases c) force+
      then have "q \<in> mapped (h_kernel h)" using blocks_okD(4) [OF blocks c] by auto
      moreover have "q \<in> span base ARENA"
      proof -
        obtain j where j: "j < ?n" "q = base + j * class_size i" using qB by blast
        then show ?thesis using arena_block_span(2) [OF i j(1), of base] class_size_ge [of i] by simp
      qed
      ultimately show False using b(3) by blast
    qed
    have len: "length (h_free h) = NUM_CLASSES" using lists by (simp add: lists_ok_def)
    have "free_list (h_mem h) (h_free h ! i) []" using empty by simp
    then obtain p' mem' where r: "refill_loop base (class_size i) ?n (h_free h ! i) (h_mem h) = (p', mem')"
        "free_list mem' p' (map (\<lambda>j. base + j * class_size i) [0..<?n] @ [])"
        "\<forall>q. q \<notin> ?B \<longrightarrow> mem' q = h_mem h q"
      using refill_loop_spec [of "h_mem h" "h_free h ! i" "[]" ?n base "class_size i"] False by auto
    let ?h = "h \<lparr> h_kernel := k', h_free := (h_free h)[i := p'], h_mem := mem' \<rparr>"
    have "refill P h i = Some (?h, True)"
      using m False r(1) len i by (simp add: refill_def index_at_Some)
    moreover have "live_of ?st = live_of st"
      using old by (auto simp: live_of_def arena_blocks_def map_add_def fun_eq_iff)
    moreover have "lists_ok mem' ((h_free h)[i := p']) ?st"
      unfolding lists_ok_def
    proof (intro conjI allI impI)
      fix j assume j: "j < NUM_CLASSES"
      obtain ps where ps: "free_list (h_mem h) (h_free h ! j) ps" "distinct ps" "set ps = {p. st p = Some (Free j)}"
        using lists j by (auto simp: lists_ok_def)
      show "\<exists>ps. free_list mem' ((h_free h)[i := p'] ! j) ps \<and> distinct ps \<and> set ps = {p. ?st p = Some (Free j)}"
      proof (cases "j = i")
        case True
        have none: "{p. st p = Some (Free i)} = {}" using ps free_list_0 empty True by force
        have "set (map (\<lambda>j. base + j * class_size i) [0..<?n]) = {p. ?st p = Some (Free i)}"
          using none by (auto simp: map_add_def arena_blocks_def)
        moreover have "distinct (map (\<lambda>j. base + j * class_size i) [0..<?n])"
          by (auto simp: distinct_map inj_on_def)
        ultimately show ?thesis using r(2) True len i
          by (intro exI [of _ "map (\<lambda>j. base + j * class_size i) [0..<?n]"]) simp
      next
        case other: False
        have "\<forall>q\<in>set ps. mem' q = h_mem h q" using r(3) old ps(3) by fastforce
        moreover have "?st p = Some (Free j) \<longleftrightarrow> st p = Some (Free j)" for p
          using old [of p] other by (auto simp: map_add_def arena_blocks_def)
        ultimately show ?thesis using free_list_update [OF ps(1)] ps other by auto
      qed
    qed (use len in simp)
    moreover have "p' \<noteq> 0"
    proof -
      have "0 < ?n"
        using dvd_imp_le [OF class_size_dvd_arena [OF i]] by (simp add: div_greater_zero_iff alloc_consts)
      then show ?thesis using r(2) by (cases "map (\<lambda>j. base + j * class_size i) [0..<?n]") auto
    qed
    ultimately show ?thesis
      using arena_blocks_ok [OF blocks i False b(1,2,3)] b(4) len i by (auto simp: heap_core_def)
  qed
qed

section \<open>Allocation and release\<close>

lemma pop_spec:
  assumes core: "heap_core mapped h st" and i: "i < NUM_CLASSES" and ne: "h_free h ! i \<noteq> 0"
    and l: "layout_ok l" "class_for (lay_size l) (lay_align l) = Some i"
  defines "p \<equiv> h_free h ! i"
  shows "heap_core mapped (h \<lparr> h_free := (h_free h)[i := h_mem h p] \<rparr>) (st(p \<mapsto> Live l))"
    and "st p = Some (Free i)"
proof -
  note blocks = core [unfolded heap_core_def, THEN conjunct1]
  note lists = core [unfolded heap_core_def, THEN conjunct2]
  have len: "length (h_free h) = NUM_CLASSES" using lists by (simp add: lists_ok_def)
  obtain ps where "free_list (h_mem h) (h_free h ! i) ps" "distinct ps" "set ps = {p. st p = Some (Free i)}"
    using lists i by (auto simp: lists_ok_def)
  then obtain qs where ps: "free_list (h_mem h) (h_mem h p) qs" "distinct (p # qs)"
      "set (p # qs) = {p. st p = Some (Free i)}"
    using free_list_head ne unfolding p_def by metis
  then show stp: "st p = Some (Free i)" by auto
  have "lay_align l \<le> GRAN" using l(2) class_for_None [of "lay_size l" "lay_align l"] by (auto simp: GRAN_def)
  then have "blocks_ok (mapped (h_kernel h)) (st(p \<mapsto> Live l))"
    using l by (intro blocks_ok_retag [OF blocks stp]) (simp_all add: region_len_def)
  moreover have "lists_ok (h_mem h) ((h_free h)[i := h_mem h p]) (st(p \<mapsto> Live l))"
    unfolding lists_ok_def
  proof (intro conjI allI impI)
    fix j assume j: "j < NUM_CLASSES"
    show "\<exists>ps. free_list (h_mem h) ((h_free h)[i := h_mem h p] ! j) ps \<and> distinct ps \<and>
        set ps = {q. (st(p \<mapsto> Live l)) q = Some (Free j)}"
    proof (cases "j = i")
      case True
      have "set qs = {q. (st(p \<mapsto> Live l)) q = Some (Free i)}" using ps(2,3) by auto
      then show ?thesis using ps(1,2) True len i by auto
    next
      case False
      then have "{q. (st(p \<mapsto> Live l)) q = Some (Free j)} = {q. st q = Some (Free j)}" using stp by auto
      then show ?thesis using False lists j by (auto simp: lists_ok_def)
    qed
  qed (use len in simp)
  ultimately show "heap_core mapped (h \<lparr> h_free := (h_free h)[i := h_mem h p] \<rparr>) (st(p \<mapsto> Live l))"
    by (simp add: heap_core_def)
qed

lemma live_of_upd: "live_of (st(p \<mapsto> Live l)) = (live_of st)(p \<mapsto> l)" "live_of (st(p \<mapsto> Free i)) = (live_of st)(p := None)"
  "live_of (st(p := None)) = (live_of st)(p := None)"
  by (auto simp: live_of_def)

lemma alloc_small_spec:
  assumes P: "mmap_contract P mapped" and inv: "heap_inv mapped h st"
    and l: "layout_ok l" "class_for (lay_size l) (lay_align l) = Some i"
  shows "\<exists>h' p st'. alloc_small P h i = Some (h', p) \<and> heap_inv mapped h' st' \<and>
           (if p = 0 then live_of st' = live_of st
            else live_of st p = None \<and> st' p = Some (Live l) \<and> live_of st' = (live_of st)(p \<mapsto> l))"
proof -
  let ?h = "h \<lparr> h_lock := True \<rparr>"
  have i: "i < NUM_CLASSES" using class_for_Some(1) [OF l(2)] .
  have core: "heap_core mapped ?h st" and lock: "spin_lock h = Some ?h"
    using inv by (simp_all add: heap_inv_core spin_lock_def)
  have len: "length (h_free h) = NUM_CLASSES" using inv by (simp add: heap_inv_def lists_ok_def)
  have head: "index_at (h_free ?h) i = Some (h_free ?h ! i)" using i len by (simp add: index_at_Some)
  obtain h1 ok st1 where r: "(if h_free ?h ! i = 0 then refill P ?h i else Some (?h, True)) = Some (h1, ok)"
      "heap_core mapped h1 st1" "live_of st1 = live_of st" "ok \<longrightarrow> h_free h1 ! i \<noteq> 0"
    using refill_spec [OF P core i] core by (cases "h_free ?h ! i = 0") auto
  show ?thesis
  proof (cases ok)
    case False
    then have "alloc_small P h i = Some (spin_unlock h1, 0)"
      using lock head r(1) by (simp add: alloc_small_def)
    then show ?thesis using r(2,3) by (auto simp: heap_inv_core spin_unlock_def)
  next
    case True
    let ?p = "h_free h1 ! i"
    have ne: "?p \<noteq> 0" using r(4) True by simp
    have len1: "length (h_free h1) = NUM_CLASSES" using r(2) by (simp add: heap_core_def lists_ok_def)
    note pop = pop_spec [OF r(2) i ne l]
    have "alloc_small P h i = Some (spin_unlock (h1 \<lparr> h_free := (h_free h1)[i := h_mem h1 ?p] \<rparr>), ?p)"
      using lock head r(1) True i len1 by (simp add: alloc_small_def index_at_Some)
    moreover have "live_of st ?p = None" using pop(2) r(3) by (metis block.simps(5) live_of_def option.simps(5))
    ultimately show ?thesis
      using pop(1) ne r(3)
      by (intro exI [of _ "st1(?p \<mapsto> Live l)"] exI conjI) (auto simp: heap_inv_core spin_unlock_def live_of_upd)
  qed
qed

lemma alloc_large_spec:
  assumes P: "mmap_contract P mapped" and inv: "heap_inv mapped h st"
    and l: "layout_ok l" "class_for (lay_size l) (lay_align l) = None" "lay_align l \<le> GRAN"
    and m: "map_region P (h_kernel h) (round_up (of_nat (lay_size l)) (of_nat GRAN)) = (k', p)"
  shows "\<exists>st'. heap_inv mapped (h \<lparr> h_kernel := k' \<rparr>) st' \<and>
           (if p = 0 then live_of st' = live_of st
            else live_of st p = None \<and> st' p = Some (Live l) \<and> live_of st' = (live_of st)(p \<mapsto> l))"
proof (cases "p = 0")
  case True
  then have "mapped k' = mapped (h_kernel h)" using map_region_spec [OF P m] by simp
  then show ?thesis using inv True by (auto simp: heap_inv_def)
next
  case False
  let ?N = "[p \<mapsto> Live l]"
  have len: "unat (round_up (of_nat (lay_size l)) (of_nat GRAN)) = region_len l"
    by (rule region_len_large [OF l(1,2)])
  have b: "4096 dvd p" "p + region_len l \<le> 2 ^ 64" "span p (region_len l) \<inter> mapped (h_kernel h) = {}"
      "mapped k' = mapped (h_kernel h) \<union> span p (region_len l)"
    using False map_region_spec [OF P m] unfolding len by auto
  have blocks: "blocks_ok (mapped (h_kernel h)) st" using inv by (simp add: heap_inv_def)
  have none: "st p = None"
  proof (rule ccontr)
    assume "st p \<noteq> None"
    then obtain c where c: "st p = Some c" by blast
    have "0 < block_len c" using blocks_okD(2) [OF blocks c] region_len_bounds(2) by (cases c) force+
    moreover have "0 < region_len l" using region_len_bounds(2) [OF l(1)] by simp
    ultimately have "p \<in> span p (block_len c)" "p \<in> span p (region_len l)" by simp_all
    then show False using blocks_okD(4) [OF blocks c] b(3) by blast
  qed
  have "blocks_ok (mapped (h_kernel h) \<union> span p (region_len l)) (st ++ ?N)"
    using l False b(1,2) by (intro blocks_ok_new [OF blocks b(3)]) (auto split: if_splits)
  moreover have "lists_ok (h_mem h) (h_free h) (st(p \<mapsto> Live l))"
  proof -
    have "(st(p \<mapsto> Live l)) q = Some (Free j) \<longleftrightarrow> st q = Some (Free j)" for q j using none by simp
    then show ?thesis using inv unfolding heap_inv_def lists_ok_def by presburger
  qed
  ultimately have "heap_inv mapped (h \<lparr> h_kernel := k' \<rparr>) (st(p \<mapsto> Live l))"
    using inv b(4) by (simp add: heap_inv_def)
  then show ?thesis using False none by (auto simp: live_of_upd live_of_def)
qed

lemma heap_alloc_spec:
  assumes P: "mmap_contract P mapped" and inv: "heap_inv mapped h st" and l: "layout_ok l"
  shows "\<exists>h' p st'. heap_alloc P h l = Some (h', p) \<and> heap_inv mapped h' st' \<and>
           (if p = 0 then live_of st' = live_of st
            else live_of st p = None \<and> st' p = Some (Live l) \<and> live_of st' = (live_of st)(p \<mapsto> l))"
proof (cases "class_for (lay_size l) (lay_align l)")
  case (Some i)
  then show ?thesis using alloc_small_spec [OF P inv l Some] by (simp add: heap_alloc_def)
next
  case None
  obtain k' p where m: "map_region P (h_kernel h) (round_up (of_nat (lay_size l)) (of_nat GRAN)) = (k', p)"
    by fastforce
  show ?thesis
  proof (cases "lay_align l > GRAN")
    case True
    then show ?thesis using None inv by (auto simp: heap_alloc_def)
  next
    case False
    then show ?thesis using alloc_large_spec [OF P inv l None _ m] None m by (auto simp: heap_alloc_def)
  qed
qed

lemma push_spec:
  assumes core: "heap_core mapped h st" and st: "st p = Some (Live l)"
    and l: "class_for (lay_size l) (lay_align l) = Some i"
  shows "heap_core mapped (h \<lparr> h_mem := (h_mem h)(p := h_free h ! i), h_free := (h_free h)[i := p] \<rparr>) (st(p \<mapsto> Free i))"
proof -
  note blocks = core [unfolded heap_core_def, THEN conjunct1]
  note lists = core [unfolded heap_core_def, THEN conjunct2]
  have i: "i < NUM_CLASSES" using class_for_Some(1) [OF l] .
  have len: "length (h_free h) = NUM_CLASSES" using lists by (simp add: lists_ok_def)
  have "blocks_ok (mapped (h_kernel h)) (st(p \<mapsto> Free i))"
    using l i by (intro blocks_ok_retag [OF blocks st]) (simp_all add: region_len_def)
  moreover have "lists_ok ((h_mem h)(p := h_free h ! i)) ((h_free h)[i := p]) (st(p \<mapsto> Free i))"
    unfolding lists_ok_def
  proof (intro conjI allI impI)
    fix j assume j: "j < NUM_CLASSES"
    obtain ps where ps: "free_list (h_mem h) (h_free h ! j) ps" "distinct ps" "set ps = {p. st p = Some (Free j)}"
      using lists j by (auto simp: lists_ok_def)
    have notin: "p \<notin> set ps" using ps(3) st by simp
    have keep: "free_list ((h_mem h)(p := h_free h ! i)) (h_free h ! j) ps"
      using free_list_update [OF ps(1)] notin by auto
    show "\<exists>ps. free_list ((h_mem h)(p := h_free h ! i)) ((h_free h)[i := p] ! j) ps \<and> distinct ps \<and>
        set ps = {q. (st(p \<mapsto> Free i)) q = Some (Free j)}"
    proof (cases "j = i")
      case True
      have "set (p # ps) = {q. (st(p \<mapsto> Free i)) q = Some (Free i)}" using ps(3) True by auto
      moreover have "p \<noteq> 0" by (rule blocks_okD(1) [OF blocks st])
      ultimately show ?thesis
        using keep ps(2) notin True len i by (intro exI [of _ "p # ps"]) simp
    next
      case False
      then have "{q. (st(p \<mapsto> Free i)) q = Some (Free j)} = {q. st q = Some (Free j)}" using st by auto
      then show ?thesis using False keep ps(2,3) by auto
    qed
  qed (use len in simp)
  ultimately show ?thesis by (simp add: heap_core_def)
qed

lemma heap_dealloc_spec:
  assumes P: "mmap_contract P mapped" and inv: "heap_inv mapped h st" and live: "live_of st p = Some l"
  shows "\<exists>h' st'. heap_dealloc P h p l = Some h' \<and> heap_inv mapped h' st' \<and> live_of st' = (live_of st)(p := None)"
proof -
  have st: "st p = Some (Live l)" using live by (auto simp: live_of_def split: option.splits block.splits)
  have blocks: "blocks_ok (mapped (h_kernel h)) st" and core: "heap_core mapped h st" and lock: "\<not> h_lock h"
    using inv by (simp_all add: heap_inv_def heap_core_def)
  note b = blocks_okD [OF blocks st]
  show ?thesis
  proof (cases "class_for (lay_size l) (lay_align l)")
    case (Some i)
    have "i < length (h_free h)" using class_for_Some(1) [OF Some] core by (simp add: heap_core_def lists_ok_def)
    then have "heap_dealloc P h p l =
        Some (h \<lparr> h_lock := False, h_mem := (h_mem h)(p := h_free h ! i), h_free := (h_free h)[i := p] \<rparr>)"
      using Some b(1) lock by (simp add: heap_dealloc_def free_small_def spin_lock_def spin_unlock_def index_at_Some)
    then show ?thesis
      using push_spec [OF core st Some]
      by (intro exI [of _ "st(p \<mapsto> Free i)"] exI conjI) (auto simp: heap_inv_core heap_core_def live_of_upd)
  next
    case None
    let ?len = "round_up (of_nat (lay_size l)) (of_nat GRAN)"
    have len: "unat ?len = region_len l" using b(2) region_len_large [OF _ None] by simp
    have "0 < region_len l" using region_len_bounds(2) [of l] b(2) by simp
    then have ptr: "unat (of_nat p :: u64) = p" using b(5) by (simp add: unat_of_nat_u64)
    obtain k' r where m: "sys_munmap P (h_kernel h) (of_nat p) ?len = (k', r)" by fastforce
    have "mapped (h_kernel h) - span (unat (of_nat p :: u64)) (unat ?len) \<subseteq> mapped k'"
      using P m unfolding mmap_contract_def by blast
    then have M: "mapped (h_kernel h) - span p (region_len l) \<subseteq> mapped k'" by (simp only: ptr len)
    have "blocks_ok (mapped k') (st(p := None))"
      by (rule blocks_ok_remove [OF blocks st]) (use M in simp)
    moreover have "lists_ok (h_mem h) (h_free h) (st(p := None))"
    proof -
      have "(st(p := None)) q = Some (Free j) \<longleftrightarrow> st q = Some (Free j)" for q j using st by simp
      then show ?thesis using inv unfolding heap_inv_def lists_ok_def by presburger
    qed
    ultimately show ?thesis
      using m b(1) None lock
      by (intro exI [of _ "st(p := None)"] exI conjI) (auto simp: heap_dealloc_def heap_inv_def live_of_upd)
  qed
qed

text \<open>
  A client that only writes the bytes it was given cannot damage the lists: words that
  overlap no live allocation keep their value.
\<close>

definition client_write :: "(nat \<rightharpoonup> Layout) \<Rightarrow> (nat \<Rightarrow> nat) \<Rightarrow> (nat \<Rightarrow> nat) \<Rightarrow> bool" where
  "client_write L mem mem' \<longleftrightarrow>
     (\<forall>a. (\<forall>p l. L p = Some l \<longrightarrow> span a 8 \<inter> span p (lay_size l) = {}) \<longrightarrow> mem' a = mem a)"

lemma client_write_spec:
  assumes inv: "heap_inv mapped h st" and w: "client_write (live_of st) (h_mem h) mem'"
  shows "heap_inv mapped (h \<lparr> h_mem := mem' \<rparr>) st"
proof -
  have blocks: "blocks_ok (mapped (h_kernel h)) st" using inv by (simp add: heap_inv_def)
  have keep: "mem' q = h_mem h q" if q: "st q = Some (Free i)" for q i
  proof -
    have "span q 8 \<inter> span p (lay_size l) = {}" if "live_of st p = Some l" for p l
    proof -
      have p: "st p = Some (Live l)" using that by (auto simp: live_of_def split: option.splits block.splits)
      have "lay_size l \<le> region_len l" using blocks_okD(2) [OF blocks p] region_len_bounds(1) by simp
      moreover have "q \<noteq> p" using p q by auto
      then have "span q (class_size i) \<inter> span p (region_len l) = {}"
        using blocks_ok_disjoint [OF blocks q p] by simp
      ultimately show ?thesis using class_size_ge [of i] by fastforce
    qed
    then show ?thesis using w unfolding client_write_def by blast
  qed
  have "lists_ok mem' (h_free h) st"
    using inv free_list_update [of "h_mem h" _ _ mem'] keep
    unfolding heap_inv_def lists_ok_def by (metis (mono_tags, lifting) mem_Collect_eq)
  then show ?thesis using inv by (simp add: heap_inv_def)
qed

section \<open>Runs of the allocator\<close>

text \<open>
  The states of the heap, with the allocations its clients hold, that calls of \<open>alloc\<close>
  and \<open>dealloc\<close> and writes to held memory lead to. A client releases what it holds with
  the layout it was allocated with.
\<close>

inductive heap_reach :: "'k platform \<Rightarrow> 'k heap \<Rightarrow> (nat \<rightharpoonup> Layout) \<Rightarrow> bool" for P where
  reach_new: "heap_reach P (allocator_new m k) Map.empty"
| reach_alloc: "heap_reach P h L \<Longrightarrow> layout_ok l \<Longrightarrow> heap_alloc P h l = Some (h', p) \<Longrightarrow>
    heap_reach P h' (if p = 0 then L else L(p \<mapsto> l))"
| reach_dealloc: "heap_reach P h L \<Longrightarrow> L p = Some l \<Longrightarrow> heap_dealloc P h p l = Some h' \<Longrightarrow>
    heap_reach P h' (L(p := None))"
| reach_write: "heap_reach P h L \<Longrightarrow> client_write L (h_mem h) mem' \<Longrightarrow>
    heap_reach P (h \<lparr> h_mem := mem' \<rparr>) L"

lemma heap_reach_inv:
  assumes P: "mmap_contract P mapped" and "heap_reach P h L"
  shows "\<exists>st. heap_inv mapped h st \<and> live_of st = L"
  using assms(2)
proof induction
  case (reach_new m k)
  have "heap_inv mapped (allocator_new m k) Map.empty"
    by (auto simp: heap_inv_def allocator_new_def blocks_ok_def lists_ok_def intro: exI [of _ "[]"])
  then show ?case by (auto simp: live_of_def)
next
  case (reach_alloc h L l h' p)
  then obtain st where st: "heap_inv mapped h st" "live_of st = L" by blast
  then show ?case using heap_alloc_spec [OF P st(1) reach_alloc.hyps(2)] reach_alloc.hyps(3)
    by (auto split: if_splits)
next
  case (reach_dealloc h L p l h')
  then obtain st where st: "heap_inv mapped h st" "live_of st = L" by blast
  then show ?case using heap_dealloc_spec [OF P st(1), of p l] reach_dealloc.hyps(2,3) by auto
next
  case (reach_write h L mem')
  then show ?case using client_write_spec by blast
qed

lemma live_disjoint:
  assumes "heap_inv mapped h st" "live_of st p = Some l" "live_of st q = Some m" "p \<noteq> q"
  shows "span p (lay_size l) \<inter> span q (lay_size m) = {}"
proof -
  have blocks: "blocks_ok (mapped (h_kernel h)) st" using assms(1) by (simp add: heap_inv_def)
  have s: "st p = Some (Live l)" "st q = Some (Live m)"
    using assms(2,3) by (auto simp: live_of_def split: option.splits block.splits)
  have "lay_size l \<le> region_len l" "lay_size m \<le> region_len m"
    using blocks_okD(2) [OF blocks s(1)] blocks_okD(2) [OF blocks s(2)] region_len_bounds(1) by simp_all
  moreover have "span p (region_len l) \<inter> span q (region_len m) = {}"
    using blocks_ok_disjoint [OF blocks s assms(4)] by simp
  ultimately show ?thesis by fastforce
qed

lemma live_aligned:
  assumes "heap_inv mapped h st" "st p = Some (Live l)" "lay_align l \<le> 4096"
  shows "lay_align l dvd p"
proof -
  have blocks: "blocks_ok (mapped (h_kernel h)) st" using assms(1) by (simp add: heap_inv_def)
  obtain a where a: "lay_align l = 2 ^ a"
    using blocks_okD(2) [OF blocks assms(2)] by (auto simp: layout_ok_def)
  have d: "block_align (Live l) dvd p" by (rule blocks_okD(3) [OF blocks assms(2)])
  show ?thesis
  proof (cases "class_for (lay_size l) (lay_align l)")
    case None
    have "(2 :: nat) ^ a dvd 2 ^ 12" using assms(3) a by (intro pow2_le_dvd) simp
    then show ?thesis using d None a by (auto intro: dvd_trans)
  next
    case (Some i)
    then have "2 ^ a dvd class_size i" using align_dvd_class_size a by simp
    then show ?thesis using d Some a by (auto intro: dvd_trans)
  qed
qed

text \<open>C2: In every reachable state \<open>alloc\<close> returns, and what it returns is null or the start
  of a block that no client holds: it is aligned as asked (for alignments up to a page),
  lies in mapped memory and overlaps no allocation still held.
\<close>

theorem alloc_safe:
  assumes "mmap_contract P mapped" "heap_reach P h L" "layout_ok l"
  shows "\<exists>h' p. heap_alloc P h l = Some (h', p) \<and>
           (p = 0 \<or> L p = None \<and> (4096 < lay_align l \<or> lay_align l dvd p) \<and>
              span p (lay_size l) \<subseteq> mapped (h_kernel h') \<and>
              (\<forall>q m. L q = Some m \<longrightarrow> span p (lay_size l) \<inter> span q (lay_size m) = {}))"
proof -
  obtain st where st: "heap_inv mapped h st" "live_of st = L" using heap_reach_inv [OF assms(1,2)] by blast
  obtain h' p st' where a: "heap_alloc P h l = Some (h', p)" "heap_inv mapped h' st'"
      "if p = 0 then live_of st' = L
       else L p = None \<and> st' p = Some (Live l) \<and> live_of st' = L(p \<mapsto> l)"
    using heap_alloc_spec [OF assms(1) st(1) assms(3)] st(2) by blast
  show ?thesis
  proof (cases "p = 0")
    case False
    then have p: "L p = None" "st' p = Some (Live l)" "live_of st' = L(p \<mapsto> l)" using a(3) by simp_all
    have "span p (region_len l) \<subseteq> mapped (h_kernel h')"
      using a(2) p(2) blocks_okD(4) [of "mapped (h_kernel h')" st' p "Live l"] by (simp add: heap_inv_def)
    then have "span p (lay_size l) \<subseteq> mapped (h_kernel h')"
      using region_len_bounds(1) [OF assms(3)] by fastforce
    moreover have "span p (lay_size l) \<inter> span q (lay_size m) = {}" if "L q = Some m" for q m
      using live_disjoint [OF a(2), of p l q m] that p(1,3) by (cases "q = p") auto
    ultimately show ?thesis using a(1) p(1) live_aligned [OF a(2) p(2)] by (metis not_le)
  qed (use a(1) in auto)
qed

text \<open>In every reachable state releasing a held block returns, and a small block is
  reused first: the next allocation of the same layout gives the same address.
\<close>

theorem dealloc_reuse:
  assumes "mmap_contract P mapped" "heap_reach P h L" "L p = Some l"
  shows "\<exists>h'. heap_dealloc P h p l = Some h' \<and> heap_reach P h' (L(p := None)) \<and>
           (lay_size l \<le> 4096 \<longrightarrow> lay_align l \<le> 4096 \<longrightarrow> (\<exists>h''. heap_alloc P h' l = Some (h'', p)))"
proof -
  obtain st where st: "heap_inv mapped h st" "live_of st = L" using heap_reach_inv [OF assms(1,2)] by blast
  obtain h' where d: "heap_dealloc P h p l = Some h'"
    using heap_dealloc_spec [OF assms(1) st(1), of p l] st(2) assms(3) by blast
  have "st p = Some (Live l)" using st(2) assms(3) by (auto simp: live_of_def split: option.splits block.splits)
  then have p: "p \<noteq> 0" using st(1) blocks_okD(1) by (auto simp: heap_inv_def)
  have len: "length (h_free h) = NUM_CLASSES" using st(1) by (simp add: heap_inv_def lists_ok_def)
  have "\<exists>h''. heap_alloc P h' l = Some (h'', p)" if small: "lay_size l \<le> 4096" "lay_align l \<le> 4096"
  proof -
    obtain i where i: "class_for (lay_size l) (lay_align l) = Some i"
      using small class_for_None [of "lay_size l" "lay_align l"] by fastforce
    then show ?thesis
      using d p len class_for_Some(1) [OF i] st(1)
      by (auto simp: heap_dealloc_def heap_alloc_def free_small_def alloc_small_def spin_lock_def
          spin_unlock_def index_at_Some heap_inv_def)
  qed
  then show ?thesis using d reach_dealloc [OF assms(2,3) d] by auto
qed

section \<open>A concrete kernel\<close>

text \<open>
  Mappings at increasing page numbers, remembered in a list; \<open>munmap\<close> keeps the pages.
\<close>

definition bump_kernel :: "(nat \<times> (nat \<times> nat) list) platform" where
  "bump_kernel =
     \<lparr> p_target = Linux_x86_64,
       p_syscall = (\<lambda>(page, rs) n args.
         case args of
           [W _, W len, W _, W _, W _, W _] \<Rightarrow>
             if Suc page \<le> 2 ^ 28 \<and> len \<le> 2 ^ 40 \<and> list_all (\<lambda>(a, m). a + m \<le> 4096 * Suc page) rs
             then ((page + unat len div 4096 + 1, (4096 * Suc page, unat len) # rs), of_nat (4096 * Suc page), [])
             else ((page, rs), - of_nat 12, [])
         | _ \<Rightarrow> ((page, rs), 0, [])),
       p_svc2 = (\<lambda>k n. (k, 0, 0, True)) \<rparr>"

definition bump_mapped :: "nat \<times> (nat \<times> nat) list \<Rightarrow> nat set" where
  "bump_mapped k = (\<Union>(a, m)\<in>set (snd k). span a m)"

lemma from_ret_small: "n < 2 ^ 63 \<Longrightarrow> from_ret (of_nat n) = Inr (of_nat n)"
  by (simp add: from_ret_def signed_of_nat signed_take_bit_int_eq_self)

lemma bump_kernel_contract: "mmap_contract bump_kernel bump_mapped"
proof -
  have mmap: "case r of
      Inl _ \<Rightarrow> bump_mapped k' = bump_mapped k
    | Inr p \<Rightarrow> p \<noteq> 0 \<and> 4096 dvd unat p \<and> unat p + unat len \<le> 2 ^ 64 \<and>
        span (unat p) (unat len) \<inter> bump_mapped k = {} \<and> bump_mapped k' = bump_mapped k \<union> span (unat p) (unat len)"
    if call: "mmap_anon bump_kernel k len prot = (k', r)" for k len prot k' r
  proof -
    obtain page rs where k: "k = (page, rs)" by fastforce
    let ?ok = "Suc page \<le> 2 ^ 28 \<and> len \<le> 2 ^ 40 \<and> list_all (\<lambda>(a, m). a + m \<le> 4096 * Suc page) rs"
    show ?thesis
    proof (cases ?ok)
      case True
      have small: "4096 * Suc page < 2 ^ 63" using True by simp
      then have u: "unat (of_nat (4096 * Suc page) :: u64) = 4096 * Suc page" by (intro unat_of_nat_u64) simp
      have "(k', r) = ((page + unat len div 4096 + 1, (4096 * Suc page, unat len) # rs), Inr (of_nat (4096 * Suc page)))"
        using call True from_ret_small [OF small] by (simp add: mmap_anon_def bump_kernel_def k)
      moreover have "unat len \<le> 2 ^ 40" using True by (simp add: word_le_nat_alt)
      moreover have "span (4096 * Suc page) (unat len) \<inter> bump_mapped (page, rs) = {}"
        using True by (fastforce simp: bump_mapped_def list_all_iff)
      ultimately show ?thesis using u True unfolding k
        by (auto simp del: of_nat_mult of_nat_Suc simp add: bump_mapped_def unat_eq_zero [symmetric])
    next
      case False
      then have "k' = k \<and> (\<exists>e. r = Inl e)"
        using call from_ret_err [of 12, symmetric] by (auto simp: mmap_anon_def bump_kernel_def k)
      then show ?thesis by auto
    qed
  qed
  have munmap: "k' = k" if "sys_munmap bump_kernel k p len = (k', r)" for k p len k' r
    using that by (cases k) (simp add: sys_munmap_def bump_kernel_def)
  show ?thesis unfolding mmap_contract_def using mmap munmap by blast
qed

lemma refill_loop_head: "fst (refill_loop base block n nxt mem) = (if n = 0 then nxt else base)"
  by (induction n arbitrary: nxt mem) (auto simp: Let_def)

lemma bump_map_region:
  "len \<le> 2 ^ 40 \<Longrightarrow> \<exists>k'. map_region bump_kernel (0, []) len = (k', 4096)"
  using from_ret_small [of 4096] by (simp add: map_region_def mmap_anon_def bump_kernel_def)

theorem alloc_safe_witness:
  "\<exists>h' p. heap_alloc bump_kernel (allocator_new (\<lambda>_. 0) (0, [])) \<lparr> lay_size = 64, lay_align = 16 \<rparr> = Some (h', p) \<and>
     (p = 0 \<or> (4096 < (16 :: nat) \<or> 16 dvd p) \<and> span p 64 \<subseteq> bump_mapped (h_kernel h'))"
proof -
  have "layout_ok \<lparr> lay_size = 64, lay_align = 16 \<rparr>"
    by (auto simp: layout_ok_def intro: exI [of _ 4])
  from alloc_safe [OF bump_kernel_contract reach_new [of _ "\<lambda>_. 0" "(0, [])"] this] show ?thesis by fastforce
qed

lemma bump_alloc_small:
  "\<exists>h'. heap_alloc bump_kernel (allocator_new m (0, [])) \<lparr> lay_size = 64, lay_align = 16 \<rparr> = Some (h', 4096)"
proof -
  have c: "class_for 64 16 = Some 2" by (simp add: class_for_def class_shift.simps alloc_consts)
  obtain k' where m: "map_region bump_kernel (0, []) (of_nat ARENA) = (k', 4096)"
    using bump_map_region [of "of_nat ARENA"] by (auto simp: alloc_consts)
  obtain nxt mem' where r: "refill_loop 4096 (class_size 2) (ARENA div class_size 2) 0 m = (nxt, mem')" by fastforce
  then have "nxt = 4096"
    using refill_loop_head [of 4096 "class_size 2" "ARENA div class_size 2" 0 m]
    by (simp add: alloc_consts class_size_def)
  then show ?thesis
    using c m r
    by (simp add: heap_alloc_def alloc_small_def refill_def allocator_new_def spin_lock_def index_at_Some
        NUM_CLASSES_def MIN_SHIFT_def)
qed

theorem dealloc_reuse_witness:
  "\<exists>h h' h''. heap_dealloc bump_kernel h 4096 \<lparr> lay_size = 64, lay_align = 16 \<rparr> = Some h' \<and>
     heap_reach bump_kernel h' Map.empty \<and>
     heap_alloc bump_kernel h' \<lparr> lay_size = 64, lay_align = 16 \<rparr> = Some (h'', 4096)"
proof -
  let ?l = "\<lparr> lay_size = 64, lay_align = 16 \<rparr>"
  obtain h where h: "heap_alloc bump_kernel (allocator_new (\<lambda>_. 0) (0, [])) ?l = Some (h, 4096)"
    using bump_alloc_small by blast
  have "layout_ok ?l" by (auto simp: layout_ok_def intro: exI [of _ 4])
  from reach_alloc [OF reach_new this h] have r: "heap_reach bump_kernel h [4096 \<mapsto> ?l]" by simp
  have e: "[4096 \<mapsto> ?l](4096 := None) = Map.empty" by auto
  show ?thesis using dealloc_reuse [OF bump_kernel_contract r, of 4096 ?l] unfolding e by auto
qed

text \<open>The alignment guarantee stops at the page size: for an alignment of 8192, which
  \<open>alloc\<close> accepts, a kernel that keeps every promise of \<open>mmap\<close> makes it return a
  block that is not aligned as asked.
\<close>

theorem alloc_misaligned:
  "\<exists>h' p. layout_ok \<lparr> lay_size = 8192, lay_align = 8192 \<rparr> \<and> mmap_contract bump_kernel bump_mapped \<and>
     heap_alloc bump_kernel (allocator_new m (0, [])) \<lparr> lay_size = 8192, lay_align = 8192 \<rparr> = Some (h', p) \<and>
     p \<noteq> 0 \<and> \<not> 8192 dvd p"
proof -
  have l: "layout_ok \<lparr> lay_size = 8192, lay_align = 8192 \<rparr>"
    by (auto simp: layout_ok_def intro: exI [of _ 13])
  have "round_up 8192 16384 = 16384" by (simp add: round_up_def)
  then obtain k' where "map_region bump_kernel (0, []) (round_up 8192 16384) = (k', 4096)"
    using bump_map_region [of 16384] by auto
  moreover have "class_for 8192 8192 = None" by (simp add: class_for_None)
  ultimately show ?thesis using l bump_kernel_contract
    by (simp add: heap_alloc_def allocator_new_def GRAN_def)
qed

end
