(* ===== verification/Interleaving_Steps.thy ===== *)
theory Interleaving_Steps
  imports Prelude
begin

text \<open>
  Threads that share memory. A state is the shared part and the list of the threads'
  positions. A component gives the atomic step of one thread, \<open>run\<close> (\<^term>\<open>None\<close> where the
  thread is blocked or has nothing to do), the choices its callers have between operations,
  \<open>call\<close>, what may happen without any thread, \<open>env\<close>, and which positions start a new
  thread, \<open>spawn\<close>. \<open>conc_step\<close> interleaves them arbitrarily: the atomics of the sources
  are taken as sequentially consistent.
\<close>

section \<open>Interleaving\<close>

type_synonym ('g, 'pc) conc = "'g \<times> 'pc list"
type_synonym ('g, 'pc) runner = "'g \<Rightarrow> nat \<Rightarrow> 'pc \<Rightarrow> ('g \<times> 'pc) option"

definition run_thread :: "('g, 'pc) runner \<Rightarrow> nat \<Rightarrow> ('g, 'pc) conc \<Rightarrow> ('g, 'pc) conc option" where
  "run_thread run t s =
     (case s of (g, pcs) \<Rightarrow>
        if t < length pcs then map_option (\<lambda>(g', pc'). (g', pcs[t := pc'])) (run g t (pcs ! t)) else None)"

inductive conc_step ::
    "('g, 'pc) runner \<Rightarrow> ('pc \<Rightarrow> 'pc \<Rightarrow> bool) \<Rightarrow> ('g \<Rightarrow> 'g \<Rightarrow> bool) \<Rightarrow> ('pc \<Rightarrow> 'pc \<times> 'pc \<Rightarrow> bool) \<Rightarrow>
     ('g, 'pc) conc \<Rightarrow> ('g, 'pc) conc \<Rightarrow> bool"
  for run call env spawn where
  run: "t < length pcs \<Longrightarrow> run g t (pcs ! t) = Some (g', pc') \<Longrightarrow>
     conc_step run call env spawn (g, pcs) (g', pcs[t := pc'])"
| call: "t < length pcs \<Longrightarrow> call (pcs ! t) pc' \<Longrightarrow> conc_step run call env spawn (g, pcs) (g, pcs[t := pc'])"
| env: "env g g' \<Longrightarrow> conc_step run call env spawn (g, pcs) (g', pcs)"
| spawn: "t < length pcs \<Longrightarrow> spawn (pcs ! t) (pc', new) \<Longrightarrow>
     conc_step run call env spawn (g, pcs) (g, pcs[t := pc'] @ [new])"

inductive_cases conc_stepE: "conc_step run call env spawn (g, pcs) s'"

abbreviation conc_reach ::
    "('g, 'pc) runner \<Rightarrow> ('pc \<Rightarrow> 'pc \<Rightarrow> bool) \<Rightarrow> ('g \<Rightarrow> 'g \<Rightarrow> bool) \<Rightarrow> ('pc \<Rightarrow> 'pc \<times> 'pc \<Rightarrow> bool) \<Rightarrow>
     ('g, 'pc) conc \<Rightarrow> ('g, 'pc) conc \<Rightarrow> bool" where
  "conc_reach run call env spawn \<equiv> (conc_step run call env spawn)\<^sup>*\<^sup>*"

lemma run_thread_step:
  assumes "run_thread run t s = Some s'"
  shows "conc_step run call env spawn s s'"
  using assms by (cases s) (auto simp: run_thread_def intro: conc_step.run split: if_splits)

lemma map_update_same [simp]: "(map f pcs)[t := f (pcs ! t)] = map f pcs"
  by (metis list_update_id map_update)

lemma unaffected: "\<forall>u \<in> S. u < length pcs \<and> Q (pcs ! u) \<Longrightarrow> t \<notin> S \<Longrightarrow>
    \<forall>u \<in> S. u < length (pcs[t := pc]) \<and> Q (pcs[t := pc] ! u)"
  by (metis length_list_update nth_list_update_neq)

text \<open>Given interleavings, to evaluate examples.\<close>

datatype 'pc action = Run nat | Call nat 'pc | Spawn nat 'pc 'pc

fun conc_exec ::
    "('g, 'pc) runner \<Rightarrow> ('pc \<Rightarrow> 'pc \<Rightarrow> bool) \<Rightarrow> ('pc \<Rightarrow> 'pc \<times> 'pc \<Rightarrow> bool) \<Rightarrow>
     'pc action list \<Rightarrow> ('g, 'pc) conc \<Rightarrow> ('g, 'pc) conc option" where
  "conc_exec run call spawn [] s = Some s"
| "conc_exec run call spawn (Run t # acts) s =
     (case run_thread run t s of None \<Rightarrow> None | Some s' \<Rightarrow> conc_exec run call spawn acts s')"
| "conc_exec run call spawn (Call t pc # acts) (g, pcs) =
     (if t < length pcs \<and> call (pcs ! t) pc then conc_exec run call spawn acts (g, pcs[t := pc]) else None)"
| "conc_exec run call spawn (Spawn t pc new # acts) (g, pcs) =
     (if t < length pcs \<and> spawn (pcs ! t) (pc, new)
      then conc_exec run call spawn acts (g, pcs[t := pc] @ [new]) else None)"

lemma conc_exec_reach: "conc_exec run call spawn acts s = Some s' \<Longrightarrow> conc_reach run call env spawn s s'"
proof (induction run call spawn acts s rule: conc_exec.induct)
  case (2 run call spawn t acts s)
  then obtain s1 where "run_thread run t s = Some s1" "conc_reach run call env spawn s1 s'" by (auto split: option.splits)
  then show ?case by (metis converse_rtranclp_into_rtranclp run_thread_step)
next
  case (3 run call spawn t pc acts g pcs)
  then show ?case
    using conc_step.call [of t pcs call pc run env spawn g]
    by (auto intro: converse_rtranclp_into_rtranclp split: if_splits)
next
  case (4 run call spawn t pc new acts g pcs)
  then show ?case
    using conc_step.spawn [of t pcs spawn pc new run call env g]
    by (auto intro: converse_rtranclp_into_rtranclp split: if_splits)
qed simp

section \<open>Invariants\<close>

text \<open>An invariant \<open>I\<close> that the first state has and every kind of step keeps holds in every reachable state; a step
may use a fact \<open>K\<close> already known of every reachable state.\<close>

locale conc_invariant_given =
  fixes run :: "('g, 'pc) runner" and call env spawn and init :: "('g, 'pc) conc" and K I :: "'g \<Rightarrow> 'pc list \<Rightarrow> bool"
  assumes K_reach: "conc_reach run call env spawn init s \<Longrightarrow> K (fst s) (snd s)"
    and I_init: "I (fst init) (snd init)"
    and I_run: "K g pcs \<Longrightarrow> I g pcs \<Longrightarrow> t < length pcs \<Longrightarrow> run g t (pcs ! t) = Some (g', pc') \<Longrightarrow> I g' (pcs[t := pc'])"
    and I_call: "K g pcs \<Longrightarrow> I g pcs \<Longrightarrow> t < length pcs \<Longrightarrow> call (pcs ! t) pc' \<Longrightarrow> I g (pcs[t := pc'])"
    and I_env: "K g pcs \<Longrightarrow> I g pcs \<Longrightarrow> env g g' \<Longrightarrow> I g' pcs"
    and I_spawn: "K g pcs \<Longrightarrow> I g pcs \<Longrightarrow> t < length pcs \<Longrightarrow> spawn (pcs ! t) (pc', new) \<Longrightarrow> I g (pcs[t := pc'] @ [new])"
begin

lemma step_keeps:
  assumes "conc_step run call env spawn s s'" "K (fst s) (snd s)" "I (fst s) (snd s)"
  shows "I (fst s') (snd s')"
  using assms by (induction rule: conc_step.induct) (auto intro: I_run I_call I_env I_spawn)

lemma reach_inv:
  assumes "conc_reach run call env spawn init s"
  shows "I (fst s) (snd s)"
  using assms by (induction rule: rtranclp_induct) (auto intro: I_init step_keeps K_reach)

end

text \<open>The same with nothing given.\<close>

locale conc_invariant =
  fixes run :: "('g, 'pc) runner" and call env spawn and init :: "('g, 'pc) conc" and I :: "'g \<Rightarrow> 'pc list \<Rightarrow> bool"
  assumes J_init: "I (fst init) (snd init)"
    and J_run: "I g pcs \<Longrightarrow> t < length pcs \<Longrightarrow> run g t (pcs ! t) = Some (g', pc') \<Longrightarrow> I g' (pcs[t := pc'])"
    and J_call: "I g pcs \<Longrightarrow> t < length pcs \<Longrightarrow> call (pcs ! t) pc' \<Longrightarrow> I g (pcs[t := pc'])"
    and J_env: "I g pcs \<Longrightarrow> env g g' \<Longrightarrow> I g' pcs"
    and J_spawn: "I g pcs \<Longrightarrow> t < length pcs \<Longrightarrow> spawn (pcs ! t) (pc', new) \<Longrightarrow> I g (pcs[t := pc'] @ [new])"

sublocale conc_invariant \<subseteq> conc_invariant_given run call env spawn init "\<lambda>_ _. True" I
  by unfold_locales (auto intro: J_init J_run J_call J_env J_spawn)

section \<open>Components inside components\<close>

text \<open>A component whose threads use another one: seen through \<open>pg\<close> and \<open>pp\<close>, each of its steps is a step
of the used component or leaves it unchanged. What the used component guarantees then holds of the user.\<close>

locale conc_projection =
  fixes run :: "('g, 'pc) runner" and call env spawn
    and arun :: "('h, 'qc) runner" and acall aenv aspawn
    and pg :: "'g \<Rightarrow> 'h" and pp :: "'pc \<Rightarrow> 'qc"
  assumes run_sim: "run g t pc = Some (g', pc') \<Longrightarrow>
      arun (pg g) t (pp pc) = Some (pg g', pp pc') \<or>
      (pg g' = pg g \<or> aenv (pg g) (pg g')) \<and> (pp pc' = pp pc \<or> acall (pp pc) (pp pc'))"
    and call_sim: "call pc pc' \<Longrightarrow> pp pc' = pp pc \<or> acall (pp pc) (pp pc')"
    and env_sim: "env g g' \<Longrightarrow> pg g' = pg g \<or> aenv (pg g) (pg g')"
    and spawn_sim: "spawn pc (pc', new) \<Longrightarrow> aspawn (pp pc) (pp pc', pp new)"
begin

definition proj :: "('g, 'pc) conc \<Rightarrow> ('h, 'qc) conc" where
  "proj s = (pg (fst s), map pp (snd s))"

lemma step_sim:
  assumes "conc_step run call env spawn s s'"
  shows "conc_reach arun acall aenv aspawn (proj s) (proj s')"
  using assms
proof (induction rule: conc_step.induct)
  case (run t pcs g g' pc')
  have 1: "conc_reach arun acall aenv aspawn (pg g, map pp pcs) (pg g', map pp pcs)" if "pg g' = pg g \<or> aenv (pg g) (pg g')"
    using that conc_step.env [of aenv "pg g" "pg g'" arun acall aspawn "map pp pcs"] by auto
  have 2: "conc_reach arun acall aenv aspawn (pg g', map pp pcs) (pg g', (map pp pcs)[t := pp pc'])"
    if "pp pc' = pp (pcs ! t) \<or> acall (pp (pcs ! t)) (pp pc')"
    using that run(1) conc_step.call [of t "map pp pcs" acall "pp pc'" arun aenv aspawn "pg g'"]
    by auto
  show ?case
    using run_sim [OF run(2)]
  proof
    assume "arun (pg g) t (pp (pcs ! t)) = Some (pg g', pp pc')"
    then have "conc_step arun acall aenv aspawn (pg g, map pp pcs) (pg g', (map pp pcs)[t := pp pc'])"
      using run(1) by (intro conc_step.run) simp_all
    then show ?thesis by (auto simp: proj_def map_update)
  qed (use 1 2 in \<open>auto simp: proj_def map_update\<close>)
next
  case (call t pcs pc' g)
  then show ?case
    using call_sim [OF call(2)] conc_step.call [of t "map pp pcs" acall "pp pc'" arun aenv aspawn "pg g"]
    by (auto simp: proj_def map_update)
next
  case (env g g' pcs)
  then show ?case
    using env_sim [OF env] conc_step.env [of aenv "pg g" "pg g'" arun acall aspawn "map pp pcs"] by (auto simp: proj_def)
next
  case (spawn t pcs pc' new g)
  then show ?case
    using spawn_sim [OF spawn(2)] conc_step.spawn [of t "map pp pcs" aspawn "pp pc'" "pp new" arun acall aenv "pg g"]
    by (auto simp: proj_def map_update)
qed

lemma reach_sim:
  assumes "conc_reach run call env spawn s s'"
  shows "conc_reach arun acall aenv aspawn (proj s) (proj s')"
  using assms by (induction rule: rtranclp_induct) (auto intro: step_sim rtranclp_trans)

end

section \<open>Progress\<close>

text \<open>The states along a schedule, a list of the threads that take the steps.\<close>

fun run_schedule :: "('g, 'pc) runner \<Rightarrow> nat list \<Rightarrow> ('g, 'pc) conc \<Rightarrow> ('g, 'pc) conc option" where
  "run_schedule run [] s = Some s"
| "run_schedule run (t # ts) s = (case run_thread run t s of None \<Rightarrow> None | Some s' \<Rightarrow> run_schedule run ts s')"

text \<open>Whatever thread is scheduled next, \<open>goal\<close> is met within \<open>n\<close> steps, and until then some thread can move.\<close>

definition progresses :: "('g, 'pc) runner \<Rightarrow> (('g, 'pc) conc \<Rightarrow> bool) \<Rightarrow> nat \<Rightarrow> ('g, 'pc) conc \<Rightarrow> bool" where
  "progresses run goal n s \<longleftrightarrow>
     (\<forall>ts s'. run_schedule run ts s = Some s' \<longrightarrow>
        (\<exists>k s''. k \<le> length ts \<and> run_schedule run (take k ts) s = Some s'' \<and> goal s'') \<or>
        length ts \<le> n \<and> (\<exists>t. run_thread run t s' \<noteq> None))"

lemma progresses_mono: "progresses run goal n s \<Longrightarrow> n \<le> m \<Longrightarrow> progresses run goal m s"
  unfolding progresses_def by (meson order_trans)

locale conc_progress =
  fixes run :: "('g, 'pc) runner" and P goal :: "('g, 'pc) conc \<Rightarrow> bool" and rank :: "('g, 'pc) conc \<Rightarrow> nat"
  assumes P_step: "P s \<Longrightarrow> \<not> goal s \<Longrightarrow> run_thread run t s = Some s' \<Longrightarrow> goal s' \<or> P s' \<and> rank s' < rank s"
    and P_moves: "P s \<Longrightarrow> \<not> goal s \<Longrightarrow> \<exists>t. run_thread run t s \<noteq> None"
begin

lemma along_schedule:
  assumes "P s" "run_schedule run ts s = Some s'"
  shows "(\<exists>k s''. k \<le> length ts \<and> run_schedule run (take k ts) s = Some s'' \<and> goal s'') \<or>
     P s' \<and> \<not> goal s' \<and> length ts + rank s' \<le> rank s"
  using assms
proof (induction ts arbitrary: s)
  case (Cons t ts)
  obtain s1 where s1: "run_thread run t s = Some s1" "run_schedule run ts s1 = Some s'"
    using Cons.prems by (auto split: option.splits)
  have first: ?case if "goal s" using that by (intro disjI1 exI [of _ 0] exI [of _ s]) simp
  have later: ?case if "k \<le> length ts" "run_schedule run (take k ts) s1 = Some s''" "goal s''" for k s''
    using that s1 by (intro disjI1 exI [of _ "Suc k"] exI [of _ s'']) simp
  show ?case
  proof (cases "goal s")
    case False
    show ?thesis
    proof (cases "goal s1")
      case True
      then show ?thesis using later [of 0 s1] by simp
    next
      case g: False
      then have r: "P s1" "rank s1 < rank s" using P_step [OF Cons.prems(1) False s1(1)] by auto
      from Cons.IH [OF r(1) s1(2)] show ?thesis
      proof
        assume "P s' \<and> \<not> goal s' \<and> length ts + rank s' \<le> rank s1"
        then show ?thesis using r(2) by simp
      qed (use later in blast)
    qed
  qed (rule first)
qed auto

lemma progress: "P s \<Longrightarrow> progresses run goal (rank s) s"
  unfolding progresses_def
proof (intro allI impI)
  fix ts s'
  assume "P s" "run_schedule run ts s = Some s'"
  from along_schedule [OF this] show "(\<exists>k s''. k \<le> length ts \<and> run_schedule run (take k ts) s = Some s'' \<and> goal s'') \<or>
      length ts \<le> rank s \<and> (\<exists>t. run_thread run t s' \<noteq> None)"
  proof
    assume "P s' \<and> \<not> goal s' \<and> length ts + rank s' \<le> rank s"
    then show ?thesis using P_moves [of s'] by simp
  qed (rule disjI1)
qed

end

text \<open>A rank that is the sum over the threads.\<close>

definition thread_sum :: "('pc \<Rightarrow> nat) \<Rightarrow> 'pc list \<Rightarrow> nat" where
  "thread_sum f pcs = sum_list (map f pcs)"

lemma thread_sum_update:
  assumes "t < length pcs"
  shows "thread_sum f (pcs[t := pc]) + f (pcs ! t) = thread_sum f pcs + f pc"
proof -
  have "thread_sum f pcs = thread_sum f (take t pcs @ pcs ! t # drop (Suc t) pcs)"
    using assms by (simp add: id_take_nth_drop [symmetric])
  then show ?thesis using assms by (simp add: thread_sum_def upd_conv_take_nth_drop)
qed

lemma thread_sum_ge: "t < length pcs \<Longrightarrow> f (pcs ! t) \<le> thread_sum f pcs"
  unfolding thread_sum_def by (rule member_le_sum_list) simp_all

lemma thread_sum_le: "(\<And>pc. f pc \<le> n) \<Longrightarrow> thread_sum f pcs \<le> n * length pcs"
  by (induction pcs) (auto simp: thread_sum_def intro: add_mono)

section \<open>Counting threads\<close>

definition threads :: "('pc \<Rightarrow> bool) \<Rightarrow> 'pc list \<Rightarrow> nat" where
  "threads P pcs = length (filter P pcs)"

lemma threads_update: "t < length pcs \<Longrightarrow>
    threads P (pcs[t := pc]) + (if P (pcs ! t) then 1 else 0) = threads P pcs + (if P pc then 1 else 0)"
  unfolding threads_def by (rule length_filter_update)

lemma threads_append [simp]: "threads P (xs @ ys) = threads P xs + threads P ys"
  by (simp add: threads_def)

lemma threads_single [simp]: "threads P [x] = (if P x then 1 else 0)" "threads P [] = 0"
  by (simp_all add: threads_def)

lemma threads_le: "threads P pcs \<le> length pcs"
  by (simp add: threads_def)

lemma threads_pos: "t < length pcs \<Longrightarrow> P (pcs ! t) \<Longrightarrow> 0 < threads P pcs"
  by (auto simp: threads_def filter_empty_conv)

lemma threads_zero: "threads P pcs = 0 \<longleftrightarrow> (\<forall>t < length pcs. \<not> P (pcs ! t))"
  by (auto simp: threads_def filter_empty_conv all_set_conv_all_nth)

lemma threads_unique:
  assumes "threads P pcs \<le> 1" "t < length pcs" "u < length pcs" "P (pcs ! t)" "P (pcs ! u)"
  shows "t = u"
  using assms
proof (induction pcs arbitrary: t u)
  case (Cons x xs)
  have 0: "threads P xs = 0" if "P x" using that Cons.prems(1) by (simp add: threads_def)
  show ?case
  proof (cases t)
    case 0
    then show ?thesis using Cons.prems \<open>P x \<Longrightarrow> threads P xs = 0\<close> threads_pos [of "u - 1" xs P] by (cases u) auto
  next
    case (Suc t')
    show ?thesis
    proof (cases u)
      case 0
      then show ?thesis using Suc Cons.prems \<open>P x \<Longrightarrow> threads P xs = 0\<close> threads_pos [of t' xs P] by auto
    next
      case (Suc u')
      then show ?thesis using \<open>t = Suc t'\<close> Cons.prems Cons.IH [of t' u'] by (auto simp: threads_def split: if_splits)
    qed
  qed
qed simp

lemma list_ex_update_self: "t < length pcs \<Longrightarrow> P pc \<Longrightarrow> list_ex P (pcs[t := pc])"
  by (auto simp: list_ex_length)

lemma list_ex_update: "list_ex P pcs \<Longrightarrow> t < length pcs \<Longrightarrow> (P (pcs ! t) \<Longrightarrow> P pc) \<Longrightarrow> list_ex P (pcs[t := pc])"
  unfolding list_ex_length by (metis length_list_update nth_list_update_eq nth_list_update_neq)

end
