(* ===== verification/Futex.thy ===== *)
theory Futex
  imports Interleaving_Steps Syscalls
begin

text \<open>
  The futex layer of \<open>src/sys_thread.rs\<close>. The kernel's wait queues are not part of the
  sources: a \<open>futex\<close> gives the set of threads that sleep on an address, how a thread is
  added to it and what a wake call does, and \<open>futex_contract\<close> states the documented
  behaviour. \<open>futex_wait\<close> is a loop around the system call, cut here into its atomic
  steps: the load, the call (in which the kernel compares the word again and puts the
  thread to sleep in one step) and the return from the kernel.
\<close>

section \<open>The kernel's wait queues\<close>

record 'q futex =
  fx_target :: target
  fx_sleeping :: "'q \<Rightarrow> nat \<Rightarrow> nat set"
  fx_wait :: "'q \<Rightarrow> nat \<Rightarrow> nat \<Rightarrow> 'q"
  fx_wake :: "'q \<Rightarrow> nat \<Rightarrow> nat option \<Rightarrow> 'q"

text \<open>A wait adds the thread to the sleepers of its address. A wake takes threads away only, at least one
of the sleepers of its address, and all of them when they are not more than the count it was given.\<close>

definition futex_contract :: "'q futex \<Rightarrow> bool" where
  "futex_contract F \<longleftrightarrow>
     (\<forall>q a t b. fx_sleeping F (fx_wait F q a t) b =
        (if b = a then insert t (fx_sleeping F q a) else fx_sleeping F q b)) \<and>
     (\<forall>q a n b. fx_sleeping F (fx_wake F q a n) b \<subseteq> fx_sleeping F q b) \<and>
     (\<forall>q a n. finite (fx_sleeping F q a) \<longrightarrow> fx_sleeping F q a \<noteq> {} \<longrightarrow> n \<noteq> Some 0 \<longrightarrow>
        fx_sleeping F (fx_wake F q a n) a \<subset> fx_sleeping F q a) \<and>
     (\<forall>q a n. finite (fx_sleeping F q a) \<longrightarrow> (case n of None \<Rightarrow> True | Some m \<Rightarrow> card (fx_sleeping F q a) \<le> m) \<longrightarrow>
        fx_sleeping F (fx_wake F q a n) a = {})"

lemma fx_wait_sleeping: "futex_contract F \<Longrightarrow>
    fx_sleeping F (fx_wait F q a t) b = (if b = a then insert t (fx_sleeping F q a) else fx_sleeping F q b)"
  unfolding futex_contract_def by (elim conjE allE) assumption

lemma fx_wake_subset: "futex_contract F \<Longrightarrow> fx_sleeping F (fx_wake F q a n) b \<subseteq> fx_sleeping F q b"
  unfolding futex_contract_def by (elim conjE) (simp only: simp_thms)

lemma fx_wake_some: "futex_contract F \<Longrightarrow> finite (fx_sleeping F q a) \<Longrightarrow> fx_sleeping F q a \<noteq> {} \<Longrightarrow> n \<noteq> Some 0 \<Longrightarrow>
    fx_sleeping F (fx_wake F q a n) a \<subset> fx_sleeping F q a"
  unfolding futex_contract_def by (elim conjE) (simp only: simp_thms)

lemma fx_wake_every: "futex_contract F \<Longrightarrow> finite (fx_sleeping F q a) \<Longrightarrow>
    (case n of None \<Rightarrow> True | Some m \<Rightarrow> card (fx_sleeping F q a) \<le> m) \<Longrightarrow> fx_sleeping F (fx_wake F q a n) a = {}"
  unfolding futex_contract_def by (elim conjE) (simp only: simp_thms)

text \<open>A call can also return because of a signal or of its time limit.\<close>

definition kernel_returns :: "'q futex \<Rightarrow> 'q \<Rightarrow> 'q \<Rightarrow> bool" where
  "kernel_returns F q q' \<longleftrightarrow> (\<forall>a. fx_sleeping F q' a \<subseteq> fx_sleeping F q a)"

section \<open>Waiting and waking\<close>

datatype futex_pc = FW_load | FW_call | FW_blocked

text \<open>One step of \<open>futex_wait(addr, expected)\<close> by thread \<open>t\<close>, where the word holds \<open>w\<close>: \<^term>\<open>None\<close> when the
thread sleeps, and otherwise the next position, \<^term>\<open>None\<close> again once the loop has ended.\<close>

definition futex_wait :: "'q futex \<Rightarrow> nat \<Rightarrow> u32 \<Rightarrow> nat \<Rightarrow> u32 \<Rightarrow> 'q \<Rightarrow> futex_pc \<Rightarrow> ('q \<times> futex_pc option) option" where
  "futex_wait F addr expected t w q pc =
     (case pc of
        FW_load \<Rightarrow> Some (q, if w = expected then Some FW_call else None)
      | FW_call \<Rightarrow>
          if w = expected then Some (fx_wait F q addr t, Some FW_blocked) else Some (q, Some FW_load)
      | FW_blocked \<Rightarrow> if t \<in> fx_sleeping F q addr then None else Some (q, Some FW_load))"

text \<open>\<open>futex_wait_timeout\<close> is the same without the loop.\<close>

definition futex_wait_timeout ::
    "'q futex \<Rightarrow> nat \<Rightarrow> u32 \<Rightarrow> nat \<Rightarrow> u32 \<Rightarrow> 'q \<Rightarrow> futex_pc \<Rightarrow> ('q \<times> futex_pc option) option" where
  "futex_wait_timeout F addr expected t w q pc =
     (case pc of
        FW_load \<Rightarrow> Some (q, if w = expected then Some FW_call else None)
      | FW_call \<Rightarrow> if w = expected then Some (fx_wait F q addr t, Some FW_blocked) else Some (q, None)
      | FW_blocked \<Rightarrow> if t \<in> fx_sleeping F q addr then None else Some (q, None))"

definition futex_wake :: "'q futex \<Rightarrow> 'q \<Rightarrow> nat \<Rightarrow> 'q" where
  "futex_wake F q addr = fx_wake F q addr (Some 1)"

text \<open>Linux is given the largest \<open>i32\<close> as the count, macOS a flag for all.\<close>

definition futex_wake_all :: "'q futex \<Rightarrow> 'q \<Rightarrow> nat \<Rightarrow> 'q" where
  "futex_wake_all F q addr =
     fx_wake F q addr (if is_macos (fx_target F) then None else Some 0x7FFFFFFF)"

section \<open>Facts for the users\<close>

lemma futex_wake_subset: "futex_contract F \<Longrightarrow> fx_sleeping F (futex_wake F q a) b \<subseteq> fx_sleeping F q b"
  unfolding futex_wake_def by (rule fx_wake_subset)

lemma futex_wake_all_subset: "futex_contract F \<Longrightarrow> fx_sleeping F (futex_wake_all F q a) b \<subseteq> fx_sleeping F q b"
  unfolding futex_wake_all_def by (rule fx_wake_subset)

lemma futex_wake_some:
  assumes "futex_contract F" "finite (fx_sleeping F q a)" "fx_sleeping F q a \<noteq> {}"
  obtains t where "t \<in> fx_sleeping F q a" "t \<notin> fx_sleeping F (futex_wake F q a) a"
proof -
  have "fx_sleeping F (futex_wake F q a) a \<subset> fx_sleeping F q a"
    unfolding futex_wake_def using assms by (intro fx_wake_some) simp_all
  then show ?thesis using that by blast
qed

lemma futex_wake_single:
  assumes "futex_contract F" "fx_sleeping F q a \<subseteq> {t}"
  shows "fx_sleeping F (futex_wake F q a) a = {}"
proof -
  have "card (fx_sleeping F q a) \<le> 1" using assms(2) card_mono [of "{t}"] by fastforce
  then show ?thesis unfolding futex_wake_def
    using assms finite_subset [OF assms(2)] by (intro fx_wake_every) simp_all
qed

lemma futex_wake_all_single:
  assumes "futex_contract F" "fx_sleeping F q a \<subseteq> {t}"
  shows "fx_sleeping F (futex_wake_all F q a) a = {}"
proof -
  have "card (fx_sleeping F q a) \<le> 1" using assms(2) card_mono [of "{t}"] by fastforce
  then show ?thesis unfolding futex_wake_all_def
    using assms finite_subset [OF assms(2)] by (intro fx_wake_every) simp_all
qed

lemma futex_wake_all_empty:
  assumes "futex_contract F" "fx_sleeping F q a \<subseteq> {..<n}" "n < 2 ^ 31"
  shows "fx_sleeping F (futex_wake_all F q a) a = {}"
proof -
  have "card (fx_sleeping F q a) \<le> n" using assms(2) card_mono [of "{..<n}"] by fastforce
  then show ?thesis unfolding futex_wake_all_def
    using assms finite_subset [OF assms(2)] by (intro fx_wake_every) simp_all
qed

section \<open>Queues in order of arrival\<close>

text \<open>A kernel that wakes its sleepers in the order they came: the state lists address and thread.\<close>

definition sleepers_at :: "(nat \<times> nat) list \<Rightarrow> nat \<Rightarrow> nat list" where
  "sleepers_at q a = remdups (map snd (filter (\<lambda>x. fst x = a) q))"

definition fifo_wake :: "(nat \<times> nat) list \<Rightarrow> nat \<Rightarrow> nat option \<Rightarrow> (nat \<times> nat) list" where
  "fifo_wake q a n =
     (let us = sleepers_at q a; woken = (case n of None \<Rightarrow> us | Some m \<Rightarrow> take m us) in
      filter (\<lambda>x. \<not> (fst x = a \<and> snd x \<in> set woken)) q)"

definition fifo_futex :: "target \<Rightarrow> (nat \<times> nat) list futex" where
  "fifo_futex t = \<lparr> fx_target = t, fx_sleeping = (\<lambda>q a. {u. (a, u) \<in> set q}),
     fx_wait = (\<lambda>q a u. q @ [(a, u)]), fx_wake = fifo_wake \<rparr>"

lemma set_sleepers_at: "set (sleepers_at q a) = {u. (a, u) \<in> set q}"
  by (force simp: sleepers_at_def)

lemma fifo_futex_contract: "futex_contract (fifo_futex t)"
proof -
  have some: "{u. (a, u) \<in> set (fifo_wake q a n)} \<subset> {u. (a, u) \<in> set q}"
    if "{u. (a, u) \<in> set q} \<noteq> {}" "n \<noteq> Some 0" for q a n
  proof -
    have "sleepers_at q a \<noteq> []" using that(1) set_sleepers_at [of q a] by (metis list.set(1))
    then obtain u us where us: "sleepers_at q a = u # us" by (cases "sleepers_at q a") auto
    then have "u \<in> {u. (a, u) \<in> set q}" using set_sleepers_at [of q a] by (metis list.set_intros(1))
    moreover have "(a, u) \<notin> set (fifo_wake q a n)"
      using us that(2) by (cases n; cases "the n") (simp_all add: fifo_wake_def)
    moreover have "set (fifo_wake q a n) \<subseteq> set q" by (auto simp: fifo_wake_def Let_def)
    ultimately show ?thesis by blast
  qed
  have every: "{u. (a, u) \<in> set (fifo_wake q a n)} = {}"
    if "case n of None \<Rightarrow> True | Some m \<Rightarrow> card {u. (a, u) \<in> set q} \<le> m" for q a n
  proof -
    have "card {u. (a, u) \<in> set q} = length (sleepers_at q a)"
      using distinct_card [of "sleepers_at q a"] set_sleepers_at [of q a] by (simp add: sleepers_at_def)
    then have "(case n of None \<Rightarrow> sleepers_at q a | Some m \<Rightarrow> take m (sleepers_at q a)) = sleepers_at q a"
      using that by (cases n) simp_all
    then have "fifo_wake q a n = filter (\<lambda>x. \<not> (fst x = a \<and> (a, snd x) \<in> set q)) q"
      by (simp only: fifo_wake_def Let_def set_sleepers_at mem_Collect_eq)
    then show ?thesis by auto
  qed
  have sub: "{u. (b, u) \<in> set (fifo_wake q a n)} \<subseteq> {u. (b, u) \<in> set q}" for q a b n
    by (auto simp: fifo_wake_def Let_def)
  have wait: "{u. (b, u) \<in> set (q @ [(a, v)])} = (if b = a then insert v {u. (a, u) \<in> set q} else {u. (b, u) \<in> set q})"
    for q :: "(nat \<times> nat) list" and a b v by auto
  show ?thesis unfolding futex_contract_def fifo_futex_def futex.simps
    by (intro conjI allI impI) (rule wait | rule sub | (rule some; assumption) | (rule every; assumption))+
qed

end
