(* ===== verification/Mutexes.thy ===== *)
theory Mutexes
  imports Futex
begin

text \<open>
  \<open>Mutex\<close> of \<open>src/sync.rs\<close>: a word that is 0 when unlocked, 1 when locked and 2 when
  locked with waiters, and the positions of the threads inside \<open>raw_lock\<close>, \<open>raw_unlock\<close>
  and \<open>try_lock\<close>, one per access to the word. Shown are mutual exclusion, that no wake is
  lost, and that a free mutex somebody asks for is taken within a bounded number of steps.
\<close>

section \<open>The lock\<close>

datatype mutex_pc =
    MX_idle
  | MX_cas
  | MX_swap
  | MX_wait futex_pc
  | MX_held
  | MX_try
  | MX_release
  | MX_wake

type_synonym 'q mutex_shared = "u32 \<times> 'q"

definition raw_lock :: "'q futex \<Rightarrow> nat \<Rightarrow> ('q mutex_shared, mutex_pc) runner" where
  "raw_lock F a g t pc =
     (case g of (w, q) \<Rightarrow>
        (case pc of
           MX_cas \<Rightarrow> Some (if w = 0 then ((1, q), MX_held) else ((w, q), MX_swap))
         | MX_swap \<Rightarrow> Some ((2, q), if w = 0 then MX_held else MX_wait FW_load)
         | MX_wait fp \<Rightarrow>
             map_option (\<lambda>(q', r). ((w, q'), case r of Some fp' \<Rightarrow> MX_wait fp' | None \<Rightarrow> MX_swap))
               (futex_wait F a 2 t w q fp)
         | _ \<Rightarrow> None))"

definition raw_unlock :: "'q futex \<Rightarrow> nat \<Rightarrow> ('q mutex_shared, mutex_pc) runner" where
  "raw_unlock F a g t pc =
     (case g of (w, q) \<Rightarrow>
        (case pc of
           MX_release \<Rightarrow> Some ((0, q), if w = 2 then MX_wake else MX_idle)
         | MX_wake \<Rightarrow> Some ((w, futex_wake F q a), MX_idle)
         | _ \<Rightarrow> None))"

definition try_lock :: "('q mutex_shared, mutex_pc) runner" where
  "try_lock g t pc =
     (case g of (w, q) \<Rightarrow>
        (case pc of MX_try \<Rightarrow> Some (if w = 0 then ((1, q), MX_held) else ((w, q), MX_idle)) | _ \<Rightarrow> None))"

definition mutex_run :: "'q futex \<Rightarrow> nat \<Rightarrow> ('q mutex_shared, mutex_pc) runner" where
  "mutex_run F a g t pc =
     (case pc of
        MX_release \<Rightarrow> raw_unlock F a g t pc
      | MX_wake \<Rightarrow> raw_unlock F a g t pc
      | MX_try \<Rightarrow> try_lock g t pc
      | _ \<Rightarrow> raw_lock F a g t pc)"

text \<open>A caller takes the lock, tries to, or drops the guard it holds.\<close>

definition mutex_call :: "mutex_pc \<Rightarrow> mutex_pc \<Rightarrow> bool" where
  "mutex_call pc pc' \<longleftrightarrow> pc = MX_idle \<and> pc' \<in> {MX_cas, MX_try} \<or> pc = MX_held \<and> pc' = MX_release"

text \<open>Without a thread of this mutex, the kernel can return calls; what threads do at other addresses looks the
same.\<close>

definition mutex_env :: "'q futex \<Rightarrow> nat \<Rightarrow> 'q mutex_shared \<Rightarrow> 'q mutex_shared \<Rightarrow> bool" where
  "mutex_env F a g g' \<longleftrightarrow> fst g' = fst g \<and> (futex_contract F \<longrightarrow> fx_sleeping F (snd g') a \<subseteq> fx_sleeping F (snd g) a)"

definition mutex_spawn :: "mutex_pc \<Rightarrow> mutex_pc \<times> mutex_pc \<Rightarrow> bool" where
  "mutex_spawn pc p \<longleftrightarrow> p = (pc, MX_idle)"

definition mutex_new :: "'q \<Rightarrow> nat \<Rightarrow> ('q mutex_shared, mutex_pc) conc" where
  "mutex_new q n = ((0, q), replicate n MX_idle)"

abbreviation mutex_reach :: "'q futex \<Rightarrow> nat \<Rightarrow> ('q mutex_shared, mutex_pc) conc \<Rightarrow> ('q mutex_shared, mutex_pc) conc \<Rightarrow> bool" where
  "mutex_reach F a \<equiv> conc_reach (mutex_run F a) mutex_call (mutex_env F a) mutex_spawn"

lemmas mutex_run_defs = mutex_run_def raw_lock_def raw_unlock_def try_lock_def futex_wait_def

text \<open>The steps a thread can take, one by one.\<close>

lemma mutex_run_split:
  assumes "mutex_run F a (w, q) t pc = Some ((w', q'), pc')"
  shows
    "(pc = MX_cas \<or> pc = MX_try) \<and> w = 0 \<and> w' = 1 \<and> q' = q \<and> pc' = MX_held \<or>
     pc = MX_cas \<and> w \<noteq> 0 \<and> w' = w \<and> q' = q \<and> pc' = MX_swap \<or>
     pc = MX_try \<and> w \<noteq> 0 \<and> w' = w \<and> q' = q \<and> pc' = MX_idle \<or>
     pc = MX_swap \<and> w = 0 \<and> w' = 2 \<and> q' = q \<and> pc' = MX_held \<or>
     pc = MX_swap \<and> w \<noteq> 0 \<and> w' = 2 \<and> q' = q \<and> pc' = MX_wait FW_load \<or>
     pc = MX_wait FW_load \<and> w = 2 \<and> w' = w \<and> q' = q \<and> pc' = MX_wait FW_call \<or>
     pc = MX_wait FW_load \<and> w \<noteq> 2 \<and> w' = w \<and> q' = q \<and> pc' = MX_swap \<or>
     pc = MX_wait FW_call \<and> w = 2 \<and> w' = w \<and> q' = fx_wait F q a t \<and> pc' = MX_wait FW_blocked \<or>
     pc = MX_wait FW_call \<and> w \<noteq> 2 \<and> w' = w \<and> q' = q \<and> pc' = MX_wait FW_load \<or>
     pc = MX_wait FW_blocked \<and> t \<notin> fx_sleeping F q a \<and> w' = w \<and> q' = q \<and> pc' = MX_wait FW_load \<or>
     pc = MX_release \<and> w = 2 \<and> w' = 0 \<and> q' = q \<and> pc' = MX_wake \<or>
     pc = MX_release \<and> w \<noteq> 2 \<and> w' = 0 \<and> q' = q \<and> pc' = MX_idle \<or>
     pc = MX_wake \<and> w' = w \<and> q' = futex_wake F q a \<and> pc' = MX_idle"
proof (cases pc)
  case (MX_wait fp)
  then show ?thesis using assms by (cases fp) (simp_all add: mutex_run_defs split: if_splits)
qed (use assms in \<open>simp_all add: mutex_run_defs split: if_splits\<close>)

section \<open>Mutual exclusion\<close>

text \<open>A thread has the lock until it has swapped the word back to 0.\<close>

definition holding :: "mutex_pc \<Rightarrow> bool" where
  "holding pc \<longleftrightarrow> pc = MX_held \<or> pc = MX_release"

definition mutex_inv :: "'q mutex_shared \<Rightarrow> mutex_pc list \<Rightarrow> bool" where
  "mutex_inv g pcs \<longleftrightarrow> fst g \<in> {0, 1, 2} \<and> threads holding pcs = (if fst g = 0 then 0 else 1)"

lemma mutex_run_word:
  assumes "mutex_run F a (w, q) t pc = Some ((w', q'), pc')" "holding pc \<longrightarrow> w \<noteq> 0" "w \<in> {0, 1, 2}"
  shows "w' \<in> {0, 1, 2} \<and>
     (if w = 0 then 0 else 1) + (if holding pc' then 1 else 0) = (if w' = 0 then 0 else 1) + (if holding pc then 1 else (0 :: nat))"
  using mutex_run_split [OF assms(1)] assms(2,3) by (elim disjE conjE) (simp_all add: holding_def)

lemma mutex_run_inv:
  assumes "mutex_inv g pcs" "t < length pcs" "mutex_run F a g t (pcs ! t) = Some (g', pc')"
  shows "mutex_inv g' (pcs[t := pc'])"
proof -
  obtain w q w' q' where g: "g = (w, q)" "g' = (w', q')" by fastforce
  have "holding (pcs ! t) \<longrightarrow> w \<noteq> 0" using assms(1,2) threads_pos [of t pcs holding] by (auto simp: mutex_inv_def g)
  then have "w' \<in> {0, 1, 2} \<and>
     (if w = 0 then 0 else 1) + (if holding pc' then 1 else 0) = (if w' = 0 then 0 else 1) + (if holding (pcs ! t) then 1 else (0 :: nat))"
    using assms(1,3) by (intro mutex_run_word) (simp_all add: g mutex_inv_def)
  moreover note threads_update [OF assms(2), of holding pc']
  ultimately show ?thesis using assms(1) unfolding mutex_inv_def g fst_conv by linarith
qed

interpretation mutex: conc_invariant "mutex_run F a" mutex_call "mutex_env F a" mutex_spawn "mutex_new q n" mutex_inv
  for F :: "'q futex" and a q n
proof unfold_locales
  show "mutex_inv (fst (mutex_new q n)) (snd (mutex_new q n))"
    by (simp add: mutex_inv_def mutex_new_def threads_def holding_def)
next
  fix g :: "'q mutex_shared" and pcs t pc'
  assume "mutex_inv g pcs" "t < length pcs" "mutex_call (pcs ! t) pc'"
  then show "mutex_inv g (pcs[t := pc'])"
    using threads_update [of t pcs holding pc'] by (simp add: mutex_inv_def mutex_call_def holding_def) fastforce
next
  fix g :: "'q mutex_shared" and pcs t g' pc'
  assume "mutex_inv g pcs" "t < length pcs" "mutex_run F a g t (pcs ! t) = Some (g', pc')"
  then show "mutex_inv g' (pcs[t := pc'])" by (rule mutex_run_inv)
qed (simp_all add: mutex_inv_def mutex_env_def mutex_spawn_def holding_def)

section \<open>Sleeping threads\<close>

text \<open>A thread that will swap the word again before it sleeps.\<close>

definition contending :: "'q futex \<Rightarrow> nat \<Rightarrow> 'q \<Rightarrow> nat \<Rightarrow> mutex_pc \<Rightarrow> bool" where
  "contending F a q t pc =
     (case pc of MX_swap \<Rightarrow> True | MX_wait _ \<Rightarrow> t \<notin> fx_sleeping F q a | _ \<Rightarrow> False)"

definition rouses :: "'q futex \<Rightarrow> nat \<Rightarrow> 'q \<Rightarrow> mutex_pc list \<Rightarrow> bool" where
  "rouses F a q pcs \<longleftrightarrow> (\<exists>t < length pcs. pcs ! t = MX_wake \<or> contending F a q t (pcs ! t))"

text \<open>While a thread sleeps, the word tells the holder to wake, or a wake or another try is under way.\<close>

definition mutex_wake_inv :: "'q futex \<Rightarrow> nat \<Rightarrow> 'q mutex_shared \<Rightarrow> mutex_pc list \<Rightarrow> bool" where
  "mutex_wake_inv F a g pcs \<longleftrightarrow>
     (\<forall>t \<in> fx_sleeping F (snd g) a. t < length pcs \<and> pcs ! t = MX_wait FW_blocked) \<and>
     (fx_sleeping F (snd g) a \<noteq> {} \<longrightarrow> fst g = 2 \<or> rouses F a (snd g) pcs)"

lemma rouses_self: "t < length pcs \<Longrightarrow> pc' = MX_wake \<or> contending F a q t pc' \<Longrightarrow> rouses F a q (pcs[t := pc'])"
  unfolding rouses_def by (intro exI [of _ t]) simp

lemma rouses_other:
  assumes "rouses F a q pcs" "pcs ! t \<noteq> MX_wake" "\<not> contending F a q t (pcs ! t)"
    and "fx_sleeping F q' a \<subseteq> fx_sleeping F q a"
  shows "rouses F a q' (pcs[t := pc'])"
proof -
  obtain u where u: "u < length pcs" "pcs ! u = MX_wake \<or> contending F a q u (pcs ! u)" "u \<noteq> t"
    using assms(1-3) by (auto simp: rouses_def)
  then have "pcs ! u = MX_wake \<or> contending F a q' u (pcs ! u)"
    using assms(4) by (auto simp: contending_def split: mutex_pc.splits)
  then show ?thesis using u unfolding rouses_def by (intro exI [of _ u]) simp
qed

lemma sleepers_finite: "\<forall>t \<in> S. t < (n :: nat) \<and> Q t \<Longrightarrow> finite S"
  by (rule finite_subset [of _ "{..<n}"]) auto

lemma rouses_wake:
  assumes "futex_contract F" "mutex_wake_inv F a (w, q) pcs" "pcs ! t = MX_wake"
    and "fx_sleeping F (futex_wake F q a) a \<noteq> {}"
  shows "rouses F a (futex_wake F q a) (pcs[t := MX_idle])"
proof -
  have sl: "\<forall>u \<in> fx_sleeping F q a. u < length pcs \<and> pcs ! u = MX_wait FW_blocked"
    using assms(2) by (simp add: mutex_wake_inv_def)
  have "fx_sleeping F q a \<noteq> {}" using assms(1,4) futex_wake_subset [of F q a a] by blast
  then obtain u where "u \<in> fx_sleeping F q a" "u \<notin> fx_sleeping F (futex_wake F q a) a"
    using futex_wake_some [OF assms(1) sleepers_finite [OF sl]] by blast
  moreover have "u \<noteq> t" using calculation(1) sl assms(3) by auto
  ultimately have "u < length pcs" "pcs[t := MX_idle] ! u = MX_wait FW_blocked" "contending F a (futex_wake F q a) u (MX_wait FW_blocked)"
    using sl by (auto simp: contending_def)
  then show ?thesis unfolding rouses_def by (intro exI [of _ u]) simp
qed

lemma mutex_wake_run:
  assumes F: "futex_contract F" and I: "mutex_wake_inv F a (w, q) pcs" and t: "t < length pcs"
    and s: "mutex_run F a (w, q) t (pcs ! t) = Some ((w', q'), pc')"
  shows "mutex_wake_inv F a (w', q') (pcs[t := pc'])"
proof -
  note split = mutex_run_split [OF s]
  have sl: "\<forall>u \<in> fx_sleeping F q a. u < length pcs \<and> pcs ! u = MX_wait FW_blocked"
    and ro: "fx_sleeping F q a \<noteq> {} \<Longrightarrow> w = 2 \<or> rouses F a q pcs"
    using I by (simp_all add: mutex_wake_inv_def)
  have awake: "t \<notin> fx_sleeping F q a" using split sl by (elim disjE conjE) auto
  have sub: "fx_sleeping F q' a \<subseteq> fx_sleeping F q a \<or> pc' = MX_wait FW_blocked \<and> fx_sleeping F q' a = insert t (fx_sleeping F q a)"
    using split fx_wait_sleeping [OF F, of q a t a] futex_wake_subset [OF F, of q a a] by (elim disjE conjE) simp_all
  have 1: "\<forall>u \<in> fx_sleeping F q' a. u < length (pcs[t := pc']) \<and> pcs[t := pc'] ! u = MX_wait FW_blocked"
    using sub sl awake t by (auto simp: nth_list_update)
  have 2: "w' = 2 \<or> rouses F a q' (pcs[t := pc'])" if ne: "fx_sleeping F q' a \<noteq> {}"
  proof -
    have self: ?thesis if "pc' = MX_wake \<or> contending F a q' t pc'" using rouses_self [OF t that] ..
    have other: ?thesis if "q' = q" "w' = 2 \<or> w \<noteq> 2" "pcs ! t \<noteq> MX_wake" "\<not> contending F a q t (pcs ! t)"
      using that ne ro rouses_other [of F a q pcs t q' pc'] by blast
    show ?thesis
      using split
      by (elim disjE conjE)
        (use self other awake rouses_wake [OF F I _, of t] ne in \<open>simp_all add: contending_def\<close>)
  qed
  show ?thesis using 1 2 by (simp add: mutex_wake_inv_def)
qed

lemma mutex_wake_call:
  assumes "mutex_wake_inv F a g pcs" "t < length pcs" "mutex_call (pcs ! t) pc'"
  shows "mutex_wake_inv F a g (pcs[t := pc'])"
proof -
  have "pcs ! t = MX_idle \<or> pcs ! t = MX_held" using assms(3) by (auto simp: mutex_call_def)
  then have "t \<notin> fx_sleeping F (snd g) a" "rouses F a (snd g) pcs \<Longrightarrow> rouses F a (snd g) (pcs[t := pc'])"
    using assms(1) rouses_other [of F a "snd g" pcs t "snd g" pc'] by (auto simp: mutex_wake_inv_def contending_def)
  then show ?thesis using assms(1) unaffected [of "fx_sleeping F (snd g) a" pcs "\<lambda>pc. pc = MX_wait FW_blocked" t pc']
    unfolding mutex_wake_inv_def by blast
qed

lemma mutex_wake_env:
  assumes "futex_contract F" "mutex_wake_inv F a g pcs" "mutex_env F a g g'"
  shows "mutex_wake_inv F a g' pcs"
proof -
  have sub: "fx_sleeping F (snd g') a \<subseteq> fx_sleeping F (snd g) a" "fst g' = fst g"
    using assms(1,3) by (simp_all add: mutex_env_def)
  have "rouses F a (snd g') pcs" if "rouses F a (snd g) pcs"
    using that sub(1) unfolding rouses_def contending_def by (fastforce split: mutex_pc.splits)
  then show ?thesis using assms(2) sub by (auto simp: mutex_wake_inv_def)
qed

lemma mutex_wake_spawn:
  assumes "mutex_wake_inv F a g pcs"
  shows "mutex_wake_inv F a g (pcs @ [MX_idle])"
proof -
  have "rouses F a (snd g) pcs \<Longrightarrow> rouses F a (snd g) (pcs @ [MX_idle])"
    unfolding rouses_def by (metis length_append_singleton less_Suc_eq nth_append)
  then show ?thesis using assms by (auto simp: mutex_wake_inv_def nth_append)
qed

interpretation mutex_wakes: conc_invariant "mutex_run F a" mutex_call "mutex_env F a" mutex_spawn "mutex_new q n"
    "\<lambda>g pcs. futex_contract F \<and> fx_sleeping F q a = {} \<longrightarrow> mutex_wake_inv F a g pcs"
  for F :: "'q futex" and a q n
proof unfold_locales
  fix g :: "'q mutex_shared" and pcs t g' pc'
  assume "futex_contract F \<and> fx_sleeping F q a = {} \<longrightarrow> mutex_wake_inv F a g pcs" "t < length pcs"
    "mutex_run F a g t (pcs ! t) = Some (g', pc')"
  then show "futex_contract F \<and> fx_sleeping F q a = {} \<longrightarrow> mutex_wake_inv F a g' (pcs[t := pc'])"
    using mutex_wake_run [of F a "fst g" "snd g" pcs t "fst g'" "snd g'" pc'] by simp
next
  fix g g' :: "'q mutex_shared" and pcs
  assume "futex_contract F \<and> fx_sleeping F q a = {} \<longrightarrow> mutex_wake_inv F a g pcs" "mutex_env F a g g'"
  then show "futex_contract F \<and> fx_sleeping F q a = {} \<longrightarrow> mutex_wake_inv F a g' pcs" using mutex_wake_env by blast
qed (simp_all add: mutex_wake_call mutex_spawn_def mutex_wake_spawn, simp add: mutex_wake_inv_def mutex_new_def)

section \<open>Progress\<close>

fun mutex_rank :: "mutex_pc \<Rightarrow> nat" where
  "mutex_rank MX_cas = 1"
| "mutex_rank MX_try = 1"
| "mutex_rank MX_swap = 1"
| "mutex_rank MX_wake = 1"
| "mutex_rank (MX_wait FW_load) = 2"
| "mutex_rank (MX_wait FW_call) = 3"
| "mutex_rank (MX_wait FW_blocked) = 3"
| "mutex_rank _ = 0"

definition locking :: "mutex_pc \<Rightarrow> bool" where
  "locking pc = (case pc of MX_cas \<Rightarrow> True | MX_swap \<Rightarrow> True | MX_wait _ \<Rightarrow> True | _ \<Rightarrow> False)"

definition mutex_taken :: "('q mutex_shared, mutex_pc) conc \<Rightarrow> bool" where
  "mutex_taken s \<longleftrightarrow> (\<exists>t < length (snd s). snd s ! t = MX_held)"

text \<open>The word is 0 and some thread is inside \<open>lock\<close>.\<close>

definition mutex_wanted :: "'q futex \<Rightarrow> nat \<Rightarrow> ('q mutex_shared, mutex_pc) conc \<Rightarrow> bool" where
  "mutex_wanted F a s \<longleftrightarrow> futex_contract F \<and> mutex_inv (fst s) (snd s) \<and> mutex_wake_inv F a (fst s) (snd s) \<and>
     fst (fst s) = 0 \<and> (\<exists>t < length (snd s). locking (snd s ! t))"

lemma mutex_wanted_step:
  assumes P: "mutex_wanted F a s" and "run_thread (mutex_run F a) t s = Some s'"
  shows "mutex_taken s' \<or> mutex_wanted F a s' \<and> thread_sum mutex_rank (snd s') < thread_sum mutex_rank (snd s)"
proof -
  obtain w q pcs w' q' pc' where s: "s = ((w, q), pcs)" "s' = ((w', q'), pcs[t := pc'])" and t: "t < length pcs"
    and r: "mutex_run F a (w, q) t (pcs ! t) = Some ((w', q'), pc')"
    using assms(2) by (cases s) (auto simp: run_thread_def split: if_splits)
  note split = mutex_run_split [OF r]
  have w0: "w = 0" "\<not> holding (pcs ! t)"
    using P t threads_zero [of holding pcs] by (auto simp: mutex_wanted_def mutex_inv_def s)
  obtain u where u: "u < length pcs" "locking (pcs ! u)" using P by (auto simp: mutex_wanted_def s)
  show ?thesis
  proof (cases "pc' = MX_held")
    case False
    have rank: "mutex_rank pc' < mutex_rank (pcs ! t)" and w': "w' = 0" and lk: "locking pc' \<or> u \<noteq> t"
      using split w0 False u(2) by (elim disjE conjE; simp add: holding_def; auto simp: locking_def)+
    have "mutex_inv (w', q') (pcs[t := pc'])" "mutex_wake_inv F a (w', q') (pcs[t := pc'])"
      using P mutex_run_inv [OF _ t r] mutex_wake_run [OF _ _ t r] by (auto simp: mutex_wanted_def s)
    moreover have "\<exists>v < length pcs. locking (pcs[t := pc'] ! v)" using lk u t by (cases "locking pc'") auto
    ultimately show ?thesis
      using P w' rank thread_sum_update [OF t, of mutex_rank pc'] by (simp add: mutex_wanted_def s)
  qed (use t in \<open>auto simp: mutex_taken_def s\<close>)
qed

lemma mutex_wanted_moves:
  assumes "mutex_wanted F a s"
  shows "\<exists>t. run_thread (mutex_run F a) t s \<noteq> None"
proof -
  obtain w q pcs where s: "s = ((w, q), pcs)" by (metis prod.collapse)
  obtain u where u: "u < length pcs" "locking (pcs ! u)" using assms by (auto simp: mutex_wanted_def s)
  have go: ?thesis if "v < length pcs" "pcs ! v = MX_wake \<or> contending F a q v (pcs ! v) \<or> pcs ! v = MX_cas" for v
    using that by (intro exI [of _ v])
      (auto simp: run_thread_def s mutex_run_defs contending_def split: mutex_pc.splits futex_pc.splits)
  show ?thesis
  proof (cases "u \<in> fx_sleeping F q a")
    case True
    then have "rouses F a q pcs" using assms by (auto simp: mutex_wanted_def mutex_wake_inv_def s)
    then show ?thesis using go by (auto simp: rouses_def)
  next
    case False
    then show ?thesis using go [OF u(1)] u(2) by (auto simp: locking_def contending_def split: mutex_pc.splits)
  qed
qed

interpretation mutex_moves: conc_progress "mutex_run F a" "mutex_wanted F a" mutex_taken "\<lambda>s. thread_sum mutex_rank (snd s)"
  for F :: "'q futex" and a
  by unfold_locales (rule mutex_wanted_step mutex_wanted_moves; assumption)+

section \<open>Properties\<close>

text \<open>C4: \<open>Mutex\<close> excludes: in every state that any interleaving of \<open>lock\<close>, \<open>try_lock\<close> and guard drops by any
number of threads reaches, at most one thread has the lock, and the word is 0 exactly when none has.\<close>

theorem mutex_exclusion:
  assumes "mutex_reach F a (mutex_new q n) ((w, q'), pcs)"
  shows "(w = 0 \<longleftrightarrow> (\<forall>t < length pcs. \<not> holding (pcs ! t))) \<and>
     (\<forall>t u. t < length pcs \<longrightarrow> u < length pcs \<longrightarrow> holding (pcs ! t) \<longrightarrow> holding (pcs ! u) \<longrightarrow> t = u)"
proof -
  have I: "mutex_inv (w, q') pcs" using mutex.reach_inv [OF assms] by simp
  then have "threads holding pcs \<le> 1" by (simp add: mutex_inv_def split: if_splits)
  then show ?thesis using I threads_unique [of holding pcs] threads_zero [of holding pcs] by (simp add: mutex_inv_def split: if_splits)
qed

text \<open>Two threads: the second one sleeps in \<open>lock\<close> while the first one holds the lock.\<close>

definition contended_lock :: "mutex_pc action list" where
  "contended_lock = [Call 0 MX_cas, Run 0, Call 1 MX_cas, Run 1, Run 1, Run 1, Run 1]"

lemmas mutex_eval = mutex_new_def mutex_call_def mutex_run_defs run_thread_def fifo_futex_def numeral_2_eq_2

lemma contended_lock_reach:
  "mutex_reach (fifo_futex Linux_x86_64) 0 (mutex_new [] 2) ((2, [(0, 1)]), [MX_held, MX_wait FW_blocked])"
  by (rule conc_exec_reach [of _ _ _ contended_lock]) (simp add: contended_lock_def mutex_eval)

theorem mutex_exclusion_witness:
  "mutex_reach (fifo_futex Linux_x86_64) 0 (mutex_new [] 2) ((2, [(0, 1)]), [MX_held, MX_wait FW_blocked]) \<and>
   \<not> holding (MX_wait FW_blocked)"
  using mutex_exclusion [OF contended_lock_reach, THEN conjunct2, rule_format, of 0 1] contended_lock_reach
  by (auto simp: holding_def)

text \<open>C5: No wake is lost: whenever the mutex is free and a thread is inside \<open>lock\<close>, asleep or not, some thread
can move, and however the threads are scheduled one of them has the lock after at most three steps per thread.\<close>

theorem mutex_progress:
  assumes "futex_contract F" "fx_sleeping F q a = {}" "mutex_reach F a (mutex_new q n) ((0, q'), pcs)"
    and "t < length pcs" "locking (pcs ! t)"
  shows "progresses (mutex_run F a) mutex_taken (3 * length pcs) ((0, q'), pcs)"
proof -
  have "mutex_wanted F a ((0, q'), pcs)"
    using assms mutex.reach_inv [OF assms(3)] mutex_wakes.reach_inv [OF assms(3)] by (auto simp: mutex_wanted_def)
  then have "progresses (mutex_run F a) mutex_taken (thread_sum mutex_rank pcs) ((0, q'), pcs)"
    using mutex_moves.progress by fastforce
  moreover have "thread_sum mutex_rank pcs \<le> 3 * length pcs"
  proof (rule thread_sum_le)
    show "mutex_rank pc \<le> 3" for pc by (cases pc rule: mutex_rank.cases) simp_all
  qed
  ultimately show ?thesis by (rule progresses_mono)
qed

lemma contended_release_reach:
  "mutex_reach (fifo_futex Linux_x86_64) 0 (mutex_new [] 2) ((0, [(0, 1)]), [MX_wake, MX_wait FW_blocked])"
  by (rule conc_exec_reach [of _ _ _ "contended_lock @ [Call 0 MX_release, Run 0]"])
    (simp add: contended_lock_def mutex_eval)

theorem mutex_progress_witness:
  "progresses (mutex_run (fifo_futex Linux_x86_64) 0) mutex_taken 6 ((0, [(0, 1)]), [MX_wake, MX_wait FW_blocked])"
proof -
  have "fx_sleeping (fifo_futex Linux_x86_64) [] 0 = {}" "locking ([MX_wake, MX_wait FW_blocked] ! 1)"
    by (simp_all add: fifo_futex_def locking_def)
  then show ?thesis
    using mutex_progress [OF fifo_futex_contract _ contended_release_reach, of 1] by simp
qed

end
