(* ===== verification/Condvars.thy ===== *)
theory Condvars
  imports Mutexes
begin

text \<open>
  \<open>Condvar\<close> of \<open>src/sync.rs\<close>: a sequence number that \<open>notify_one\<close> and \<open>notify_all\<close> increment
  before they wake. \<open>wait\<close> reads it while the caller still has the mutex, unlocks, sleeps on
  the number and locks again. The steps work on the mutex word, the sequence number and the
  kernel, the mutex at address \<open>a\<close> and the number at address \<open>b\<close>.
\<close>

datatype condvar_pc =
    CV_load
  | CV_unlock u32 mutex_pc
  | CV_block u32 futex_pc
  | CV_relock mutex_pc

type_synonym 'q condvar_shared = "u32 \<times> u32 \<times> 'q"

text \<open>The last component is \<^term>\<open>None\<close> when \<open>wait\<close> returns with the mutex locked.\<close>

definition condvar_wait ::
    "'q futex \<Rightarrow> nat \<Rightarrow> nat \<Rightarrow> 'q condvar_shared \<Rightarrow> nat \<Rightarrow> condvar_pc \<Rightarrow> ('q condvar_shared \<times> condvar_pc option) option" where
  "condvar_wait F a b g t pc =
     (case g of (w, seq, q) \<Rightarrow>
        (case pc of
           CV_load \<Rightarrow> Some ((w, seq, q), Some (CV_unlock seq MX_release))
         | CV_unlock s m \<Rightarrow>
             map_option (\<lambda>((w', q'), m'). ((w', seq, q'), Some (if m' = MX_idle then CV_block s FW_load else CV_unlock s m')))
               (raw_unlock F a (w, q) t m)
         | CV_block s fp \<Rightarrow>
             map_option (\<lambda>(q', r). ((w, seq, q'), Some (case r of Some fp' \<Rightarrow> CV_block s fp' | None \<Rightarrow> CV_relock MX_cas)))
               (futex_wait F b s t seq q fp)
         | CV_relock m \<Rightarrow>
             map_option (\<lambda>((w', q'), m'). ((w', seq, q'), if m' = MX_held then None else Some (CV_relock m')))
               (raw_lock F a (w, q) t m)))"

datatype notify_pc = NT_bump | NT_wake

text \<open>\<open>notify_one\<close> and \<open>notify_all\<close>; \<^term>\<open>None\<close> when the call is over.\<close>

definition notify_one :: "'q futex \<Rightarrow> nat \<Rightarrow> u32 \<times> 'q \<Rightarrow> notify_pc \<Rightarrow> (u32 \<times> 'q) \<times> notify_pc option" where
  "notify_one F b g pc =
     (case g of (seq, q) \<Rightarrow>
        (case pc of NT_bump \<Rightarrow> ((seq + 1, q), Some NT_wake) | NT_wake \<Rightarrow> ((seq, futex_wake F q b), None)))"

definition notify_all :: "'q futex \<Rightarrow> nat \<Rightarrow> u32 \<times> 'q \<Rightarrow> notify_pc \<Rightarrow> (u32 \<times> 'q) \<times> notify_pc option" where
  "notify_all F b g pc =
     (case g of (seq, q) \<Rightarrow>
        (case pc of NT_bump \<Rightarrow> ((seq + 1, q), Some NT_wake) | NT_wake \<Rightarrow> ((seq, futex_wake_all F q b), None)))"

text \<open>What a thread inside \<open>wait\<close> is doing with the mutex.\<close>

fun condvar_mutex :: "condvar_pc \<Rightarrow> mutex_pc" where
  "condvar_mutex CV_load = MX_held"
| "condvar_mutex (CV_unlock s m) = m"
| "condvar_mutex (CV_block s fp) = MX_idle"
| "condvar_mutex (CV_relock m) = m"

text \<open>Positions \<open>wait\<close> can have: the parts of the mutex code it uses.\<close>

fun condvar_ok :: "condvar_pc \<Rightarrow> bool" where
  "condvar_ok (CV_unlock s m) = (m = MX_release \<or> m = MX_wake)"
| "condvar_ok (CV_relock m) = locking m"
| "condvar_ok _ = True"

lemma raw_unlock_mutex: "raw_unlock F a g t m = Some r \<Longrightarrow> mutex_run F a g t m = Some r"
  by (cases m) (auto simp: mutex_run_def raw_unlock_def split: prod.splits)

lemma raw_lock_mutex: "raw_lock F a g t m = Some r \<Longrightarrow> mutex_run F a g t m = Some r"
  by (cases m) (auto simp: mutex_run_def raw_lock_def split: prod.splits)

lemma raw_unlock_next: "raw_unlock F a g t m = Some (g', m') \<Longrightarrow> (m = MX_release \<and> m' = MX_wake) \<or> m' = MX_idle"
  by (cases m) (auto simp: raw_unlock_def split: prod.splits if_splits)

lemma raw_lock_next: "raw_lock F a g t m = Some (g', m') \<Longrightarrow> m' = MX_held \<or> locking m'"
  by (cases m) (auto simp: raw_lock_def locking_def split: prod.splits if_splits option.splits)

lemma raw_lock_locking: "raw_lock F a g t m = Some r \<Longrightarrow> locking m"
  by (cases m) (auto simp: raw_lock_def locking_def split: prod.splits)

text \<open>Seen from the mutex, a step of \<open>wait\<close> is a step of the mutex or a call or nothing.\<close>

lemma condvar_wait_mutex:
  assumes "condvar_wait F a b (w, seq, q) t pc = Some ((w', seq', q'), r)" "a \<noteq> b"
  defines "m' \<equiv> (case r of Some pc' \<Rightarrow> condvar_mutex pc' | None \<Rightarrow> MX_held)"
  shows "mutex_run F a (w, q) t (condvar_mutex pc) = Some ((w', q'), m') \<or>
    mutex_env F a (w, q) (w', q') \<and> (m' = condvar_mutex pc \<or> mutex_call (condvar_mutex pc) m')"
proof (cases pc)
  case CV_load
  then show ?thesis using assms by (auto simp: condvar_wait_def mutex_env_def mutex_call_def)
next
  case (CV_unlock s m)
  then obtain m1 where m1: "raw_unlock F a (w, q) t m = Some ((w', q'), m1)"
      "r = Some (if m1 = MX_idle then CV_block s FW_load else CV_unlock s m1)"
    using assms(1) by (auto simp: condvar_wait_def)
  show ?thesis using raw_unlock_mutex [OF m1(1)] m1(2) CV_unlock by (auto simp: m'_def)
next
  case (CV_block s fp)
  then obtain r1 where f: "futex_wait F b s t seq q fp = Some (q', r1)" "w' = w"
      "r = Some (case r1 of Some fp' \<Rightarrow> CV_block s fp' | None \<Rightarrow> CV_relock MX_cas)"
    using assms(1) by (auto simp: condvar_wait_def)
  have "q' = q \<or> q' = fx_wait F q b t" using f(1) by (auto simp: futex_wait_def split: futex_pc.splits if_splits)
  then have "mutex_env F a (w, q) (w', q')" using f(2) assms(2) fx_wait_sleeping [of F q b t a] by (auto simp: mutex_env_def)
  then show ?thesis using CV_block f(3) by (auto simp: m'_def mutex_call_def split: option.splits)
next
  case (CV_relock m)
  then obtain m1 where m1: "raw_lock F a (w, q) t m = Some ((w', q'), m1)" "r = (if m1 = MX_held then None else Some (CV_relock m1))"
    using assms(1) by (auto simp: condvar_wait_def)
  show ?thesis using raw_lock_mutex [OF m1(1)] m1(2) CV_relock by (auto simp: m'_def)
qed

lemma condvar_wait_ok:
  assumes "condvar_wait F a b g t cv = Some (g', r)" "condvar_ok cv"
  shows "case r of Some cv' \<Rightarrow> condvar_ok cv' \<and> (holding (condvar_mutex cv') \<longrightarrow> holding (condvar_mutex cv)) | None \<Rightarrow> True"
proof -
  obtain w seq q where g: "g = (w, seq, q)" by (metis prod.collapse)
  show ?thesis
  proof (cases cv)
    case (CV_unlock s m)
    then obtain w' q' m' where m: "raw_unlock F a (w, q) t m = Some ((w', q'), m')"
        "r = Some (if m' = MX_idle then CV_block s FW_load else CV_unlock s m')"
      using assms(1) by (auto simp: condvar_wait_def g)
    then show ?thesis using raw_unlock_next [OF m(1)] CV_unlock by (auto simp: holding_def)
  next
    case (CV_relock m)
    then obtain w' q' m' where m: "raw_lock F a (w, q) t m = Some ((w', q'), m')"
        "r = (if m' = MX_held then None else Some (CV_relock m'))"
      using assms(1) by (auto simp: condvar_wait_def g)
    then show ?thesis using raw_lock_next [OF m(1)] CV_relock by (auto simp: holding_def locking_def)
  next
    case (CV_block s fp)
    then obtain r1 where "r = Some (case r1 of Some fp' \<Rightarrow> CV_block s fp' | None \<Rightarrow> CV_relock MX_cas)"
      using assms(1) by (auto simp: condvar_wait_def g)
    then show ?thesis by (simp add: holding_def locking_def split: option.split)
  next
    case CV_load
    then have "r = Some (CV_unlock seq MX_release)" using assms(1) by (simp add: condvar_wait_def g)
    then show ?thesis using CV_load by (simp add: holding_def)
  qed
qed

text \<open>The mutex code touches no other address, and moves unless its thread sleeps.\<close>

lemma raw_lock_sleeping:
  assumes "futex_contract F" "raw_lock F a (w, q) t m = Some ((w', q'), m')" "b \<noteq> a"
  shows "fx_sleeping F q' b = fx_sleeping F q b"
  using assms(2) fx_wait_sleeping [OF assms(1), of q a t b] assms(3)
  by (cases m) (auto simp: raw_lock_def futex_wait_def split: if_splits futex_pc.splits)

lemma raw_unlock_sleeping:
  assumes "futex_contract F" "raw_unlock F a (w, q) t m = Some ((w', q'), m')"
  shows "fx_sleeping F q' b \<subseteq> fx_sleeping F q b"
  using assms(2) futex_wake_subset [OF assms(1), of q a b] by (cases m) (auto simp: raw_unlock_def)

lemma raw_lock_enabled:
  "locking m \<Longrightarrow> m = MX_wait FW_blocked \<longrightarrow> t \<notin> fx_sleeping F (snd g) a \<Longrightarrow> \<exists>g' m'. raw_lock F a g t m = Some (g', m')"
  by (cases m; cases g) (auto simp: locking_def raw_lock_def futex_wait_def split: futex_pc.splits)

lemma raw_unlock_enabled: "m = MX_release \<or> m = MX_wake \<Longrightarrow> \<exists>g' m'. raw_unlock F a g t m = Some (g', m')"
  by (cases g) (auto simp: raw_unlock_def)

text \<open>A sequence number read before an increment differs from the one after it.\<close>

lemma bump_differs:
  assumes "unat (s :: u32) \<le> n" "n + 1 < 2 ^ 32"
  shows "s \<noteq> of_nat n + 1"
proof
  assume "s = of_nat n + 1"
  then have "s = of_nat (n + 1)" by simp
  then have "unat s = n + 1" using unat_of_nat_u32 [of "n + 1"] assms(2) by simp
  then show False using assms(1) by simp
qed

lemma condvar_enabled:
  assumes "condvar_ok cv" "condvar_mutex cv = MX_wait FW_blocked \<longrightarrow> t \<notin> fx_sleeping F q a"
    and "\<forall>s. cv = CV_block s FW_blocked \<longrightarrow> t \<notin> fx_sleeping F q b"
  shows "condvar_wait F a b (w, seq, q) t cv \<noteq> None"
proof (cases cv)
  case (CV_unlock s m)
  then show ?thesis using assms(1) raw_unlock_enabled [of m F a "(w, q)" t] by (auto simp: condvar_wait_def)
next
  case (CV_relock m)
  then show ?thesis using assms(1,2) raw_lock_enabled [of m t F "(w, q)" a] by (auto simp: condvar_wait_def)
next
  case (CV_block s fp)
  then show ?thesis using assms(3) by (cases fp) (auto simp: condvar_wait_def futex_wait_def)
qed (simp add: condvar_wait_def)

text \<open>At the address of the sequence number a step of \<open>wait\<close> sleeps or adds nobody.\<close>

lemma condvar_wait_queue:
  assumes F: "futex_contract F" and r: "condvar_wait F a b (w, seq, q) t cv = Some ((w', seq', q'), r)" and "a \<noteq> b"
  shows "seq' = seq \<and>
    (cv = CV_block seq FW_call \<and> r = Some (CV_block seq FW_blocked) \<and> q' = fx_wait F q b t \<or>
     fx_sleeping F q' b \<subseteq> fx_sleeping F q b \<and> (\<forall>s. r \<noteq> Some (CV_block s FW_blocked)))"
proof (cases cv)
  case (CV_unlock s m)
  then obtain m' where m: "raw_unlock F a (w, q) t m = Some ((w', q'), m')" "seq' = seq"
      "r = Some (if m' = MX_idle then CV_block s FW_load else CV_unlock s m')"
    using r by (auto simp: condvar_wait_def)
  then show ?thesis using raw_unlock_sleeping [OF F m(1), of b] by auto
next
  case (CV_relock m)
  then obtain m' where m: "raw_lock F a (w, q) t m = Some ((w', q'), m')" "seq' = seq"
      "r = (if m' = MX_held then None else Some (CV_relock m'))"
    using r by (auto simp: condvar_wait_def)
  then show ?thesis using raw_lock_sleeping [OF F m(1), of b] assms(3) by auto
next
  case (CV_block s fp)
  then show ?thesis using r by (cases fp) (auto simp: condvar_wait_def futex_wait_def split: if_splits)
qed (use r in \<open>auto simp: condvar_wait_def\<close>)

text \<open>The sequence number a position waits to change.\<close>

fun condvar_seq :: "condvar_pc \<Rightarrow> u32 option" where
  "condvar_seq (CV_unlock s m) = Some s"
| "condvar_seq (CV_block s fp) = Some s"
| "condvar_seq _ = None"

lemma condvar_wait_seq:
  assumes "condvar_wait F a b (w, seq, q) t cv = Some (g, r)" "r = Some cv'" "condvar_seq cv' = Some s"
  shows "condvar_seq cv = Some s \<or> cv = CV_load \<and> s = seq"
  using assms by (cases cv) (auto simp: condvar_wait_def split: if_splits option.splits)

lemma condvar_wait_load:
  assumes "condvar_wait F a b g t cv = Some (g', r)"
  shows "r \<noteq> Some CV_load"
  using assms by (cases cv; cases g) (auto simp: condvar_wait_def split: if_splits option.splits)

section \<open>Waiting for a condition\<close>

text \<open>\<open>wait_while\<close> on the data \<open>d\<close> that the mutex protects, with a condition that may change the data; \<^term>\<open>None\<close> when it
returns.\<close>

datatype wait_while_pc = WH_test | WH_wait condvar_pc

definition wait_while ::
    "'q futex \<Rightarrow> nat \<Rightarrow> nat \<Rightarrow> ('d \<Rightarrow> 'd \<times> bool) \<Rightarrow> 'd \<times> 'q condvar_shared \<Rightarrow> nat \<Rightarrow> wait_while_pc \<Rightarrow>
     (('d \<times> 'q condvar_shared) \<times> wait_while_pc option) option" where
  "wait_while F a b condition g t pc =
     (case g of (d, c) \<Rightarrow>
        (case pc of
           WH_test \<Rightarrow>
             (case condition d of (d', holds) \<Rightarrow> Some ((d', c), if holds then Some (WH_wait CV_load) else None))
         | WH_wait cv \<Rightarrow>
             map_option (\<lambda>(c', r). ((d, c'), Some (case r of Some cv' \<Rightarrow> WH_wait cv' | None \<Rightarrow> WH_test)))
               (condvar_wait F a b c t cv)))"

text \<open>It returns right after it found the condition false, and leaves the data to the other threads in between.\<close>

lemma wait_while_returns:
  assumes "wait_while F a b condition (d, c) t pc = Some ((d', c'), None)"
  shows "pc = WH_test \<and> condition d = (d', False) \<and> c' = c"
  using assms by (cases pc) (auto simp: wait_while_def split: prod.splits if_splits)

lemma wait_while_waits:
  "wait_while F a b condition (d, c) t (WH_wait cv) = Some ((d', c'), r) \<Longrightarrow> d' = d"
  by (auto simp: wait_while_def)

end
