(* ===== verification/Barriers.thy ===== *)
theory Barriers
  imports Condvars
begin

text \<open>
  \<open>Barrier\<close> of \<open>src/sync.rs\<close>: a count and a generation under a \<open>Mutex\<close> (address 0) with a
  \<open>Condvar\<close> (address 1). As in the channel, the state under the mutex is read and written in
  separate steps. \<open>ba_rounds\<close> counts the generations without wrapping around and \<open>ba_log\<close>
  records, for every wait that returned, the round it arrived in and whether it was the
  leader; a position inside \<open>wait\<close> carries its round. No step reads them.
\<close>

section \<open>The barrier\<close>

record 'q barrier =
  ba_lock :: u32
  ba_count :: u64
  ba_generation :: u64
  ba_seq :: u32
  ba_n :: u64
  ba_kernel :: 'q
  ba_rounds :: nat
  ba_log :: "(nat \<times> bool) list"

datatype barrier_pc =
    BW_idle
  | BW_lock mutex_pc
  | BW_locked
  | BW_arrive nat u64 u64
  | BW_check nat u64
  | BW_wait nat u64 condvar_pc
  | BW_reset nat
  | BW_notify nat notify_pc
  | BW_unlock nat bool mutex_pc

definition barrier_new :: "u64 \<Rightarrow> 'q \<Rightarrow> 'q barrier" where
  "barrier_new n q =
     \<lparr> ba_lock = 0, ba_count = 0, ba_generation = 0, ba_seq = 0, ba_n = n, ba_kernel = q, ba_rounds = 0, ba_log = [] \<rparr>"

definition barrier_on_lock :: "('q mutex_shared, mutex_pc) runner \<Rightarrow> ('q barrier, mutex_pc) runner" where
  "barrier_on_lock f b t m =
     map_option (\<lambda>((w, q), m'). (b \<lparr> ba_lock := w, ba_kernel := q \<rparr>, m')) (f (ba_lock b, ba_kernel b) t m)"

definition barrier_wait :: "'q futex \<Rightarrow> ('q barrier, barrier_pc) runner" where
  "barrier_wait F b t pc =
     (case pc of
        BW_lock m \<Rightarrow>
          map_option (\<lambda>(b', m'). (b', if m' = MX_held then BW_locked else BW_lock m')) (barrier_on_lock (raw_lock F 0) b t m)
      | BW_locked \<Rightarrow> Some (b, BW_arrive (ba_rounds b) (ba_generation b) (ba_count b))
      | BW_arrive k gen count \<Rightarrow>
          Some (b \<lparr> ba_count := count + 1 \<rparr>, if count + 1 < ba_n b then BW_check k gen else BW_reset k)
      | BW_check k gen \<Rightarrow>
          Some (b, if gen = ba_generation b then BW_wait k gen CV_load else BW_unlock k False MX_release)
      | BW_wait k gen cv \<Rightarrow>
          map_option (\<lambda>((w, s, q), r). (b \<lparr> ba_lock := w, ba_seq := s, ba_kernel := q \<rparr>,
                                        case r of Some cv' \<Rightarrow> BW_wait k gen cv' | None \<Rightarrow> BW_check k gen))
            (condvar_wait F 0 1 (ba_lock b, ba_seq b, ba_kernel b) t cv)
      | BW_reset k \<Rightarrow>
          Some (b \<lparr> ba_count := 0, ba_generation := ba_generation b + 1, ba_rounds := ba_rounds b + 1 \<rparr>, BW_notify k NT_bump)
      | BW_notify k n \<Rightarrow>
          (case notify_all F 1 (ba_seq b, ba_kernel b) n of
             ((s, q), r) \<Rightarrow>
               Some (b \<lparr> ba_seq := s, ba_kernel := q \<rparr>,
                     case r of Some n' \<Rightarrow> BW_notify k n' | None \<Rightarrow> BW_unlock k True MX_release))
      | BW_unlock k leader m \<Rightarrow>
          map_option (\<lambda>(b', m'). if m' = MX_idle then (b' \<lparr> ba_log := (k, leader) # ba_log b' \<rparr>, BW_idle)
                                  else (b', BW_unlock k leader m'))
            (barrier_on_lock (raw_unlock F 0) b t m)
      | _ \<Rightarrow> None)"

definition barrier_call :: "barrier_pc \<Rightarrow> barrier_pc \<Rightarrow> bool" where
  "barrier_call pc pc' \<longleftrightarrow> pc = BW_idle \<and> pc' = BW_lock MX_cas"

definition barrier_env :: "'q futex \<Rightarrow> 'q barrier \<Rightarrow> 'q barrier \<Rightarrow> bool" where
  "barrier_env F b b' \<longleftrightarrow> (\<exists>q. b' = b \<lparr> ba_kernel := q \<rparr> \<and> kernel_returns F (ba_kernel b) q)"

definition barrier_spawn :: "barrier_pc \<Rightarrow> barrier_pc \<times> barrier_pc \<Rightarrow> bool" where
  "barrier_spawn pc p \<longleftrightarrow> p = (pc, BW_idle)"

definition barrier_start :: "u64 \<Rightarrow> 'q \<Rightarrow> ('q barrier, barrier_pc) conc" where
  "barrier_start n q = (barrier_new n q, [BW_idle])"

abbreviation barrier_reach :: "'q futex \<Rightarrow> ('q barrier, barrier_pc) conc \<Rightarrow> ('q barrier, barrier_pc) conc \<Rightarrow> bool" where
  "barrier_reach F \<equiv> conc_reach (barrier_wait F) barrier_call (barrier_env F) barrier_spawn"

section \<open>The mutex of the barrier\<close>

fun barrier_mutex :: "barrier_pc \<Rightarrow> mutex_pc" where
  "barrier_mutex BW_idle = MX_idle"
| "barrier_mutex (BW_lock m) = m"
| "barrier_mutex (BW_wait k gen cv) = condvar_mutex cv"
| "barrier_mutex (BW_unlock k leader m) = m"
| "barrier_mutex _ = MX_held"

definition barrier_words :: "'q barrier \<Rightarrow> 'q mutex_shared" where
  "barrier_words b = (ba_lock b, ba_kernel b)"

lemma barrier_on_lock_Some:
  "barrier_on_lock f b t m = Some (b', m') \<longleftrightarrow>
     (\<exists>w q. f (ba_lock b, ba_kernel b) t m = Some ((w, q), m') \<and> b' = b \<lparr> ba_lock := w, ba_kernel := q \<rparr>)"
  by (auto simp: barrier_on_lock_def)

lemma barrier_wait_mutex:
  assumes "barrier_wait F b t pc = Some (b', pc')"
  shows "mutex_run F 0 (barrier_words b) t (barrier_mutex pc) = Some (barrier_words b', barrier_mutex pc') \<or>
     (barrier_words b' = barrier_words b \<or> mutex_env F 0 (barrier_words b) (barrier_words b')) \<and>
     (barrier_mutex pc' = barrier_mutex pc \<or> mutex_call (barrier_mutex pc) (barrier_mutex pc'))"
proof (cases pc)
  case (BW_lock m)
  then obtain w q m' where m: "raw_lock F 0 (ba_lock b, ba_kernel b) t m = Some ((w, q), m')"
      "b' = b \<lparr> ba_lock := w, ba_kernel := q \<rparr>" "pc' = (if m' = MX_held then BW_locked else BW_lock m')"
    using assms by (auto simp: barrier_wait_def barrier_on_lock_Some)
  then show ?thesis using raw_lock_mutex [OF m(1)] BW_lock by (simp add: barrier_words_def)
next
  case (BW_unlock k leader m)
  then obtain w q m' where m: "raw_unlock F 0 (ba_lock b, ba_kernel b) t m = Some ((w, q), m')"
      "barrier_words b' = (w, q)" "barrier_mutex pc' = m'"
    using assms by (auto simp: barrier_wait_def barrier_on_lock_Some barrier_words_def split: if_splits)
  then show ?thesis using raw_unlock_mutex [OF m(1)] BW_unlock by (simp add: barrier_words_def)
next
  case (BW_notify k n)
  have "mutex_env F 0 (barrier_words b) (barrier_words b')"
    using assms BW_notify futex_wake_all_subset [of F "ba_kernel b" 1 0]
    by (cases n) (auto simp: barrier_wait_def notify_all_def mutex_env_def barrier_words_def)
  moreover have "barrier_mutex pc' = MX_held \<or> barrier_mutex pc' = MX_release"
    using assms BW_notify by (cases n) (auto simp: barrier_wait_def notify_all_def)
  ultimately show ?thesis using BW_notify by (auto simp: mutex_call_def)
next
  case (BW_wait k gen cv)
  then obtain w s q r where m: "condvar_wait F 0 1 (ba_lock b, ba_seq b, ba_kernel b) t cv = Some ((w, s, q), r)"
      "b' = b \<lparr> ba_lock := w, ba_seq := s, ba_kernel := q \<rparr>" "pc' = (case r of Some cv' \<Rightarrow> BW_wait k gen cv' | None \<Rightarrow> BW_check k gen)"
    using assms by (auto simp: barrier_wait_def)
  have "barrier_mutex pc' = (case r of Some cv' \<Rightarrow> condvar_mutex cv' | None \<Rightarrow> MX_held)" using m(3) by (cases r) simp_all
  then show ?thesis using condvar_wait_mutex [OF m(1)] m(2) BW_wait by (auto simp: barrier_words_def)
qed (use assms in \<open>auto simp: barrier_wait_def barrier_words_def mutex_call_def split: if_splits\<close>)

interpretation barrier_uses: conc_projection "barrier_wait F" barrier_call "barrier_env F" barrier_spawn
    "mutex_run F 0" mutex_call "mutex_env F 0" mutex_spawn barrier_words barrier_mutex
  for F :: "'q futex"
proof unfold_locales
  fix b b' :: "'q barrier" and t pc pc'
  assume "barrier_wait F b t pc = Some (b', pc')"
  then show "mutex_run F 0 (barrier_words b) t (barrier_mutex pc) = Some (barrier_words b', barrier_mutex pc') \<or>
     (barrier_words b' = barrier_words b \<or> mutex_env F 0 (barrier_words b) (barrier_words b')) \<and>
     (barrier_mutex pc' = barrier_mutex pc \<or> mutex_call (barrier_mutex pc) (barrier_mutex pc'))"
    by (rule barrier_wait_mutex)
next
  fix b b' :: "'q barrier"
  assume "barrier_env F b b'"
  then have "mutex_env F 0 (barrier_words b) (barrier_words b')"
    unfolding barrier_env_def kernel_returns_def mutex_env_def barrier_words_def by (elim exE conjE) simp
  then show "barrier_words b' = barrier_words b \<or> mutex_env F 0 (barrier_words b) (barrier_words b')" ..
qed (auto simp: barrier_spawn_def mutex_spawn_def barrier_call_def mutex_call_def)

lemma barrier_mutex_reach:
  assumes "barrier_reach F (barrier_start n q) (b, pcs)"
  shows "mutex_reach F 0 (mutex_new q 1) (barrier_words b, map barrier_mutex pcs)"
  using barrier_uses.reach_sim [OF assms]
  by (simp add: barrier_uses.proj_def barrier_start_def barrier_new_def barrier_words_def mutex_new_def)

definition barrier_holds :: "barrier_pc \<Rightarrow> bool" where
  "barrier_holds pc \<longleftrightarrow> holding (barrier_mutex pc)"

lemma barrier_one_holder:
  assumes "barrier_reach F (barrier_start n q) (b, pcs)"
  shows "threads barrier_holds pcs \<le> 1"
proof -
  have "mutex_inv (barrier_words b) (map barrier_mutex pcs)" using mutex.reach_inv [OF barrier_mutex_reach [OF assms]] by simp
  moreover have "threads holding (map barrier_mutex pcs) = threads barrier_holds pcs"
    by (simp add: threads_def filter_map comp_def barrier_holds_def [abs_def])
  ultimately show ?thesis by (simp add: mutex_inv_def split: if_splits)
qed

section \<open>Rounds\<close>

text \<open>A barrier for 0 threads releases every thread at once, as one for 1 does.\<close>

definition barrier_size :: "'q barrier \<Rightarrow> nat" where
  "barrier_size b = max 1 (unat (ba_n b))"

text \<open>The round a position has arrived in, and the leader of a round.\<close>

fun arrived :: "nat \<Rightarrow> barrier_pc \<Rightarrow> bool" where
  "arrived j (BW_check k gen) = (k = j)"
| "arrived j (BW_wait k gen cv) = (k = j)"
| "arrived j (BW_reset k) = (k = j)"
| "arrived j (BW_notify k n) = (k = j)"
| "arrived j (BW_unlock k leader m) = (k = j)"
| "arrived j _ = False"

fun leads :: "nat \<Rightarrow> barrier_pc \<Rightarrow> bool" where
  "leads j (BW_notify k n) = (k = j)"
| "leads j (BW_unlock k leader m) = (k = j \<and> leader)"
| "leads j _ = False"

definition round_members :: "nat \<Rightarrow> 'q barrier \<Rightarrow> barrier_pc list \<Rightarrow> nat" where
  "round_members j b pcs = threads (arrived j) pcs + length (filter (\<lambda>x. fst x = j) (ba_log b))"

definition round_leaders :: "nat \<Rightarrow> 'q barrier \<Rightarrow> barrier_pc list \<Rightarrow> nat" where
  "round_leaders j b pcs = threads (leads j) pcs + length (filter (\<lambda>x. x = (j, True)) (ba_log b))"

text \<open>What a position says of the state.\<close>

fun barrier_local :: "'q barrier \<Rightarrow> barrier_pc \<Rightarrow> bool" where
  "barrier_local b (BW_lock m) = locking m"
| "barrier_local b BW_locked = (unat (ba_count b) < barrier_size b)"
| "barrier_local b (BW_arrive k gen count) =
     (k = ba_rounds b \<and> gen = ba_generation b \<and> count = ba_count b \<and> unat count < barrier_size b)"
| "barrier_local b (BW_check k gen) = (gen = of_nat k \<and> k \<le> ba_rounds b \<and> unat (ba_count b) < barrier_size b)"
| "barrier_local b (BW_wait k gen cv) =
     (gen = of_nat k \<and> k \<le> ba_rounds b \<and> condvar_ok cv \<and> (holding (condvar_mutex cv) \<longrightarrow> unat (ba_count b) < barrier_size b))"
| "barrier_local b (BW_reset k) = (k = ba_rounds b \<and> unat (ba_count b) = barrier_size b)"
| "barrier_local b (BW_notify k n) = (k < ba_rounds b \<and> unat (ba_count b) < barrier_size b)"
| "barrier_local b (BW_unlock k leader m) =
     (k < ba_rounds b \<and> (m = MX_release \<or> m = MX_wake) \<and> (m = MX_release \<longrightarrow> unat (ba_count b) < barrier_size b))"
| "barrier_local b BW_idle = True"

text \<open>Between two holders of the mutex the count is below the size.\<close>

definition barrier_inv :: "'q barrier \<Rightarrow> barrier_pc list \<Rightarrow> bool" where
  "barrier_inv b pcs \<longleftrightarrow>
     ba_generation b = of_nat (ba_rounds b) \<and> list_all (barrier_local b) pcs \<and>
     (unat (ba_count b) < barrier_size b \<or> list_ex (\<lambda>pc. \<exists>k. pc = BW_reset k) pcs) \<and>
     (\<forall>j. round_members j b pcs =
        (if j < ba_rounds b then barrier_size b else if j = ba_rounds b then unat (ba_count b) else 0)) \<and>
     (\<forall>j. round_leaders j b pcs = (if j < ba_rounds b then 1 else 0)) \<and>
     (\<forall>x \<in> set (ba_log b). fst x < ba_rounds b)"

text \<open>What a step does to the count, the rounds and the log.\<close>

definition same_round :: "'q barrier \<Rightarrow> 'q barrier \<Rightarrow> bool" where
  "same_round b b' \<longleftrightarrow> ba_count b' = ba_count b \<and> ba_generation b' = ba_generation b \<and> ba_rounds b' = ba_rounds b \<and> ba_n b' = ba_n b"

definition bystep :: "'q barrier \<Rightarrow> barrier_pc \<Rightarrow> 'q barrier \<Rightarrow> barrier_pc \<Rightarrow> bool" where
  "bystep b pc b' pc' \<longleftrightarrow> same_round b b' \<and> ba_log b' = ba_log b \<and> (\<forall>k. pc \<noteq> BW_reset k) \<and>
     (\<forall>j. (arrived j pc' \<longleftrightarrow> arrived j pc) \<and> (leads j pc' \<longleftrightarrow> leads j pc))"

definition leave_step :: "'q barrier \<Rightarrow> barrier_pc \<Rightarrow> 'q barrier \<Rightarrow> barrier_pc \<Rightarrow> bool" where
  "leave_step b pc b' pc' \<longleftrightarrow> same_round b b' \<and>
     (\<exists>k leader m. pc = BW_unlock k leader m \<and> pc' = BW_idle \<and> ba_log b' = (k, leader) # ba_log b)"

lemma barrier_wait_steps:
  assumes "barrier_wait F b t pc = Some (b', pc')"
  obtains (quiet) "bystep b pc b' pc'"
  | (leave) "leave_step b pc b' pc'"
  | (arrive) k gen count where "pc = BW_arrive k gen count" "b' = b \<lparr> ba_count := count + 1 \<rparr>"
      "pc' = (if count + 1 < ba_n b then BW_check k gen else BW_reset k)"
  | (reset) k where "pc = BW_reset k" "pc' = BW_notify k NT_bump"
      "b' = b \<lparr> ba_count := 0, ba_generation := ba_generation b + 1, ba_rounds := ba_rounds b + 1 \<rparr>"
proof (cases pc)
  case (BW_notify k n)
  then have "bystep b pc b' pc'" using assms by (cases n) (auto simp: barrier_wait_def notify_all_def bystep_def same_round_def)
  then show ?thesis by (rule quiet)
next
  case (BW_wait k gen cv)
  then obtain w s q r where m: "b' = b \<lparr> ba_lock := w, ba_seq := s, ba_kernel := q \<rparr>"
      "pc' = (case r of Some cv' \<Rightarrow> BW_wait k gen cv' | None \<Rightarrow> BW_check k gen)"
    using assms by (auto simp: barrier_wait_def)
  have "bystep b pc b' pc'" using m BW_wait by (simp add: bystep_def same_round_def split: option.split)
  then show ?thesis by (rule quiet)
next
  case (BW_lock m)
  then have "bystep b pc b' pc'" using assms
    by (auto simp: barrier_wait_def barrier_on_lock_Some bystep_def same_round_def split: if_splits)
  then show ?thesis by (rule quiet)
next
  case (BW_unlock k leader m)
  then obtain b1 m' where b1: "barrier_on_lock (raw_unlock F 0) b t m = Some (b1, m')"
      and m: "(if m' = MX_idle then (b1 \<lparr> ba_log := (k, leader) # ba_log b1 \<rparr>, BW_idle) else (b1, BW_unlock k leader m')) = (b', pc')"
    using assms by (auto simp: barrier_wait_def)
  have s: "same_round b b1" "ba_log b1 = ba_log b" using b1 by (auto simp: barrier_on_lock_Some same_round_def)
  show ?thesis
  proof (cases "m' = MX_idle")
    case True
    then show ?thesis using m BW_unlock s by (intro leave) (auto simp: leave_step_def same_round_def)
  next
    case False
    then show ?thesis using m BW_unlock s by (intro quiet) (auto simp: bystep_def same_round_def)
  qed
next
  case BW_locked
  then show ?thesis using assms by (intro quiet) (simp add: barrier_wait_def bystep_def same_round_def, auto)
next
  case (BW_check k gen)
  then show ?thesis using assms by (intro quiet) (auto simp: barrier_wait_def bystep_def same_round_def split: if_splits)
next
  case (BW_arrive k gen count)
  then show ?thesis using assms by (intro arrive [of k gen count]) (simp_all add: barrier_wait_def)
next
  case (BW_reset k)
  then show ?thesis using assms by (intro reset [of k]) (simp_all add: barrier_wait_def)
qed (use assms in \<open>simp add: barrier_wait_def\<close>)

lemma barrier_size_bound: "barrier_size b < 2 ^ 64"
  using unsigned_less [of "ba_n b", where 'a = nat] by (simp add: barrier_size_def)

lemma barrier_arrive:
  assumes "unat count < barrier_size b"
  shows "unat (count + 1) = unat count + 1" "count + 1 < ba_n b \<Longrightarrow> unat (count + 1) < barrier_size b"
    "\<not> count + 1 < ba_n b \<Longrightarrow> unat (count + 1) = barrier_size b"
proof -
  have "unat count + 1 < 2 ^ 64" using assms barrier_size_bound [of b] by simp
  then show 1: "unat (count + 1) = unat count + 1" by (simp add: unat_word_ariths)
  show "count + 1 < ba_n b \<Longrightarrow> unat (count + 1) < barrier_size b" by (simp add: barrier_size_def word_less_nat_alt)
  show "\<not> count + 1 < ba_n b \<Longrightarrow> unat (count + 1) = barrier_size b"
    using assms 1 by (simp add: barrier_size_def word_less_nat_alt max_def split: if_splits)
qed

lemma barrier_wait_local:
  assumes r: "barrier_wait F b t pc = Some (b', pc')" and l: "barrier_local b pc" and g: "ba_generation b = of_nat (ba_rounds b)"
    and free: "barrier_holds pc' \<Longrightarrow> \<not> barrier_holds pc \<Longrightarrow> unat (ba_count b) < barrier_size b"
  shows "barrier_local b' pc'"
proof (cases pc)
  case (BW_lock m)
  then obtain w q m' where m: "raw_lock F 0 (ba_lock b, ba_kernel b) t m = Some ((w, q), m')"
      "b' = b \<lparr> ba_lock := w, ba_kernel := q \<rparr>" "pc' = (if m' = MX_held then BW_locked else BW_lock m')"
    using r by (auto simp: barrier_wait_def barrier_on_lock_Some)
  have "\<not> barrier_holds pc" using raw_lock_locking [OF m(1)] BW_lock by (auto simp: barrier_holds_def holding_def locking_def)
  then have "unat (ba_count b) < barrier_size b" if "pc' = BW_locked" using free that by (simp add: barrier_holds_def holding_def)
  then show ?thesis using raw_lock_next [OF m(1)] m(2,3) by (auto simp: barrier_size_def split: if_splits)
next
  case (BW_arrive k gen count)
  then have "unat count < barrier_size b" using l by auto
  from barrier_arrive [OF this] show ?thesis using r l g BW_arrive by (auto simp: barrier_wait_def barrier_size_def)
next
  case (BW_check k gen)
  then show ?thesis using r l g by (cases "k = ba_rounds b") (auto simp: barrier_wait_def holding_def)
next
  case (BW_wait k gen cv)
  then obtain w s q rr where m: "condvar_wait F 0 1 (ba_lock b, ba_seq b, ba_kernel b) t cv = Some ((w, s, q), rr)"
      "b' = b \<lparr> ba_lock := w, ba_seq := s, ba_kernel := q \<rparr>" "pc' = (case rr of Some cv' \<Rightarrow> BW_wait k gen cv' | None \<Rightarrow> BW_check k gen)"
    using r by (auto simp: barrier_wait_def)
  have sz: "barrier_size b' = barrier_size b" "ba_rounds b' = ba_rounds b" "ba_count b' = ba_count b"
    by (simp_all add: barrier_size_def m(2))
  show ?thesis
  proof (cases rr)
    case None
    then have "unat (ba_count b) < barrier_size b" using free l BW_wait m(3)
      by (cases "holding (condvar_mutex cv)") (auto simp: barrier_holds_def holding_def)
    then show ?thesis using l BW_wait m(3) None sz by simp
  next
    case (Some cv')
    then show ?thesis using condvar_wait_ok [OF m(1)] l BW_wait m(3) sz by auto
  qed
next
  case (BW_notify k n)
  then show ?thesis using r l by (cases n) (auto simp: barrier_wait_def notify_all_def barrier_size_def)
next
  case (BW_unlock k leader m)
  then obtain w q m' where m: "raw_unlock F 0 (ba_lock b, ba_kernel b) t m = Some ((w, q), m')"
      "(if m' = MX_idle then pc' = BW_idle else pc' = BW_unlock k leader m')" "ba_rounds b' = ba_rounds b"
    using r by (auto simp: barrier_wait_def barrier_on_lock_Some split: if_splits)
  then show ?thesis using raw_unlock_next [OF m(1)] l BW_unlock by (auto split: if_splits)
qed (use r l g in \<open>auto simp: barrier_wait_def barrier_size_def\<close>)

lemma barrier_local_same: "same_round b b' \<Longrightarrow> barrier_local b' pc = barrier_local b pc"
  by (cases pc) (simp_all add: same_round_def barrier_size_def)

lemma barrier_local_other:
  assumes "barrier_local b pc" "\<not> barrier_holds pc" "ba_rounds b \<le> ba_rounds b'" "ba_n b' = ba_n b"
  shows "barrier_local b' pc"
  using assms by (cases pc) (auto simp: barrier_holds_def holding_def)

text \<open>The mutex stays exclusive over a step.\<close>

abbreviation barrier_exclusive :: "'q barrier \<Rightarrow> barrier_pc list \<Rightarrow> bool" where
  "barrier_exclusive b pcs \<equiv> mutex_inv (barrier_words b) (map barrier_mutex pcs)"

lemma barrier_exclusive_holders: "barrier_exclusive b pcs \<Longrightarrow> threads barrier_holds pcs \<le> 1"
  by (simp add: mutex_inv_def threads_def filter_map comp_def barrier_holds_def [abs_def] split: if_splits)

lemma barrier_exclusive_step:
  assumes "barrier_exclusive b pcs" "t < length pcs" "barrier_wait F b t (pcs ! t) = Some (b', pc')"
  shows "threads barrier_holds (pcs[t := pc']) \<le> 1"
proof -
  have "mutex_inv (barrier_words b') ((map barrier_mutex pcs)[t := barrier_mutex pc'])"
    using barrier_wait_mutex [OF assms(3)]
  proof (elim disjE)
    assume "mutex_run F 0 (barrier_words b) t (barrier_mutex (pcs ! t)) = Some (barrier_words b', barrier_mutex pc')"
    then show ?thesis using mutex_run_inv [OF assms(1), of t] assms(2) by simp
  next
    assume a: "(barrier_words b' = barrier_words b \<or> mutex_env F 0 (barrier_words b) (barrier_words b')) \<and>
      (barrier_mutex pc' = barrier_mutex (pcs ! t) \<or> mutex_call (barrier_mutex (pcs ! t)) (barrier_mutex pc'))"
    then have "mutex_inv (barrier_words b') (map barrier_mutex pcs)" using assms(1) by (auto simp: mutex_inv_def mutex_env_def)
    then show ?thesis using a mutex.J_call [of "barrier_words b'" "map barrier_mutex pcs" t "barrier_mutex pc'"] assms(2) by auto
  qed
  then show ?thesis using barrier_exclusive_holders [of b' "pcs[t := pc']"] by (simp add: map_update)
qed

lemma log_filter_Cons: "length (filter P (x # xs)) = length (filter P xs) + (if P x then 1 else 0)"
  by simp

lemma barrier_counts_run:
  assumes I: "barrier_inv b pcs" and t: "t < length pcs" and r: "barrier_wait F b t (pcs ! t) = Some (b', pc')"
  shows "round_members j b' (pcs[t := pc']) =
      (if j < ba_rounds b' then barrier_size b' else if j = ba_rounds b' then unat (ba_count b') else 0)"
    and "round_leaders j b' (pcs[t := pc']) = (if j < ba_rounds b' then 1 else 0)"
proof -
  have M: "round_members j b pcs =
      (if j < ba_rounds b then barrier_size b else if j = ba_rounds b then unat (ba_count b) else 0)"
    and L: "round_leaders j b pcs = (if j < ba_rounds b then 1 else 0)" and l: "barrier_local b (pcs ! t)"
    using I t by (simp_all add: barrier_inv_def list_all_length)
  note a = threads_update [OF t, of "arrived j" pc'] and d = threads_update [OF t, of "leads j" pc']
  have *: "round_members j b' (pcs[t := pc']) =
        (if j < ba_rounds b' then barrier_size b' else if j = ba_rounds b' then unat (ba_count b') else 0) \<and>
      round_leaders j b' (pcs[t := pc']) = (if j < ba_rounds b' then 1 else 0)"
    using r
  proof (cases rule: barrier_wait_steps)
    case quiet
    then have s: "same_round b b'" "ba_log b' = ba_log b" "arrived j pc' \<longleftrightarrow> arrived j (pcs ! t)" "leads j pc' \<longleftrightarrow> leads j (pcs ! t)"
      by (simp_all add: bystep_def)
    then have "round_members j b' (pcs[t := pc']) = round_members j b pcs" "round_leaders j b' (pcs[t := pc']) = round_leaders j b pcs"
      using a d by (simp_all add: round_members_def round_leaders_def)
    then show ?thesis using M L s(1) by (simp add: same_round_def barrier_size_def)
  next
    case leave
    then obtain k leader m where s: "same_round b b'" "pcs ! t = BW_unlock k leader m" "pc' = BW_idle" "ba_log b' = (k, leader) # ba_log b"
      unfolding leave_step_def by blast
    have "threads (arrived j) (pcs[t := pc']) + (if k = j then 1 else 0) = threads (arrived j) pcs"
      "threads (leads j) (pcs[t := pc']) + (if k = j \<and> leader then 1 else 0) = threads (leads j) pcs"
      using a d s(2,3) by simp_all
    then have "round_members j b' (pcs[t := pc']) = round_members j b pcs" "round_leaders j b' (pcs[t := pc']) = round_leaders j b pcs"
      unfolding round_members_def round_leaders_def s(4) log_filter_Cons by (auto split: if_splits)
    then show ?thesis using M L s(1) by (simp add: same_round_def barrier_size_def)
  next
    case (arrive k gen count)
    then have k: "k = ba_rounds b" "count = ba_count b" "unat count < barrier_size b" using l by auto
    have "threads (arrived j) (pcs[t := pc']) = threads (arrived j) pcs + (if j = k then 1 else 0)"
      "threads (leads j) (pcs[t := pc']) = threads (leads j) pcs" using a d arrive(1,3) by (simp_all split: if_splits)
    then show ?thesis using M L k barrier_arrive(1) [OF k(3)] arrive(2)
      by (auto simp: round_members_def round_leaders_def barrier_size_def)
  next
    case (reset k)
    then have k: "k = ba_rounds b" "unat (ba_count b) = barrier_size b" using l by auto
    have "threads (arrived j) (pcs[t := pc']) = threads (arrived j) pcs"
      "threads (leads j) (pcs[t := pc']) = threads (leads j) pcs + (if j = k then 1 else 0)" using a d reset(1,2) by simp_all
    then show ?thesis using M L k reset(3) by (auto simp: round_members_def round_leaders_def barrier_size_def)
  qed
  then show "round_members j b' (pcs[t := pc']) =
      (if j < ba_rounds b' then barrier_size b' else if j = ba_rounds b' then unat (ba_count b') else 0)"
    and "round_leaders j b' (pcs[t := pc']) = (if j < ba_rounds b' then 1 else 0)" by simp_all
qed

lemma barrier_locals_run:
  assumes X: "barrier_exclusive b pcs" and I: "barrier_inv b pcs" and t: "t < length pcs"
    and r: "barrier_wait F b t (pcs ! t) = Some (b', pc')"
  shows "list_all (barrier_local b') (pcs[t := pc'])"
proof -
  have l: "barrier_local b (pcs ! u)" if "u < length pcs" for u using I that by (simp add: barrier_inv_def list_all_length)
  have g: "ba_generation b = of_nat (ba_rounds b)" using I by (simp add: barrier_inv_def)
  have alone: "\<not> barrier_holds (pcs ! u)" if "u < length pcs" "u \<noteq> t" "barrier_holds (pcs ! t) \<or> barrier_holds pc'" for u
    using that t threads_unique [OF barrier_exclusive_holders [OF X] t that(1)]
      threads_unique [OF barrier_exclusive_step [OF X t r], of t u] by auto
  have free: "unat (ba_count b) < barrier_size b" if h: "barrier_holds pc'" "\<not> barrier_holds (pcs ! t)"
  proof (rule ccontr)
    assume "\<not> unat (ba_count b) < barrier_size b"
    then obtain u k where u: "u < length pcs" "pcs ! u = BW_reset k" using I by (auto simp: barrier_inv_def list_ex_length)
    then have "barrier_holds (pcs ! u)" by (simp add: barrier_holds_def holding_def)
    then show False using alone [OF u(1)] h by blast
  qed
  have 1: "barrier_local b' pc'" by (rule barrier_wait_local [OF r l [OF t] g free])
  have 2: "barrier_local b' (pcs ! u)" if u: "u < length pcs" "u \<noteq> t" for u
    using r
  proof (cases rule: barrier_wait_steps)
    case quiet
    then show ?thesis using l [OF u(1)] barrier_local_same [of b b'] by (simp add: bystep_def)
  next
    case leave
    then show ?thesis using l [OF u(1)] barrier_local_same [of b b'] by (simp add: leave_step_def)
  next
    case (arrive k gen count)
    have "barrier_holds (pcs ! t)" by (simp add: arrive(1) barrier_holds_def holding_def)
    then show ?thesis using alone [OF u] arrive(2) by (intro barrier_local_other [OF l [OF u(1)]]) simp_all
  next
    case (reset k)
    have "barrier_holds (pcs ! t)" by (simp add: reset(1) barrier_holds_def holding_def)
    then show ?thesis using alone [OF u] reset(3) by (intro barrier_local_other [OF l [OF u(1)]]) simp_all
  qed
  show ?thesis using 1 2 t by (simp add: list_all_length nth_list_update)
qed

lemma barrier_run_inv:
  assumes X: "barrier_exclusive b pcs" and I: "barrier_inv b pcs" and t: "t < length pcs"
    and r: "barrier_wait F b t (pcs ! t) = Some (b', pc')"
  shows "barrier_inv b' (pcs[t := pc'])"
proof -
  have g: "ba_generation b = of_nat (ba_rounds b)" and l: "barrier_local b (pcs ! t)"
    and c: "unat (ba_count b) < barrier_size b \<or> list_ex (\<lambda>pc. \<exists>k. pc = BW_reset k) pcs"
    using I t by (simp_all add: barrier_inv_def list_all_length)
  have lg: "\<forall>x \<in> set (ba_log b). fst x < ba_rounds b" using I by (simp add: barrier_inv_def)
  have "ba_generation b' = of_nat (ba_rounds b') \<and> (\<forall>x \<in> set (ba_log b'). fst x < ba_rounds b') \<and>
      (unat (ba_count b') < barrier_size b' \<or> list_ex (\<lambda>pc. \<exists>k. pc = BW_reset k) (pcs[t := pc']))"
    using r
  proof (cases rule: barrier_wait_steps)
    case quiet
    then show ?thesis using g c lg list_ex_update [of "\<lambda>pc. \<exists>k. pc = BW_reset k" pcs t pc'] t
      by (auto simp: bystep_def same_round_def barrier_size_def)
  next
    case leave
    then show ?thesis using g c lg list_ex_update [of "\<lambda>pc. \<exists>k. pc = BW_reset k" pcs t pc'] t l
      by (auto simp: leave_step_def same_round_def barrier_size_def)
  next
    case (arrive k gen count)
    then have "unat count < barrier_size b" using l by auto
    from barrier_arrive [OF this] show ?thesis
      using arrive g lg list_ex_update_self [OF t, of "\<lambda>pc. \<exists>k. pc = BW_reset k" pc'] by (auto simp: barrier_size_def split: if_splits)
  next
    case (reset k)
    then show ?thesis using g lg by (auto simp: barrier_size_def less_max_iff_disj)
  qed
  then show ?thesis using barrier_locals_run [OF X I t r] barrier_counts_run [OF I t r] by (simp add: barrier_inv_def)
qed

lemma barrier_wait_n: "barrier_wait F b t pc = Some (b', pc') \<Longrightarrow> ba_n b' = ba_n b"
  by (erule barrier_wait_steps) (auto simp: bystep_def leave_step_def same_round_def)

lemma barrier_inv_kernel: "barrier_inv (b \<lparr> ba_kernel := q \<rparr>) pcs = barrier_inv b pcs"
proof -
  have "same_round b (b \<lparr> ba_kernel := q \<rparr>)" by (simp add: same_round_def)
  from barrier_local_same [OF this] have "barrier_local (b \<lparr> ba_kernel := q \<rparr>) = barrier_local b" by (rule ext)
  then show ?thesis by (simp add: barrier_inv_def round_members_def round_leaders_def barrier_size_def)
qed

interpretation barrier: conc_invariant_given "barrier_wait F" barrier_call "barrier_env F" barrier_spawn "barrier_start n q"
    barrier_exclusive "\<lambda>b pcs. ba_n b = n \<and> barrier_inv b pcs"
  for F :: "'q futex" and n q
proof unfold_locales
  fix s :: "('q barrier, barrier_pc) conc"
  assume "barrier_reach F (barrier_start n q) s"
  then show "barrier_exclusive (fst s) (snd s)" using mutex.reach_inv [OF barrier_mutex_reach [of F n q "fst s" "snd s"]] by simp
next
  show "ba_n (fst (barrier_start n q)) = n \<and> barrier_inv (fst (barrier_start n q)) (snd (barrier_start n q))"
    by (simp add: barrier_start_def barrier_new_def barrier_inv_def round_members_def round_leaders_def barrier_size_def less_max_iff_disj)
next
  fix b b' :: "'q barrier" and pcs t pc'
  assume "barrier_exclusive b pcs" "ba_n b = n \<and> barrier_inv b pcs" "t < length pcs" "barrier_wait F b t (pcs ! t) = Some (b', pc')"
  then show "ba_n b' = n \<and> barrier_inv b' (pcs[t := pc'])" using barrier_run_inv barrier_wait_n by blast
next
  fix b :: "'q barrier" and pcs t pc'
  assume a: "ba_n b = n \<and> barrier_inv b pcs" "t < length pcs" "barrier_call (pcs ! t) pc'"
  then have "pcs ! t = BW_idle" "pc' = BW_lock MX_cas" by (simp_all add: barrier_call_def)
  then show "ba_n b = n \<and> barrier_inv b (pcs[t := pc'])"
    using a threads_update [OF a(2), of "arrived _" pc'] threads_update [OF a(2), of "leads _" pc']
      list_ex_update [of "\<lambda>pc. \<exists>k. pc = BW_reset k" pcs t pc']
    by (auto simp: barrier_inv_def list_all_length nth_list_update locking_def round_members_def round_leaders_def)
next
  fix b b' :: "'q barrier" and pcs
  assume "ba_n b = n \<and> barrier_inv b pcs" "barrier_env F b b'"
  then show "ba_n b' = n \<and> barrier_inv b' pcs" by (auto simp: barrier_env_def barrier_inv_kernel)
next
  fix b :: "'q barrier" and pcs t pc' new
  assume "ba_n b = n \<and> barrier_inv b pcs" "t < length pcs" "barrier_spawn (pcs ! t) (pc', new)"
  then show "ba_n b = n \<and> barrier_inv b (pcs[t := pc'] @ [new])"
    by (simp add: barrier_spawn_def barrier_inv_def round_members_def round_leaders_def)
qed

end
