(* ===== verification/Barrier_Wakes.thy ===== *)
theory Barrier_Wakes
  imports Barriers
begin

text \<open>
  Waiting at the barrier of \<open>Barriers\<close>: a thread that sleeps after its round is over is about to be
  woken, so the threads only all come to rest while a round is short of threads.
\<close>

section \<open>Sleeping\<close>

fun notifying :: "barrier_pc \<Rightarrow> bool" where
  "notifying (BW_notify k n) = True"
| "notifying _ = False"

fun bump_due :: "barrier_pc \<Rightarrow> bool" where
  "bump_due (BW_notify k n) = (n = NT_bump)"
| "bump_due _ = False"

fun round_seq :: "barrier_pc \<Rightarrow> (nat \<times> u32) option" where
  "round_seq (BW_wait k gen cv) = map_option (\<lambda>s. (k, s)) (condvar_seq cv)"
| "round_seq _ = None"

fun seq_blocked :: "barrier_pc \<Rightarrow> bool" where
  "seq_blocked (BW_wait k gen (CV_block s fp)) = (fp = FW_blocked)"
| "seq_blocked _ = False"

text \<open>The sequence number a thread waits on is the number of its round; the number in the barrier is the number of the
round, except between the reset and the notification.\<close>

definition seq_local :: "nat \<Rightarrow> barrier_pc \<Rightarrow> bool" where
  "seq_local n pc \<longleftrightarrow>
     (\<forall>k s. round_seq pc = Some (k, s) \<longrightarrow> s = of_nat k) \<and> (\<forall>k gen. pc = BW_wait k gen CV_load \<longrightarrow> k = n)"

definition barrier_wake_inv :: "'q futex \<Rightarrow> 'q barrier \<Rightarrow> barrier_pc list \<Rightarrow> bool" where
  "barrier_wake_inv F b pcs \<longleftrightarrow>
     ba_seq b + of_nat (threads bump_due pcs) = of_nat (ba_rounds b) \<and>
     (\<forall>t \<in> fx_sleeping F (ba_kernel b) 1. t < length pcs \<and> seq_blocked (pcs ! t)) \<and>
     list_all (seq_local (ba_rounds b)) pcs \<and>
     (\<forall>t \<in> fx_sleeping F (ba_kernel b) 1. \<forall>k s. round_seq (pcs ! t) = Some (k, s) \<longrightarrow> k = ba_rounds b \<or> list_ex notifying pcs)"

lemma barrier_seq_steps:
  assumes F: "futex_contract F" and r: "barrier_wait F b t pc = Some (b', pc')"
  obtains (quiet) "ba_seq b' = ba_seq b" "ba_rounds b' = ba_rounds b" "fx_sleeping F (ba_kernel b') 1 \<subseteq> fx_sleeping F (ba_kernel b) 1"
      "\<not> bump_due pc'" "\<not> notifying pc" "\<not> seq_blocked pc'"
      "\<And>k s. round_seq pc' = Some (k, s) \<Longrightarrow> round_seq pc = Some (k, s) \<or> (\<exists>gen. pc = BW_wait k gen CV_load) \<and> s = ba_seq b"
      "\<And>k gen. pc' = BW_wait k gen CV_load \<Longrightarrow> pc = BW_check k gen \<and> gen = ba_generation b"
  | (sleep) k gen where "pc = BW_wait k gen (CV_block (ba_seq b) FW_call)" "pc' = BW_wait k gen (CV_block (ba_seq b) FW_blocked)"
      "ba_kernel b' = fx_wait F (ba_kernel b) 1 t" "ba_seq b' = ba_seq b" "ba_rounds b' = ba_rounds b"
  | (bump) k where "pc = BW_notify k NT_bump" "pc' = BW_notify k NT_wake" "ba_seq b' = ba_seq b + 1"
      "ba_kernel b' = ba_kernel b" "ba_rounds b' = ba_rounds b"
  | (wake) k where "pc = BW_notify k NT_wake" "pc' = BW_unlock k True MX_release" "ba_seq b' = ba_seq b"
      "ba_kernel b' = futex_wake_all F (ba_kernel b) 1" "ba_rounds b' = ba_rounds b"
  | (reset) k where "pc = BW_reset k" "pc' = BW_notify k NT_bump" "ba_seq b' = ba_seq b"
      "ba_kernel b' = ba_kernel b" "ba_rounds b' = ba_rounds b + 1"
proof (cases pc)
  case (BW_notify k n)
  then show ?thesis using r bump [of k] wake [of k] by (cases n) (auto simp: barrier_wait_def notify_all_def)
next
  case (BW_reset k)
  then show ?thesis using r reset [of k] by (auto simp: barrier_wait_def)
next
  case (BW_lock m)
  then obtain w q m' where m: "raw_lock F 0 (ba_lock b, ba_kernel b) t m = Some ((w, q), m')"
      "b' = b \<lparr> ba_lock := w, ba_kernel := q \<rparr>" "pc' = (if m' = MX_held then BW_locked else BW_lock m')"
    using r by (auto simp: barrier_wait_def barrier_on_lock_Some)
  show ?thesis by (rule quiet) (use raw_lock_sleeping [OF F m(1), of 1] m BW_lock in \<open>auto split: if_splits\<close>)
next
  case (BW_unlock k leader m)
  then obtain b1 m' where b1: "barrier_on_lock (raw_unlock F 0) b t m = Some (b1, m')"
      and m: "(if m' = MX_idle then (b1 \<lparr> ba_log := (k, leader) # ba_log b1 \<rparr>, BW_idle) else (b1, BW_unlock k leader m')) = (b', pc')"
    using r by (auto simp: barrier_wait_def)
  obtain w q where u: "raw_unlock F 0 (ba_lock b, ba_kernel b) t m = Some ((w, q), m')" "b1 = b \<lparr> ba_lock := w, ba_kernel := q \<rparr>"
    using b1 by (auto simp: barrier_on_lock_Some)
  show ?thesis by (rule quiet) (use raw_unlock_sleeping [OF F u(1), of 1] m u(2) BW_unlock in \<open>auto split: if_splits\<close>)
next
  case (BW_wait k gen cv)
  then obtain w s q rr where m: "condvar_wait F 0 1 (ba_lock b, ba_seq b, ba_kernel b) t cv = Some ((w, s, q), rr)"
      "b' = b \<lparr> ba_lock := w, ba_seq := s, ba_kernel := q \<rparr>" "pc' = (case rr of Some cv' \<Rightarrow> BW_wait k gen cv' | None \<Rightarrow> BW_check k gen)"
    using r by (auto simp: barrier_wait_def)
  note q = condvar_wait_queue [OF F m(1)] and l = condvar_wait_load [OF m(1)]
  show ?thesis
  proof (cases "cv = CV_block (ba_seq b) FW_call \<and> rr = Some (CV_block (ba_seq b) FW_blocked) \<and> q = fx_wait F (ba_kernel b) 1 t")
    case True
    then show ?thesis using sleep [of k gen] BW_wait m(2,3) q by simp
  next
    case False
    then have s: "s = ba_seq b" "fx_sleeping F q 1 \<subseteq> fx_sleeping F (ba_kernel b) 1" "\<forall>s. rr \<noteq> Some (CV_block s FW_blocked)"
      using q by auto
    have "round_seq pc = Some (j, x) \<or> (\<exists>gen. pc = BW_wait j gen CV_load) \<and> x = ba_seq b" if rs: "round_seq pc' = Some (j, x)" for j x
    proof -
      obtain cv' where "rr = Some cv'" "condvar_seq cv' = Some x" "j = k" using rs m(3) by (cases rr) auto
      then show ?thesis using condvar_wait_seq [OF m(1)] BW_wait by auto
    qed
    moreover have "\<not> seq_blocked pc'" using s(3) m(3) by (cases pc' rule: seq_blocked.cases) (auto split: option.splits)
    ultimately show ?thesis using s(1,2) l m(2,3) BW_wait by (intro quiet) (auto split: option.splits)
  qed
next
  case (BW_check k gen)
  show ?thesis by (rule quiet) (use r BW_check in \<open>auto simp: barrier_wait_def split: if_splits\<close>)
next
  case (BW_arrive k gen count)
  show ?thesis by (rule quiet) (use r BW_arrive in \<open>auto simp: barrier_wait_def split: if_splits\<close>)
next
  case BW_locked
  show ?thesis by (rule quiet) (use r BW_locked in \<open>auto simp: barrier_wait_def\<close>)
qed (use r in \<open>simp add: barrier_wait_def\<close>)

lemma seq_of_round:
  assumes "of_nat k = (of_nat n :: u32)" "k < 2 ^ 32" "n < 2 ^ 32"
  shows "k = n"
  using assms unat_of_nat_u32 [of k] unat_of_nat_u32 [of n] by metis

lemma round_of_generation:
  assumes "of_nat k = (of_nat n :: u64)" "k < 2 ^ 64" "n < 2 ^ 64"
  shows "k = n"
  using assms unat_of_nat_u64 [of k] unat_of_nat_u64 [of n] by metis

text \<open>While a thread has the mutex, no other one is between the reset and the notification.\<close>

lemma holder_no_bump:
  assumes "threads barrier_holds pcs \<le> 1" "t < length pcs" "barrier_holds (pcs ! t)" "\<not> bump_due (pcs ! t)"
  shows "threads bump_due pcs = 0"
proof -
  have "\<not> bump_due (pcs ! u)" if "u < length pcs" for u
  proof
    assume b: "bump_due (pcs ! u)"
    then have "barrier_holds (pcs ! u)" by (cases "pcs ! u") (auto simp: barrier_holds_def holding_def)
    then show False using threads_unique [OF assms(1,2) \<open>u < length pcs\<close> assms(3)] b assms(4) by simp
  qed
  then show ?thesis by (simp add: threads_zero)
qed

lemma round_seq_load: "pc = BW_wait k gen CV_load \<Longrightarrow> round_seq pc = None \<and> barrier_holds pc \<and> \<not> bump_due pc"
  by (simp add: barrier_holds_def holding_def)

lemma barrier_seq_run:
  assumes W: "ba_seq b + of_nat (threads bump_due pcs) = of_nat (ba_rounds b)" and F: "futex_contract F"
    and t: "t < length pcs" and r: "barrier_wait F b t (pcs ! t) = Some (b', pc')"
  shows "ba_seq b' + of_nat (threads bump_due (pcs[t := pc'])) = of_nat (ba_rounds b')"
proof -
  note u = threads_update [OF t, of bump_due pc']
  show ?thesis using F r
  proof (cases rule: barrier_seq_steps)
    case quiet
    then have "\<not> bump_due (pcs ! t)" by (cases "pcs ! t") simp_all
    then show ?thesis using W u quiet by simp
  next
    case (bump k)
    then have "threads bump_due pcs = threads bump_due (pcs[t := pc']) + 1" using u by simp
    then show ?thesis using W bump by (simp add: ac_simps)
  qed (use W u in \<open>simp_all add: add.assoc [symmetric]\<close>)
qed

lemma seq_local_other: "seq_local n pc \<Longrightarrow> \<not> barrier_holds pc \<Longrightarrow> seq_local m pc"
  by (auto simp: seq_local_def barrier_holds_def holding_def)

lemma barrier_waits_self:
  assumes F: "futex_contract F" and X: "threads barrier_holds pcs \<le> 1" and I: "barrier_inv b pcs" "barrier_wake_inv F b pcs"
    and t: "t < length pcs" and r: "barrier_wait F b t (pcs ! t) = Some (b', pc')" and n: "ba_rounds b < 2 ^ 32"
  shows "seq_local (ba_rounds b') pc'"
proof -
  have w: "seq_local (ba_rounds b) (pcs ! t)" using I(2) t by (simp add: barrier_wake_inv_def list_all_length)
  have g: "ba_generation b = of_nat (ba_rounds b)" and l: "barrier_local b (pcs ! t)"
    using I(1) t by (simp_all add: barrier_inv_def list_all_length)
  have seq: "s = of_nat k" if "pcs ! t = BW_wait k gen CV_load" "s = ba_seq b" for k gen s
  proof -
    have "threads bump_due pcs = 0" using holder_no_bump [OF X t] round_seq_load [OF that(1)] by simp
    then have "ba_seq b = of_nat (ba_rounds b)" using I(2) by (simp add: barrier_wake_inv_def)
    then show ?thesis using that w by (simp add: seq_local_def)
  qed
  show ?thesis using F r
  proof (cases rule: barrier_seq_steps)
    case quiet
    have "s = of_nat k" if "round_seq pc' = Some (k, s)" for k s
      using quiet(7) [OF that]
    proof
      assume "round_seq (pcs ! t) = Some (k, s)"
      then show ?thesis using w unfolding seq_local_def by blast
    next
      assume "(\<exists>gen. pcs ! t = BW_wait k gen CV_load) \<and> s = ba_seq b"
      then show ?thesis using seq by blast
    qed
    moreover have "k = ba_rounds b'" if "pc' = BW_wait k gen CV_load" for k gen
    proof -
      have "of_nat k = (of_nat (ba_rounds b) :: u64)" "k \<le> ba_rounds b" using quiet(8) [OF that] l g by auto
      then show ?thesis using round_of_generation [of k "ba_rounds b"] n quiet(2) by simp
    qed
    ultimately show ?thesis unfolding seq_local_def by blast
  next
    case (sleep k gen)
    then show ?thesis using w by (simp add: seq_local_def)
  qed (simp_all add: seq_local_def)
qed

lemma barrier_waits_other:
  assumes F: "futex_contract F" and X: "threads barrier_holds pcs \<le> 1" and I: "barrier_wake_inv F b pcs"
    and t: "t < length pcs" and r: "barrier_wait F b t (pcs ! t) = Some (b', pc')" and u: "u < length pcs" "u \<noteq> t"
  shows "seq_local (ba_rounds b') (pcs ! u)"
proof -
  have w: "seq_local (ba_rounds b) (pcs ! u)" using I u(1) by (simp add: barrier_wake_inv_def list_all_length)
  show ?thesis using F r
  proof (cases rule: barrier_seq_steps)
    case (reset k)
    then have "barrier_holds (pcs ! t)" by (simp add: barrier_holds_def holding_def)
    then have "\<not> barrier_holds (pcs ! u)" using threads_unique [OF X t u(1)] u(2) by auto
    then show ?thesis by (rule seq_local_other [OF w])
  qed (use w in simp_all)
qed

text \<open>The sleepers after a step.\<close>

lemma barrier_sleepers_run:
  assumes F: "futex_contract F" and I: "barrier_inv b pcs" "barrier_wake_inv F b pcs" and t: "t < length pcs"
    and r: "barrier_wait F b t (pcs ! t) = Some (b', pc')" and n: "ba_rounds b < 2 ^ 32" and l: "length pcs < 2 ^ 31"
  shows "\<forall>u \<in> fx_sleeping F (ba_kernel b') 1. u < length pcs \<and> seq_blocked (pcs[t := pc'] ! u) \<and>
     (\<forall>k s. round_seq (pcs[t := pc'] ! u) = Some (k, s) \<longrightarrow> k = ba_rounds b' \<or> list_ex notifying (pcs[t := pc']))"
proof
  let ?S = "fx_sleeping F (ba_kernel b) 1"
  have sl: "\<forall>u \<in> ?S. u < length pcs \<and> seq_blocked (pcs ! u)"
    and due: "\<And>u k s. u \<in> ?S \<Longrightarrow> round_seq (pcs ! u) = Some (k, s) \<Longrightarrow> k = ba_rounds b \<or> list_ex notifying pcs"
    using I(2) by (auto simp: barrier_wake_inv_def)
  have awake: "t \<notin> ?S"
  proof
    assume a: "t \<in> ?S"
    then obtain k gen s where "pcs ! t = BW_wait k gen (CV_block s FW_blocked)"
      using sl by (cases "pcs ! t" rule: seq_blocked.cases) auto
    then show False using a r by (simp add: barrier_wait_def condvar_wait_def futex_wait_def)
  qed
  have old: "u < length pcs \<and> seq_blocked (pcs[t := pc'] ! u) \<and>
      (\<forall>k s. round_seq (pcs[t := pc'] ! u) = Some (k, s) \<longrightarrow> k = ba_rounds b' \<or> list_ex notifying (pcs[t := pc']))"
    if "u \<in> ?S" "list_ex notifying (pcs[t := pc']) \<or> ba_rounds b' = ba_rounds b \<and> (list_ex notifying pcs \<longrightarrow> list_ex notifying (pcs[t := pc']))" for u
  proof -
    have "u \<noteq> t" using that(1) awake by auto
    then show ?thesis using that(1) sl due [of u] that(2) by (auto simp: nth_list_update)
  qed
  have keep: "list_ex notifying pcs \<Longrightarrow> list_ex notifying (pcs[t := pc'])" if "\<not> notifying (pcs ! t)"
    using list_ex_update [of notifying pcs t pc'] t that by simp
  fix u assume u: "u \<in> fx_sleeping F (ba_kernel b') 1"
  show "u < length pcs \<and> seq_blocked (pcs[t := pc'] ! u) \<and>
     (\<forall>k s. round_seq (pcs[t := pc'] ! u) = Some (k, s) \<longrightarrow> k = ba_rounds b' \<or> list_ex notifying (pcs[t := pc']))"
    using F r
  proof (cases rule: barrier_seq_steps)
    case quiet
    show ?thesis using u quiet(2,3) keep [OF quiet(5)] by (intro old) auto
  next
    case (sleep k gen)
    have nk: "\<not> notifying (pcs ! t)" by (simp add: sleep(1))
    show ?thesis
    proof (cases "u = t")
      case True
      have w: "ba_seq b = of_nat k" using I(2) t sleep(1) by (auto simp: barrier_wake_inv_def list_all_length seq_local_def)
      have "k \<le> ba_rounds b" using I(1) t sleep(1) by (auto simp: barrier_inv_def list_all_length)
      then have "k = ba_rounds b" if "threads bump_due pcs = 0"
        using that w I(2) n seq_of_round [of k "ba_rounds b"] by (simp add: barrier_wake_inv_def)
      moreover have "list_ex notifying pcs" if nb: "threads bump_due pcs \<noteq> 0"
      proof -
        obtain v where v: "v < length pcs" "bump_due (pcs ! v)" using nb unfolding threads_zero by blast
        then have "notifying (pcs ! v)" by (cases "pcs ! v") simp_all
        then show ?thesis using v(1) unfolding list_ex_length by blast
      qed
      ultimately show ?thesis using True t sleep(2,5) keep [OF nk] by (cases "threads bump_due pcs = 0") simp_all
    next
      case False
      then have "u \<in> ?S" using u sleep(3) fx_wait_sleeping [OF F, of "ba_kernel b" 1 t 1] by simp
      then show ?thesis using sleep(5) keep [OF nk] by (intro old) auto
    qed
  next
    case (bump k)
    have "list_ex notifying (pcs[t := pc'])" by (rule list_ex_update_self [OF t]) (simp add: bump(2))
    then show ?thesis using u bump(4) by (intro old) simp_all
  next
    case (wake k)
    have "?S \<subseteq> {..<length pcs}" using sl by auto
    then have "fx_sleeping F (ba_kernel b') 1 = {}" unfolding wake(4) by (rule futex_wake_all_empty [OF F _ l])
    then show ?thesis using u by simp
  next
    case (reset k)
    have "list_ex notifying (pcs[t := pc'])" by (rule list_ex_update_self [OF t]) (simp add: reset(2))
    then show ?thesis using u reset(4) by (intro old) simp_all
  qed
qed

lemma barrier_wake_run:
  assumes F: "futex_contract F" and X: "barrier_exclusive b pcs" and I: "barrier_inv b pcs" "barrier_wake_inv F b pcs"
    and t: "t < length pcs" and r: "barrier_wait F b t (pcs ! t) = Some (b', pc')"
    and n: "ba_rounds b < 2 ^ 32" and l: "length pcs < 2 ^ 31"
  shows "barrier_wake_inv F b' (pcs[t := pc'])"
proof -
  note X1 = barrier_exclusive_holders [OF X]
  have "ba_seq b + of_nat (threads bump_due pcs) = of_nat (ba_rounds b)" using I(2) by (simp add: barrier_wake_inv_def)
  from barrier_seq_run [OF this F t r]
  have 1: "ba_seq b' + of_nat (threads bump_due (pcs[t := pc'])) = of_nat (ba_rounds b')" .
  have 2: "list_all (seq_local (ba_rounds b')) (pcs[t := pc'])"
    using barrier_waits_self [OF F X1 I t r n] barrier_waits_other [OF F X1 I(2) t r] t
    unfolding list_all_length length_list_update by (metis nth_list_update)
  show ?thesis using 1 2 barrier_sleepers_run [OF F I t r n l] unfolding barrier_wake_inv_def by simp
qed

definition barrier_bounds :: "'q futex \<Rightarrow> 'q \<Rightarrow> 'q barrier \<Rightarrow> barrier_pc list \<Rightarrow> bool" where
  "barrier_bounds F q b pcs \<longleftrightarrow> futex_contract F \<and> fx_sleeping F q 0 = {} \<and> fx_sleeping F q 1 = {} \<and>
     length pcs < 2 ^ 31 \<and> ba_rounds b < 2 ^ 32"

lemma barrier_wake_call:
  assumes W: "barrier_wake_inv F b pcs" and t: "t < length pcs" and c: "barrier_call (pcs ! t) pc'"
  shows "barrier_wake_inv F b (pcs[t := pc'])"
proof -
  have p: "pcs ! t = BW_idle" "pc' = BW_lock MX_cas" using c by (simp_all add: barrier_call_def)
  have sl: "\<forall>u \<in> fx_sleeping F (ba_kernel b) 1. u < length pcs \<and> seq_blocked (pcs ! u)" "t \<notin> fx_sleeping F (ba_kernel b) 1"
    and due: "\<And>u k s. u \<in> fx_sleeping F (ba_kernel b) 1 \<Longrightarrow> round_seq (pcs ! u) = Some (k, s) \<Longrightarrow> k = ba_rounds b \<or> list_ex notifying pcs"
    and l: "\<And>u. u < length pcs \<Longrightarrow> seq_local (ba_rounds b) (pcs ! u)"
    using W p(1) by (auto simp: barrier_wake_inv_def list_all_length)
  have 1: "threads bump_due (pcs[t := pc']) = threads bump_due pcs" using threads_update [OF t, of bump_due pc'] p by simp
  have 2: "list_all (seq_local (ba_rounds b)) (pcs[t := pc'])"
    using l t p(2) by (auto simp: list_all_length nth_list_update seq_local_def)
  have 3: "k = ba_rounds b \<or> list_ex notifying (pcs[t := pc'])"
    if "u \<in> fx_sleeping F (ba_kernel b) 1" "round_seq (pcs[t := pc'] ! u) = Some (k, s)" for u k s
  proof -
    have "u \<noteq> t" using that(1) sl(2) by auto
    then have "k = ba_rounds b \<or> list_ex notifying pcs" using that due by simp
    then show ?thesis using list_ex_update [of notifying pcs t pc'] t p(1) by auto
  qed
  show ?thesis using W 1 2 3 unaffected [OF sl, of pc'] unfolding barrier_wake_inv_def by simp
qed

lemma barrier_wake_spawn:
  assumes W: "barrier_wake_inv F b pcs" and t: "t < length pcs" and c: "barrier_spawn (pcs ! t) (pc', new)"
  shows "barrier_wake_inv F b (pcs[t := pc'] @ [new])"
proof -
  have p: "pcs[t := pc'] @ [new] = pcs @ [BW_idle]" using c by (simp add: barrier_spawn_def)
  have sl: "\<And>u. u \<in> fx_sleeping F (ba_kernel b) 1 \<Longrightarrow> u < length pcs \<and> (pcs @ [BW_idle]) ! u = pcs ! u"
    using W by (simp add: barrier_wake_inv_def nth_append)
  show ?thesis using W sl unfolding p barrier_wake_inv_def by (simp add: seq_local_def less_SucI)
qed

lemma barrier_rounds_mono: "barrier_wait F b t pc = Some (b', pc') \<Longrightarrow> ba_rounds b \<le> ba_rounds b'"
  by (erule barrier_wait_steps) (auto simp: bystep_def leave_step_def same_round_def)

interpretation barrier_wakes: conc_invariant_given "barrier_wait F" barrier_call "barrier_env F" barrier_spawn "barrier_start n q"
    "\<lambda>b pcs. barrier_exclusive b pcs \<and> barrier_inv b pcs" "\<lambda>b pcs. barrier_bounds F q b pcs \<longrightarrow> barrier_wake_inv F b pcs"
  for F :: "'q futex" and n q
proof unfold_locales
  fix s :: "('q barrier, barrier_pc) conc"
  assume "barrier_reach F (barrier_start n q) s"
  then show "barrier_exclusive (fst s) (snd s) \<and> barrier_inv (fst s) (snd s)"
    using barrier.reach_inv [of F n q s] barrier.K_reach [of F n q s] by simp
next
  show "barrier_bounds F q (fst (barrier_start n q)) (snd (barrier_start n q)) \<longrightarrow>
      barrier_wake_inv F (fst (barrier_start n q)) (snd (barrier_start n q))"
    by (simp add: barrier_start_def barrier_new_def barrier_wake_inv_def barrier_bounds_def seq_local_def)
next
  fix b b' :: "'q barrier" and pcs t pc'
  assume a: "barrier_exclusive b pcs \<and> barrier_inv b pcs" "barrier_bounds F q b pcs \<longrightarrow> barrier_wake_inv F b pcs" "t < length pcs"
    and r: "barrier_wait F b t (pcs ! t) = Some (b', pc')"
  show "barrier_bounds F q b' (pcs[t := pc']) \<longrightarrow> barrier_wake_inv F b' (pcs[t := pc'])"
  proof
    assume b: "barrier_bounds F q b' (pcs[t := pc'])"
    then have "barrier_bounds F q b pcs" using barrier_rounds_mono [OF r] by (simp add: barrier_bounds_def)
    then show "barrier_wake_inv F b' (pcs[t := pc'])" using a barrier_wake_run [OF _ _ _ _ _ r] by (simp add: barrier_bounds_def)
  qed
next
  fix b :: "'q barrier" and pcs t pc'
  assume a: "barrier_bounds F q b pcs \<longrightarrow> barrier_wake_inv F b pcs" "t < length pcs" "barrier_call (pcs ! t) pc'"
  then show "barrier_bounds F q b (pcs[t := pc']) \<longrightarrow> barrier_wake_inv F b (pcs[t := pc'])"
    using barrier_wake_call [of F b pcs t pc'] by (simp add: barrier_bounds_def)
next
  fix b b' :: "'q barrier" and pcs
  assume a: "barrier_bounds F q b pcs \<longrightarrow> barrier_wake_inv F b pcs" "barrier_env F b b'"
  then obtain q' where q': "b' = b \<lparr> ba_kernel := q' \<rparr>" "fx_sleeping F q' 1 \<subseteq> fx_sleeping F (ba_kernel b) 1"
    unfolding barrier_env_def kernel_returns_def by blast
  have "barrier_wake_inv F b' pcs" if "barrier_wake_inv F b pcs" using that q' by (auto simp: barrier_wake_inv_def)
  then show "barrier_bounds F q b' pcs \<longrightarrow> barrier_wake_inv F b' pcs" using a(1) q'(1) by (simp add: barrier_bounds_def)
next
  fix b :: "'q barrier" and pcs t pc' new
  assume "barrier_bounds F q b pcs \<longrightarrow> barrier_wake_inv F b pcs" "t < length pcs" "barrier_spawn (pcs ! t) (pc', new)"
  then show "barrier_bounds F q b (pcs[t := pc'] @ [new]) \<longrightarrow> barrier_wake_inv F b (pcs[t := pc'] @ [new])"
    using barrier_wake_spawn [of F b pcs t pc' new] by (simp add: barrier_bounds_def)
qed

section \<open>Deadlock\<close>

lemma barrier_enabled:
  assumes "pc \<noteq> BW_idle" "barrier_local b pc" "barrier_mutex pc = MX_wait FW_blocked \<longrightarrow> t \<notin> fx_sleeping F (ba_kernel b) 0"
    and "seq_blocked pc \<longrightarrow> t \<notin> fx_sleeping F (ba_kernel b) 1"
  shows "barrier_wait F b t pc \<noteq> None"
proof (cases pc)
  case (BW_lock m)
  then show ?thesis using assms raw_lock_enabled [of m t F "(ba_lock b, ba_kernel b)" 0]
    by (auto simp: barrier_wait_def barrier_on_lock_def)
next
  case (BW_unlock k leader m)
  then show ?thesis using assms raw_unlock_enabled [of m F 0 "(ba_lock b, ba_kernel b)" t]
    by (auto simp: barrier_wait_def barrier_on_lock_def)
next
  case (BW_wait k gen cv)
  then have "condvar_wait F 0 1 (ba_lock b, ba_seq b, ba_kernel b) t cv \<noteq> None" using assms by (intro condvar_enabled) auto
  then show ?thesis using BW_wait by (auto simp: barrier_wait_def)
next
  case (BW_notify k n)
  then show ?thesis by (simp add: barrier_wait_def split: prod.split)
qed (use assms(1) in \<open>simp_all add: barrier_wait_def\<close>)

text \<open>A thread that cannot move is idle, or sleeps on the mutex, or sleeps on the sequence number.\<close>

definition barrier_rests :: "'q futex \<Rightarrow> 'q barrier \<Rightarrow> nat \<Rightarrow> barrier_pc \<Rightarrow> bool" where
  "barrier_rests F b t pc \<longleftrightarrow> pc = BW_idle \<or> barrier_mutex pc = MX_wait FW_blocked \<and> t \<in> fx_sleeping F (ba_kernel b) 0 \<or>
     seq_blocked pc \<and> t \<in> fx_sleeping F (ba_kernel b) 1"

lemma seq_blocked_mutex: "seq_blocked pc \<Longrightarrow> barrier_mutex pc = MX_idle"
  by (cases pc rule: seq_blocked.cases) simp_all

lemma seq_blocked_other: "seq_blocked pc \<Longrightarrow> \<not> notifying pc \<and> (\<forall>k. pc \<noteq> BW_reset k)"
  by (cases pc rule: seq_blocked.cases) simp_all

lemma barrier_rests_mutex:
  assumes W: "mutex_wake_inv F 0 (barrier_words b) (map barrier_mutex pcs)" and X: "barrier_exclusive b pcs"
    and rest: "\<forall>t < length pcs. barrier_rests F b t (pcs ! t)"
  shows "fx_sleeping F (ba_kernel b) 0 = {}"
proof (rule ccontr)
  assume "fx_sleeping F (ba_kernel b) 0 \<noteq> {}"
  then consider "ba_lock b = 2" | "rouses F 0 (ba_kernel b) (map barrier_mutex pcs)"
    using W by (auto simp: mutex_wake_inv_def barrier_words_def)
  then show False
  proof cases
    case 1
    then have "threads holding (map barrier_mutex pcs) \<noteq> 0" using X by (simp add: mutex_inv_def barrier_words_def)
    then obtain u where u: "u < length pcs" "holding (barrier_mutex (pcs ! u))" by (auto simp: threads_zero)
    then show False using rest seq_blocked_mutex [of "pcs ! u"] by (auto simp: barrier_rests_def holding_def)
  next
    case 2
    then obtain u where u: "u < length pcs"
        "barrier_mutex (pcs ! u) = MX_wake \<or> contending F 0 (ba_kernel b) u (barrier_mutex (pcs ! u))"
      by (auto simp: rouses_def)
    then show False using rest seq_blocked_mutex [of "pcs ! u"] by (auto simp: barrier_rests_def contending_def)
  qed
qed

section \<open>Properties\<close>

text \<open>C12: Every round that is over had exactly \<open>n\<close> arrivals (1 for a barrier of 0 threads), counting the waits that have
returned and those that are still on their way out, exactly one of them as the leader; and no wait returns from a round
that is not over.\<close>

theorem barrier_rounds:
  assumes "barrier_reach F (barrier_start n q) (b, pcs)"
  shows "(\<forall>j < ba_rounds b. round_members j b pcs = max 1 (unat n) \<and> round_leaders j b pcs = 1) \<and>
     (\<forall>x \<in> set (ba_log b). fst x < ba_rounds b)"
  using barrier.reach_inv [OF assms] by (simp add: barrier_inv_def barrier_size_def)

text \<open>A barrier of two threads: the second to arrive is the leader, it has left, the first sleeps.\<close>

definition barrier_pair :: "barrier_pc action list" where
  "barrier_pair = [Spawn 0 BW_idle BW_idle, Call 0 (BW_lock MX_cas), Run 0, Run 0, Run 0, Run 0, Run 0, Run 0, Run 0, Run 0,
     Call 1 (BW_lock MX_cas), Run 1, Run 1, Run 1, Run 1, Run 1, Run 1, Run 1]"

lemmas barrier_eval = barrier_start_def barrier_new_def barrier_call_def barrier_spawn_def barrier_wait_def barrier_on_lock_def
  run_thread_def condvar_wait_def raw_lock_def raw_unlock_def notify_all_def futex_wait_def futex_wake_all_def futex_wake_def
  fifo_futex_def fifo_wake_def sleepers_at_def

theorem barrier_rounds_witness:
  "\<exists>b pcs. barrier_reach (fifo_futex Linux_x86_64) (barrier_start 2 []) (b, pcs) \<and> ba_rounds b = 1 \<and>
     round_members 0 b pcs = 2 \<and> round_leaders 0 b pcs = 1 \<and> ba_log b = [(0, True)]"
proof -
  let ?b = "\<lparr> ba_lock = 0, ba_count = 0, ba_generation = 1, ba_seq = 1, ba_n = 2, ba_kernel = [], ba_rounds = 1, ba_log = [(0, True)] \<rparr>
      :: (nat \<times> nat) list barrier" and ?pcs = "[BW_wait 0 0 (CV_block 0 FW_blocked), BW_idle]"
  have r: "barrier_reach (fifo_futex Linux_x86_64) (barrier_start 2 []) (?b, ?pcs)"
    by (rule conc_exec_reach [of _ _ _ barrier_pair]) (simp add: barrier_pair_def barrier_eval)
  show ?thesis using barrier_rounds [OF r] r by (intro exI [of _ ?b] exI [of _ ?pcs]) simp
qed

text \<open>C13: No thread sleeps through the end of its round: the threads only all come to rest between calls or while fewer than
\<open>n\<close> of them wait, all for the round that is not over.\<close>

theorem barrier_no_deadlock:
  assumes "futex_contract F" "fx_sleeping F q 0 = {}" "fx_sleeping F q 1 = {}"
    and "barrier_reach F (barrier_start n q) (b, pcs)" "length pcs < 2 ^ 31" "ba_rounds b < 2 ^ 32"
    and stuck: "\<And>t. run_thread (barrier_wait F) t (b, pcs) = None"
  shows "(\<forall>pc \<in> set pcs. pc = BW_idle \<or> (\<exists>gen cv. pc = BW_wait (ba_rounds b) gen cv)) \<and>
     threads (\<lambda>pc. pc \<noteq> BW_idle) pcs < max 1 (unat n)"
proof -
  have I: "ba_n b = n" "barrier_inv b pcs" "barrier_exclusive b pcs"
    using barrier.reach_inv [OF assms(4)] barrier.K_reach [OF assms(4)] by simp_all
  have W: "barrier_wake_inv F b pcs"
    using barrier_wakes.reach_inv [OF assms(4)] assms(1-3,5,6) by (simp add: barrier_bounds_def)
  have MW: "mutex_wake_inv F 0 (barrier_words b) (map barrier_mutex pcs)"
    using mutex_wakes.reach_inv [OF barrier_mutex_reach [OF assms(4)]] assms(1,2) by simp
  have l: "barrier_local b (pcs ! t)" if "t < length pcs" for t using I(2) that by (simp add: barrier_inv_def list_all_length)
  have rest: "\<forall>t < length pcs. barrier_rests F b t (pcs ! t)"
  proof (intro allI impI)
    fix t assume t: "t < length pcs"
    then have "barrier_wait F b t (pcs ! t) = None" using stuck [of t] by (simp add: run_thread_def)
    then show "barrier_rests F b t (pcs ! t)" using barrier_enabled [OF _ l [OF t]] unfolding barrier_rests_def by blast
  qed
  note none = barrier_rests_mutex [OF MW I(3) rest]
  have idle: "pcs ! t = BW_idle \<or> seq_blocked (pcs ! t) \<and> t \<in> fx_sleeping F (ba_kernel b) 1" if "t < length pcs" for t
    using rest that none by (auto simp: barrier_rests_def)
  have "\<not> notifying (pcs ! t) \<and> (\<forall>k. pcs ! t \<noteq> BW_reset k)" if "t < length pcs" for t
    using idle [OF that] seq_blocked_other by auto
  then have "\<not> list_ex notifying pcs" "\<not> list_ex (\<lambda>pc. \<exists>k. pc = BW_reset k) pcs" unfolding list_ex_length by blast+
  then have due: "\<And>t k s. t \<in> fx_sleeping F (ba_kernel b) 1 \<Longrightarrow> round_seq (pcs ! t) = Some (k, s) \<Longrightarrow> k = ba_rounds b"
    and count: "unat (ba_count b) < barrier_size b"
    using W I(2) by (auto simp: barrier_wake_inv_def barrier_inv_def)
  have 1: "pcs ! t = BW_idle \<or> (\<exists>gen cv. pcs ! t = BW_wait (ba_rounds b) gen cv)" if "t < length pcs" for t
    using idle [OF that]
  proof
    assume a: "seq_blocked (pcs ! t) \<and> t \<in> fx_sleeping F (ba_kernel b) 1"
    then obtain k gen s where "pcs ! t = BW_wait k gen (CV_block s FW_blocked)" by (cases "pcs ! t" rule: seq_blocked.cases) auto
    then show ?thesis using due [of t k s] a by auto
  qed simp
  then have all: "\<forall>pc \<in> set pcs. pc = BW_idle \<or> (\<exists>gen cv. pc = BW_wait (ba_rounds b) gen cv)" by (metis in_set_conv_nth)
  have "threads (\<lambda>pc. pc \<noteq> BW_idle) pcs = threads (arrived (ba_rounds b)) pcs"
    unfolding threads_def using all by (intro arg_cong [of _ _ length] filter_cong) auto
  also have "\<dots> \<le> round_members (ba_rounds b) b pcs" by (simp add: round_members_def)
  also have "\<dots> = unat (ba_count b)" using I(2) by (simp add: barrier_inv_def)
  finally show ?thesis using all count I(1) by (simp add: barrier_size_def)
qed

definition barrier_alone :: "barrier_pc action list" where
  "barrier_alone = [Call 0 (BW_lock MX_cas), Run 0, Run 0, Run 0, Run 0, Run 0, Run 0, Run 0, Run 0]"

theorem barrier_no_deadlock_witness:
  "\<exists>b. barrier_reach (fifo_futex Linux_x86_64) (barrier_start 2 []) (b, [BW_wait 0 0 (CV_block 0 FW_blocked)]) \<and>
     (\<forall>t. run_thread (barrier_wait (fifo_futex Linux_x86_64)) t (b, [BW_wait 0 0 (CV_block 0 FW_blocked)]) = None) \<and>
     threads (\<lambda>pc. pc \<noteq> BW_idle) [BW_wait 0 0 (CV_block 0 FW_blocked)] < 2"
proof -
  let ?b = "\<lparr> ba_lock = 0, ba_count = 1, ba_generation = 0, ba_seq = 0, ba_n = 2, ba_kernel = [(1, 0)], ba_rounds = 0, ba_log = [] \<rparr>
      :: (nat \<times> nat) list barrier" and ?pcs = "[BW_wait 0 0 (CV_block 0 FW_blocked)]"
  have r: "barrier_reach (fifo_futex Linux_x86_64) (barrier_start 2 []) (?b, ?pcs)"
    by (rule conc_exec_reach [of _ _ _ barrier_alone]) (simp add: barrier_alone_def barrier_eval)
  have st: "run_thread (barrier_wait (fifo_futex Linux_x86_64)) t (?b, ?pcs) = None" for t
    by (simp add: run_thread_def barrier_wait_def condvar_wait_def futex_wait_def fifo_futex_def)
  have e: "fx_sleeping (fifo_futex Linux_x86_64) [] 0 = {}" "fx_sleeping (fifo_futex Linux_x86_64) [] 1 = {}"
    by (simp_all add: fifo_futex_def)
  show ?thesis using barrier_no_deadlock [OF fifo_futex_contract e r _ _ st] r st by (intro exI [of _ ?b]) simp
qed

end
