(* ===== verification/Channels.thy ===== *)
theory Channels
  imports Condvars
begin

text \<open>
  The channel of \<open>src/sync.rs\<close>, module \<open>mpsc\<close>: a queue under a \<open>Mutex\<close> (address 0) with a
  \<open>Condvar\<close> (address 1), the number of senders and the flag of the receiver. A thread that
  has the mutex changes the queue in two steps, reading and writing it, so that the order
  of the messages rests on mutual exclusion. \<open>ch_sent\<close>, \<open>ch_received\<close> and \<open>ch_bumps\<close> record
  what was pushed, popped and notified; no step reads them.
\<close>

section \<open>The channel\<close>

record ('q, 'v) chan =
  ch_lock :: u32
  ch_queue :: "'v list"
  ch_seq :: u32
  ch_senders :: u64
  ch_receiver_gone :: bool
  ch_kernel :: 'q
  ch_sent :: "'v list"
  ch_received :: "'v list"
  ch_bumps :: nat

datatype 'v recv_result = Received 'v | Empty | Disconnected

datatype 'v chan_pc =
    SD_idle
  | SD_check 'v
  | SD_lock 'v mutex_pc
  | SD_locked 'v
  | SD_push 'v "'v list"
  | SD_unlock mutex_pc
  | SD_notify notify_pc
  | SD_failed 'v
  | SD_clone
  | SD_cloned
  | SD_drop
  | SD_last notify_pc
  | SD_gone
  | RC_idle
  | RC_lock bool mutex_pc
  | RC_locked bool
  | RC_pop bool "'v list"
  | RC_senders bool
  | RC_wait condvar_pc
  | RC_unlock "'v recv_result" mutex_pc
  | RC_done "'v recv_result"
  | RC_drop
  | RC_gone

definition channel :: "'q \<Rightarrow> (('q, 'v) chan, 'v chan_pc) conc" where
  "channel q =
     (\<lparr> ch_lock = 0, ch_queue = [], ch_seq = 0, ch_senders = 1, ch_receiver_gone = False, ch_kernel = q,
        ch_sent = [], ch_received = [], ch_bumps = 0 \<rparr>, [RC_idle, SD_idle])"

text \<open>The mutex code and the notifications of the channel.\<close>

definition on_lock :: "('q mutex_shared, mutex_pc) runner \<Rightarrow> (('q, 'v) chan, mutex_pc) runner" where
  "on_lock f c t m =
     map_option (\<lambda>((w, q), m'). (c \<lparr> ch_lock := w, ch_kernel := q \<rparr>, m')) (f (ch_lock c, ch_kernel c) t m)"

definition on_notify ::
    "(u32 \<times> 'q \<Rightarrow> notify_pc \<Rightarrow> (u32 \<times> 'q) \<times> notify_pc option) \<Rightarrow> ('q, 'v) chan \<Rightarrow> notify_pc \<Rightarrow>
     ('q, 'v) chan \<times> notify_pc option" where
  "on_notify f c n =
     (case f (ch_seq c, ch_kernel c) n of ((s, q), r) \<Rightarrow>
        (c \<lparr> ch_seq := s, ch_kernel := q, ch_bumps := ch_bumps c + (if n = NT_bump then 1 else 0) \<rparr>, r))"

definition chan_send :: "'q futex \<Rightarrow> (('q, 'v) chan, 'v chan_pc) runner" where
  "chan_send F c t pc =
     (case pc of
        SD_check v \<Rightarrow> Some (c, if ch_receiver_gone c then SD_failed v else SD_lock v MX_cas)
      | SD_lock v m \<Rightarrow>
          map_option (\<lambda>(c', m'). (c', if m' = MX_held then SD_locked v else SD_lock v m')) (on_lock (raw_lock F 0) c t m)
      | SD_locked v \<Rightarrow> Some (c, SD_push v (ch_queue c))
      | SD_push v xs \<Rightarrow> Some (c \<lparr> ch_queue := xs @ [v], ch_sent := ch_sent c @ [v] \<rparr>, SD_unlock MX_release)
      | SD_unlock m \<Rightarrow>
          map_option (\<lambda>(c', m'). (c', if m' = MX_idle then SD_notify NT_bump else SD_unlock m'))
            (on_lock (raw_unlock F 0) c t m)
      | SD_notify n \<Rightarrow>
          (case on_notify (notify_one F 1) c n of
             (c', r) \<Rightarrow> Some (c', case r of Some n' \<Rightarrow> SD_notify n' | None \<Rightarrow> SD_idle))
      | _ \<Rightarrow> None)"

definition sender_clone :: "(('q, 'v) chan, 'v chan_pc) runner" where
  "sender_clone c t pc =
     (case pc of SD_clone \<Rightarrow> Some (c \<lparr> ch_senders := ch_senders c + 1 \<rparr>, SD_cloned) | _ \<Rightarrow> None)"

definition sender_drop :: "'q futex \<Rightarrow> (('q, 'v) chan, 'v chan_pc) runner" where
  "sender_drop F c t pc =
     (case pc of
        SD_drop \<Rightarrow>
          Some (c \<lparr> ch_senders := ch_senders c - 1 \<rparr>, if ch_senders c = 1 then SD_last NT_bump else SD_gone)
      | SD_last n \<Rightarrow>
          (case on_notify (notify_all F 1) c n of
             (c', r) \<Rightarrow> Some (c', case r of Some n' \<Rightarrow> SD_last n' | None \<Rightarrow> SD_gone))
      | _ \<Rightarrow> None)"

text \<open>\<open>recv\<close> (\<open>block\<close>) and \<open>try_recv\<close>.\<close>

definition chan_recv :: "'q futex \<Rightarrow> (('q, 'v) chan, 'v chan_pc) runner" where
  "chan_recv F c t pc =
     (case pc of
        RC_lock block m \<Rightarrow>
          map_option (\<lambda>(c', m'). (c', if m' = MX_held then RC_locked block else RC_lock block m')) (on_lock (raw_lock F 0) c t m)
      | RC_locked block \<Rightarrow> Some (c, RC_pop block (ch_queue c))
      | RC_pop block xs \<Rightarrow>
          Some (case xs of
                  v # ys \<Rightarrow> (c \<lparr> ch_queue := ys, ch_received := ch_received c @ [v] \<rparr>, RC_unlock (Received v) MX_release)
                | [] \<Rightarrow> (c, RC_senders block))
      | RC_senders block \<Rightarrow>
          Some (c, if ch_senders c = 0 then RC_unlock Disconnected MX_release
                   else if block then RC_wait CV_load else RC_unlock Empty MX_release)
      | RC_wait cv \<Rightarrow>
          map_option (\<lambda>((w, s, q), r). (c \<lparr> ch_lock := w, ch_seq := s, ch_kernel := q \<rparr>,
                                       case r of Some cv' \<Rightarrow> RC_wait cv' | None \<Rightarrow> RC_locked True))
            (condvar_wait F 0 1 (ch_lock c, ch_seq c, ch_kernel c) t cv)
      | RC_unlock r m \<Rightarrow>
          map_option (\<lambda>(c', m'). (c', if m' = MX_idle then RC_done r else RC_unlock r m')) (on_lock (raw_unlock F 0) c t m)
      | _ \<Rightarrow> None)"

definition receiver_drop :: "(('q, 'v) chan, 'v chan_pc) runner" where
  "receiver_drop c t pc = (case pc of RC_drop \<Rightarrow> Some (c \<lparr> ch_receiver_gone := True \<rparr>, RC_gone) | _ \<Rightarrow> None)"

definition chan_run :: "'q futex \<Rightarrow> (('q, 'v) chan, 'v chan_pc) runner" where
  "chan_run F c t pc =
     (case pc of
        SD_clone \<Rightarrow> sender_clone c t pc
      | SD_drop \<Rightarrow> sender_drop F c t pc
      | SD_last _ \<Rightarrow> sender_drop F c t pc
      | RC_lock _ _ \<Rightarrow> chan_recv F c t pc
      | RC_locked _ \<Rightarrow> chan_recv F c t pc
      | RC_pop _ _ \<Rightarrow> chan_recv F c t pc
      | RC_senders _ \<Rightarrow> chan_recv F c t pc
      | RC_wait _ \<Rightarrow> chan_recv F c t pc
      | RC_unlock _ _ \<Rightarrow> chan_recv F c t pc
      | RC_drop \<Rightarrow> receiver_drop c t pc
      | _ \<Rightarrow> chan_send F c t pc)"

definition chan_call :: "'v chan_pc \<Rightarrow> 'v chan_pc \<Rightarrow> bool" where
  "chan_call pc pc' \<longleftrightarrow>
     (case pc of
        SD_idle \<Rightarrow> (case pc' of SD_check _ \<Rightarrow> True | SD_clone \<Rightarrow> True | SD_drop \<Rightarrow> True | _ \<Rightarrow> False)
      | SD_failed _ \<Rightarrow> pc' = SD_idle
      | RC_idle \<Rightarrow> (case pc' of RC_lock _ m \<Rightarrow> m = MX_cas | RC_drop \<Rightarrow> True | _ \<Rightarrow> False)
      | RC_done _ \<Rightarrow> pc' = RC_idle
      | _ \<Rightarrow> False)"

definition chan_env :: "'q futex \<Rightarrow> ('q, 'v) chan \<Rightarrow> ('q, 'v) chan \<Rightarrow> bool" where
  "chan_env F c c' \<longleftrightarrow> (\<exists>q. c' = c \<lparr> ch_kernel := q \<rparr> \<and> kernel_returns F (ch_kernel c) q)"

text \<open>A clone is a second handle.\<close>

definition chan_spawn :: "'v chan_pc \<Rightarrow> 'v chan_pc \<times> 'v chan_pc \<Rightarrow> bool" where
  "chan_spawn pc p \<longleftrightarrow> pc = SD_cloned \<and> p = (SD_idle, SD_idle)"

abbreviation chan_reach :: "'q futex \<Rightarrow> (('q, 'v) chan, 'v chan_pc) conc \<Rightarrow> (('q, 'v) chan, 'v chan_pc) conc \<Rightarrow> bool" where
  "chan_reach F \<equiv> conc_reach (chan_run F) chan_call (chan_env F) chan_spawn"

lemmas chan_run_defs = chan_run_def chan_send_def sender_clone_def sender_drop_def chan_recv_def receiver_drop_def

section \<open>The mutex of the channel\<close>

fun chan_mutex :: "'v chan_pc \<Rightarrow> mutex_pc" where
  "chan_mutex (SD_lock v m) = m"
| "chan_mutex (SD_locked v) = MX_held"
| "chan_mutex (SD_push v xs) = MX_held"
| "chan_mutex (SD_unlock m) = m"
| "chan_mutex (RC_lock block m) = m"
| "chan_mutex (RC_locked block) = MX_held"
| "chan_mutex (RC_pop block xs) = MX_held"
| "chan_mutex (RC_senders block) = MX_held"
| "chan_mutex (RC_wait cv) = condvar_mutex cv"
| "chan_mutex (RC_unlock r m) = m"
| "chan_mutex _ = MX_idle"

definition chan_words :: "('q, 'v) chan \<Rightarrow> 'q mutex_shared" where
  "chan_words c = (ch_lock c, ch_kernel c)"

lemma on_lock_Some:
  "on_lock f c t m = Some (c', m') \<longleftrightarrow>
     (\<exists>w q. f (ch_lock c, ch_kernel c) t m = Some ((w, q), m') \<and> c' = c \<lparr> ch_lock := w, ch_kernel := q \<rparr>)"
  by (auto simp: on_lock_def)

lemma notify_mutex_env:
  assumes "f = notify_one F 1 \<or> f = notify_all F 1" "on_notify f c n = (c', r)"
  shows "mutex_env F 0 (chan_words c) (chan_words c')"
  using assms futex_wake_subset [of F "ch_kernel c" 1 0] futex_wake_all_subset [of F "ch_kernel c" 1 0]
  by (auto simp: on_notify_def notify_one_def notify_all_def mutex_env_def chan_words_def split: notify_pc.splits) blast+

lemma chan_run_mutex:
  assumes "chan_run F c t pc = Some (c', pc')"
  shows "mutex_run F 0 (chan_words c) t (chan_mutex pc) = Some (chan_words c', chan_mutex pc') \<or>
     (chan_words c' = chan_words c \<or> mutex_env F 0 (chan_words c) (chan_words c')) \<and>
     (chan_mutex pc' = chan_mutex pc \<or> mutex_call (chan_mutex pc) (chan_mutex pc'))"
proof (cases pc)
  case (SD_lock v m)
  then obtain w q m' where m: "raw_lock F 0 (ch_lock c, ch_kernel c) t m = Some ((w, q), m')"
      "c' = c \<lparr> ch_lock := w, ch_kernel := q \<rparr>" "pc' = (if m' = MX_held then SD_locked v else SD_lock v m')"
    using assms by (auto simp: chan_run_defs on_lock_Some)
  then show ?thesis using raw_lock_mutex [OF m(1)] SD_lock by (simp add: chan_words_def)
next
  case (RC_lock block m)
  then obtain w q m' where m: "raw_lock F 0 (ch_lock c, ch_kernel c) t m = Some ((w, q), m')"
      "c' = c \<lparr> ch_lock := w, ch_kernel := q \<rparr>" "pc' = (if m' = MX_held then RC_locked block else RC_lock block m')"
    using assms by (auto simp: chan_run_defs on_lock_Some)
  then show ?thesis using raw_lock_mutex [OF m(1)] RC_lock by (simp add: chan_words_def)
next
  case (SD_unlock m)
  then obtain w q m' where m: "raw_unlock F 0 (ch_lock c, ch_kernel c) t m = Some ((w, q), m')"
      "c' = c \<lparr> ch_lock := w, ch_kernel := q \<rparr>" "pc' = (if m' = MX_idle then SD_notify NT_bump else SD_unlock m')"
    using assms by (auto simp: chan_run_defs on_lock_Some)
  then show ?thesis using raw_unlock_mutex [OF m(1)] SD_unlock by (simp add: chan_words_def)
next
  case (RC_unlock r m)
  then obtain w q m' where m: "raw_unlock F 0 (ch_lock c, ch_kernel c) t m = Some ((w, q), m')"
      "c' = c \<lparr> ch_lock := w, ch_kernel := q \<rparr>" "pc' = (if m' = MX_idle then RC_done r else RC_unlock r m')"
    using assms by (auto simp: chan_run_defs on_lock_Some)
  then show ?thesis using raw_unlock_mutex [OF m(1)] RC_unlock by (simp add: chan_words_def)
next
  case (SD_notify n)
  then obtain r where n: "on_notify (notify_one F 1) c n = (c', r)" "pc' = (case r of Some n' \<Rightarrow> SD_notify n' | None \<Rightarrow> SD_idle)"
    using assms by (auto simp: chan_run_defs split: prod.splits)
  then show ?thesis using notify_mutex_env [OF _ n(1)] SD_notify by (auto split: option.splits)
next
  case (SD_last n)
  then obtain r where n: "on_notify (notify_all F 1) c n = (c', r)" "pc' = (case r of Some n' \<Rightarrow> SD_last n' | None \<Rightarrow> SD_gone)"
    using assms by (auto simp: chan_run_defs split: prod.splits)
  then show ?thesis using notify_mutex_env [OF _ n(1)] SD_last by (auto split: option.splits)
next
  case (RC_wait cv)
  then obtain w s q r where m: "condvar_wait F 0 1 (ch_lock c, ch_seq c, ch_kernel c) t cv = Some ((w, s, q), r)"
      "c' = c \<lparr> ch_lock := w, ch_seq := s, ch_kernel := q \<rparr>" "pc' = (case r of Some cv' \<Rightarrow> RC_wait cv' | None \<Rightarrow> RC_locked True)"
    using assms by (auto simp: chan_run_defs)
  have "chan_mutex pc' = (case r of Some cv' \<Rightarrow> condvar_mutex cv' | None \<Rightarrow> MX_held)" using m(3) by (cases r) simp_all
  then show ?thesis using condvar_wait_mutex [OF m(1)] m(2) RC_wait by (auto simp: chan_words_def)
qed (use assms in \<open>auto simp: chan_run_defs chan_words_def mutex_call_def split: list.splits if_splits\<close>)

interpretation chan_uses: conc_projection "chan_run F" chan_call "chan_env F" chan_spawn
    "mutex_run F 0" mutex_call "mutex_env F 0" mutex_spawn chan_words chan_mutex
  for F :: "'q futex"
proof unfold_locales
  fix c c' :: "('q, 'v) chan" and t and pc pc' :: "'v chan_pc"
  assume "chan_run F c t pc = Some (c', pc')"
  then show "mutex_run F 0 (chan_words c) t (chan_mutex pc) = Some (chan_words c', chan_mutex pc') \<or>
     (chan_words c' = chan_words c \<or> mutex_env F 0 (chan_words c) (chan_words c')) \<and>
     (chan_mutex pc' = chan_mutex pc \<or> mutex_call (chan_mutex pc) (chan_mutex pc'))"
    by (rule chan_run_mutex)
next
  fix pc pc' :: "'v chan_pc"
  assume "chan_call pc pc'"
  then show "chan_mutex pc' = chan_mutex pc \<or> mutex_call (chan_mutex pc) (chan_mutex pc')"
    by (auto simp: chan_call_def mutex_call_def split: chan_pc.splits)
next
  fix c c' :: "('q, 'v) chan"
  assume "chan_env F c c'"
  then have "mutex_env F 0 (chan_words c) (chan_words c')"
    unfolding chan_env_def kernel_returns_def mutex_env_def chan_words_def by (elim exE conjE) simp
  then show "chan_words c' = chan_words c \<or> mutex_env F 0 (chan_words c) (chan_words c')" ..
qed (simp add: chan_spawn_def mutex_spawn_def)

lemma chan_mutex_reach:
  assumes "chan_reach F (channel q) (c, pcs)"
  shows "mutex_reach F 0 (mutex_new q 2) (chan_words c, map chan_mutex pcs)"
  using chan_uses.reach_sim [OF assms]
  by (simp add: chan_uses.proj_def channel_def chan_words_def mutex_new_def numeral_2_eq_2)

text \<open>At most one thread is between locking and unlocking.\<close>

definition chan_holds :: "'v chan_pc \<Rightarrow> bool" where
  "chan_holds pc \<longleftrightarrow> holding (chan_mutex pc)"

lemma chan_one_holder:
  assumes "chan_reach F (channel q) (c, pcs)"
  shows "threads chan_holds pcs \<le> 1"
proof -
  have "mutex_inv (chan_words c) (map chan_mutex pcs)" using mutex.reach_inv [OF chan_mutex_reach [OF assms]] by simp
  moreover have "threads holding (map chan_mutex pcs) = threads chan_holds pcs"
    by (simp add: threads_def filter_map comp_def chan_holds_def [abs_def])
  ultimately show ?thesis by (simp add: mutex_inv_def split: if_splits)
qed

section \<open>The queue\<close>

text \<open>The handles a position stands for; a handle just cloned counts twice.\<close>

fun handles :: "'v chan_pc \<Rightarrow> nat" where
  "handles SD_cloned = 2"
| "handles (SD_last _) = 0"
| "handles SD_gone = 0"
| "handles RC_idle = 0"
| "handles (RC_lock _ _) = 0"
| "handles (RC_locked _) = 0"
| "handles (RC_pop _ _) = 0"
| "handles (RC_senders _) = 0"
| "handles (RC_wait _) = 0"
| "handles (RC_unlock _ _) = 0"
| "handles (RC_done _) = 0"
| "handles RC_drop = 0"
| "handles RC_gone = 0"
| "handles _ = 1"

text \<open>What a position says of the queue and of the senders left, \<open>n\<close>.\<close>

fun chan_local :: "'v list \<Rightarrow> nat \<Rightarrow> 'v chan_pc \<Rightarrow> bool" where
  "chan_local xs n (SD_lock v m) = locking m"
| "chan_local xs n (SD_push v ys) = (ys = xs)"
| "chan_local xs n (SD_unlock m) = (m = MX_release \<or> m = MX_wake)"
| "chan_local xs n (RC_lock block m) = locking m"
| "chan_local xs n (RC_pop block ys) = (ys = xs)"
| "chan_local xs n (RC_senders block) = (xs = [])"
| "chan_local xs n (RC_wait cv) = (condvar_ok cv \<and> (holding (condvar_mutex cv) \<longrightarrow> xs = []))"
| "chan_local xs n (RC_unlock r m) = ((m = MX_release \<or> m = MX_wake) \<and> (r = Disconnected \<longrightarrow> xs = [] \<and> n = 0))"
| "chan_local xs n (RC_done r) = (r = Disconnected \<longrightarrow> xs = [] \<and> n = 0)"
| "chan_local xs n _ = True"

definition chan_inv :: "('q, 'v) chan \<Rightarrow> 'v chan_pc list \<Rightarrow> bool" where
  "chan_inv c pcs \<longleftrightarrow>
     ch_sent c = ch_received c @ ch_queue c \<and> ch_senders c = of_nat (thread_sum handles pcs) \<and>
     list_all (chan_local (ch_queue c) (thread_sum handles pcs)) pcs"

text \<open>How a step changes the queue and the handles.\<close>

lemma chan_run_queue:
  assumes "chan_run F c t pc = Some (c', pc')"
  shows "ch_queue c' = ch_queue c \<and> ch_sent c' = ch_sent c \<and> ch_received c' = ch_received c \<or>
    (\<exists>v xs. pc = SD_push v xs \<and> pc' = SD_unlock MX_release \<and> ch_queue c' = xs @ [v] \<and> ch_sent c' = ch_sent c @ [v] \<and>
       ch_received c' = ch_received c) \<or>
    (\<exists>block v ys. pc = RC_pop block (v # ys) \<and> pc' = RC_unlock (Received v) MX_release \<and> ch_queue c' = ys \<and>
       ch_sent c' = ch_sent c \<and> ch_received c' = ch_received c @ [v])"
proof (cases pc)
  case (RC_pop block xs)
  then show ?thesis using assms by (cases xs) (auto simp: chan_run_defs)
qed (use assms in \<open>auto simp: chan_run_defs on_lock_Some on_notify_def split: prod.splits\<close>)

lemma chan_run_handles:
  assumes "chan_run F c t pc = Some (c', pc')"
  shows "ch_senders c' + of_nat (handles pc) = ch_senders c + of_nat (handles pc') \<and>
    (handles pc = 0 \<longrightarrow> handles pc' = 0)"
  using assms
  by (cases pc) (auto simp: chan_run_defs on_lock_Some on_notify_def split: prod.splits if_splits option.splits list.splits)

lemma chan_local_other:
  assumes "chan_local xs n pc" "\<not> chan_holds pc" "xs = [] \<Longrightarrow> n = 0 \<Longrightarrow> xs' = [] \<and> n' = 0"
  shows "chan_local xs' n' pc"
  using assms by (cases "(xs, n, pc)" rule: chan_local.cases) (auto simp: chan_holds_def holding_def)

lemma chan_run_local:
  assumes r: "chan_run F c t pc = Some (c', pc')" and l: "chan_local (ch_queue c) n pc"
    and n: "ch_senders c = of_nat n" "n < 2 ^ 64" "handles pc = 0 \<Longrightarrow> n' = n"
  shows "chan_local (ch_queue c') n' pc'"
proof (cases pc)
  case (RC_senders block)
  have "n = 0" if "ch_senders c = 0" using that n(1,2) by (simp add: unat_of_nat_u64 flip: unat_eq_0)
  then show ?thesis using r l n(3) RC_senders by (auto simp: chan_run_defs holding_def)
next
  case (RC_pop block xs)
  then show ?thesis using r l by (cases xs) (auto simp: chan_run_defs)
next
  case (RC_wait cv)
  then obtain w s q rr where m: "condvar_wait F 0 1 (ch_lock c, ch_seq c, ch_kernel c) t cv = Some ((w, s, q), rr)"
      "ch_queue c' = ch_queue c" "pc' = (case rr of Some cv' \<Rightarrow> RC_wait cv' | None \<Rightarrow> RC_locked True)"
    using r by (auto simp: chan_run_defs)
  then show ?thesis using condvar_wait_ok [OF m(1)] l RC_wait by (auto split: option.splits)
next
  case (SD_lock v m)
  then show ?thesis using r raw_lock_next by (fastforce simp: chan_run_defs on_lock_Some)
next
  case (RC_lock block m)
  then show ?thesis using r raw_lock_next by (fastforce simp: chan_run_defs on_lock_Some)
next
  case (SD_unlock m)
  then show ?thesis using r raw_unlock_next by (fastforce simp: chan_run_defs on_lock_Some)
next
  case (RC_unlock res m)
  then show ?thesis using r l n(3) raw_unlock_next by (fastforce simp: chan_run_defs on_lock_Some)
qed (use r l in \<open>auto simp: chan_run_defs on_notify_def locking_def split: prod.splits option.splits\<close>)

lemma handles_bound: "thread_sum handles pcs \<le> 2 * length pcs"
proof (rule thread_sum_le)
  show "handles pc \<le> 2" for pc :: "'a chan_pc" by (cases pc rule: handles.cases) simp_all
qed

lemma chan_run_inv:
  assumes K: "threads chan_holds pcs \<le> 1" and I: "chan_inv c pcs" and t: "t < length pcs" and n: "length pcs < 2 ^ 63"
    and r: "chan_run F c t (pcs ! t) = Some (c', pc')"
  shows "chan_inv c' (pcs[t := pc'])"
proof -
  let ?n = "thread_sum handles pcs" and ?n' = "thread_sum handles (pcs[t := pc'])"
  note up = thread_sum_update [OF t, of handles pc']
  have l: "chan_local (ch_queue c) ?n (pcs ! u)" if "u < length pcs" for u
    using I that by (simp add: chan_inv_def list_all_length)
  have s: "ch_senders c = of_nat ?n" using I by (simp add: chan_inv_def)
  have b: "?n < 2 ^ 64" using n handles_bound [of pcs] by simp
  have h: "handles (pcs ! t) = 0 \<Longrightarrow> ?n' = ?n" using up chan_run_handles [OF r] by simp
  have "ch_senders c' + of_nat (handles (pcs ! t)) = of_nat (?n + handles pc')" using chan_run_handles [OF r] s by simp
  then have s': "ch_senders c' = of_nat ?n'" unfolding up [symmetric] of_nat_add by simp
  have ge: "handles (pcs ! t) \<le> ?n" using t by (rule thread_sum_ge)
  have zero: "?n' = 0" if "?n = 0" using that ge up chan_run_handles [OF r] by simp
  have local: "chan_local (ch_queue c') ?n' (pcs[t := pc'] ! u)" if u: "u < length pcs" for u
  proof (cases "u = t")
    case True
    then show ?thesis using chan_run_local [OF r l [OF t] s b h] t by simp
  next
    case False
    have alone: "\<not> chan_holds (pcs ! u)" if "chan_holds (pcs ! t)" using threads_unique [OF K t u that] False by auto
    have "chan_local (ch_queue c') ?n' (pcs ! u)"
      using chan_run_queue [OF r]
    proof (elim disjE exE conjE)
      assume q: "ch_queue c' = ch_queue c"
      show ?thesis
      proof (cases "?n = 0")
        case True
        then show ?thesis using l [OF u] zero q by simp
      next
        case n0: False
        show ?thesis using l [OF u] q n0
          by (cases "(ch_queue c, ?n, pcs ! u)" rule: chan_local.cases) auto
      qed
    next
      fix v xs assume p: "pcs ! t = SD_push v xs"
      then have "?n \<noteq> 0" using ge by simp
      then show ?thesis using chan_local_other [OF l [OF u]] alone p by (simp add: chan_holds_def holding_def)
    next
      fix block v ys assume p: "pcs ! t = RC_pop block (v # ys)"
      then have "ch_queue c \<noteq> []" using l [OF t] by auto
      then show ?thesis using chan_local_other [OF l [OF u]] alone p by (simp add: chan_holds_def holding_def)
    qed
    then show ?thesis using False by simp
  qed
  have "ch_sent c' = ch_received c' @ ch_queue c'"
    using chan_run_queue [OF r] I l [OF t] by (auto simp: chan_inv_def)
  then show ?thesis using local s' by (simp add: chan_inv_def list_all_length)
qed

lemma chan_call_inv:
  assumes "chan_inv c pcs" "t < length pcs" "chan_call (pcs ! t) pc'"
  shows "chan_inv c (pcs[t := pc'])"
proof -
  have h: "handles pc' = handles (pcs ! t)" "chan_local (ch_queue c) n pc'" for n
    using assms(3) by (auto simp: chan_call_def locking_def split: chan_pc.splits)
  then have "thread_sum handles (pcs[t := pc']) = thread_sum handles pcs"
    using thread_sum_update [OF assms(2), of handles pc'] by simp
  then show ?thesis using assms(1,2) h(2) by (auto simp: chan_inv_def list_all_length nth_list_update)
qed

lemma chan_spawn_inv:
  assumes "chan_inv c pcs" "t < length pcs" "chan_spawn (pcs ! t) (pc', new)"
  shows "chan_inv c (pcs[t := pc'] @ [new])"
proof -
  have p: "pcs ! t = SD_cloned" "pc' = SD_idle" "new = SD_idle" using assms(3) by (simp_all add: chan_spawn_def)
  then have "thread_sum handles (pcs[t := pc'] @ [new]) = thread_sum handles pcs"
    using thread_sum_update [OF assms(2), of handles pc'] by (simp add: thread_sum_def)
  then show ?thesis using assms(1,2) p by (auto simp: chan_inv_def list_all_length nth_list_update nth_append)
qed

interpretation chan: conc_invariant_given "chan_run F" chan_call "chan_env F" chan_spawn "channel q"
    "\<lambda>c pcs. threads chan_holds pcs \<le> 1" "\<lambda>c pcs. length pcs < 2 ^ 63 \<longrightarrow> chan_inv c pcs"
  for F :: "'q futex" and q
proof unfold_locales
  fix s :: "(('q, 'v) chan, 'v chan_pc) conc"
  assume "chan_reach F (channel q) s"
  then show "threads chan_holds (snd s) \<le> 1" using chan_one_holder [of F q "fst s" "snd s"] by simp
next
  show "length (snd (channel q)) < 2 ^ 63 \<longrightarrow> chan_inv (fst (channel q)) (snd (channel q))"
    by (simp add: channel_def chan_inv_def thread_sum_def)
next
  fix c c' :: "('q, 'v) chan" and pcs t pc'
  assume "threads chan_holds pcs \<le> 1" "length pcs < 2 ^ 63 \<longrightarrow> chan_inv c pcs" "t < length pcs"
    "chan_run F c t (pcs ! t) = Some (c', pc')"
  then show "length (pcs[t := pc']) < 2 ^ 63 \<longrightarrow> chan_inv c' (pcs[t := pc'])" using chan_run_inv by (metis length_list_update)
next
  fix c c' :: "('q, 'v) chan" and pcs
  assume "length pcs < 2 ^ 63 \<longrightarrow> chan_inv c pcs" "chan_env F c c'"
  then show "length pcs < 2 ^ 63 \<longrightarrow> chan_inv c' pcs" by (auto simp: chan_env_def chan_inv_def)
next
  fix c :: "('q, 'v) chan" and pcs t pc' new
  assume "length pcs < 2 ^ 63 \<longrightarrow> chan_inv c pcs" "t < length pcs" "chan_spawn (pcs ! t) (pc', new)"
  then show "length (pcs[t := pc'] @ [new]) < 2 ^ 63 \<longrightarrow> chan_inv c (pcs[t := pc'] @ [new])"
    using chan_spawn_inv [of c pcs t pc' new] by simp
qed (simp add: chan_call_inv)

section \<open>Properties\<close>

text \<open>C3: The channel is first in, first out and loses nothing: in every state that any interleaving of sends, clones, drops and
receives reaches, what was received followed by what is queued is what was sent, in the order of the pushes; \<open>recv\<close> and
\<open>try_recv\<close> report a disconnected channel only when no sender is left and every message was received.\<close>

theorem channel_fifo:
  assumes "chan_reach F (channel q) (c, pcs)" "length pcs < 2 ^ 63"
  shows "ch_sent c = ch_received c @ ch_queue c \<and>
     (RC_done Disconnected \<in> set pcs \<longrightarrow> thread_sum handles pcs = 0 \<and> ch_received c = ch_sent c)"
  using chan.reach_inv [OF assms(1)] assms(2) by (auto simp: chan_inv_def list_all_iff)

text \<open>A message from one thread to the other.\<close>

definition send_recv :: "nat chan_pc action list" where
  "send_recv = [Call 1 (SD_check 5), Run 1, Run 1, Run 1, Run 1, Run 1, Run 1, Run 1,
     Call 0 (RC_lock False MX_cas), Run 0, Run 0, Run 0, Run 0]"

theorem channel_fifo_witness:
  "\<exists>c. chan_reach (fifo_futex Linux_x86_64) (channel []) (c, [RC_done (Received 5), SD_idle :: nat chan_pc]) \<and>
     ch_received c = [5] \<and> ch_sent c = ch_received c @ ch_queue c"
proof -
  let ?c = "\<lparr> ch_lock = 0, ch_queue = [], ch_seq = 1, ch_senders = 1, ch_receiver_gone = False, ch_kernel = [],
      ch_sent = [5], ch_received = [5], ch_bumps = 1 \<rparr> :: ((nat \<times> nat) list, nat) chan"
  have r: "chan_reach (fifo_futex Linux_x86_64) (channel []) (?c, [RC_done (Received 5), SD_idle])"
    by (rule conc_exec_reach [of _ _ _ send_recv])
      (simp add: send_recv_def channel_def chan_call_def chan_run_defs run_thread_def on_lock_def on_notify_def raw_lock_def
        raw_unlock_def notify_one_def futex_wake_def fifo_futex_def fifo_wake_def sleepers_at_def)
  have "ch_sent ?c = ch_received ?c @ ch_queue ?c" using channel_fifo [OF r] by simp
  then show ?thesis using r by (intro exI [of _ ?c]) simp
qed

end
