(* ===== verification/Channel_Wakes.thy ===== *)
theory Channel_Wakes
  imports Channels
begin

text \<open>
  Waiting on the channel of \<open>Channels\<close>: a receiver that sleeps while the queue has a message is woken
  by the sender, and a receiver that sleeps when the last sender leaves may not be.
\<close>

section \<open>Waiting for a message\<close>

definition receiver :: "'v chan_pc \<Rightarrow> bool" where
  "receiver pc = (case pc of RC_idle \<Rightarrow> True | RC_lock _ _ \<Rightarrow> True | RC_locked _ \<Rightarrow> True | RC_pop _ _ \<Rightarrow> True
     | RC_senders _ \<Rightarrow> True | RC_wait _ \<Rightarrow> True | RC_unlock _ _ \<Rightarrow> True | RC_done _ \<Rightarrow> True | RC_drop \<Rightarrow> True
     | RC_gone \<Rightarrow> True | _ \<Rightarrow> False)"

text \<open>The sequence number the receiver waits to change, and whether it is in the kernel.\<close>

fun wait_seq :: "'v chan_pc \<Rightarrow> u32 option" where
  "wait_seq (RC_wait (CV_unlock s _)) = Some s"
| "wait_seq (RC_wait (CV_block s _)) = Some s"
| "wait_seq _ = None"

fun wait_blocked :: "'v chan_pc \<Rightarrow> bool" where
  "wait_blocked (RC_wait (CV_block _ fp)) = (fp = FW_blocked)"
| "wait_blocked _ = False"

text \<open>Threads that will increment the number, or have done so and will wake.\<close>

fun bumping :: "'v chan_pc \<Rightarrow> bool" where
  "bumping (SD_unlock _) = True"
| "bumping (SD_notify n) = (n = NT_bump)"
| "bumping _ = False"

fun waking :: "'v chan_pc \<Rightarrow> bool" where
  "waking (SD_notify n) = (n = NT_wake)"
| "waking (SD_last n) = (n = NT_wake)"
| "waking _ = False"

definition chan_wake_inv :: "'q futex \<Rightarrow> ('q, 'v) chan \<Rightarrow> 'v chan_pc list \<Rightarrow> bool" where
  "chan_wake_inv F c pcs \<longleftrightarrow>
     threads receiver pcs \<le> 1 \<and> ch_seq c = of_nat (ch_bumps c) \<and>
     (\<forall>t \<in> fx_sleeping F (ch_kernel c) 1. t < length pcs \<and> wait_blocked (pcs ! t)) \<and>
     (\<forall>t < length pcs. \<forall>s. wait_seq (pcs ! t) = Some s \<longrightarrow>
        unat s \<le> ch_bumps c \<and> (s = ch_seq c \<longrightarrow> ch_queue c = [] \<or> list_ex bumping pcs) \<and>
        (s \<noteq> ch_seq c \<and> t \<in> fx_sleeping F (ch_kernel c) 1 \<longrightarrow> list_ex waking pcs))"

text \<open>The steps by what they do to the sequence number and its sleepers.\<close>

definition quiet_step :: "'q futex \<Rightarrow> ('q, 'v) chan \<Rightarrow> 'v chan_pc \<Rightarrow> ('q, 'v) chan \<Rightarrow> 'v chan_pc \<Rightarrow> bool" where
  "quiet_step F c pc c' pc' \<longleftrightarrow>
     fx_sleeping F (ch_kernel c') 1 \<subseteq> fx_sleeping F (ch_kernel c) 1 \<and> ch_seq c' = ch_seq c \<and> ch_bumps c' = ch_bumps c \<and>
     (bumping pc \<longrightarrow> bumping pc') \<and> \<not> waking pc"

definition bump_step :: "('q, 'v) chan \<Rightarrow> 'v chan_pc \<Rightarrow> ('q, 'v) chan \<Rightarrow> 'v chan_pc \<Rightarrow> bool" where
  "bump_step c pc c' pc' \<longleftrightarrow>
     ch_kernel c' = ch_kernel c \<and> ch_seq c' = ch_seq c + 1 \<and> ch_bumps c' = ch_bumps c + 1 \<and> ch_queue c' = ch_queue c \<and>
     waking pc' \<and> \<not> receiver pc \<and> wait_seq pc' = None"

definition wake_step :: "'q futex \<Rightarrow> ('q, 'v) chan \<Rightarrow> 'v chan_pc \<Rightarrow> ('q, 'v) chan \<Rightarrow> 'v chan_pc \<Rightarrow> bool" where
  "wake_step F c pc c' pc' \<longleftrightarrow>
     (ch_kernel c' = futex_wake F (ch_kernel c) 1 \<or> ch_kernel c' = futex_wake_all F (ch_kernel c) 1) \<and>
     ch_seq c' = ch_seq c \<and> ch_bumps c' = ch_bumps c \<and> ch_queue c' = ch_queue c \<and>
     \<not> bumping pc \<and> \<not> receiver pc \<and> wait_seq pc' = None"

definition sleep_step :: "'q futex \<Rightarrow> nat \<Rightarrow> ('q, 'v) chan \<Rightarrow> 'v chan_pc \<Rightarrow> ('q, 'v) chan \<Rightarrow> 'v chan_pc \<Rightarrow> bool" where
  "sleep_step F t c pc c' pc' \<longleftrightarrow>
     c' = c \<lparr> ch_kernel := fx_wait F (ch_kernel c) 1 t \<rparr> \<and> wait_seq pc = Some (ch_seq c) \<and> wait_seq pc' = Some (ch_seq c) \<and>
     wait_blocked pc' \<and> receiver pc"

lemma chan_run_steps:
  assumes F: "futex_contract F" and r: "chan_run F c t pc = Some (c', pc')"
  shows "quiet_step F c pc c' pc' \<or> bump_step c pc c' pc' \<or> wake_step F c pc c' pc' \<or> sleep_step F t c pc c' pc'"
proof (cases pc)
  case (SD_lock v m)
  then obtain w q m' where m: "raw_lock F 0 (ch_lock c, ch_kernel c) t m = Some ((w, q), m')"
      "c' = c \<lparr> ch_lock := w, ch_kernel := q \<rparr>"
    using r by (auto simp: chan_run_defs on_lock_Some)
  then show ?thesis using raw_lock_sleeping [OF F m(1), of 1] SD_lock by (simp add: quiet_step_def)
next
  case (RC_lock block m)
  then obtain w q m' where m: "raw_lock F 0 (ch_lock c, ch_kernel c) t m = Some ((w, q), m')"
      "c' = c \<lparr> ch_lock := w, ch_kernel := q \<rparr>"
    using r by (auto simp: chan_run_defs on_lock_Some)
  then show ?thesis using raw_lock_sleeping [OF F m(1), of 1] RC_lock by (simp add: quiet_step_def)
next
  case (SD_unlock m)
  then obtain w q m' where m: "raw_unlock F 0 (ch_lock c, ch_kernel c) t m = Some ((w, q), m')"
      "c' = c \<lparr> ch_lock := w, ch_kernel := q \<rparr>" "pc' = (if m' = MX_idle then SD_notify NT_bump else SD_unlock m')"
    using r by (auto simp: chan_run_defs on_lock_Some)
  then show ?thesis using raw_unlock_sleeping [OF F m(1), of 1] SD_unlock by (simp add: quiet_step_def)
next
  case (RC_unlock res m)
  then obtain w q m' where m: "raw_unlock F 0 (ch_lock c, ch_kernel c) t m = Some ((w, q), m')"
      "c' = c \<lparr> ch_lock := w, ch_kernel := q \<rparr>"
    using r by (auto simp: chan_run_defs on_lock_Some)
  then show ?thesis using raw_unlock_sleeping [OF F m(1), of 1] RC_unlock by (simp add: quiet_step_def)
next
  case (SD_notify n)
  then show ?thesis using r
    by (cases n) (simp_all add: chan_run_defs on_notify_def notify_one_def bump_step_def wake_step_def receiver_def, auto)
next
  case (SD_last n)
  then show ?thesis using r
    by (cases n) (simp_all add: chan_run_defs on_notify_def notify_all_def bump_step_def wake_step_def receiver_def, auto)
next
  case (RC_wait cv)
  then obtain w s q rr where m: "condvar_wait F 0 1 (ch_lock c, ch_seq c, ch_kernel c) t cv = Some ((w, s, q), rr)"
      "c' = c \<lparr> ch_lock := w, ch_seq := s, ch_kernel := q \<rparr>" "pc' = (case rr of Some cv' \<Rightarrow> RC_wait cv' | None \<Rightarrow> RC_locked True)"
    using r by (auto simp: chan_run_defs)
  show ?thesis
  proof (cases cv)
    case (CV_unlock s0 m0)
    then obtain m' where u: "raw_unlock F 0 (ch_lock c, ch_kernel c) t m0 = Some ((w, q), m')" "s = ch_seq c"
      using m(1) by (auto simp: condvar_wait_def)
    then show ?thesis using raw_unlock_sleeping [OF F u(1), of 1] m(2) RC_wait by (simp add: quiet_step_def)
  next
    case (CV_relock m0)
    then obtain m' where u: "raw_lock F 0 (ch_lock c, ch_kernel c) t m0 = Some ((w, q), m')" "s = ch_seq c"
      using m(1) by (auto simp: condvar_wait_def)
    then show ?thesis using raw_lock_sleeping [OF F u(1), of 1] m(2) RC_wait by (simp add: quiet_step_def)
  next
    case (CV_block s0 fp)
    then show ?thesis using m RC_wait
      by (cases fp) (auto simp: condvar_wait_def futex_wait_def quiet_step_def sleep_step_def receiver_def split: if_splits)
  qed (use m RC_wait in \<open>auto simp: condvar_wait_def quiet_step_def\<close>)
qed (use r in \<open>auto simp: chan_run_defs quiet_step_def split: list.splits\<close>)

lemma chan_run_receiver:
  assumes "chan_run F c t pc = Some (c', pc')"
  shows "receiver pc' = receiver pc"
  using assms
  by (cases pc) (auto simp: chan_run_defs receiver_def on_lock_Some on_notify_def split: prod.splits option.splits list.splits if_splits)

lemma chan_run_wait_seq:
  assumes "chan_run F c t pc = Some (c', pc')" "wait_seq pc' = Some s"
  shows "(wait_seq pc = Some s \<or> pc = RC_wait CV_load \<and> s = ch_seq c) \<and> ch_queue c' = ch_queue c \<and> receiver pc"
proof (cases pc)
  case (RC_wait cv)
  then obtain w s1 q rr where m: "condvar_wait F 0 1 (ch_lock c, ch_seq c, ch_kernel c) t cv = Some ((w, s1, q), rr)"
      "ch_queue c' = ch_queue c" "pc' = (case rr of Some cv' \<Rightarrow> RC_wait cv' | None \<Rightarrow> RC_locked True)"
    using assms by (auto simp: chan_run_defs)
  then show ?thesis using assms(2) RC_wait
    by (cases cv) (auto simp: condvar_wait_def receiver_def split: if_splits option.splits)
qed (use assms in \<open>auto simp: chan_run_defs on_lock_Some on_notify_def split: prod.splits option.splits list.splits if_splits\<close>)

text \<open>What the receiver at \<open>u\<close> relies on.\<close>

definition wait_ok :: "'q futex \<Rightarrow> ('q, 'v) chan \<Rightarrow> 'v chan_pc list \<Rightarrow> nat \<Rightarrow> u32 \<Rightarrow> bool" where
  "wait_ok F c pcs u s \<longleftrightarrow>
     unat s \<le> ch_bumps c \<and> (s = ch_seq c \<longrightarrow> ch_queue c = [] \<or> list_ex bumping pcs) \<and>
     (s \<noteq> ch_seq c \<and> u \<in> fx_sleeping F (ch_kernel c) 1 \<longrightarrow> list_ex waking pcs)"

lemma chan_wake_inv_alt:
  "chan_wake_inv F c pcs \<longleftrightarrow>
     threads receiver pcs \<le> 1 \<and> ch_seq c = of_nat (ch_bumps c) \<and>
     (\<forall>t \<in> fx_sleeping F (ch_kernel c) 1. t < length pcs \<and> wait_blocked (pcs ! t)) \<and>
     (\<forall>t < length pcs. \<forall>s. wait_seq (pcs ! t) = Some s \<longrightarrow> wait_ok F c pcs t s)"
  by (simp add: chan_wake_inv_def wait_ok_def)

lemma wait_seq_bumping: "wait_seq pc = Some s \<Longrightarrow> \<not> bumping pc"
  by (cases pc) simp_all

lemma wait_ok_step:
  assumes F: "futex_contract F" and r: "chan_run F c t pc = Some (c', pc')" and t: "t < length pcs" "pcs ! t = pc"
    and q: "ch_seq c = of_nat (ch_bumps c)" "ch_bumps c' < 2 ^ 32" and ok: "wait_ok F c pcs u s"
    and single: "fx_sleeping F (ch_kernel c) 1 \<subseteq> {x}"
    and queue: "ch_queue c' = [] \<or> ch_queue c' = ch_queue c \<or> bumping pc'"
    and me: "receiver pc \<longrightarrow> wait_seq pc = Some s \<or> s = ch_seq c"
  shows "wait_ok F c' (pcs[t := pc']) u s"
proof -
  have lb: "list_ex bumping (pcs[t := pc'])" if "list_ex bumping pcs" "bumping pc \<longrightarrow> bumping pc'"
    using list_ex_update [OF that(1) t(1), of pc'] that(2) t(2) by blast
  have lw: "list_ex waking (pcs[t := pc'])" if "list_ex waking pcs" "\<not> waking pc"
    using list_ex_update [OF that(1) t(1), of pc'] that(2) t(2) by blast
  show ?thesis
    using chan_run_steps [OF F r]
  proof (elim disjE)
    assume "quiet_step F c pc c' pc'"
    then have e: "ch_seq c' = ch_seq c" "ch_bumps c' = ch_bumps c" "fx_sleeping F (ch_kernel c') 1 \<subseteq> fx_sleeping F (ch_kernel c) 1"
      and b: "bumping pc \<longrightarrow> bumping pc'" "\<not> waking pc"
      unfolding quiet_step_def by simp_all
    have "ch_queue c = [] \<Longrightarrow> ch_queue c' = [] \<or> bumping pc'" "ch_queue c' = [] \<or> ch_queue c' = ch_queue c \<or> bumping pc'"
      using queue by auto
    moreover have "bumping pc' \<Longrightarrow> list_ex bumping (pcs[t := pc'])" by (rule list_ex_update_self [OF t(1)])
    ultimately show ?thesis using ok lb [OF _ b(1)] lw [OF _ b(2)] e(3) unfolding wait_ok_def e(1,2) by blast
  next
    assume a: "bump_step c pc c' pc'"
    then have "s \<noteq> ch_seq c'" using bump_differs [of s "ch_bumps c"] ok q by (simp add: wait_ok_def bump_step_def)
    moreover have "list_ex waking (pcs[t := pc'])" using a t list_ex_update_self [of t pcs waking pc'] by (simp add: bump_step_def)
    ultimately show ?thesis using ok a by (simp add: wait_ok_def bump_step_def)
  next
    assume a: "wake_step F c pc c' pc'"
    then have e: "ch_seq c' = ch_seq c" "ch_bumps c' = ch_bumps c" "ch_queue c' = ch_queue c" and b: "\<not> bumping pc"
      by (simp_all add: wake_step_def)
    have "fx_sleeping F (ch_kernel c') 1 = {}"
      using a futex_wake_single [OF F single] futex_wake_all_single [OF F single] unfolding wake_step_def by fastforce
    then show ?thesis using ok lb b unfolding wait_ok_def e by blast
  next
    assume a: "sleep_step F t c pc c' pc'"
    then have w: "wait_seq pc = Some (ch_seq c)" "receiver pc" by (simp_all add: sleep_step_def)
    then have e: "s = ch_seq c" using me by auto
    have "ch_seq c' = ch_seq c" "ch_bumps c' = ch_bumps c" "ch_queue c' = ch_queue c" using a by (simp_all add: sleep_step_def)
    then show ?thesis using ok lb wait_seq_bumping [OF w(1)] unfolding wait_ok_def e by auto
  qed
qed

lemma chan_run_blocked:
  assumes "futex_contract F" "chan_run F c t pc = Some (c', pc')" "\<not> wait_blocked pc \<or> t \<notin> fx_sleeping F (ch_kernel c) 1"
  shows "fx_sleeping F (ch_kernel c') 1 \<subseteq> fx_sleeping F (ch_kernel c) 1 \<or>
    wait_blocked pc' \<and> fx_sleeping F (ch_kernel c') 1 = insert t (fx_sleeping F (ch_kernel c) 1)"
  using chan_run_steps [OF assms(1,2)] futex_wake_subset [OF assms(1), of "ch_kernel c" 1 1]
    futex_wake_all_subset [OF assms(1), of "ch_kernel c" 1 1] fx_wait_sleeping [OF assms(1), of "ch_kernel c" 1 t 1]
  by (elim disjE) (auto simp: quiet_step_def bump_step_def wake_step_def sleep_step_def)

lemma chan_run_awake:
  assumes "chan_run F c t pc = Some (c', pc')" "wait_blocked pc"
  shows "t \<notin> fx_sleeping F (ch_kernel c) 1"
proof -
  obtain s where "pc = RC_wait (CV_block s FW_blocked)" using assms(2) by (cases pc rule: wait_blocked.cases) auto
  then show ?thesis using assms(1) by (auto simp: chan_run_defs condvar_wait_def futex_wait_def split: if_splits)
qed

lemma chan_wake_run:
  assumes F: "futex_contract F" and K: "chan_inv c pcs" and I: "chan_wake_inv F c pcs" and t: "t < length pcs"
    and b: "ch_bumps c' < 2 ^ 32" and r: "chan_run F c t (pcs ! t) = Some (c', pc')"
  shows "chan_wake_inv F c' (pcs[t := pc'])"
proof -
  let ?S = "fx_sleeping F (ch_kernel c) 1"
  have one: "threads receiver pcs \<le> 1" and q: "ch_seq c = of_nat (ch_bumps c)"
    and sl: "\<forall>t \<in> ?S. t < length pcs \<and> wait_blocked (pcs ! t)"
    and ok: "\<And>u s. u < length pcs \<Longrightarrow> wait_seq (pcs ! u) = Some s \<Longrightarrow> wait_ok F c pcs u s"
    using I by (simp_all add: chan_wake_inv_alt)
  have rec: "receiver (pcs ! u)" if "wait_seq (pcs ! u) \<noteq> None \<or> wait_blocked (pcs ! u)" for u
    using that by (cases "pcs ! u") (auto simp: receiver_def)
  have single: "?S \<subseteq> {SOME u. u \<in> ?S}"
    using threads_unique [OF one] sl rec by (metis (no_types, lifting) singletonI someI subsetI)
  have awake: "t \<notin> ?S" using chan_run_awake [OF r] sl by auto
  have 1: "threads receiver (pcs[t := pc']) \<le> 1"
    using one threads_update [OF t, of receiver pc'] chan_run_receiver [OF r] by simp
  have 2: "ch_seq c' = of_nat (ch_bumps c')"
    using chan_run_steps [OF F r] q by (elim disjE) (simp_all add: quiet_step_def bump_step_def wake_step_def sleep_step_def)
  have 3: "\<forall>u \<in> fx_sleeping F (ch_kernel c') 1. u < length (pcs[t := pc']) \<and> wait_blocked (pcs[t := pc'] ! u)"
    using chan_run_blocked [OF F r] awake unaffected [OF sl awake, of pc'] t by auto
  have 4: "wait_ok F c' (pcs[t := pc']) u s" if u: "u < length pcs" "wait_seq (pcs[t := pc'] ! u) = Some s" for u s
  proof (cases "u = t")
    case True
    then have w: "wait_seq pc' = Some s" using u t by simp
    note ws = chan_run_wait_seq [OF r w]
    have "wait_ok F c pcs t s"
    proof (cases "wait_seq (pcs ! t) = Some s")
      case False
      then have "pcs ! t = RC_wait CV_load" "s = ch_seq c" using ws by auto
      moreover have "ch_queue c = []" using K t calculation(1) by (auto simp: chan_inv_def list_all_length holding_def)
      moreover have "unat (ch_seq c) \<le> ch_bumps c" using q by (simp add: unsigned_of_nat)
      ultimately show ?thesis by (simp add: wait_ok_def)
    qed (use ok t in simp)
    then show ?thesis using wait_ok_step [OF F r t refl q b _ single] ws True by auto
  next
    case False
    then have w: "wait_seq (pcs ! u) = Some s" using u by simp
    have nr: "\<not> receiver (pcs ! t)" using threads_unique [OF one t u(1)] rec [of u] w False by auto
    then have "ch_queue c' = [] \<or> ch_queue c' = ch_queue c \<or> bumping pc'"
      using chan_run_queue [OF r] by (auto simp: receiver_def)
    then show ?thesis using wait_ok_step [OF F r t refl q b ok [OF u(1) w] single] nr by blast
  qed
  show ?thesis using 1 2 3 4 by (simp add: chan_wake_inv_alt)
qed

lemma chan_wake_call:
  assumes I: "chan_wake_inv F c pcs" and t: "t < length pcs" and r: "chan_call (pcs ! t) pc'"
  shows "chan_wake_inv F c (pcs[t := pc'])"
proof -
  have p: "receiver pc' = receiver (pcs ! t)" "wait_seq pc' = None" "\<not> bumping (pcs ! t)" "\<not> waking (pcs ! t)"
      "\<not> wait_blocked (pcs ! t)"
    using r by (auto simp: chan_call_def receiver_def split: chan_pc.splits)
  have l: "list_ex bumping pcs \<Longrightarrow> list_ex bumping (pcs[t := pc'])" "list_ex waking pcs \<Longrightarrow> list_ex waking (pcs[t := pc'])"
    using p(3,4) list_ex_update [OF _ t, of bumping pc'] list_ex_update [OF _ t, of waking pc'] by blast+
  have sl: "\<forall>u \<in> fx_sleeping F (ch_kernel c) 1. u < length pcs \<and> wait_blocked (pcs ! u)" "t \<notin> fx_sleeping F (ch_kernel c) 1"
    using I p(5) by (auto simp: chan_wake_inv_def)
  have "wait_ok F c (pcs[t := pc']) u s" if "u < length pcs" "wait_seq (pcs[t := pc'] ! u) = Some s" for u s
  proof -
    have "u \<noteq> t" using that p(2) t by auto
    then have "wait_ok F c pcs u s" using that I by (simp add: chan_wake_inv_alt)
    then show ?thesis using l unfolding wait_ok_def by blast
  qed
  then show ?thesis
    using I unaffected [OF sl, of pc'] threads_update [OF t, of receiver pc'] p(1) by (simp add: chan_wake_inv_alt)
qed

lemma chan_wake_env:
  assumes "chan_wake_inv F c pcs" "chan_env F c c'"
  shows "chan_wake_inv F c' pcs"
proof -
  obtain q where q: "c' = c \<lparr> ch_kernel := q \<rparr>" "fx_sleeping F q 1 \<subseteq> fx_sleeping F (ch_kernel c) 1"
    using assms(2) by (auto simp: chan_env_def kernel_returns_def)
  then show ?thesis using assms(1) unfolding chan_wake_inv_def by (simp add: q(1)) blast
qed

lemma chan_wake_spawn:
  assumes I: "chan_wake_inv F c pcs" and t: "t < length pcs" and r: "chan_spawn (pcs ! t) (pc', new)"
  shows "chan_wake_inv F c (pcs[t := pc'] @ [new])"
proof -
  have p: "pcs ! t = SD_cloned" "pc' = SD_idle" "new = SD_idle" using r by (simp_all add: chan_spawn_def)
  have l: "list_ex bumping pcs \<Longrightarrow> list_ex bumping (pcs[t := pc'] @ [new])" "list_ex waking pcs \<Longrightarrow> list_ex waking (pcs[t := pc'] @ [new])"
    using p list_ex_update [OF _ t, of bumping pc'] list_ex_update [OF _ t, of waking pc'] by simp_all
  have sl: "\<forall>u \<in> fx_sleeping F (ch_kernel c) 1. u < length pcs \<and> wait_blocked (pcs ! u)" "t \<notin> fx_sleeping F (ch_kernel c) 1"
    using I p(1) by (auto simp: chan_wake_inv_def)
  have "wait_ok F c (pcs[t := pc'] @ [new]) u s" if "u < Suc (length pcs)" "wait_seq ((pcs[t := pc'] @ [new]) ! u) = Some s" for u s
  proof -
    have "u \<noteq> t" "u < length pcs" using that p t by (auto simp: nth_append split: if_splits)
    then have "wait_ok F c pcs u s" using that I by (simp add: chan_wake_inv_alt nth_append)
    then show ?thesis using l unfolding wait_ok_def by blast
  qed
  then show ?thesis
    using I unaffected [OF sl, of pc'] threads_update [OF t, of receiver pc'] p
    by (auto simp: chan_wake_inv_alt receiver_def nth_append)
qed

lemma chan_bumps_mono: "futex_contract F \<Longrightarrow> chan_run F c t pc = Some (c', pc') \<Longrightarrow> ch_bumps c \<le> ch_bumps c'"
  using chan_run_steps [of F c t pc c' pc'] by (auto simp: quiet_step_def bump_step_def wake_step_def sleep_step_def)

definition chan_bounds :: "'q futex \<Rightarrow> 'q \<Rightarrow> ('q, 'v) chan \<Rightarrow> 'v chan_pc list \<Rightarrow> bool" where
  "chan_bounds F q c pcs \<longleftrightarrow> futex_contract F \<and> fx_sleeping F q 0 = {} \<and> fx_sleeping F q 1 = {} \<and>
     length pcs < 2 ^ 63 \<and> ch_bumps c < 2 ^ 32"

interpretation chan_wakes: conc_invariant_given "chan_run F" chan_call "chan_env F" chan_spawn "channel q"
    "\<lambda>c pcs. length pcs < 2 ^ 63 \<longrightarrow> chan_inv c pcs" "\<lambda>c pcs. chan_bounds F q c pcs \<longrightarrow> chan_wake_inv F c pcs"
  for F :: "'q futex" and q
proof unfold_locales
  fix s :: "(('q, 'v) chan, 'v chan_pc) conc"
  assume "chan_reach F (channel q) s"
  then show "length (snd s) < 2 ^ 63 \<longrightarrow> chan_inv (fst s) (snd s)" by (rule chan.reach_inv)
next
  show "chan_bounds F q (fst (channel q)) (snd (channel q)) \<longrightarrow> chan_wake_inv F (fst (channel q)) (snd (channel q))"
    by (auto simp: channel_def chan_wake_inv_def chan_bounds_def receiver_def less_Suc_eq threads_def)
next
  fix c c' :: "('q, 'v) chan" and pcs t pc'
  assume a: "length pcs < 2 ^ 63 \<longrightarrow> chan_inv c pcs" "chan_bounds F q c pcs \<longrightarrow> chan_wake_inv F c pcs" "t < length pcs"
    and r: "chan_run F c t (pcs ! t) = Some (c', pc')"
  show "chan_bounds F q c' (pcs[t := pc']) \<longrightarrow> chan_wake_inv F c' (pcs[t := pc'])"
  proof
    assume b: "chan_bounds F q c' (pcs[t := pc'])"
    then have F: "futex_contract F" and n: "length pcs < 2 ^ 63" "ch_bumps c' < 2 ^ 32" by (simp_all add: chan_bounds_def)
    have "chan_bounds F q c pcs" using b chan_bumps_mono [OF F r] by (simp add: chan_bounds_def)
    then show "chan_wake_inv F c' (pcs[t := pc'])" using a n chan_wake_run [OF F _ _ _ n(2) r] by blast
  qed
next
  fix c c' :: "('q, 'v) chan" and pcs
  assume "chan_bounds F q c pcs \<longrightarrow> chan_wake_inv F c pcs" "chan_env F c c'"
  then show "chan_bounds F q c' pcs \<longrightarrow> chan_wake_inv F c' pcs"
    using chan_wake_env [of F c pcs c'] by (auto simp: chan_bounds_def chan_env_def)
next
  fix c :: "('q, 'v) chan" and pcs t pc' new
  assume "chan_bounds F q c pcs \<longrightarrow> chan_wake_inv F c pcs" "t < length pcs" "chan_spawn (pcs ! t) (pc', new)"
  then show "chan_bounds F q c (pcs[t := pc'] @ [new]) \<longrightarrow> chan_wake_inv F c (pcs[t := pc'] @ [new])"
    using chan_wake_spawn [of F c pcs t pc' new] by (simp add: chan_bounds_def)
qed (simp add: chan_wake_call chan_bounds_def)

section \<open>Deadlock\<close>

text \<open>Between calls.\<close>

fun at_rest :: "'v chan_pc \<Rightarrow> bool" where
  "at_rest SD_idle = True"
| "at_rest (SD_failed _) = True"
| "at_rest SD_cloned = True"
| "at_rest SD_gone = True"
| "at_rest RC_idle = True"
| "at_rest (RC_done _) = True"
| "at_rest RC_gone = True"
| "at_rest _ = False"

lemma chan_enabled:
  assumes "\<not> at_rest pc" "chan_local xs n pc"
    and m: "chan_mutex pc = MX_wait FW_blocked \<longrightarrow> t \<notin> fx_sleeping F (ch_kernel c) 0"
    and "wait_blocked pc \<longrightarrow> t \<notin> fx_sleeping F (ch_kernel c) 1"
  shows "chan_run F c t pc \<noteq> None"
proof (cases pc)
  case (SD_lock v m0)
  then show ?thesis using assms raw_lock_enabled [of m0 t F "(ch_lock c, ch_kernel c)" 0]
    by (auto simp: chan_run_defs on_lock_def)
next
  case (RC_lock block m0)
  then show ?thesis using assms raw_lock_enabled [of m0 t F "(ch_lock c, ch_kernel c)" 0]
    by (auto simp: chan_run_defs on_lock_def)
next
  case (SD_unlock m0)
  then show ?thesis using assms raw_unlock_enabled [of m0 F 0 "(ch_lock c, ch_kernel c)" t]
    by (auto simp: chan_run_defs on_lock_def)
next
  case (RC_unlock res m0)
  then show ?thesis using assms raw_unlock_enabled [of m0 F 0 "(ch_lock c, ch_kernel c)" t]
    by (auto simp: chan_run_defs on_lock_def)
next
  case (RC_wait cv)
  have "condvar_wait F 0 1 (ch_lock c, ch_seq c, ch_kernel c) t cv \<noteq> None"
  proof (cases cv)
    case (CV_unlock s0 m0)
    then show ?thesis using assms RC_wait raw_unlock_enabled [of m0 F 0 "(ch_lock c, ch_kernel c)" t]
      by (auto simp: condvar_wait_def)
  next
    case (CV_relock m0)
    then show ?thesis using assms RC_wait raw_lock_enabled [of m0 t F "(ch_lock c, ch_kernel c)" 0]
      by (auto simp: condvar_wait_def)
  next
    case (CV_block s0 fp)
    then show ?thesis using assms(4) RC_wait by (cases fp) (auto simp: condvar_wait_def futex_wait_def)
  qed (simp add: condvar_wait_def)
  then show ?thesis using RC_wait by (auto simp: chan_run_defs)
qed (use assms in \<open>auto simp: chan_run_defs split: prod.splits\<close>)

section \<open>Properties\<close>

text \<open>C9: No message is lost on a sleeping receiver: when no thread can take a step, every thread is between calls, or is the
receiver asleep in \<open>recv\<close> on an empty queue; so no thread is stuck in \<open>send\<close>, \<open>drop\<close> or \<open>try_recv\<close>, nor in \<open>recv\<close> while
there is a message. This is for fewer than \<open>2 ^ 32\<close> notifications, after which the sequence number wraps.\<close>

theorem channel_no_deadlock:
  assumes "chan_reach F (channel q) (c, pcs)" "chan_bounds F q c pcs"
    and stuck: "\<And>u. run_thread (chan_run F) u (c, pcs) = None" and t: "t < length pcs"
  shows "at_rest (pcs ! t) \<or> wait_blocked (pcs ! t) \<and> ch_queue c = []"
proof (rule ccontr)
  assume neg: "\<not> (at_rest (pcs ! t) \<or> wait_blocked (pcs ! t) \<and> ch_queue c = [])"
  let ?pcs = "map chan_mutex pcs"
  have I: "chan_inv c pcs" "chan_wake_inv F c pcs"
    using assms(2) chan.reach_inv [OF assms(1)] chan_wakes.reach_inv [OF assms(1)] by (auto simp: chan_bounds_def)
  have M: "mutex_inv (chan_words c) ?pcs" "mutex_wake_inv F 0 (chan_words c) ?pcs"
    using assms(2) mutex.reach_inv [OF chan_mutex_reach [OF assms(1)]] mutex_wakes.reach_inv [OF chan_mutex_reach [OF assms(1)]]
    by (auto simp: chan_bounds_def)
  have sleeps: "chan_mutex (pcs ! u) = MX_wait FW_blocked \<and> u \<in> fx_sleeping F (ch_kernel c) 0 \<or>
      wait_blocked (pcs ! u) \<and> u \<in> fx_sleeping F (ch_kernel c) 1" if "u < length pcs" "\<not> at_rest (pcs ! u)" for u
  proof -
    have "chan_run F c u (pcs ! u) = None" using stuck [of u] that(1) by (auto simp: run_thread_def)
    then show ?thesis
      using chan_enabled [of "pcs ! u" "ch_queue c" "thread_sum handles pcs" u F c] that I(1) by (auto simp: chan_inv_def list_all_length)
  qed
  have rest: "chan_mutex pc = MX_idle" if "at_rest pc \<or> wait_blocked pc" for pc :: "'b chan_pc"
    using that by (cases pc; auto elim: wait_blocked.elims)
  have mutex: False if "u < length pcs" "chan_mutex (pcs ! u) = MX_wait FW_blocked" "u \<in> fx_sleeping F (ch_kernel c) 0" for u
  proof -
    have only: "chan_mutex (pcs ! v) = MX_idle \<or> chan_mutex (pcs ! v) = MX_wait FW_blocked \<and> v \<in> fx_sleeping F (ch_kernel c) 0"
      if "v < length pcs" for v using sleeps [OF that] rest [of "pcs ! v"] by auto
    then have "\<not> rouses F 0 (ch_kernel c) ?pcs" by (fastforce simp: rouses_def contending_def)
    then have "ch_lock c = 2" using M(2) that by (auto simp: mutex_wake_inv_def chan_words_def)
    then have "threads holding ?pcs = 1" using M(1) by (simp add: mutex_inv_def chan_words_def)
    then obtain v where "v < length pcs" "holding (chan_mutex (pcs ! v))" using threads_zero [of holding ?pcs] by auto
    then show False using only [of v] by (auto simp: holding_def)
  qed
  have s: "wait_blocked (pcs ! t)" "t \<in> fx_sleeping F (ch_kernel c) 1" using sleeps [OF t] mutex [OF t] neg by auto
  then obtain e where e: "pcs ! t = RC_wait (CV_block e FW_blocked)" by (cases "pcs ! t" rule: wait_blocked.cases) auto
  then have "wait_ok F c pcs t e" using I(2) t by (simp add: chan_wake_inv_alt)
  then have "list_ex bumping pcs \<or> list_ex waking pcs" using neg s by (auto simp: wait_ok_def)
  then obtain u where u: "u < length pcs" "bumping (pcs ! u) \<or> waking (pcs ! u)" by (auto simp: list_ex_length)
  then have "\<not> at_rest (pcs ! u)" "\<not> wait_blocked (pcs ! u)" by (cases "pcs ! u"; simp)+
  then show False using sleeps [OF u(1)] mutex [OF u(1)] by blast
qed

lemmas chan_eval = channel_def chan_call_def chan_run_defs run_thread_def on_lock_def on_notify_def raw_lock_def raw_unlock_def
  condvar_wait_def futex_wait_def notify_one_def notify_all_def futex_wake_def futex_wake_all_def fifo_futex_def fifo_wake_def
  sleepers_at_def

definition recv_blocks :: "nat chan_pc action list" where
  "recv_blocks = [Call 0 (RC_lock True MX_cas), Run 0, Run 0, Run 0, Run 0, Run 0, Run 0, Run 0, Run 0]"

theorem channel_no_deadlock_witness:
  "\<exists>c. chan_reach (fifo_futex Linux_x86_64) (channel []) (c, [RC_wait (CV_block 0 FW_blocked), SD_idle :: nat chan_pc]) \<and> ch_queue c = []"
proof -
  let ?F = "fifo_futex Linux_x86_64" and ?pcs = "[RC_wait (CV_block 0 FW_blocked), SD_idle :: nat chan_pc]"
  let ?c = "\<lparr> ch_lock = 0, ch_queue = [], ch_seq = 0, ch_senders = 1, ch_receiver_gone = False, ch_kernel = [(1, 0)],
      ch_sent = [], ch_received = [], ch_bumps = 0 \<rparr> :: ((nat \<times> nat) list, nat) chan"
  have r: "chan_reach ?F (channel []) (?c, ?pcs)"
    by (rule conc_exec_reach [of _ _ _ recv_blocks]) (simp add: recv_blocks_def chan_eval)
  have b: "chan_bounds ?F [] ?c ?pcs" using fifo_futex_contract by (simp add: chan_bounds_def fifo_futex_def)
  have "run_thread (chan_run ?F) u (?c, ?pcs) = None" for u by (cases u; cases "u - 1") (simp_all add: chan_eval)
  then show ?thesis using channel_no_deadlock [OF r b, of 0] r by auto
qed

definition drop_race :: "nat chan_pc action list" where
  "drop_race = [Call 0 (RC_lock True MX_cas), Run 0, Run 0, Run 0, Run 0, Call 1 SD_drop, Run 1, Run 1, Run 1,
     Run 0, Run 0, Run 0, Run 0]"

text \<open>C33: The last sender may leave without waking the receiver: \<open>drop\<close> decrements and notifies without the mutex, so it can
do both between the receiver's check of the count and its read of the sequence number. This state is reachable: the channel has
no sender left, and the receiver sleeps in \<open>recv\<close> for ever.\<close>

theorem channel_drop_lost_wakeup:
  "\<exists>c. chan_reach (fifo_futex Linux_x86_64) (channel []) (c, [RC_wait (CV_block 1 FW_blocked), SD_gone :: nat chan_pc]) \<and>
     ch_senders c = 0 \<and> (\<forall>u. run_thread (chan_run (fifo_futex Linux_x86_64)) u (c, [RC_wait (CV_block 1 FW_blocked), SD_gone]) = None)"
proof -
  let ?c = "\<lparr> ch_lock = 0, ch_queue = [], ch_seq = 1, ch_senders = 0, ch_receiver_gone = False, ch_kernel = [(1, 0)],
      ch_sent = [], ch_received = [], ch_bumps = 1 \<rparr> :: ((nat \<times> nat) list, nat) chan"
  have "chan_reach (fifo_futex Linux_x86_64) (channel []) (?c, [RC_wait (CV_block 1 FW_blocked), SD_gone])"
    by (rule conc_exec_reach [of _ _ _ drop_race]) (simp add: drop_race_def chan_eval)
  moreover have "run_thread (chan_run (fifo_futex Linux_x86_64)) u (?c, [RC_wait (CV_block 1 FW_blocked), SD_gone]) = None" for u
    by (cases u; cases "u - 1") (simp_all add: chan_eval)
  ultimately show ?thesis by (intro exI [of _ ?c]) simp
qed

end
