(* ===== verification/Io_Error.thy ===== *)
theory Io_Error
  imports Syscalls
begin

text \<open>
  \<open>Error\<close>, \<open>ErrorKind\<close> and the mapping from error numbers of \<open>src/io.rs\<close>. The payload of
  a custom error, a boxed trait object, is represented by its message.
\<close>

datatype (plugins only: code size) ErrorKind =
    NotFound | PermissionDenied | ConnectionRefused | ConnectionReset | ConnectionAborted | NotConnected
  | AddrInUse | AddrNotAvailable | BrokenPipe | AlreadyExists | WouldBlock | InvalidInput | InvalidData
  | TimedOut | WriteZero | Interrupted | UnexpectedEof | Unsupported | OutOfMemory | Other

definition kind_as_str :: "ErrorKind \<Rightarrow> string" where
  "kind_as_str k =
     (case k of
        NotFound \<Rightarrow> ''entity not found''
      | PermissionDenied \<Rightarrow> ''permission denied''
      | ConnectionRefused \<Rightarrow> ''connection refused''
      | ConnectionReset \<Rightarrow> ''connection reset''
      | ConnectionAborted \<Rightarrow> ''connection aborted''
      | NotConnected \<Rightarrow> ''not connected''
      | AddrInUse \<Rightarrow> ''address in use''
      | AddrNotAvailable \<Rightarrow> ''address not available''
      | BrokenPipe \<Rightarrow> ''broken pipe''
      | AlreadyExists \<Rightarrow> ''entity already exists''
      | WouldBlock \<Rightarrow> ''operation would block''
      | InvalidInput \<Rightarrow> ''invalid input parameter''
      | InvalidData \<Rightarrow> ''invalid data''
      | TimedOut \<Rightarrow> ''timed out''
      | WriteZero \<Rightarrow> ''write zero''
      | Interrupted \<Rightarrow> ''operation interrupted''
      | UnexpectedEof \<Rightarrow> ''unexpected end of file''
      | Unsupported \<Rightarrow> ''unsupported''
      | OutOfMemory \<Rightarrow> ''out of memory''
      | Other \<Rightarrow> ''other error'')"

text \<open>\<open>Error(Repr)\<close>.\<close>

datatype Error = Os i32 | Simple ErrorKind | Custom ErrorKind string

definition error_new :: "ErrorKind \<Rightarrow> string \<Rightarrow> Error" where
  "error_new kind payload = Custom kind payload"

definition from_raw_os_error :: "i32 \<Rightarrow> Error" where
  "from_raw_os_error code = Os code"

definition raw_os_error :: "Error \<Rightarrow> i32 option" where
  "raw_os_error e = (case e of Os c \<Rightarrow> Some c | _ \<Rightarrow> None)"

definition errno_kind :: "target \<Rightarrow> i32 \<Rightarrow> ErrorKind" where
  "errno_kind t c =
     (if c = 1 then PermissionDenied
      else if c = 2 then NotFound
      else if c = 4 then Interrupted
      else if c = 13 then PermissionDenied
      else if c = 17 then AlreadyExists
      else if c = 22 then InvalidInput
      else if c = 32 then BrokenPipe
      else if is_macos t then
        (if c = 35 then WouldBlock
         else if c = 61 then ConnectionRefused
         else if c = 54 then ConnectionReset
         else if c = 53 then ConnectionAborted
         else if c = 57 then NotConnected
         else if c = 48 then AddrInUse
         else if c = 49 then AddrNotAvailable
         else if c = 60 then TimedOut
         else if c = 78 then Unsupported
         else Other)
      else
        (if c = 11 then WouldBlock
         else if c = 111 then ConnectionRefused
         else if c = 104 then ConnectionReset
         else if c = 103 then ConnectionAborted
         else if c = 107 then NotConnected
         else if c = 98 then AddrInUse
         else if c = 99 then AddrNotAvailable
         else if c = 110 then TimedOut
         else if c = 38 then Unsupported
         else Other))"

definition error_kind :: "target \<Rightarrow> Error \<Rightarrow> ErrorKind" where
  "error_kind t e = (case e of Os c \<Rightarrow> errno_kind t c | Simple k \<Rightarrow> k | Custom k _ \<Rightarrow> k)"

definition error_from_kind :: "ErrorKind \<Rightarrow> Error" where
  "error_from_kind k = Simple k"

definition error_from_errno :: "Errno \<Rightarrow> Error" where
  "error_from_errno e = (case e of Errno c \<Rightarrow> Os c)"

text \<open>Decimal digits of an \<open>i32\<close>, as \<open>fmt\<close> prints it.\<close>

fun dec_digits :: "nat \<Rightarrow> string" where
  "dec_digits n =
     (if n < 10 then [char_of (48 + n)] else dec_digits (n div 10) @ [char_of (48 + n mod 10)])"

declare dec_digits.simps [simp del]

definition dec_i32 :: "i32 \<Rightarrow> string" where
  "dec_i32 c = (if sint c < 0 then CHR ''-'' # dec_digits (nat (- sint c)) else dec_digits (nat (sint c)))"

definition error_display :: "target \<Rightarrow> Error \<Rightarrow> string" where
  "error_display t e =
     (case e of
        Os c \<Rightarrow> kind_as_str (errno_kind t c) @ '' (os error '' @ dec_i32 c @ '')''
      | Simple k \<Rightarrow> kind_as_str k
      | Custom _ m \<Rightarrow> m)"

text \<open>\<open>map_err(Error::from)\<close> on a system call result.\<close>

definition io_result :: "Errno + 'a \<Rightarrow> Error + 'a" where
  "io_result r = (case r of Inl e \<Rightarrow> Inl (error_from_errno e) | Inr x \<Rightarrow> Inr x)"

lemma error_kind_simps [simp]:
  "error_kind t (Simple k) = k" "error_kind t (Custom k m) = k" "error_kind t (Os c) = errno_kind t c"
  by (simp_all add: error_kind_def)

lemma errno_kind_Interrupted: "errno_kind t c = Interrupted \<longleftrightarrow> c = 4"
  by (simp add: errno_kind_def)

lemma error_from_kind_simp [simp]: "error_kind t (error_from_kind k) = k"
  by (simp add: error_from_kind_def)

lemma io_result_simps [simp]: "io_result (Inl e) = Inl (error_from_errno e)" "io_result (Inr x) = Inr x"
  by (simp_all add: io_result_def)

text \<open>An error number a system call returned survives the conversion to \<open>Error\<close>: the
  number can be read back, only \<open>EINTR\<close> is classified \<open>Interrupted\<close> (so the retry loops
  retry exactly that), and the classification never invents the kinds that only the
  library raises.
\<close>

theorem errno_roundtrip:
  "raw_os_error (error_from_errno (Errno c)) = Some c \<and>
   (error_kind t (error_from_errno (Errno c)) = Interrupted \<longleftrightarrow> c = 4) \<and>
   errno_kind t c \<notin> {InvalidData, WriteZero, UnexpectedEof, OutOfMemory}"
proof -
  have "errno_kind t c \<noteq> InvalidData" "errno_kind t c \<noteq> WriteZero"
    "errno_kind t c \<noteq> UnexpectedEof" "errno_kind t c \<noteq> OutOfMemory"
    by (simp_all add: errno_kind_def)
  then show ?thesis
    by (simp add: raw_os_error_def error_from_errno_def errno_kind_Interrupted)
qed

end
