(* ===== verification/Io_Read.thy ===== *)
theory Io_Read
  imports Io_Error
begin

text \<open>
  The reading half of \<open>src/io.rs\<close>: the provided methods of \<open>Read\<close> and \<open>BufRead\<close>, the
  readers \<open>&[u8]\<close>, \<open>Cursor\<close>, \<open>BufReader\<close> and \<open>Fd\<close>, and line iteration. A reader is a
  state with a \<open>read\<close> function that is given the caller's buffer and returns the new
  state, the buffer and the result; \<^term>\<open>None\<close> stands for a panic or a call that never
  returns. The contract of \<open>Read\<close> is the locale \<open>reader\<close>.
\<close>

type_synonym 'r read_fn = "'r \<Rightarrow> byte list \<Rightarrow> ('r \<times> byte list \<times> (Error + nat)) option"

section \<open>Provided methods of \<open>Read\<close>\<close>

text \<open>The default \<open>read_vectored\<close>: one read into the first non-empty buffer.\<close>

fun read_vectored :: "'r read_fn \<Rightarrow> 'r \<Rightarrow> byte list list \<Rightarrow> ('r \<times> byte list list \<times> (Error + nat)) option" where
  "read_vectored read r [] = do { (r', _, res) \<leftarrow> read r []; Some (r', [], res) }"
| "read_vectored read r (b # bs) =
     (if b \<noteq> [] then do { (r', b', res) \<leftarrow> read r b; Some (r', b' # bs, res) }
      else do { (r', bs', res) \<leftarrow> read_vectored read r bs; Some (r', b # bs', res) })"

partial_function (option) read_to_end_loop ::
    "target \<Rightarrow> 'r read_fn \<Rightarrow> 'r \<Rightarrow> byte list \<Rightarrow> byte list \<Rightarrow> ('r \<times> byte list \<times> (Error + unit)) option" where
  "read_to_end_loop t read r tmp buf = do {
     (r', tmp', res) \<leftarrow> read r tmp;
     (case res of
        Inr n \<Rightarrow>
          if n = 0 then Some (r', buf, Inr ())
          else do { s \<leftarrow> slice_range tmp' 0 n; read_to_end_loop t read r' tmp' (buf @ s) }
      | Inl e \<Rightarrow>
          if error_kind t e = Interrupted then read_to_end_loop t read r' tmp' buf
          else Some (r', buf, Inl e))
   }"

definition read_to_end ::
    "target \<Rightarrow> 'r read_fn \<Rightarrow> 'r \<Rightarrow> byte list \<Rightarrow> ('r \<times> byte list \<times> (Error + nat)) option" where
  "read_to_end t read r buf = do {
     (r', buf', res) \<leftarrow> read_to_end_loop t read r (replicate 4096 0) buf;
     Some (r', buf', case res of Inl e \<Rightarrow> Inl e | Inr _ \<Rightarrow> Inr (length buf' - length buf))
   }"

text \<open>Well-formed UTF-8, the check of \<open>core::str::from_utf8\<close>.\<close>

definition cont :: "byte \<Rightarrow> bool" where
  "cont b \<longleftrightarrow> 0x80 \<le> b \<and> b \<le> 0xBF"

fun utf8_valid :: "byte list \<Rightarrow> bool" where
  "utf8_valid [] = True"
| "utf8_valid (b # bs) =
     (if b < 0x80 then utf8_valid bs
      else case bs of [] \<Rightarrow> False | c1 # r1 \<Rightarrow>
        if 0xC2 \<le> b \<and> b \<le> 0xDF then cont c1 \<and> utf8_valid r1
        else case r1 of [] \<Rightarrow> False | c2 # r2 \<Rightarrow>
          if b = 0xE0 then 0xA0 \<le> c1 \<and> c1 \<le> 0xBF \<and> cont c2 \<and> utf8_valid r2
          else if b = 0xED then 0x80 \<le> c1 \<and> c1 \<le> 0x9F \<and> cont c2 \<and> utf8_valid r2
          else if 0xE1 \<le> b \<and> b \<le> 0xEF then cont c1 \<and> cont c2 \<and> utf8_valid r2
          else case r2 of [] \<Rightarrow> False | c3 # r3 \<Rightarrow>
            if b = 0xF0 then 0x90 \<le> c1 \<and> c1 \<le> 0xBF \<and> cont c2 \<and> cont c3 \<and> utf8_valid r3
            else if 0xF1 \<le> b \<and> b \<le> 0xF3 then cont c1 \<and> cont c2 \<and> cont c3 \<and> utf8_valid r3
            else if b = 0xF4 then 0x80 \<le> c1 \<and> c1 \<le> 0x8F \<and> cont c2 \<and> cont c3 \<and> utf8_valid r3
            else False)"

definition read_to_string ::
    "target \<Rightarrow> 'r read_fn \<Rightarrow> 'r \<Rightarrow> byte list \<Rightarrow> ('r \<times> byte list \<times> (Error + nat)) option" where
  "read_to_string t read r buf = do {
     (r', bytes, res) \<leftarrow> read_to_end t read r [];
     Some (case res of
             Inl e \<Rightarrow> (r', buf, Inl e)
           | Inr n \<Rightarrow>
               if utf8_valid bytes then (r', buf @ bytes, Inr n)
               else (r', buf, Inl (error_from_kind InvalidData)))
   }"

text \<open>The loop of \<open>read_exact\<close>: \<open>pre\<close> is the part already filled, \<open>buf\<close> the rest.\<close>

partial_function (option) read_exact_loop ::
    "target \<Rightarrow> 'r read_fn \<Rightarrow> 'r \<Rightarrow> byte list \<Rightarrow> byte list \<Rightarrow> ('r \<times> byte list \<times> (Error + unit)) option" where
  "read_exact_loop t read r pre buf =
     (if buf = [] then Some (r, pre, Inr ())
      else do {
        (r', buf', res) \<leftarrow> read r buf;
        (case res of
           Inr n \<Rightarrow>
             if n = 0 then Some (r', pre @ buf', Inl (error_from_kind UnexpectedEof))
             else do {
               rest \<leftarrow> slice_range buf' n (length buf');
               read_exact_loop t read r' (pre @ take n buf') rest
             }
         | Inl e \<Rightarrow>
             if error_kind t e = Interrupted then read_exact_loop t read r' pre buf'
             else Some (r', pre @ buf', Inl e))
      })"

definition read_exact ::
    "target \<Rightarrow> 'r read_fn \<Rightarrow> 'r \<Rightarrow> byte list \<Rightarrow> ('r \<times> byte list \<times> (Error + unit)) option" where
  "read_exact t read r buf = read_exact_loop t read r [] buf"

section \<open>Readers\<close>

text \<open>\<open>impl Read for &[u8]\<close>: the reader is the slice still to be read.\<close>

definition slice_read :: "byte list read_fn" where
  "slice_read self buf =
     (let n = min (length buf) (length self) in
      Some (drop n self, take n self @ drop n buf, Inr n))"

record Cursor =
  cur_inner :: "byte list"
  cur_pos :: u64

definition cursor_new :: "byte list \<Rightarrow> Cursor" where
  "cursor_new inner = \<lparr> cur_inner = inner, cur_pos = 0 \<rparr>"

definition cursor_set_position :: "Cursor \<Rightarrow> u64 \<Rightarrow> Cursor" where
  "cursor_set_position c p = c \<lparr> cur_pos := p \<rparr>"

definition cursor_read :: "Cursor read_fn" where
  "cursor_read self buf =
     (let pos = min (unat (cur_pos self)) (length (cur_inner self)) in
      do {
        rest \<leftarrow> slice_range (cur_inner self) pos (length (cur_inner self));
        (_, buf', res) \<leftarrow> slice_read rest buf;
        Some (case res of
                Inl e \<Rightarrow> (self, buf', Inl e)
              | Inr n \<Rightarrow> (self \<lparr> cur_pos := cur_pos self + of_nat n \<rparr>, buf', Inr n))
      })"

datatype SeekFrom = Start u64 | End i64 | Current i64

text \<open>\<open>Cursor::seek\<close>: signed 64-bit arithmetic, whose overflow panics when checks are on.\<close>

definition i64_add :: "i64 \<Rightarrow> i64 \<Rightarrow> i64 option" where
  "i64_add a b = (if sint (a + b) = sint a + sint b then Some (a + b) else None)"

definition cursor_seek :: "Cursor \<Rightarrow> SeekFrom \<Rightarrow> (Cursor \<times> (Error + u64)) option" where
  "cursor_seek self p = do {
     let len = (of_nat (length (cur_inner self)) :: i64);
     new \<leftarrow> (case p of
               Start n \<Rightarrow> Some n
             | End n \<Rightarrow> i64_add len n
             | Current n \<Rightarrow> i64_add (cur_pos self) n);
     Some (if sint new < 0 then (self, Inl (error_new InvalidInput ''negative seek position''))
           else (self \<lparr> cur_pos := new \<rparr>, Inr new))
   }"

record 'r BufReader =
  br_inner :: 'r
  br_buf :: "byte list"
  br_pos :: nat
  br_cap :: nat

definition bufreader_with_capacity :: "nat \<Rightarrow> 'r \<Rightarrow> 'r BufReader" where
  "bufreader_with_capacity capacity inner =
     \<lparr> br_inner = inner, br_buf = replicate capacity 0, br_pos = 0, br_cap = 0 \<rparr>"

definition bufreader_new :: "'r \<Rightarrow> 'r BufReader" where
  "bufreader_new inner = bufreader_with_capacity (8 * 1024) inner"

definition fill_buf :: "'r read_fn \<Rightarrow> 'r BufReader \<Rightarrow> ('r BufReader \<times> (Error + byte list)) option" where
  "fill_buf read self =
     (if br_pos self \<ge> br_cap self
      then do {
        (r', buf', res) \<leftarrow> read (br_inner self) (br_buf self);
        (case res of
           Inl e \<Rightarrow> Some (self \<lparr> br_inner := r', br_buf := buf' \<rparr>, Inl e)
         | Inr n \<Rightarrow> do {
             avail \<leftarrow> slice_range buf' 0 n;
             Some (self \<lparr> br_inner := r', br_buf := buf', br_cap := n, br_pos := 0 \<rparr>, Inr avail)
           })
      }
      else do {
        avail \<leftarrow> slice_range (br_buf self) (br_pos self) (br_cap self);
        Some (self, Inr avail)
      })"

definition consume :: "'r BufReader \<Rightarrow> nat \<Rightarrow> 'r BufReader" where
  "consume self amt = self \<lparr> br_pos := min (br_pos self + amt) (br_cap self) \<rparr>"

definition bufreader_read :: "'r read_fn \<Rightarrow> 'r BufReader read_fn" where
  "bufreader_read read self buf =
     (if br_pos self = br_cap self \<and> length buf \<ge> length (br_buf self)
      then do {
        (r', buf', res) \<leftarrow> read (br_inner self) buf;
        Some (self \<lparr> br_inner := r' \<rparr>, buf', res)
      }
      else do {
        (self', res) \<leftarrow> fill_buf read self;
        Some (case res of
                Inl e \<Rightarrow> (self', buf, Inl e)
              | Inr available \<Rightarrow>
                  let n = min (length available) (length buf) in
                  (consume self' n, take n available @ drop n buf, Inr n))
      })"

section \<open>Provided methods of \<open>BufRead\<close>\<close>

definition byte_position :: "byte \<Rightarrow> byte list \<Rightarrow> nat option" where
  "byte_position d bs = (if d \<in> set bs then Some (length (takeWhile (\<lambda>b. b \<noteq> d) bs)) else None)"

partial_function (option) read_until_loop ::
    "target \<Rightarrow> ('b \<Rightarrow> ('b \<times> (Error + byte list)) option) \<Rightarrow> ('b \<Rightarrow> nat \<Rightarrow> 'b) \<Rightarrow> 'b \<Rightarrow> byte \<Rightarrow>
     byte list \<Rightarrow> nat \<Rightarrow> ('b \<times> byte list \<times> (Error + nat)) option" where
  "read_until_loop t fill cons self delim buf count = do {
     (self', res) \<leftarrow> fill self;
     (case res of
        Inl e \<Rightarrow>
          if error_kind t e = Interrupted then read_until_loop t fill cons self' delim buf count
          else Some (self', buf, Inl e)
      | Inr available \<Rightarrow>
          let (done, used, chunk) =
            (case byte_position delim available of
               Some i \<Rightarrow> (True, i + 1, take (i + 1) available)
             | None \<Rightarrow> (False, length available, available)) in
          if done \<or> used = 0 then Some (cons self' used, buf @ chunk, Inr (count + used))
          else read_until_loop t fill cons (cons self' used) delim (buf @ chunk) (count + used))
   }"

definition read_until ::
    "target \<Rightarrow> ('b \<Rightarrow> ('b \<times> (Error + byte list)) option) \<Rightarrow> ('b \<Rightarrow> nat \<Rightarrow> 'b) \<Rightarrow> 'b \<Rightarrow> byte \<Rightarrow>
     byte list \<Rightarrow> ('b \<times> byte list \<times> (Error + nat)) option" where
  "read_until t fill cons self delim buf = read_until_loop t fill cons self delim buf 0"

definition read_line ::
    "target \<Rightarrow> ('b \<Rightarrow> ('b \<times> (Error + byte list)) option) \<Rightarrow> ('b \<Rightarrow> nat \<Rightarrow> 'b) \<Rightarrow> 'b \<Rightarrow>
     byte list \<Rightarrow> ('b \<times> byte list \<times> (Error + nat)) option" where
  "read_line t fill cons self buf = do {
     (self', bytes, res) \<leftarrow> read_until t fill cons self 10 [];
     Some (case res of
             Inl e \<Rightarrow> (self', buf, Inl e)
           | Inr n \<Rightarrow>
               if utf8_valid bytes then (self', buf @ bytes, Inr n)
               else (self', buf, Inl (error_from_kind InvalidData)))
   }"

text \<open>Removing the line terminator, the body of \<open>Lines::next\<close>.\<close>

definition ends_with_byte :: "byte \<Rightarrow> byte list \<Rightarrow> bool" where
  "ends_with_byte b line \<longleftrightarrow> line \<noteq> [] \<and> last line = b"

definition strip_newline :: "byte list \<Rightarrow> byte list" where
  "strip_newline line =
     (if ends_with_byte 10 line
      then (let l = butlast line in if ends_with_byte 13 l then butlast l else l)
      else line)"

definition lines_next ::
    "target \<Rightarrow> ('b \<Rightarrow> ('b \<times> (Error + byte list)) option) \<Rightarrow> ('b \<Rightarrow> nat \<Rightarrow> 'b) \<Rightarrow> 'b \<Rightarrow>
     ('b \<times> (Error + byte list) option) option" where
  "lines_next t fill cons self = do {
     (self', line, res) \<leftarrow> read_line t fill cons self [];
     Some (self', case res of
                    Inr n \<Rightarrow> (if n = 0 then None else Some (Inr (strip_newline line)))
                  | Inl e \<Rightarrow> Some (Inl e))
   }"

section \<open>The contract of \<open>Read\<close>\<close>

text \<open>
  \<open>stream r\<close> is what is still to be read, \<open>intr r\<close> bounds how often calls may still be
  interrupted. A call returns; it delivers the next bytes of the stream, none only at the
  end or into an empty buffer, or fails leaving the stream as it was.
\<close>

locale reader =
  fixes t :: target and read :: "'r read_fn" and inv :: "'r \<Rightarrow> bool"
    and stream :: "'r \<Rightarrow> byte list" and intr :: "'r \<Rightarrow> nat"
  assumes read_law: "inv r \<Longrightarrow>
    \<exists>r' buf' res. read r buf = Some (r', buf', res) \<and> inv r' \<and> length buf' = length buf \<and>
      (case res of
         Inr n \<Rightarrow> n \<le> length buf \<and> stream r = take n buf' @ stream r' \<and>
                  (n = 0 \<longrightarrow> buf = [] \<or> stream r = []) \<and> intr r' \<le> intr r
       | Inl e \<Rightarrow> stream r' = stream r \<and> intr r' \<le> intr r \<and>
                  (error_kind t e = Interrupted \<longrightarrow> intr r' < intr r))"
begin

lemma read_to_end_loop_spec:
  "inv r \<Longrightarrow> tmp \<noteq> [] \<Longrightarrow>
   \<exists>r' s res. read_to_end_loop t read r tmp buf = Some (r', buf @ s, res) \<and> inv r' \<and>
     stream r = s @ stream r' \<and>
     (case res of Inr _ \<Rightarrow> stream r' = [] | Inl e \<Rightarrow> error_kind t e \<noteq> Interrupted)"
proof (induction "length (stream r) + intr r" arbitrary: r tmp buf rule: less_induct)
  case less
  obtain r1 tmp1 res1 where rd: "read r tmp = Some (r1, tmp1, res1)" "inv r1" "length tmp1 = length tmp"
    and law: "case res1 of
         Inr n \<Rightarrow> n \<le> length tmp \<and> stream r = take n tmp1 @ stream r1 \<and>
                  (n = 0 \<longrightarrow> tmp = [] \<or> stream r = []) \<and> intr r1 \<le> intr r
       | Inl e \<Rightarrow> stream r1 = stream r \<and> intr r1 \<le> intr r \<and>
                  (error_kind t e = Interrupted \<longrightarrow> intr r1 < intr r)"
    using read_law [OF less.prems(1), of tmp] by blast
  have tmp1: "tmp1 \<noteq> []" using rd(3) less.prems(2) by auto
  show ?case
  proof (cases res1)
    case (Inl e)
    show ?thesis
    proof (cases "error_kind t e = Interrupted")
      case True
      then have "read_to_end_loop t read r tmp buf = read_to_end_loop t read r1 tmp1 buf"
        using rd(1) Inl by (subst read_to_end_loop.simps) simp
      moreover have "length (stream r1) + intr r1 < length (stream r) + intr r" using law Inl True by simp
      ultimately show ?thesis using less.hyps [of r1 tmp1 buf] rd(2) tmp1 law Inl by simp
    next
      case False
      then have "read_to_end_loop t read r tmp buf = Some (r1, buf @ [], Inl e)"
        using rd(1) Inl by (subst read_to_end_loop.simps) simp
      then show ?thesis using False law Inl rd(2) by fastforce
    qed
  next
    case (Inr n)
    show ?thesis
    proof (cases "n = 0")
      case True
      then have "read_to_end_loop t read r tmp buf = Some (r1, buf @ [], Inr ())"
        using rd(1) Inr by (subst read_to_end_loop.simps) simp
      then show ?thesis using True law Inr rd(2) less.prems(2) by fastforce
    next
      case False
      have n: "n \<le> length tmp1" "stream r = take n tmp1 @ stream r1" using law Inr rd(3) by simp_all
      have "read_to_end_loop t read r tmp buf = read_to_end_loop t read r1 tmp1 (buf @ take n tmp1)"
        using rd(1) Inr False n(1) by (subst read_to_end_loop.simps) (simp add: slice_range_Some)
      moreover have "length (stream r1) + intr r1 < length (stream r) + intr r"
        using n False law Inr by simp
      ultimately show ?thesis
        using less.hyps [of r1 tmp1 "buf @ take n tmp1"] rd(2) tmp1 n(2) by fastforce
    qed
  qed
qed

lemma read_exact_loop_spec:
  "inv r \<Longrightarrow>
   \<exists>r' buf' res. read_exact_loop t read r pre buf = Some (r', pre @ buf', res) \<and> inv r' \<and>
     length buf' = length buf \<and>
     (case res of
        Inr _ \<Rightarrow> stream r = buf' @ stream r'
      | Inl e \<Rightarrow> error_kind t e \<noteq> Interrupted \<and>
                 (\<exists>n<length buf. stream r = take n buf' @ stream r'))"
proof (induction "length buf + intr r" arbitrary: r pre buf rule: less_induct)
  case less
  show ?case
  proof (cases "buf = []")
    case True
    then show ?thesis using less.prems by (subst read_exact_loop.simps) auto
  next
    case ne: False
    obtain r1 b1 res1 where rd: "read r buf = Some (r1, b1, res1)" "inv r1" "length b1 = length buf"
      and law: "case res1 of
           Inr n \<Rightarrow> n \<le> length buf \<and> stream r = take n b1 @ stream r1 \<and>
                    (n = 0 \<longrightarrow> buf = [] \<or> stream r = []) \<and> intr r1 \<le> intr r
         | Inl e \<Rightarrow> stream r1 = stream r \<and> intr r1 \<le> intr r \<and>
                    (error_kind t e = Interrupted \<longrightarrow> intr r1 < intr r)"
      using read_law [OF less.prems, of buf] by blast
    show ?thesis
    proof (cases res1)
      case (Inl e)
      show ?thesis
      proof (cases "error_kind t e = Interrupted")
        case True
        then have "read_exact_loop t read r pre buf = read_exact_loop t read r1 pre b1"
          using rd(1) Inl ne by (subst read_exact_loop.simps) simp
        moreover have "length b1 + intr r1 < length buf + intr r" using law Inl True rd(3) by simp
        moreover have same: "stream r1 = stream r" using law Inl by simp
        ultimately show ?thesis using less.hyps [of b1 r1 pre] rd(2) unfolding rd(3) same by simp
      next
        case False
        then have "read_exact_loop t read r pre buf = Some (r1, pre @ b1, Inl e)"
          using rd(1) Inl ne by (subst read_exact_loop.simps) simp
        then show ?thesis using False law Inl rd(2,3) ne by (auto intro!: exI [of _ 0])
      qed
    next
      case (Inr n)
      show ?thesis
      proof (cases "n = 0")
        case True
        then have "read_exact_loop t read r pre buf = Some (r1, pre @ b1, Inl (error_from_kind UnexpectedEof))"
          using rd(1) Inr ne by (subst read_exact_loop.simps) simp
        then show ?thesis using True law Inr rd(2,3) ne by (auto intro!: exI [of _ 0])
      next
        case False
        have n: "n \<le> length b1" "stream r = take n b1 @ stream r1" using law Inr rd(3) by simp_all
        have step: "read_exact_loop t read r pre buf = read_exact_loop t read r1 (pre @ take n b1) (drop n b1)"
          using rd(1) Inr False n(1) ne by (subst read_exact_loop.simps) (simp add: slice_range_Some)
        have "length (drop n b1) + intr r1 < length buf + intr r" using n False law Inr rd(3) ne by simp
        then obtain r' b' res where IH:
            "read_exact_loop t read r1 (pre @ take n b1) (drop n b1) = Some (r', (pre @ take n b1) @ b', res)"
            "inv r'" "length b' = length (drop n b1)"
            "case res of Inr _ \<Rightarrow> stream r1 = b' @ stream r'
             | Inl e \<Rightarrow> error_kind t e \<noteq> Interrupted \<and> (\<exists>m<length (drop n b1). stream r1 = take m b' @ stream r')"
          using less.hyps [of "drop n b1" r1 "pre @ take n b1"] rd(2) by blast
        have "case res of Inr _ \<Rightarrow> stream r = (take n b1 @ b') @ stream r'
           | Inl e \<Rightarrow> error_kind t e \<noteq> Interrupted \<and> (\<exists>m<length buf. stream r = take m (take n b1 @ b') @ stream r')"
        proof (cases res)
          case inl: (Inl e)
          then obtain m where m: "m < length (drop n b1)" "stream r1 = take m b' @ stream r'" using IH(4) by auto
          have "stream r = take (n + m) (take n b1 @ b') @ stream r'" using n m(2) by simp
          moreover have "n + m < length buf" using m(1) n(1) rd(3) by simp
          ultimately show ?thesis using IH(4) inl by auto
        qed (use IH(4) n in simp)
        then show ?thesis using step IH(1,2,3) n(1) rd(3)
          by (intro exI [of _ r'] exI [of _ "take n b1 @ b'"] exI [of _ res]) simp
      qed
    qed
  qed
qed

lemma read_to_end_law:
  assumes "inv r"
  shows "\<exists>r' s res. read_to_end t read r buf = Some (r', buf @ s, res) \<and> inv r' \<and> stream r = s @ stream r' \<and>
     (case res of Inr n \<Rightarrow> stream r' = [] \<and> n = length s | Inl e \<Rightarrow> error_kind t e \<noteq> Interrupted)"
proof -
  obtain r' s res where "read_to_end_loop t read r (replicate 4096 0) buf = Some (r', buf @ s, res)" "inv r'"
      "stream r = s @ stream r'" "case res of Inr _ \<Rightarrow> stream r' = [] | Inl e \<Rightarrow> error_kind t e \<noteq> Interrupted"
    using read_to_end_loop_spec [OF assms, of "replicate 4096 0" buf] by auto
  then show ?thesis by (cases res) (auto simp: read_to_end_def)
qed

lemma read_exact_law:
  assumes "inv r"
  shows "\<exists>r' buf' res. read_exact t read r buf = Some (r', buf', res) \<and> inv r' \<and> length buf' = length buf \<and>
     (case res of Inr _ \<Rightarrow> stream r = buf' @ stream r'
      | Inl e \<Rightarrow> error_kind t e \<noteq> Interrupted \<and> (\<exists>n<length buf. stream r = take n buf' @ stream r'))"
  using read_exact_loop_spec [OF assms, of "[]" buf] by (simp add: read_exact_def)

end

text \<open>A reader whose only failures are interruptions.\<close>

locale reliable_reader = reader +
  assumes no_fatal: "inv r \<Longrightarrow> read r buf = Some (r', buf', Inl e) \<Longrightarrow> error_kind t e = Interrupted"
begin

lemma read_to_end_loop_ok:
  "inv r \<Longrightarrow> tmp \<noteq> [] \<Longrightarrow> read_to_end_loop t read r tmp buf = Some (r', b, res) \<Longrightarrow> res = Inr ()"
proof (induction "length (stream r) + intr r" arbitrary: r tmp buf rule: less_induct)
  case less
  obtain r1 tmp1 res1 where rd: "read r tmp = Some (r1, tmp1, res1)" "inv r1" "length tmp1 = length tmp"
    and law: "case res1 of
         Inr n \<Rightarrow> n \<le> length tmp \<and> stream r = take n tmp1 @ stream r1 \<and>
                  (n = 0 \<longrightarrow> tmp = [] \<or> stream r = []) \<and> intr r1 \<le> intr r
       | Inl e \<Rightarrow> stream r1 = stream r \<and> intr r1 \<le> intr r \<and>
                  (error_kind t e = Interrupted \<longrightarrow> intr r1 < intr r)"
    using read_law [OF less.prems(1), of tmp] by blast
  have ne: "tmp1 \<noteq> []" using rd(3) less.prems(2) by auto
  show ?case
  proof (cases res1)
    case (Inl e)
    then have int: "error_kind t e = Interrupted" using no_fatal [OF less.prems(1)] rd(1) by simp
    then have "read_to_end_loop t read r1 tmp1 buf = Some (r', b, res)"
      using less.prems(3) rd(1) Inl by (subst (asm) read_to_end_loop.simps) simp
    then show ?thesis using less.hyps [of r1 tmp1 buf] rd(2) ne law Inl int by simp
  next
    case (Inr n)
    show ?thesis
    proof (cases "n = 0")
      case True
      then show ?thesis using less.prems(3) rd(1) Inr by (subst (asm) read_to_end_loop.simps) simp
    next
      case False
      have n: "n \<le> length tmp1" "stream r = take n tmp1 @ stream r1" using law Inr rd(3) by simp_all
      have "read_to_end_loop t read r1 tmp1 (buf @ take n tmp1) = Some (r', b, res)"
        using less.prems(3) rd(1) Inr False n(1)
        by (subst (asm) read_to_end_loop.simps) (simp add: slice_range_Some)
      moreover have "length (stream r1) + intr r1 < length (stream r) + intr r" using n False law Inr by simp
      ultimately show ?thesis using less.hyps rd(2) ne by blast
    qed
  qed
qed

lemma read_to_end_all:
  assumes "inv r"
  shows "\<exists>r'. read_to_end t read r buf = Some (r', buf @ stream r, Inr (length (stream r))) \<and> inv r' \<and> stream r' = []"
proof -
  obtain r' s res where l: "read_to_end_loop t read r (replicate 4096 0) buf = Some (r', buf @ s, res)" "inv r'"
      "stream r = s @ stream r'" "case res of Inr _ \<Rightarrow> stream r' = [] | Inl e \<Rightarrow> error_kind t e \<noteq> Interrupted"
    using read_to_end_loop_spec [OF assms, of "replicate 4096 0" buf] by auto
  moreover have "res = Inr ()" using read_to_end_loop_ok [OF assms _ l(1)] by simp
  ultimately show ?thesis by (simp add: read_to_end_def)
qed

lemma read_exact_loop_eof:
  "inv r \<Longrightarrow> read_exact_loop t read r pre buf = Some (r', b, Inl e) \<Longrightarrow>
   e = error_from_kind UnexpectedEof \<and> stream r' = []"
proof (induction "length buf + intr r" arbitrary: r pre buf rule: less_induct)
  case less
  have ne: "buf \<noteq> []" using less.prems(2) by (subst (asm) read_exact_loop.simps) (auto split: if_splits)
  obtain r1 b1 res1 where rd: "read r buf = Some (r1, b1, res1)" "inv r1" "length b1 = length buf"
    and law: "case res1 of
         Inr n \<Rightarrow> n \<le> length buf \<and> stream r = take n b1 @ stream r1 \<and>
                  (n = 0 \<longrightarrow> buf = [] \<or> stream r = []) \<and> intr r1 \<le> intr r
       | Inl e \<Rightarrow> stream r1 = stream r \<and> intr r1 \<le> intr r \<and>
                  (error_kind t e = Interrupted \<longrightarrow> intr r1 < intr r)"
    using read_law [OF less.prems(1), of buf] by blast
  show ?case
  proof (cases res1)
    case (Inl e1)
    then have int: "error_kind t e1 = Interrupted" using no_fatal [OF less.prems(1)] rd(1) by simp
    then have "read_exact_loop t read r1 pre b1 = Some (r', b, Inl e)"
      using less.prems(2) rd(1) Inl ne by (subst (asm) read_exact_loop.simps) simp
    then show ?thesis using less.hyps [of b1 r1 pre] rd(2,3) law Inl int by simp
  next
    case (Inr n)
    show ?thesis
    proof (cases "n = 0")
      case True
      then show ?thesis
        using less.prems(2) rd(1) Inr ne law by (subst (asm) read_exact_loop.simps) auto
    next
      case False
      have n: "n \<le> length b1" using law Inr rd(3) by simp
      have "read_exact_loop t read r1 (pre @ take n b1) (drop n b1) = Some (r', b, Inl e)"
        using less.prems(2) rd(1) Inr False n ne
        by (subst (asm) read_exact_loop.simps) (simp add: slice_range_Some)
      moreover have "length (drop n b1) + intr r1 < length buf + intr r" using n False law Inr rd(3) ne by auto
      ultimately show ?thesis using less.hyps rd(2) by blast
    qed
  qed
qed

lemma read_exact_all:
  assumes "inv r"
  shows "\<exists>r' buf'. inv r' \<and> length buf' = length buf \<and>
     (if length buf \<le> length (stream r)
      then read_exact t read r buf = Some (r', buf', Inr ()) \<and> stream r = buf' @ stream r'
      else read_exact t read r buf = Some (r', buf', Inl (error_from_kind UnexpectedEof)) \<and> stream r' = [])"
proof -
  obtain r' buf' res where x: "read_exact t read r buf = Some (r', buf', res)" "inv r'" "length buf' = length buf"
    and law: "case res of Inr _ \<Rightarrow> stream r = buf' @ stream r'
      | Inl e \<Rightarrow> error_kind t e \<noteq> Interrupted \<and> (\<exists>n<length buf. stream r = take n buf' @ stream r')"
    using read_exact_law [OF assms, of buf] by blast
  show ?thesis
  proof (cases res)
    case (Inl e)
    then have e: "e = error_from_kind UnexpectedEof" "stream r' = []"
      using read_exact_loop_eof [OF assms] x(1) by (auto simp: read_exact_def)
    moreover have "length (stream r) < length buf" using law Inl e(2) by auto
    ultimately show ?thesis using x Inl by auto
  next
    case (Inr u)
    then have "length buf \<le> length (stream r)" using law x(3) by simp
    then show ?thesis using x law Inr by auto
  qed
qed

end

section \<open>\<open>&[u8]\<close> and \<open>Cursor\<close> are readers\<close>

interpretation slice_rd: reliable_reader t slice_read "\<lambda>_. True" "\<lambda>s. s" "\<lambda>_. 0" for t
  by unfold_locales (auto simp: slice_read_def Let_def min_def split: if_splits)

definition cursor_stream :: "Cursor \<Rightarrow> byte list" where
  "cursor_stream c = drop (unat (cur_pos c)) (cur_inner c)"

definition cursor_inv :: "Cursor \<Rightarrow> bool" where
  "cursor_inv c \<longleftrightarrow> length (cur_inner c) < 2 ^ 63"

lemma cursor_read_eq:
  fixes buf :: "byte list"
  assumes "cursor_inv c"
  defines "n \<equiv> min (length buf) (length (cursor_stream c))"
  shows "cursor_read c buf = Some (c \<lparr> cur_pos := cur_pos c + of_nat n \<rparr>, take n (cursor_stream c) @ drop n buf, Inr n)"
    and "cursor_stream (c \<lparr> cur_pos := cur_pos c + of_nat n \<rparr>) = drop n (cursor_stream c)"
proof -
  let ?p = "unat (cur_pos c)" and ?l = "length (cur_inner c)"
  have rest: "take (?l - min ?p ?l) (drop (min ?p ?l) (cur_inner c)) = cursor_stream c"
    by (simp add: cursor_stream_def min_def)
  show "cursor_read c buf = Some (c \<lparr> cur_pos := cur_pos c + of_nat n \<rparr>, take n (cursor_stream c) @ drop n buf, Inr n)"
    by (simp add: cursor_read_def slice_range_Some rest slice_read_def Let_def n_def)
  show "cursor_stream (c \<lparr> cur_pos := cur_pos c + of_nat n \<rparr>) = drop n (cursor_stream c)"
  proof (cases "?p \<le> ?l")
    case True
    then have "?p + n \<le> ?l" by (simp add: n_def cursor_stream_def)
    then have "?p + n < 2 ^ 64" using assms(1) by (simp add: cursor_inv_def)
    then have "unat (cur_pos c + of_nat n) = ?p + n"
      using unat_of_nat_u64 [of n] by (subst unat_add_lem [THEN iffD1]) auto
    then show ?thesis by (simp add: cursor_stream_def add.commute)
  next
    case False
    then have "n = 0" by (simp add: n_def cursor_stream_def)
    then show ?thesis by simp
  qed
qed

interpretation cursor_rd: reliable_reader t cursor_read cursor_inv cursor_stream "\<lambda>_. 0" for t
proof unfold_locales
  fix c and buf :: "byte list" assume c: "cursor_inv c"
  show "\<exists>r' buf' res. cursor_read c buf = Some (r', buf', res) \<and> cursor_inv r' \<and> length buf' = length buf \<and>
      (case res of
         Inr n \<Rightarrow> n \<le> length buf \<and> cursor_stream c = take n buf' @ cursor_stream r' \<and>
                  (n = 0 \<longrightarrow> buf = [] \<or> cursor_stream c = []) \<and> (0 :: nat) \<le> 0
       | Inl e \<Rightarrow> cursor_stream r' = cursor_stream c \<and> (0 :: nat) \<le> 0 \<and>
                  (error_kind t e = Interrupted \<longrightarrow> (0 :: nat) < 0))"
    unfolding cursor_read_eq(1) [OF c] using c cursor_read_eq(2) [OF c, of buf]
    by (auto simp: cursor_inv_def min_def split: if_splits)
next
  fix c buf r' buf' e assume "cursor_inv c" "cursor_read c buf = Some (r', buf', Inl e)"
  then show "error_kind t e = Interrupted" using cursor_read_eq(1) by fastforce
qed

end
