(* ===== verification/Io_Buf_Read.thy ===== *)
theory Io_Buf_Read
  imports Io_Read
begin

text \<open>
  Buffered reading: the contract of \<open>BufRead\<close> (locale \<open>buf_read\<close>) with \<open>read_until\<close>,
  \<open>read_line\<close> and \<open>lines\<close> proved over it, and \<open>BufReader\<close> over any \<open>Read\<close> (locale
  \<open>buffered\<close>), which is both a \<open>Read\<close> and a \<open>BufRead\<close> of the same stream.
\<close>

section \<open>The contract of \<open>BufRead\<close>\<close>

text \<open>The bytes of a stream up to and including the first delimiter.\<close>

definition upto_delim :: "byte \<Rightarrow> byte list \<Rightarrow> byte list" where
  "upto_delim d xs = (if d \<in> set xs then takeWhile (\<lambda>b. b \<noteq> d) xs @ [d] else xs)"

lemma takeWhile_neq_append: "d \<notin> set xs \<Longrightarrow> takeWhile (\<lambda>b. b \<noteq> d) (xs @ ys) = xs @ takeWhile (\<lambda>b. b \<noteq> d) ys"
  by (induction xs) auto

lemma takeWhile_neq_stop: "d \<in> set xs \<Longrightarrow> takeWhile (\<lambda>b. b \<noteq> d) (xs @ ys) = takeWhile (\<lambda>b. b \<noteq> d) xs"
  by (induction xs) auto

lemma take_through: "d \<in> set xs \<Longrightarrow> take (Suc (length (takeWhile (\<lambda>b. b \<noteq> d) xs))) xs = takeWhile (\<lambda>b. b \<noteq> d) xs @ [d]"
  by (induction xs) auto

lemma length_through: "d \<in> set xs \<Longrightarrow> Suc (length (takeWhile (\<lambda>b. b \<noteq> d) xs)) \<le> length xs"
  by (induction xs) auto

lemma upto_delim_absent: "d \<notin> set a \<Longrightarrow> upto_delim d (a @ s) = a @ upto_delim d s"
  by (auto simp: upto_delim_def takeWhile_neq_append)

lemma upto_delim_present: "d \<in> set a \<Longrightarrow> upto_delim d (a @ s) = take (Suc (length (takeWhile (\<lambda>b. b \<noteq> d) a))) a"
  by (simp add: upto_delim_def takeWhile_neq_stop take_through)

lemma upto_delim_prefix: "xs = upto_delim d xs @ drop (length (upto_delim d xs)) xs"
proof (cases "d \<in> set xs")
  case True
  let ?n = "Suc (length (takeWhile (\<lambda>b. b \<noteq> d) xs))"
  have eq: "upto_delim d xs = take ?n xs" using upto_delim_present [OF True, of "[]"] by simp
  have "length (take ?n xs) = ?n" using length_through [OF True] by simp
  then show ?thesis unfolding eq by simp
qed (simp add: upto_delim_def)

lemma upto_delim_eq_Nil [simp]: "upto_delim d xs = [] \<longleftrightarrow> xs = []"
  by (auto simp: upto_delim_def)

locale buf_read =
  fixes t :: target and fill :: "'b \<Rightarrow> ('b \<times> (Error + byte list)) option" and cons :: "'b \<Rightarrow> nat \<Rightarrow> 'b"
    and inv :: "'b \<Rightarrow> bool" and stream :: "'b \<Rightarrow> byte list" and intr :: "'b \<Rightarrow> nat"
  assumes fill_law: "inv b \<Longrightarrow>
    \<exists>b' res. fill b = Some (b', res) \<and> inv b' \<and> stream b' = stream b \<and> intr b' \<le> intr b \<and>
      (case res of
         Inr a \<Rightarrow> (\<exists>s. stream b = a @ s) \<and> (a = [] \<longrightarrow> stream b = []) \<and>
                  (\<forall>n\<le>length a. inv (cons b' n) \<and> stream (cons b' n) = drop n (stream b) \<and> intr (cons b' n) \<le> intr b)
       | Inl e \<Rightarrow> error_kind t e = Interrupted \<longrightarrow> intr b' < intr b)"
begin

lemma read_until_loop_spec:
  "inv b \<Longrightarrow>
   \<exists>b' s res. read_until_loop t fill cons b d buf count = Some (b', buf @ s, res) \<and> inv b' \<and>
     stream b = s @ stream b' \<and>
     (case res of Inr n \<Rightarrow> s = upto_delim d (stream b) \<and> n = count + length s
      | Inl e \<Rightarrow> error_kind t e \<noteq> Interrupted)"
proof (induction "length (stream b) + intr b" arbitrary: b buf count rule: less_induct)
  case less
  obtain b1 res1 where f: "fill b = Some (b1, res1)" "inv b1" "stream b1 = stream b" "intr b1 \<le> intr b"
    and law: "case res1 of
         Inr a \<Rightarrow> (\<exists>s. stream b = a @ s) \<and> (a = [] \<longrightarrow> stream b = []) \<and>
                  (\<forall>n\<le>length a. inv (cons b1 n) \<and> stream (cons b1 n) = drop n (stream b) \<and> intr (cons b1 n) \<le> intr b)
       | Inl e \<Rightarrow> error_kind t e = Interrupted \<longrightarrow> intr b1 < intr b"
    using fill_law [OF less.prems] by blast
  show ?case
  proof (cases res1)
    case (Inl e)
    show ?thesis
    proof (cases "error_kind t e = Interrupted")
      case True
      then have "read_until_loop t fill cons b d buf count = read_until_loop t fill cons b1 d buf count"
        using f(1) Inl by (subst read_until_loop.simps) simp
      moreover have "length (stream b1) + intr b1 < length (stream b) + intr b" using law Inl True f(3) by simp
      ultimately show ?thesis using less.hyps [of b1 buf count] f(2) unfolding f(3) by simp
    next
      case False
      then have "read_until_loop t fill cons b d buf count = Some (b1, buf @ [], Inl e)"
        using f(1) Inl by (subst read_until_loop.simps) simp
      then show ?thesis using False f(2,3) by fastforce
    qed
  next
    case (Inr a)
    obtain s where s: "stream b = a @ s" using law Inr by auto
    have c: "inv (cons b1 n)" "stream (cons b1 n) = drop n (stream b)" "intr (cons b1 n) \<le> intr b" if "n \<le> length a" for n
      using law Inr that by auto
    show ?thesis
    proof (cases "d \<in> set a")
      case True
      let ?n = "Suc (length (takeWhile (\<lambda>x. x \<noteq> d) a))"
      have n: "?n \<le> length a" by (rule length_through [OF True])
      have step: "read_until_loop t fill cons b d buf count = Some (cons b1 ?n, buf @ take ?n a, Inr (count + ?n))"
        using f(1) Inr True by (subst read_until_loop.simps) (simp add: byte_position_def)
      have split: "stream b = take ?n a @ stream (cons b1 ?n)" using c(2) [OF n] s n by simp
      have "take ?n a = upto_delim d (stream b)" using upto_delim_present [OF True, of s] s by simp
      moreover have "count + ?n = count + length (take ?n a)" using n by simp
      ultimately have "case (Inr (count + ?n) :: Error + nat) of
          Inr m \<Rightarrow> take ?n a = upto_delim d (stream b) \<and> m = count + length (take ?n a)
        | Inl e \<Rightarrow> error_kind t e \<noteq> Interrupted"
        unfolding sum.case by (rule conjI)
      then show ?thesis using step split c(1) [OF n] by blast
    next
      case False
      show ?thesis
      proof (cases "a = []")
        case True
        then have "read_until_loop t fill cons b d buf count = Some (cons b1 0, buf @ [], Inr (count + 0))"
          using f(1) Inr by (subst read_until_loop.simps) (simp add: byte_position_def)
        moreover have "stream b = []" using law Inr True by simp
        ultimately show ?thesis using c(1,2) [of 0]
          by (intro exI [of _ "cons b1 0"] exI [of _ "[]"] exI [of _ "Inr (count + 0)"]) (simp add: upto_delim_def)
      next
        case ne: False
        let ?b = "cons b1 (length a)"
        have st: "stream ?b = s" using c(2) [of "length a"] s by simp
        have step: "read_until_loop t fill cons b d buf count
            = read_until_loop t fill cons ?b d (buf @ a) (count + length a)"
          using f(1) Inr False ne by (subst read_until_loop.simps) (simp add: byte_position_def)
        have "length (stream ?b) + intr ?b < length (stream b) + intr b"
          using st s ne c(3) [of "length a"] by (cases a) simp_all
        then obtain b' s' res where IH:
            "read_until_loop t fill cons ?b d (buf @ a) (count + length a) = Some (b', (buf @ a) @ s', res)"
            "inv b'" "stream ?b = s' @ stream b'"
            "case res of Inr n \<Rightarrow> s' = upto_delim d (stream ?b) \<and> n = count + length a + length s'
             | Inl e \<Rightarrow> error_kind t e \<noteq> Interrupted"
          using less.hyps [of ?b "buf @ a" "count + length a"] c(1) by blast
        have "case res of Inr n \<Rightarrow> a @ s' = upto_delim d (stream b) \<and> n = count + length (a @ s')
             | Inl e \<Rightarrow> error_kind t e \<noteq> Interrupted"
          using IH(4) upto_delim_absent [OF False, of s] s st by (cases res) simp_all
        then show ?thesis using step IH(1,2,3) s st
          by (intro exI [of _ b'] exI [of _ "a @ s'"] exI [of _ res]) simp
      qed
    qed
  qed
qed

lemma read_until_law:
  "inv b \<Longrightarrow>
   \<exists>b' s res. read_until t fill cons b d buf = Some (b', buf @ s, res) \<and> inv b' \<and> stream b = s @ stream b' \<and>
     (case res of Inr n \<Rightarrow> s = upto_delim d (stream b) \<and> n = length s | Inl e \<Rightarrow> error_kind t e \<noteq> Interrupted)"
  using read_until_loop_spec [of b d buf 0] unfolding read_until_def add_0_left .

end

section \<open>\<open>BufReader\<close>\<close>

definition br_inv :: "('r \<Rightarrow> bool) \<Rightarrow> 'r BufReader \<Rightarrow> bool" where
  "br_inv ri b \<longleftrightarrow> ri (br_inner b) \<and> br_pos b \<le> br_cap b \<and> br_cap b \<le> length (br_buf b) \<and> br_buf b \<noteq> []"

definition br_unread :: "'r BufReader \<Rightarrow> byte list" where
  "br_unread b = take (br_cap b - br_pos b) (drop (br_pos b) (br_buf b))"

definition br_stream :: "('r \<Rightarrow> byte list) \<Rightarrow> 'r BufReader \<Rightarrow> byte list" where
  "br_stream stream b = br_unread b @ stream (br_inner b)"

definition br_intr :: "('r \<Rightarrow> nat) \<Rightarrow> 'r BufReader \<Rightarrow> nat" where
  "br_intr intr b = intr (br_inner b)"

lemma br_inv_with_capacity: "ri r \<Longrightarrow> 0 < n \<Longrightarrow> br_inv ri (bufreader_with_capacity n r)"
  by (simp add: br_inv_def bufreader_with_capacity_def)

lemma br_stream_with_capacity [simp]: "br_stream stream (bufreader_with_capacity n r) = stream r"
  by (simp add: br_stream_def br_unread_def bufreader_with_capacity_def)

lemma consume_unread:
  assumes "br_pos b \<le> br_cap b" "br_cap b \<le> length (br_buf b)" "n \<le> length (br_unread b)"
  shows "br_unread (consume b n) = drop n (br_unread b)" "br_pos (consume b n) \<le> br_cap (consume b n)"
proof -
  have n: "br_pos b + n \<le> br_cap b" using assms by (simp add: br_unread_def)
  then show "br_unread (consume b n) = drop n (br_unread b)"
    by (simp add: br_unread_def consume_def min_def drop_take add.commute diff_diff_eq)
  show "br_pos (consume b n) \<le> br_cap (consume b n)" by (simp add: consume_def)
qed

lemma consume_simps [simp]:
  "br_inner (consume b n) = br_inner b" "br_buf (consume b n) = br_buf b" "br_cap (consume b n) = br_cap b"
  by (simp_all add: consume_def)

locale buffered = reader
begin

lemma fill_buf_spec:
  assumes b: "br_inv inv b"
  shows "\<exists>b' res. fill_buf read b = Some (b', res) \<and> br_inv inv b' \<and> br_stream stream b' = br_stream stream b \<and>
     br_intr intr b' \<le> br_intr intr b \<and>
     (case res of
        Inr a \<Rightarrow> a = br_unread b' \<and> (a = [] \<longrightarrow> br_stream stream b = [])
      | Inl e \<Rightarrow> error_kind t e = Interrupted \<longrightarrow> br_intr intr b' < br_intr intr b)"
proof (cases "br_pos b \<ge> br_cap b")
  case True
  have empty: "br_unread b = []" using True by (simp add: br_unread_def)
  obtain r1 buf1 res1 where rd: "read (br_inner b) (br_buf b) = Some (r1, buf1, res1)" "inv r1"
      "length buf1 = length (br_buf b)"
    and law: "case res1 of
         Inr n \<Rightarrow> n \<le> length (br_buf b) \<and> stream (br_inner b) = take n buf1 @ stream r1 \<and>
                  (n = 0 \<longrightarrow> br_buf b = [] \<or> stream (br_inner b) = []) \<and> intr r1 \<le> intr (br_inner b)
       | Inl e \<Rightarrow> stream r1 = stream (br_inner b) \<and> intr r1 \<le> intr (br_inner b) \<and>
                  (error_kind t e = Interrupted \<longrightarrow> intr r1 < intr (br_inner b))"
    using read_law [of "br_inner b" "br_buf b"] b unfolding br_inv_def by blast
  show ?thesis
  proof (cases res1)
    case (Inl e)
    then have "fill_buf read b = Some (b \<lparr> br_inner := r1, br_buf := buf1 \<rparr>, Inl e)"
      using True rd(1) by (simp add: fill_buf_def)
    moreover have "buf1 \<noteq> []" using rd(3) b by (auto simp: br_inv_def)
    ultimately show ?thesis
      using True rd law Inl b by (simp add: br_inv_def br_stream_def br_unread_def br_intr_def)
  next
    case (Inr n)
    have "buf1 \<noteq> []" using rd(3) b by (auto simp: br_inv_def)
    moreover have "fill_buf read b =
        Some (b \<lparr> br_inner := r1, br_buf := buf1, br_cap := n, br_pos := 0 \<rparr>, Inr (take n buf1))"
      using True rd Inr law by (simp add: fill_buf_def slice_range_Some)
    ultimately show ?thesis
      using rd law Inr b empty by (auto simp: br_inv_def br_stream_def br_unread_def br_intr_def)
  qed
next
  case False
  then have "fill_buf read b = Some (b, Inr (br_unread b))"
    using b by (simp add: fill_buf_def slice_range_Some br_inv_def br_unread_def)
  moreover have "br_unread b \<noteq> []" using False b by (simp add: br_unread_def br_inv_def)
  ultimately show ?thesis using b by simp
qed

lemma consume_spec:
  assumes "br_inv inv b" "n \<le> length (br_unread b)"
  shows "br_inv inv (consume b n) \<and> br_stream stream (consume b n) = drop n (br_stream stream b) \<and>
     br_intr intr (consume b n) = br_intr intr b"
  using assms consume_unread [of b n] by (simp add: br_inv_def br_stream_def br_intr_def)

end

sublocale buffered \<subseteq> br: buf_read t "fill_buf read" consume "br_inv inv" "br_stream stream" "br_intr intr"
proof
  fix b :: "'a BufReader" assume b: "br_inv inv b"
  obtain b' res where f: "fill_buf read b = Some (b', res)" "br_inv inv b'"
      "br_stream stream b' = br_stream stream b" "br_intr intr b' \<le> br_intr intr b"
    and law: "case res of
        Inr a \<Rightarrow> a = br_unread b' \<and> (a = [] \<longrightarrow> br_stream stream b = [])
      | Inl e \<Rightarrow> error_kind t e = Interrupted \<longrightarrow> br_intr intr b' < br_intr intr b"
    using fill_buf_spec [OF b] by blast
  have "(\<exists>s. br_stream stream b = br_unread b' @ s) \<and>
      (\<forall>n\<le>length (br_unread b'). br_inv inv (consume b' n) \<and>
         br_stream stream (consume b' n) = drop n (br_stream stream b) \<and> br_intr intr (consume b' n) \<le> br_intr intr b)"
  proof (intro conjI allI impI)
    show "\<exists>s. br_stream stream b = br_unread b' @ s" using f(3) br_stream_def by metis
  qed (use consume_spec [OF f(2)] f(3,4) in simp_all)
  then show "\<exists>b' res. fill_buf read b = Some (b', res) \<and> br_inv inv b' \<and> br_stream stream b' = br_stream stream b \<and>
      br_intr intr b' \<le> br_intr intr b \<and>
      (case res of
         Inr a \<Rightarrow> (\<exists>s. br_stream stream b = a @ s) \<and> (a = [] \<longrightarrow> br_stream stream b = []) \<and>
                  (\<forall>n\<le>length a. br_inv inv (consume b' n) \<and> br_stream stream (consume b' n) = drop n (br_stream stream b) \<and>
                     br_intr intr (consume b' n) \<le> br_intr intr b)
       | Inl e \<Rightarrow> error_kind t e = Interrupted \<longrightarrow> br_intr intr b' < br_intr intr b)"
    using f law by (intro exI [of _ b'] exI [of _ res]) (cases res; simp)
qed

sublocale buffered \<subseteq> brr: reader t "bufreader_read read" "br_inv inv" "br_stream stream" "br_intr intr"
proof
  fix b :: "'a BufReader" and buf :: "byte list" assume b: "br_inv inv b"
  let ?Q = "\<lambda>b' buf' res. bufreader_read read b buf = Some (b', buf', res) \<and> br_inv inv b' \<and> length buf' = length buf \<and>
      (case res of
         Inr n \<Rightarrow> n \<le> length buf \<and> br_stream stream b = take n buf' @ br_stream stream b' \<and>
                  (n = 0 \<longrightarrow> buf = [] \<or> br_stream stream b = []) \<and> br_intr intr b' \<le> br_intr intr b
       | Inl e \<Rightarrow> br_stream stream b' = br_stream stream b \<and> br_intr intr b' \<le> br_intr intr b \<and>
                  (error_kind t e = Interrupted \<longrightarrow> br_intr intr b' < br_intr intr b))"
  show "\<exists>b' buf' res. ?Q b' buf' res"
  proof (cases "br_pos b = br_cap b \<and> length buf \<ge> length (br_buf b)")
    case True
    have empty: "br_unread b = []" using True by (simp add: br_unread_def)
    obtain r1 buf1 res1 where rd: "read (br_inner b) buf = Some (r1, buf1, res1)" "inv r1" "length buf1 = length buf"
      and law: "case res1 of
           Inr n \<Rightarrow> n \<le> length buf \<and> stream (br_inner b) = take n buf1 @ stream r1 \<and>
                    (n = 0 \<longrightarrow> buf = [] \<or> stream (br_inner b) = []) \<and> intr r1 \<le> intr (br_inner b)
         | Inl e \<Rightarrow> stream r1 = stream (br_inner b) \<and> intr r1 \<le> intr (br_inner b) \<and>
                    (error_kind t e = Interrupted \<longrightarrow> intr r1 < intr (br_inner b))"
      using read_law [of "br_inner b" buf] b unfolding br_inv_def by blast
    have "bufreader_read read b buf = Some (b \<lparr> br_inner := r1 \<rparr>, buf1, res1)"
      using True rd(1) by (simp add: bufreader_read_def)
    moreover have "br_unread (b \<lparr> br_inner := r1 \<rparr>) = []" using empty by (simp add: br_unread_def)
    ultimately have "?Q (b \<lparr> br_inner := r1 \<rparr>) buf1 res1"
      using rd law b empty by (cases res1) (auto simp: br_inv_def br_stream_def br_intr_def)
    then show ?thesis by blast
  next
    case False
    obtain b1 res1 where f: "fill_buf read b = Some (b1, res1)" "br_inv inv b1"
        "br_stream stream b1 = br_stream stream b" "br_intr intr b1 \<le> br_intr intr b"
      and law: "case res1 of
          Inr a \<Rightarrow> a = br_unread b1 \<and> (a = [] \<longrightarrow> br_stream stream b = [])
        | Inl e \<Rightarrow> error_kind t e = Interrupted \<longrightarrow> br_intr intr b1 < br_intr intr b"
      using fill_buf_spec [OF b] by blast
    show ?thesis
    proof (cases res1)
      case (Inl e)
      then have "?Q b1 buf (Inl e)" unfolding bufreader_read_def if_not_P [OF False] using f law by simp
      then show ?thesis by blast
    next
      case (Inr a)
      let ?n = "min (length a) (length buf)"
      have a: "a = br_unread b1" "a = [] \<longrightarrow> br_stream stream b = []" using law Inr by simp_all
      note c = consume_spec [OF f(2), of ?n]
      have "bufreader_read read b buf = Some (consume b1 ?n, take ?n a @ drop ?n buf, Inr ?n)"
        unfolding bufreader_read_def if_not_P [OF False] using f(1) Inr by (simp add: Let_def)
      moreover have "br_stream stream b = take ?n a @ drop ?n (br_stream stream b)"
      proof -
        have "br_stream stream b = a @ stream (br_inner b1)" using f(3) a(1) by (simp add: br_stream_def)
        then show ?thesis by simp
      qed
      moreover have "?n = 0 \<longrightarrow> buf = [] \<or> br_stream stream b = []" using a(2) by (simp add: min_def)
      ultimately have "?Q (consume b1 ?n) (take ?n a @ drop ?n buf) (Inr ?n)"
        using c a(1) f(3,4) by simp
      then show ?thesis by blast
    qed
  qed
qed

section \<open>Reliable sources\<close>

locale reliable_buf_read = buf_read +
  assumes fill_no_fatal: "inv b \<Longrightarrow> fill b = Some (b', Inl e) \<Longrightarrow> error_kind t e = Interrupted"
begin

lemma read_until_loop_ok:
  "inv b \<Longrightarrow> read_until_loop t fill cons b d buf count = Some (b', s, res) \<Longrightarrow> \<exists>n. res = Inr n"
proof (induction "length (stream b) + intr b" arbitrary: b buf count rule: less_induct)
  case less
  obtain b1 res1 where f: "fill b = Some (b1, res1)" "inv b1" "stream b1 = stream b" "intr b1 \<le> intr b"
    and law: "case res1 of
         Inr a \<Rightarrow> (\<exists>s. stream b = a @ s) \<and> (a = [] \<longrightarrow> stream b = []) \<and>
                  (\<forall>n\<le>length a. inv (cons b1 n) \<and> stream (cons b1 n) = drop n (stream b) \<and> intr (cons b1 n) \<le> intr b)
       | Inl e \<Rightarrow> error_kind t e = Interrupted \<longrightarrow> intr b1 < intr b"
    using fill_law [OF less.prems(1)] by blast
  show ?case
  proof (cases res1)
    case (Inl e)
    then have int: "error_kind t e = Interrupted" using fill_no_fatal [OF less.prems(1)] f(1) by simp
    then have "read_until_loop t fill cons b1 d buf count = Some (b', s, res)"
      using less.prems(2) f(1) Inl by (subst (asm) read_until_loop.simps) simp
    then show ?thesis using less.hyps [of b1 buf count] f(2,3) law Inl int by simp
  next
    case (Inr a)
    show ?thesis
    proof (cases "d \<in> set a \<or> a = []")
      case True
      then show ?thesis using less.prems(2) f(1) Inr
        by (subst (asm) read_until_loop.simps) (auto simp: byte_position_def split: if_splits)
    next
      case False
      then have "read_until_loop t fill cons (cons b1 (length a)) d (buf @ a) (count + length a) = Some (b', s, res)"
        using less.prems(2) f(1) Inr by (subst (asm) read_until_loop.simps) (simp add: byte_position_def)
      moreover have "inv (cons b1 (length a))" using law Inr by simp
      moreover have "length (stream (cons b1 (length a))) + intr (cons b1 (length a)) < length (stream b) + intr b"
        using law Inr False by (cases a) auto
      ultimately show ?thesis using less.hyps by blast
    qed
  qed
qed

lemma read_until_all:
  assumes "inv b"
  shows "\<exists>b'. read_until t fill cons b d buf
      = Some (b', buf @ upto_delim d (stream b), Inr (length (upto_delim d (stream b)))) \<and>
     inv b' \<and> stream b = upto_delim d (stream b) @ stream b'"
proof -
  obtain b' s res where r: "read_until t fill cons b d buf = Some (b', buf @ s, res)" "inv b'" "stream b = s @ stream b'"
    and law: "case res of Inr n \<Rightarrow> s = upto_delim d (stream b) \<and> n = length s | Inl e \<Rightarrow> error_kind t e \<noteq> Interrupted"
    using read_until_law [OF assms, of d buf] by blast
  obtain n where "res = Inr n" using read_until_loop_ok [OF assms] r(1) unfolding read_until_def by blast
  then show ?thesis using r law by auto
qed

end

text \<open>All the items a \<open>for\<close> loop over \<open>lines()\<close> sees.\<close>

partial_function (option) lines_collect ::
    "target \<Rightarrow> ('b \<Rightarrow> ('b \<times> (Error + byte list)) option) \<Rightarrow> ('b \<Rightarrow> nat \<Rightarrow> 'b) \<Rightarrow> 'b \<Rightarrow> (Error + byte list) list option" where
  "lines_collect t fill cons b = do {
     (b', item) \<leftarrow> lines_next t fill cons b;
     (case item of None \<Rightarrow> Some [] | Some x \<Rightarrow> do { xs \<leftarrow> lines_collect t fill cons b'; Some (x # xs) })
   }"

text \<open>The reference: cut the bytes after every newline.\<close>

function line_chunks :: "byte list \<Rightarrow> byte list list" where
  "line_chunks xs = (if xs = [] then [] else upto_delim 10 xs # line_chunks (drop (length (upto_delim 10 xs)) xs))"
  by pat_completeness auto
termination
proof (relation "measure length")
  fix xs :: "byte list" assume "xs \<noteq> []"
  then have "upto_delim 10 xs \<noteq> []" by simp
  then show "(drop (length (upto_delim 10 xs)) xs, xs) \<in> measure length" using \<open>xs \<noteq> []\<close> by simp
qed simp

declare line_chunks.simps [simp del]

definition line_item :: "byte list \<Rightarrow> Error + byte list" where
  "line_item chunk = (if utf8_valid chunk then Inr (strip_newline chunk) else Inl (error_from_kind InvalidData))"

lemma line_chunks_concat: "concat (line_chunks xs) = xs"
proof (induction xs rule: line_chunks.induct)
  case (1 xs)
  then show ?case using upto_delim_prefix [of xs 10] by (cases "xs = []") (simp_all add: line_chunks.simps [of xs] line_chunks.simps [of "[]"])
qed

context reliable_buf_read
begin

lemma lines_collect_spec: "inv b \<Longrightarrow> lines_collect t fill cons b = Some (map line_item (line_chunks (stream b)))"
proof (induction "length (stream b)" arbitrary: b rule: less_induct)
  case less
  let ?c = "upto_delim 10 (stream b)"
  obtain b' where r: "read_until t fill cons b 10 [] = Some (b', [] @ ?c, Inr (length ?c))"
      "inv b'" "stream b = ?c @ stream b'"
    using read_until_all [OF less.prems, of 10 "[]"] by blast
  show ?case
  proof (cases "stream b = []")
    case True
    then have "lines_next t fill cons b = Some (b', None)"
      using r(1) by (simp add: lines_next_def read_line_def upto_delim_def)
    then show ?thesis using True by (subst lines_collect.simps) (simp add: line_chunks.simps)
  next
    case False
    have next_item: "lines_next t fill cons b = Some (b', Some (line_item ?c))"
      using r(1) False by (simp add: lines_next_def read_line_def line_item_def)
    have d: "drop (length ?c) (stream b) = stream b'" using r(3) by (metis append_eq_conv_conj)
    have "0 < length ?c" using False by simp
    then have "length (stream b') < length (stream b)" using arg_cong [OF r(3), of length] by simp
    then have "lines_collect t fill cons b' = Some (map line_item (line_chunks (stream b')))"
      using less.hyps r(2) by blast
    then show ?thesis
      using next_item False d by (subst lines_collect.simps) (simp add: line_chunks.simps [of "stream b"])
  qed
qed

end

locale reliable_buffered = reliable_reader

sublocale reliable_buffered \<subseteq> buffered t read inv stream intr ..

sublocale reliable_buffered \<subseteq> rbr: reliable_buf_read t "fill_buf read" consume "br_inv inv" "br_stream stream" "br_intr intr"
proof
  fix b :: "'a BufReader" and b' e assume "br_inv inv b" "fill_buf read b = Some (b', Inl e)"
  then show "error_kind t e = Interrupted"
    using no_fatal [of "br_inner b"] by (auto simp: fill_buf_def br_inv_def split: if_splits bind_splits sum.splits)
qed

sublocale reliable_buffered \<subseteq> rbrr: reliable_reader t "bufreader_read read" "br_inv inv" "br_stream stream" "br_intr intr"
proof
  fix b :: "'a BufReader" and buf r' buf' e
  assume b: "br_inv inv b" "bufreader_read read b buf = Some (r', buf', Inl e)"
  then show "error_kind t e = Interrupted"
    using no_fatal [of "br_inner b"] rbr.fill_no_fatal [OF b(1)]
    by (auto simp: bufreader_read_def br_inv_def Let_def split: if_splits bind_splits sum.splits)
qed

context reliable_buffered
begin

lemmas is_reliable_buf_read = rbr.reliable_buf_read_axioms
lemmas is_reliable_reader = rbrr.reliable_reader_axioms

end

interpretation bslice: reliable_buffered t slice_read "\<lambda>_. True" "\<lambda>s. s" "\<lambda>_. 0" for t ..

interpretation bcursor: reliable_buffered t cursor_read cursor_inv cursor_stream "\<lambda>_. 0" for t ..

section \<open>Properties\<close>

text \<open>\<open>BufReader::new(Cursor).lines()\<close> ends, and its items are the bytes of the cursor cut after
every newline, in order and with none lost, each item the chunk without its line ending when the chunk is
UTF-8 and an \<open>InvalidData\<close> error when it is not. The buffer size does not matter.\<close>

theorem bufreader_lines:
  assumes "cursor_inv c" "0 < capacity"
  shows "lines_collect t (fill_buf cursor_read) consume (bufreader_with_capacity capacity c)
      = Some (map line_item (line_chunks (cursor_stream c))) \<and>
     concat (line_chunks (cursor_stream c)) = cursor_stream c"
  using bcursor.rbr.lines_collect_spec [OF br_inv_with_capacity [of cursor_inv, OF assms]]
  by (simp add: line_chunks_concat)

theorem bufreader_lines_witness:
  "lines_collect (Linux_x86_64) (fill_buf cursor_read) consume
      (bufreader_with_capacity 2 (cursor_new [104, 105, 13, 10, 255, 10, 122]))
    = Some [Inr [104, 105], Inl (error_from_kind InvalidData), Inr [122]]"
proof -
  have "cursor_inv (cursor_new [104, 105, 13, 10, 255, 10, 122])" by (simp add: cursor_inv_def cursor_new_def)
  then have "lines_collect (Linux_x86_64) (fill_buf cursor_read) consume
      (bufreader_with_capacity 2 (cursor_new [104, 105, 13, 10, 255, 10, 122]))
    = Some (map line_item (line_chunks (cursor_stream (cursor_new [104, 105, 13, 10, 255, 10, 122]))))"
    using bufreader_lines [of "cursor_new [104, 105, 13, 10, 255, 10, 122]" 2] by simp
  also have "map line_item (line_chunks (cursor_stream (cursor_new [104, 105, 13, 10, 255, 10, 122])))
      = [Inr [104, 105], Inl (error_from_kind InvalidData), Inr [122]]"
    by code_simp
  finally show ?thesis .
qed

text \<open>\<open>read_exact\<close> on a \<open>BufReader\<close> over a cursor fills the whole buffer with the next bytes and leaves
the following ones to be read, when that many are left; otherwise it consumes everything and fails with
\<open>UnexpectedEof\<close>. The bypass of the internal buffer for large reads does not change the bytes.\<close>

theorem bufreader_read_exact:
  assumes "br_inv cursor_inv b"
  shows "\<exists>b' buf'. br_inv cursor_inv b' \<and> length buf' = length buf \<and>
     (if length buf \<le> length (br_stream cursor_stream b)
      then read_exact t (bufreader_read cursor_read) b buf = Some (b', buf', Inr ()) \<and>
           br_stream cursor_stream b = buf' @ br_stream cursor_stream b'
      else read_exact t (bufreader_read cursor_read) b buf
             = Some (b', buf', Inl (error_from_kind UnexpectedEof)) \<and>
           br_stream cursor_stream b' = [])"
  by (rule bcursor.rbrr.read_exact_all [OF assms])

theorem bufreader_read_exact_witness:
  "\<exists>b' buf'. length buf' = 3 \<and>
     read_exact (Linux_x86_64) (bufreader_read cursor_read) (bufreader_new (cursor_new [1, 2, 3, 4])) [0, 0, 0]
       = Some (b', buf', Inr ()) \<and> [1, 2, 3, 4] = buf' @ br_stream cursor_stream b'"
proof -
  have "br_inv cursor_inv (bufreader_new (cursor_new [1, 2, 3, 4]))"
    by (simp add: br_inv_with_capacity bufreader_new_def cursor_inv_def cursor_new_def)
  moreover have "br_stream cursor_stream (bufreader_new (cursor_new [1, 2, 3, 4])) = [1, 2, 3, 4]"
    by (simp add: bufreader_new_def cursor_stream_def cursor_new_def)
  ultimately show ?thesis
    using bufreader_read_exact [of "bufreader_new (cursor_new [1, 2, 3, 4])" "[0, 0, 0]" "Linux_x86_64"] by fastforce
qed

text \<open>\<open>read_to_end\<close> on a \<open>BufReader\<close> over a cursor ends, appends exactly the bytes that were not yet read
and returns their number.\<close>

theorem bufreader_read_to_end:
  assumes "br_inv cursor_inv b"
  shows "\<exists>b'. read_to_end t (bufreader_read cursor_read) b buf
      = Some (b', buf @ br_stream cursor_stream b, Inr (length (br_stream cursor_stream b))) \<and>
     br_inv cursor_inv b' \<and> br_stream cursor_stream b' = []"
  using bcursor.rbrr.read_to_end_all [OF assms] by blast

theorem bufreader_read_to_end_witness:
  "\<exists>b'. read_to_end (Linux_x86_64) (bufreader_read cursor_read) (bufreader_new (cursor_new [1, 2, 3, 4])) [9]
      = Some (b', [9, 1, 2, 3, 4], Inr 4)"
proof -
  have "br_inv cursor_inv (bufreader_new (cursor_new [1, 2, 3, 4]))"
    by (simp add: br_inv_with_capacity bufreader_new_def cursor_inv_def cursor_new_def)
  moreover have "br_stream cursor_stream (bufreader_new (cursor_new [1, 2, 3, 4])) = [1, 2, 3, 4]"
    by (simp add: bufreader_new_def cursor_stream_def cursor_new_def)
  ultimately show ?thesis
    using bufreader_read_to_end [of "bufreader_new (cursor_new [1, 2, 3, 4])" "Linux_x86_64" "[9]"] by fastforce
qed

end
