(* ===== verification/Io_Write.thy ===== *)
theory Io_Write
  imports Io_Buf_Read
begin

text \<open>
  The writing half of \<open>src/io.rs\<close>: the provided methods of \<open>Write\<close>, the writers
  \<open>Vec<u8>\<close>, \<open>Cursor<Vec<u8>>\<close> and \<open>BufWriter\<close>, and \<open>io::copy\<close>. A writer is a state
  with a \<open>write\<close> function that returns the new state and the result; \<^term>\<open>None\<close> stands
  for a panic or a call that never returns. The contract of \<open>Write\<close> is the locale
  \<open>writer\<close>, that of a writer with no failures \<open>reliable_writer\<close>; a \<open>BufWriter\<close> over a
  reliable writer is one.
\<close>

type_synonym 'w write_fn = "'w \<Rightarrow> byte list \<Rightarrow> ('w \<times> (Error + nat)) option"
type_synonym 'w flush_fn = "'w \<Rightarrow> ('w \<times> (Error + unit)) option"

section \<open>Provided methods of \<open>Write\<close>\<close>

fun write_vectored :: "'w write_fn \<Rightarrow> 'w \<Rightarrow> byte list list \<Rightarrow> ('w \<times> (Error + nat)) option" where
  "write_vectored write w [] = write w []"
| "write_vectored write w (b # bs) = (if b \<noteq> [] then write w b else write_vectored write w bs)"

partial_function (option) write_all ::
    "target \<Rightarrow> 'w write_fn \<Rightarrow> 'w \<Rightarrow> byte list \<Rightarrow> ('w \<times> (Error + unit)) option" where
  "write_all t write w buf =
     (if buf = [] then Some (w, Inr ())
      else do {
        (w', res) \<leftarrow> write w buf;
        (case res of
           Inr n \<Rightarrow>
             if n = 0 then Some (w', Inl (error_from_kind WriteZero))
             else do { rest \<leftarrow> slice_range buf n (length buf); write_all t write w' rest }
         | Inl e \<Rightarrow>
             if error_kind t e = Interrupted then write_all t write w' buf else Some (w', Inl e))
      })"

text \<open>
  \<open>fmt::Arguments\<close> as \<open>core::fmt::write\<close> runs it: the pieces it hands to \<open>write_str\<close>, up to the
  point where a formatting trait of the caller reports an error of its own, if one does.
\<close>

datatype fmt_piece = Str "byte list" | Fmt_Error

record 'w Adapter =
  ad_inner :: 'w
  ad_error :: "Error + unit"

definition adapter_write_str ::
    "target \<Rightarrow> 'w write_fn \<Rightarrow> 'w Adapter \<Rightarrow> byte list \<Rightarrow> ('w Adapter \<times> bool) option" where
  "adapter_write_str t write a s = do {
     (w', res) \<leftarrow> write_all t write (ad_inner a) s;
     Some (case res of
             Inr _ \<Rightarrow> (a \<lparr> ad_inner := w' \<rparr>, True)
           | Inl e \<Rightarrow> (a \<lparr> ad_inner := w', ad_error := Inl e \<rparr>, False))
   }"

fun fmt_write :: "target \<Rightarrow> 'w write_fn \<Rightarrow> 'w Adapter \<Rightarrow> fmt_piece list \<Rightarrow> ('w Adapter \<times> bool) option" where
  "fmt_write t write a [] = Some (a, True)"
| "fmt_write t write a (Fmt_Error # ps) = Some (a, False)"
| "fmt_write t write a (Str s # ps) = do {
     (a', ok) \<leftarrow> adapter_write_str t write a s;
     (if ok then fmt_write t write a' ps else Some (a', False))
   }"

definition write_fmt :: "target \<Rightarrow> 'w write_fn \<Rightarrow> 'w \<Rightarrow> fmt_piece list \<Rightarrow> ('w \<times> (Error + unit)) option" where
  "write_fmt t write w args = do {
     (a, ok) \<leftarrow> fmt_write t write \<lparr> ad_inner = w, ad_error = Inr () \<rparr> args;
     Some (ad_inner a,
           if ok then Inr ()
           else case ad_error a of Inl e \<Rightarrow> Inl e | Inr _ \<Rightarrow> Inl (error_from_kind Other))
   }"

section \<open>Writers\<close>

definition vec_write :: "byte list write_fn" where
  "vec_write self buf = Some (self @ buf, Inr (length buf))"

definition vec_flush :: "byte list flush_fn" where
  "vec_flush self = Some (self, Inr ())"

text \<open>\<open>Vec::resize\<close>: a capacity over \<open>isize::MAX\<close> bytes panics.\<close>

definition vec_resize :: "byte list \<Rightarrow> nat \<Rightarrow> byte list option" where
  "vec_resize v n = (if n < 2 ^ 63 then Some (take n v @ replicate (n - length v) 0) else None)"

text \<open>
  \<open>Cursor<Vec<u8>>\<close>. The sum \<open>pos + buf.len()\<close> panics on overflow with the checks on; without
  them it wraps below \<open>pos\<close>, and the slice \<open>[pos..end]\<close> panics.
\<close>

definition cursor_write :: "Cursor write_fn" where
  "cursor_write self buf = do {
     let p = unat (cur_pos self);
     inner1 \<leftarrow> (if p > length (cur_inner self) then vec_resize (cur_inner self) p else Some (cur_inner self));
     let e = p + length buf;
     inner2 \<leftarrow> (if e \<ge> 2 ^ 64 then None else if e > length inner1 then vec_resize inner1 e else Some inner1);
     Some (self \<lparr> cur_inner := take p inner2 @ buf @ drop e inner2, cur_pos := of_nat e \<rparr>, Inr (length buf))
   }"

partial_function (option) copy_loop ::
    "target \<Rightarrow> 'r read_fn \<Rightarrow> 'w write_fn \<Rightarrow> 'r \<Rightarrow> 'w \<Rightarrow> byte list \<Rightarrow> u64 \<Rightarrow> ('r \<times> 'w \<times> (Error + u64)) option" where
  "copy_loop t read write r w buf tot = do {
     (r', buf', res) \<leftarrow> read r buf;
     (case res of
        Inr n \<Rightarrow>
          if n = 0 then Some (r', w, Inr tot)
          else do {
            s \<leftarrow> slice_range buf' 0 n;
            (w', wres) \<leftarrow> write_all t write w s;
            (case wres of
               Inl e \<Rightarrow> Some (r', w', Inl e)
             | Inr _ \<Rightarrow> copy_loop t read write r' w' buf' (tot + of_nat n))
          }
      | Inl e \<Rightarrow>
          if error_kind t e = Interrupted then copy_loop t read write r' w buf' tot
          else Some (r', w, Inl e))
   }"

definition copy :: "target \<Rightarrow> 'r read_fn \<Rightarrow> 'w write_fn \<Rightarrow> 'r \<Rightarrow> 'w \<Rightarrow> ('r \<times> 'w \<times> (Error + u64)) option" where
  "copy t read write r w = copy_loop t read write r w (replicate 8192 0) 0"

record 'w BufWriter =
  bw_inner :: 'w
  bw_buf :: "byte list"
  bw_capacity :: nat

definition bufwriter_with_capacity :: "nat \<Rightarrow> 'w \<Rightarrow> 'w BufWriter" where
  "bufwriter_with_capacity capacity inner = \<lparr> bw_inner = inner, bw_buf = [], bw_capacity = capacity \<rparr>"

definition bufwriter_new :: "'w \<Rightarrow> 'w BufWriter" where
  "bufwriter_new inner = bufwriter_with_capacity (8 * 1024) inner"

definition flush_buf :: "target \<Rightarrow> 'w write_fn \<Rightarrow> 'w BufWriter flush_fn" where
  "flush_buf t write self =
     (if bw_buf self \<noteq> [] then do {
        (w', res) \<leftarrow> write_all t write (bw_inner self) (bw_buf self);
        Some (case res of
                Inl e \<Rightarrow> (self \<lparr> bw_inner := w' \<rparr>, Inl e)
              | Inr _ \<Rightarrow> (self \<lparr> bw_inner := w', bw_buf := [] \<rparr>, Inr ()))
      } else Some (self, Inr ()))"

definition bufwriter_write :: "target \<Rightarrow> 'w write_fn \<Rightarrow> 'w BufWriter write_fn" where
  "bufwriter_write t write self buf = do {
     (self1, res) \<leftarrow> (if length (bw_buf self) + length buf > bw_capacity self
                      then flush_buf t write self else Some (self, Inr ()));
     (case res of
        Inl e \<Rightarrow> Some (self1, Inl e)
      | Inr _ \<Rightarrow>
          if length buf \<ge> bw_capacity self1
          then do { (w', r) \<leftarrow> write (bw_inner self1) buf; Some (self1 \<lparr> bw_inner := w' \<rparr>, r) }
          else Some (self1 \<lparr> bw_buf := bw_buf self1 @ buf \<rparr>, Inr (length buf)))
   }"

definition bufwriter_flush :: "target \<Rightarrow> 'w write_fn \<Rightarrow> 'w flush_fn \<Rightarrow> 'w BufWriter flush_fn" where
  "bufwriter_flush t write flush self = do {
     (self1, res) \<leftarrow> flush_buf t write self;
     (case res of
        Inl e \<Rightarrow> Some (self1, Inl e)
      | Inr _ \<Rightarrow> do { (w', r) \<leftarrow> flush (bw_inner self1); Some (self1 \<lparr> bw_inner := w' \<rparr>, r) })
   }"

text \<open>
  \<open>into_inner\<close>: the error path drops the \<open>BufWriter\<close>, which flushes what is still buffered
  once more and ignores the result. The state returned is that of the inner writer.
\<close>

definition bufwriter_drop :: "target \<Rightarrow> 'w write_fn \<Rightarrow> 'w BufWriter \<Rightarrow> 'w option" where
  "bufwriter_drop t write self = do { (self1, _) \<leftarrow> flush_buf t write self; Some (bw_inner self1) }"

definition bufwriter_into_inner :: "target \<Rightarrow> 'w write_fn \<Rightarrow> 'w BufWriter \<Rightarrow> ('w \<times> (Error + unit)) option" where
  "bufwriter_into_inner t write self = do {
     (self1, res) \<leftarrow> flush_buf t write self;
     (case res of
        Inl e \<Rightarrow> do { w' \<leftarrow> bufwriter_drop t write self1; Some (w', Inl e) }
      | Inr _ \<Rightarrow> Some (bw_inner self1, Inr ()))
   }"

section \<open>The contract of \<open>Write\<close>\<close>

text \<open>
  \<open>written\<close> is what the writer has accepted, in order; \<open>intr\<close> bounds the interruptions still to
  come. A failed \<open>write\<close> accepts nothing.
\<close>

locale writer =
  fixes t :: target and wfn :: "'w write_fn" and inv :: "'w \<Rightarrow> bool"
    and written :: "'w \<Rightarrow> byte list" and intr :: "'w \<Rightarrow> nat"
  assumes write_law: "inv w \<Longrightarrow>
    \<exists>w' res. wfn w buf = Some (w', res) \<and> inv w' \<and> intr w' \<le> intr w \<and>
      (case res of
         Inr n \<Rightarrow> n \<le> length buf \<and> written w' = written w @ take n buf
       | Inl e \<Rightarrow> written w' = written w \<and> (error_kind t e = Interrupted \<longrightarrow> intr w' < intr w))"
begin

lemma write_all_law:
  "inv w \<Longrightarrow>
   \<exists>w' n res. write_all t wfn w buf = Some (w', res) \<and> inv w' \<and> intr w' \<le> intr w \<and> n \<le> length buf \<and>
     written w' = written w @ take n buf \<and>
     (case res of Inr _ \<Rightarrow> n = length buf | Inl e \<Rightarrow> n < length buf \<and> error_kind t e \<noteq> Interrupted)"
proof (induction "length buf + intr w" arbitrary: w buf rule: less_induct)
  case less
  show ?case
  proof (cases "buf = []")
    case True
    then show ?thesis using less.prems by (subst write_all.simps) auto
  next
    case ne: False
    obtain w1 res1 where wr: "wfn w buf = Some (w1, res1)" "inv w1" "intr w1 \<le> intr w"
      and law: "case res1 of
         Inr n \<Rightarrow> n \<le> length buf \<and> written w1 = written w @ take n buf
       | Inl e \<Rightarrow> written w1 = written w \<and> (error_kind t e = Interrupted \<longrightarrow> intr w1 < intr w)"
      using write_law [OF less.prems, of buf] by blast
    show ?thesis
    proof (cases res1)
      case (Inl e)
      show ?thesis
      proof (cases "error_kind t e = Interrupted")
        case True
        then have "write_all t wfn w buf = write_all t wfn w1 buf"
          using wr(1) Inl ne by (subst write_all.simps) simp
        then show ?thesis using less.hyps [of buf w1] wr(2,3) law Inl True by (auto intro: order_trans)
      next
        case False
        then have "write_all t wfn w buf = Some (w1, Inl e)"
          using wr(1) Inl ne by (subst write_all.simps) simp
        then show ?thesis using wr(2,3) law Inl ne False by (intro exI [of _ w1] exI [of _ 0]) auto
      qed
    next
      case (Inr m)
      show ?thesis
      proof (cases "m = 0")
        case True
        then have "write_all t wfn w buf = Some (w1, Inl (error_from_kind WriteZero))"
          using wr(1) Inr ne by (subst write_all.simps) simp
        then show ?thesis
          using wr(2,3) law Inr True ne
          by (intro exI [of _ w1] exI [of _ 0]) (auto simp: error_kind_def error_from_kind_def)
      next
        case False
        have m: "m \<le> length buf" "written w1 = written w @ take m buf" using law Inr by auto
        have eq: "write_all t wfn w buf = write_all t wfn w1 (drop m buf)"
          using wr(1) Inr ne False m(1) by (subst write_all.simps) (simp add: slice_range_Some)
        have "length (drop m buf) + intr w1 < length buf + intr w" using False wr(3) m(1) ne by auto
        then obtain w' n res where r: "write_all t wfn w1 (drop m buf) = Some (w', res)" "inv w'" "intr w' \<le> intr w1"
            "n \<le> length (drop m buf)" "written w' = written w1 @ take n (drop m buf)"
            "case res of Inr _ \<Rightarrow> n = length (drop m buf)
              | Inl e \<Rightarrow> n < length (drop m buf) \<and> error_kind t e \<noteq> Interrupted"
          using less.hyps [of "drop m buf" w1] wr(2) by blast
        then have "written w' = written w @ take (m + n) buf" using m(2) by (simp add: take_add)
        then show ?thesis
          using eq r m(1) wr(3) by (intro exI [of _ w'] exI [of _ "m + n"] exI [of _ res]) (auto split: sum.splits)
      qed
    qed
  qed
qed

end

locale reliable_writer = writer +
  assumes no_fatal: "inv w \<Longrightarrow> wfn w buf = Some (w', Inl e) \<Longrightarrow> error_kind t e = Interrupted"
    and progress: "inv w \<Longrightarrow> buf \<noteq> [] \<Longrightarrow> wfn w buf \<noteq> Some (w', Inr 0)"
begin

lemma write_all_ok:
  "inv w \<Longrightarrow> write_all t wfn w buf = Some (w', res) \<Longrightarrow> res = Inr ()"
proof (induction "length buf + intr w" arbitrary: w buf rule: less_induct)
  case less
  show ?case
  proof (cases "buf = []")
    case True
    then show ?thesis using less.prems(2) by (subst (asm) write_all.simps) simp
  next
    case ne: False
    obtain w1 res1 where wr: "wfn w buf = Some (w1, res1)" "inv w1" "intr w1 \<le> intr w"
      and law: "case res1 of
         Inr n \<Rightarrow> n \<le> length buf \<and> written w1 = written w @ take n buf
       | Inl e \<Rightarrow> written w1 = written w \<and> (error_kind t e = Interrupted \<longrightarrow> intr w1 < intr w)"
      using write_law [OF less.prems(1), of buf] by blast
    show ?thesis
    proof (cases res1)
      case (Inl e)
      then have int: "error_kind t e = Interrupted" using no_fatal [OF less.prems(1)] wr(1) by simp
      then have "write_all t wfn w1 buf = Some (w', res)"
        using less.prems(2) wr(1) Inl ne by (subst (asm) write_all.simps) simp
      then show ?thesis using less.hyps [of buf w1] wr(2) law Inl int by simp
    next
      case (Inr m)
      have m: "m \<noteq> 0" "m \<le> length buf" using progress [OF less.prems(1) ne] wr(1) law Inr by auto
      then have "write_all t wfn w1 (drop m buf) = Some (w', res)"
        using less.prems(2) wr(1) Inr ne by (subst (asm) write_all.simps) (simp add: slice_range_Some)
      moreover have "length (drop m buf) + intr w1 < length buf + intr w" using m wr(3) ne by auto
      ultimately show ?thesis using less.hyps wr(2) by blast
    qed
  qed
qed

lemma write_all_all:
  assumes "inv w"
  shows "\<exists>w'. write_all t wfn w buf = Some (w', Inr ()) \<and> inv w' \<and> intr w' \<le> intr w \<and> written w' = written w @ buf"
proof -
  obtain w' n res where r: "write_all t wfn w buf = Some (w', res)" "inv w'" "intr w' \<le> intr w"
      "written w' = written w @ take n buf"
      "case res of Inr _ \<Rightarrow> n = length buf | Inl e \<Rightarrow> n < length buf \<and> error_kind t e \<noteq> Interrupted"
    using write_all_law [OF assms, of buf] by blast
  moreover have "res = Inr ()" using write_all_ok [OF assms r(1)] .
  ultimately show ?thesis by auto
qed

lemma fmt_write_all:
  "inv (ad_inner a) \<Longrightarrow>
   \<exists>a'. fmt_write t wfn a ps = Some (a', Fmt_Error \<notin> set ps) \<and> inv (ad_inner a') \<and> ad_error a' = ad_error a \<and>
     written (ad_inner a') = written (ad_inner a)
       @ concat (map (\<lambda>p. case p of Str s \<Rightarrow> s | Fmt_Error \<Rightarrow> []) (takeWhile (\<lambda>p. p \<noteq> Fmt_Error) ps))"
proof (induction ps arbitrary: a)
  case (Cons p ps)
  show ?case
  proof (cases p)
    case (Str s)
    obtain w' where w: "write_all t wfn (ad_inner a) s = Some (w', Inr ())" "inv w'"
        "written w' = written (ad_inner a) @ s"
      using write_all_all [OF Cons.prems, of s] by blast
    then show ?thesis using Str Cons.IH [of "a \<lparr> ad_inner := w' \<rparr>"] by (auto simp: adapter_write_str_def)
  qed (use Cons.prems in auto)
qed auto

end

section \<open>Buffered writers\<close>

definition bw_inv :: "('w \<Rightarrow> bool) \<Rightarrow> 'w BufWriter \<Rightarrow> bool" where
  "bw_inv wi b \<longleftrightarrow> wi (bw_inner b)"

definition bw_written :: "('w \<Rightarrow> byte list) \<Rightarrow> 'w BufWriter \<Rightarrow> byte list" where
  "bw_written written b = written (bw_inner b) @ bw_buf b"

definition bw_intr :: "('w \<Rightarrow> nat) \<Rightarrow> 'w BufWriter \<Rightarrow> nat" where
  "bw_intr intr b = intr (bw_inner b)"

locale buffered_writer = reliable_writer
begin

lemma flush_buf_spec:
  assumes "bw_inv inv b"
  shows "\<exists>b'. flush_buf t wfn b = Some (b', Inr ()) \<and> bw_inv inv b' \<and> bw_intr intr b' \<le> bw_intr intr b \<and>
     bw_buf b' = [] \<and> bw_capacity b' = bw_capacity b \<and> written (bw_inner b') = bw_written written b"
proof (cases "bw_buf b = []")
  case False
  obtain w' where "write_all t wfn (bw_inner b) (bw_buf b) = Some (w', Inr ())" "inv w'"
      "intr w' \<le> intr (bw_inner b)" "written w' = written (bw_inner b) @ bw_buf b"
    using write_all_all [of "bw_inner b" "bw_buf b"] assms unfolding bw_inv_def by blast
  then show ?thesis using False by (simp add: flush_buf_def bw_inv_def bw_intr_def bw_written_def)
qed (use assms in \<open>simp add: flush_buf_def bw_written_def\<close>)

lemma bufwriter_write_spec:
  assumes b: "bw_inv inv b"
  shows "\<exists>b' res. bufwriter_write t wfn b buf = Some (b', res) \<and> bw_inv inv b' \<and> bw_intr intr b' \<le> bw_intr intr b \<and>
      (case res of
         Inr n \<Rightarrow> n \<le> length buf \<and> (buf \<noteq> [] \<longrightarrow> n \<noteq> 0) \<and> bw_written written b' = bw_written written b @ take n buf
       | Inl e \<Rightarrow> bw_written written b' = bw_written written b \<and> error_kind t e = Interrupted \<and>
                  bw_intr intr b' < bw_intr intr b)"
proof -
  obtain b1 where b1: "(if length (bw_buf b) + length buf > bw_capacity b then flush_buf t wfn b else Some (b, Inr ()))
        = Some (b1, Inr ())"
      "bw_inv inv b1" "bw_intr intr b1 \<le> bw_intr intr b" "bw_capacity b1 = bw_capacity b"
      "bw_written written b1 = bw_written written b" "length buf \<ge> bw_capacity b \<Longrightarrow> bw_buf b1 = []"
  proof (cases "length (bw_buf b) + length buf > bw_capacity b")
    case True
    then show thesis using flush_buf_spec [OF b] that by (auto simp: bw_written_def)
  next
    case False
    moreover have "bw_buf b = []" if "length buf \<ge> bw_capacity b" using False that by (cases "bw_buf b") auto
    ultimately show thesis using that [of b] b by simp
  qed
  have eq: "bufwriter_write t wfn b buf =
      (if length buf \<ge> bw_capacity b
       then do { (w', r) \<leftarrow> wfn (bw_inner b1) buf; Some (b1 \<lparr> bw_inner := w' \<rparr>, r) }
       else Some (b1 \<lparr> bw_buf := bw_buf b1 @ buf \<rparr>, Inr (length buf)))"
    unfolding bufwriter_write_def b1(1) using b1(4) by simp
  show ?thesis
  proof (cases "length buf \<ge> bw_capacity b")
    case True
    have i: "inv (bw_inner b1)" using b1(2) by (simp add: bw_inv_def)
    obtain w' res where w: "wfn (bw_inner b1) buf = Some (w', res)" "inv w'" "intr w' \<le> intr (bw_inner b1)"
        "case res of Inr n \<Rightarrow> n \<le> length buf \<and> written w' = written (bw_inner b1) @ take n buf
         | Inl e \<Rightarrow> written w' = written (bw_inner b1) \<and> (error_kind t e = Interrupted \<longrightarrow> intr w' < intr (bw_inner b1))"
      using write_law [OF i, of buf] by blast
    have "bw_written written b = written (bw_inner b1)" using b1(5) b1(6) [OF True] by (simp add: bw_written_def)
    moreover have "res \<noteq> Inr 0" if "buf \<noteq> []" using progress [OF i that] w(1) by auto
    moreover have "error_kind t e = Interrupted" if "res = Inl e" for e using no_fatal [OF i] w(1) that by blast
    ultimately show ?thesis
      using w b1(3) b1(6) [OF True] True
      by (cases res) (auto simp: eq bw_inv_def bw_intr_def bw_written_def)
  next
    case False
    then show ?thesis using b1(2,3,5) by (auto simp: eq bw_inv_def bw_intr_def bw_written_def)
  qed
qed

lemma into_inner_spec:
  assumes "bw_inv inv b"
  shows "\<exists>w. bufwriter_into_inner t wfn b = Some (w, Inr ()) \<and> inv w \<and> written w = bw_written written b"
  using flush_buf_spec [OF assms] by (auto simp: bufwriter_into_inner_def bw_inv_def)

end

sublocale buffered_writer \<subseteq> bw: reliable_writer t "bufwriter_write t wfn" "bw_inv inv" "bw_written written" "bw_intr intr"
proof
  fix b buf assume b: "bw_inv inv b"
  show "\<exists>b' res. bufwriter_write t wfn b buf = Some (b', res) \<and> bw_inv inv b' \<and> bw_intr intr b' \<le> bw_intr intr b \<and>
      (case res of
         Inr n \<Rightarrow> n \<le> length buf \<and> bw_written written b' = bw_written written b @ take n buf
       | Inl e \<Rightarrow> bw_written written b' = bw_written written b \<and>
                  (error_kind t e = Interrupted \<longrightarrow> bw_intr intr b' < bw_intr intr b))"
    using bufwriter_write_spec [OF b, of buf] by (elim ex_forward) (auto split: sum.splits)
next
  fix b buf b' e assume "bw_inv inv b" "bufwriter_write t wfn b buf = Some (b', Inl e)"
  then show "error_kind t e = Interrupted" using bufwriter_write_spec [of b buf] by auto
next
  fix b b' and buf :: "byte list" assume "bw_inv inv b" "buf \<noteq> []"
  then show "bufwriter_write t wfn b buf \<noteq> Some (b', Inr 0)" using bufwriter_write_spec [of b buf] by auto
qed

interpretation vec_wr: buffered_writer t vec_write "\<lambda>_. True" "\<lambda>v. v" "\<lambda>_. 0" for t
  by unfold_locales (simp_all add: vec_write_def)

section \<open>\<open>io::copy\<close>\<close>

locale copying =
  rd: reliable_reader t read rinv stream rintr + wr: reliable_writer t wfn winv written wintr
  for t read rinv stream rintr wfn winv written wintr
begin

lemma copy_loop_spec:
  "rinv r \<Longrightarrow> winv w \<Longrightarrow> buf \<noteq> [] \<Longrightarrow>
   \<exists>r' w'. copy_loop t read wfn r w buf tot = Some (r', w', Inr (tot + of_nat (length (stream r)))) \<and>
     rinv r' \<and> winv w' \<and> stream r' = [] \<and> written w' = written w @ stream r"
proof (induction "length (stream r) + rintr r" arbitrary: r w buf tot rule: less_induct)
  case less
  obtain r1 b1 res1 where rd: "read r buf = Some (r1, b1, res1)" "rinv r1" "length b1 = length buf"
    and law: "case res1 of
         Inr n \<Rightarrow> n \<le> length buf \<and> stream r = take n b1 @ stream r1 \<and>
                  (n = 0 \<longrightarrow> buf = [] \<or> stream r = []) \<and> rintr r1 \<le> rintr r
       | Inl e \<Rightarrow> stream r1 = stream r \<and> rintr r1 \<le> rintr r \<and>
                  (error_kind t e = Interrupted \<longrightarrow> rintr r1 < rintr r)"
    using rd.read_law [OF less.prems(1), of buf] by blast
  have b1: "b1 \<noteq> []" using rd(3) less.prems(3) by auto
  show ?case
  proof (cases res1)
    case (Inl e)
    then have int: "error_kind t e = Interrupted" using rd.no_fatal [OF less.prems(1)] rd(1) by simp
    then have "copy_loop t read wfn r w buf tot = copy_loop t read wfn r1 w b1 tot"
      using rd(1) Inl by (subst copy_loop.simps) simp
    then show ?thesis using less.hyps [of r1 w b1 tot] rd(2) law Inl int less.prems(2) b1 by simp
  next
    case (Inr n)
    show ?thesis
    proof (cases "n = 0")
      case True
      then have "copy_loop t read wfn r w buf tot = Some (r1, w, Inr tot)"
        using rd(1) Inr by (subst copy_loop.simps) simp
      moreover have "stream r = []" "stream r1 = []" using law Inr True less.prems(3) by auto
      ultimately show ?thesis using rd(2) less.prems(2) by simp
    next
      case False
      have n: "n \<le> length b1" "stream r = take n b1 @ stream r1" "rintr r1 \<le> rintr r" using law Inr rd(3) by auto
      obtain w1 where w: "write_all t wfn w (take n b1) = Some (w1, Inr ())" "winv w1" "written w1 = written w @ take n b1"
        using wr.write_all_all [OF less.prems(2), of "take n b1"] by blast
      have eq: "copy_loop t read wfn r w buf tot = copy_loop t read wfn r1 w1 b1 (tot + of_nat n)"
        using rd(1) Inr False n(1) w(1) by (subst copy_loop.simps) (simp add: slice_range_Some)
      have len: "length (stream r) = n + length (stream r1)" using n(1) by (simp add: n(2))
      have "\<exists>r' w'. copy_loop t read wfn r1 w1 b1 (tot + of_nat n)
          = Some (r', w', Inr (tot + of_nat n + of_nat (length (stream r1)))) \<and>
         rinv r' \<and> winv w' \<and> stream r' = [] \<and> written w' = written w1 @ stream r1"
        using less.hyps [of r1 w1 b1 "tot + of_nat n"] len False n(3) rd(2) w(2) b1 by simp
      then show ?thesis unfolding eq len w(3) n(2) using n(1) by (simp add: add.assoc min.absorb2)
    qed
  qed
qed

lemma copy_all:
  assumes "rinv r" "winv w"
  shows "\<exists>r' w'. copy t read wfn r w = Some (r', w', Inr (of_nat (length (stream r)))) \<and>
     rinv r' \<and> winv w' \<and> stream r' = [] \<and> written w' = written w @ stream r"
  using copy_loop_spec [OF assms, of "replicate 8192 0" 0] by (simp add: copy_def)

end

interpretation cursor_to_vec: copying t "bufreader_read cursor_read" "br_inv cursor_inv" "br_stream cursor_stream"
    "br_intr (\<lambda>_. 0)" "bufwriter_write t vec_write" "bw_inv (\<lambda>_. True)" "bw_written (\<lambda>v. v)" "bw_intr (\<lambda>_. 0)" for t
  ..

section \<open>Writing through a cursor\<close>

text \<open>The bytes before the position stay, a gap is filled with zeros, and the bytes after the write stay.\<close>

lemma cursor_write_spec:
  assumes "unat (cur_pos c) + length buf < 2 ^ 63"
  shows "cursor_write c buf =
     Some (\<lparr> cur_inner = take (unat (cur_pos c)) (cur_inner c) @ replicate (unat (cur_pos c) - length (cur_inner c)) 0
               @ buf @ drop (unat (cur_pos c) + length buf) (cur_inner c),
             cur_pos = cur_pos c + of_nat (length buf) \<rparr>, Inr (length buf))"
  using assms by (cases c) (auto simp: cursor_write_def vec_resize_def Let_def)

section \<open>Properties\<close>

text \<open>C19: \<open>io::copy\<close> from a \<open>BufReader\<close> to a \<open>BufWriter\<close> ends, reports the number of bytes modulo 2^64, and the
vector taken out of the writer afterwards with \<open>into_inner\<close> holds what it held, what was still buffered and
then every byte the reader had left, for all buffer sizes on both sides.\<close>

theorem copy_into_inner:
  assumes "br_inv cursor_inv b"
  shows "\<exists>b' w'. copy t (bufreader_read cursor_read) (bufwriter_write t vec_write) b w
        = Some (b', w', Inr (of_nat (length (br_stream cursor_stream b)))) \<and>
     br_stream cursor_stream b' = [] \<and>
     bufwriter_into_inner t vec_write w'
        = Some (bw_inner w @ bw_buf w @ br_stream cursor_stream b, Inr ())"
proof -
  obtain b' w' where c: "copy t (bufreader_read cursor_read) (bufwriter_write t vec_write) b w
        = Some (b', w', Inr (of_nat (length (br_stream cursor_stream b))))" "br_stream cursor_stream b' = []"
      "bw_written (\<lambda>v. v) w' = bw_written (\<lambda>v. v) w @ br_stream cursor_stream b"
    using cursor_to_vec.copy_all [where t = t and w = w, OF assms] by (auto simp: bw_inv_def)
  then show ?thesis using vec_wr.into_inner_spec [of w' t] by (auto simp: bw_inv_def bw_written_def)
qed

theorem copy_into_inner_witness:
  "\<exists>b' w'. copy Linux_x86_64 (bufreader_read cursor_read) (bufwriter_write Linux_x86_64 vec_write)
       (bufreader_with_capacity 2 (cursor_new [1, 2, 3, 4, 5])) \<lparr> bw_inner = [7], bw_buf = [8], bw_capacity = 3 \<rparr>
     = Some (b', w', Inr 5) \<and>
     bufwriter_into_inner Linux_x86_64 vec_write w' = Some ([7, 8, 1, 2, 3, 4, 5], Inr ())"
proof -
  let ?b = "bufreader_with_capacity 2 (cursor_new [1, 2, 3, 4, 5])"
  have "br_inv cursor_inv ?b" by (simp add: br_inv_with_capacity cursor_inv_def cursor_new_def)
  moreover have "br_stream cursor_stream ?b = [1, 2, 3, 4, 5]" by (simp add: cursor_stream_def cursor_new_def)
  ultimately show ?thesis
    using copy_into_inner [of ?b Linux_x86_64 "\<lparr> bw_inner = [7], bw_buf = [8], bw_capacity = 3 \<rparr>"] by fastforce
qed


text \<open>A sink that takes one byte, then reports that it is full, and takes everything afterwards.\<close>

fun full_once :: "(byte list \<times> nat) write_fn" where
  "full_once (out, n) buf =
     Some (if n = 0 then ((out @ take 1 buf, 1), Inr 1)
           else if n = 1 then ((out, 2), Inl (Os 28))
           else ((out @ buf, n), Inr (length buf)))"


end
