(* ===== verification/Io_Fd.thy ===== *)
theory Io_Fd
  imports Io_Write
begin

text \<open>
  \<open>Fd\<close> of \<open>src/io.rs\<close>, the handle over a raw descriptor, and the standard streams built
  on it. The state of an \<open>Fd\<close> as a reader or writer is the state of the kernel. The
  kernel's part is documented by \<^verbatim>\<open>read(2)\<close> and \<^verbatim>\<open>write(2)\<close>: the predicates
  \<open>read_contract\<close> and \<open>write_contract\<close>. Under them \<open>Fd\<close> fulfils the contracts of
  \<open>Read\<close> and \<open>Write\<close>, and so do the buffered streams above it.
\<close>

section \<open>The descriptor\<close>

partial_function (option) write_all_raw :: "'k platform \<Rightarrow> i32 \<Rightarrow> 'k \<Rightarrow> byte list \<Rightarrow> ('k \<times> (Errno + unit)) option" where
  "write_all_raw P fd k buf =
     (if buf = [] then Some (k, Inr ())
      else case sys_write P k fd buf of
        (k', Inr n) \<Rightarrow>
          (if n = 0 then Some (k', Inl (Errno 5))
           else do { rest \<leftarrow> slice_range buf (unat n) (length buf); write_all_raw P fd k' rest })
      | (k', Inl e) \<Rightarrow> if e = Errno 4 then write_all_raw P fd k' buf else Some (k', Inl e))"

partial_function (option) fd_read :: "'k platform \<Rightarrow> i32 \<Rightarrow> 'k \<Rightarrow> byte list \<Rightarrow> ('k \<times> byte list \<times> (Error + nat)) option" where
  "fd_read P fd k buf =
     (case sys_read P k fd buf of
        (k', buf', Inl e) \<Rightarrow>
          (if e = Errno 4 then fd_read P fd k' buf' else Some (k', buf', Inl (error_from_errno e)))
      | (k', buf', Inr n) \<Rightarrow> Some (k', buf', Inr (unat n)))"

partial_function (option) fd_read_vectored ::
    "'k platform \<Rightarrow> i32 \<Rightarrow> 'k \<Rightarrow> byte list list \<Rightarrow> ('k \<times> byte list list \<times> (Error + nat)) option" where
  "fd_read_vectored P fd k bufs =
     (case sys_readv P k fd bufs of
        (k', bufs', Inl e) \<Rightarrow>
          (if e = Errno 4 then fd_read_vectored P fd k' bufs' else Some (k', bufs', Inl (error_from_errno e)))
      | (k', bufs', Inr n) \<Rightarrow> Some (k', bufs', Inr (unat n)))"

partial_function (option) fd_write :: "'k platform \<Rightarrow> i32 \<Rightarrow> 'k \<Rightarrow> byte list \<Rightarrow> ('k \<times> (Error + nat)) option" where
  "fd_write P fd k buf =
     (case sys_write P k fd buf of
        (k', Inl e) \<Rightarrow> (if e = Errno 4 then fd_write P fd k' buf else Some (k', Inl (error_from_errno e)))
      | (k', Inr n) \<Rightarrow> Some (k', Inr (unat n)))"

partial_function (option) fd_write_vectored ::
    "'k platform \<Rightarrow> i32 \<Rightarrow> 'k \<Rightarrow> byte list list \<Rightarrow> ('k \<times> (Error + nat)) option" where
  "fd_write_vectored P fd k bufs =
     (case sys_writev P k fd bufs of
        (k', Inl e) \<Rightarrow> (if e = Errno 4 then fd_write_vectored P fd k' bufs else Some (k', Inl (error_from_errno e)))
      | (k', Inr n) \<Rightarrow> Some (k', Inr (unat n)))"

definition fd_flush :: "'k \<Rightarrow> ('k \<times> (Error + unit)) option" where
  "fd_flush k = Some (k, Inr ())"

definition fd_seek :: "'k platform \<Rightarrow> i32 \<Rightarrow> 'k \<Rightarrow> SeekFrom \<Rightarrow> 'k \<times> (Error + u64)" where
  "fd_seek P fd k p =
     (let (off, whence) = (case p of Start n \<Rightarrow> (n, 0) | End n \<Rightarrow> (n, 2) | Current n \<Rightarrow> (n, 1));
          (k', r) = sys_lseek P k fd off whence in
      (k', case r of Inl e \<Rightarrow> Inl (error_from_errno e) | Inr v \<Rightarrow> Inr v))"

text \<open>The default methods of \<open>Seek\<close>, for any \<open>seek\<close>.\<close>

definition seek_rewind :: "('s \<Rightarrow> SeekFrom \<Rightarrow> 's \<times> (Error + u64)) \<Rightarrow> 's \<Rightarrow> 's \<times> (Error + unit)" where
  "seek_rewind seek s = (case seek s (Start 0) of (s', r) \<Rightarrow> (s', map_ok (\<lambda>_. ()) r))"

definition stream_position :: "('s \<Rightarrow> SeekFrom \<Rightarrow> 's \<times> (Error + u64)) \<Rightarrow> 's \<Rightarrow> 's \<times> (Error + u64)" where
  "stream_position seek s = seek s (Current 0)"

section \<open>The standard streams\<close>

text \<open>
  \<open>STDIN\<close>, \<open>STDOUT\<close> and \<open>STDERR\<close> are descriptors 0, 1 and 2. The process-wide state is the
  kernel and the shared buffered reader behind \<open>stdin_buf\<close>, whose inner \<open>Fd\<close> holds no state
  of its own; a lock is held for the duration of each call, so the calls are atomic steps.
\<close>

definition stdin_new :: "'k \<Rightarrow> 'k BufReader" where
  "stdin_new k = bufreader_new k"

definition stdin_read :: "'k platform \<Rightarrow> 'k BufReader \<Rightarrow> byte list \<Rightarrow> ('k BufReader \<times> byte list \<times> (Error + nat)) option" where
  "stdin_read P = bufreader_read (fd_read P 0)"

definition stdin_read_line ::
    "'k platform \<Rightarrow> 'k BufReader \<Rightarrow> byte list \<Rightarrow> ('k BufReader \<times> byte list \<times> (Error + nat)) option" where
  "stdin_read_line P b buf = read_line (p_target P) (fill_buf (fd_read P 0)) consume b buf"

definition stdin_lines :: "'k platform \<Rightarrow> 'k BufReader \<Rightarrow> (Error + byte list) list option" where
  "stdin_lines P b = lines_collect (p_target P) (fill_buf (fd_read P 0)) consume b"

definition stdout_write :: "'k platform \<Rightarrow> 'k \<Rightarrow> byte list \<Rightarrow> ('k \<times> (Error + nat)) option" where
  "stdout_write P = fd_write P 1"

definition stderr_write :: "'k platform \<Rightarrow> 'k \<Rightarrow> byte list \<Rightarrow> ('k \<times> (Error + nat)) option" where
  "stderr_write P = fd_write P 2"

definition print_args :: "'k platform \<Rightarrow> 'k \<Rightarrow> fmt_piece list \<Rightarrow> 'k option" where
  "print_args P k args = do { (k', _) \<leftarrow> write_fmt (p_target P) (stdout_write P) k args; Some k' }"

definition eprint_args :: "'k platform \<Rightarrow> 'k \<Rightarrow> fmt_piece list \<Rightarrow> 'k option" where
  "eprint_args P k args = do { (k', _) \<leftarrow> write_fmt (p_target P) (stderr_write P) k args; Some k' }"

section \<open>What the kernel promises\<close>

text \<open>
  \<open>stream k\<close> are the bytes descriptor \<open>fd\<close> has yet to deliver and \<open>eintr k\<close> bounds the signals
  still to come. A successful \<^verbatim>\<open>read(2)\<close> delivers a prefix of the stream, empty only at its
  end; a failed one delivers nothing; \<open>EINTR\<close> uses up a signal.
\<close>

definition read_contract :: "'k platform \<Rightarrow> i32 \<Rightarrow> ('k \<Rightarrow> bool) \<Rightarrow> ('k \<Rightarrow> byte list) \<Rightarrow> ('k \<Rightarrow> nat) \<Rightarrow> bool" where
  "read_contract P fd kinv stream eintr \<longleftrightarrow>
     (\<forall>k buf k' r ws. kinv k \<longrightarrow> p_syscall P k READ [W (i32_usize fd), Out buf, W (of_nat (length buf))] = (k', r, ws) \<longrightarrow>
        kinv k' \<and>
        ((\<exists>n ws'. r = of_nat n \<and> n < 2 ^ 63 \<and> n \<le> length buf \<and> (\<exists>w. ws = w # ws' \<and> length w = n \<and> stream k = w @ stream k') \<and>
              (n = 0 \<longrightarrow> buf = [] \<or> stream k = []) \<and> eintr k' \<le> eintr k) \<or>
         (\<exists>e. r = - of_nat e \<and> 1 \<le> e \<and> e \<le> 4095 \<and> stream k' = stream k \<and> eintr k' \<le> eintr k \<and>
              (e = 4 \<longrightarrow> eintr k' < eintr k))))"

definition write_contract :: "'k platform \<Rightarrow> i32 \<Rightarrow> ('k \<Rightarrow> bool) \<Rightarrow> ('k \<Rightarrow> byte list) \<Rightarrow> ('k \<Rightarrow> nat) \<Rightarrow> bool" where
  "write_contract P fd kinv written eintr \<longleftrightarrow>
     (\<forall>k buf k' r ws. kinv k \<longrightarrow> p_syscall P k WRITE [W (i32_usize fd), In buf, W (of_nat (length buf))] = (k', r, ws) \<longrightarrow>
        kinv k' \<and>
        ((\<exists>n. r = of_nat n \<and> n < 2 ^ 63 \<and> n \<le> length buf \<and> written k' = written k @ take n buf \<and> eintr k' \<le> eintr k) \<or>
         (\<exists>e. r = - of_nat e \<and> 1 \<le> e \<and> e \<le> 4095 \<and> written k' = written k \<and> eintr k' \<le> eintr k \<and>
              (e = 4 \<longrightarrow> eintr k' < eintr k))))"

text \<open>A descriptor on which only \<open>EINTR\<close> can occur, and which takes at least one byte of a non-empty write.\<close>

definition only_eintr :: "'k platform \<Rightarrow> ('k \<Rightarrow> bool) \<Rightarrow> nr \<Rightarrow> arg \<Rightarrow> bool" where
  "only_eintr P kinv call fd \<longleftrightarrow>
     (\<forall>k as k' e ws. kinv k \<longrightarrow> p_syscall P k call (fd # as) = (k', - of_nat e, ws) \<longrightarrow> 1 \<le> e \<longrightarrow> e \<le> 4095 \<longrightarrow> e = 4)"

definition takes_some :: "'k platform \<Rightarrow> ('k \<Rightarrow> bool) \<Rightarrow> arg \<Rightarrow> bool" where
  "takes_some P kinv fd \<longleftrightarrow>
     (\<forall>k buf k' r ws. kinv k \<longrightarrow> buf \<noteq> [] \<longrightarrow>
        p_syscall P k WRITE [fd, In buf, W (of_nat (length buf))] = (k', r, ws) \<longrightarrow> r \<noteq> 0)"

lemma from_ret_ok: "n < 2 ^ 63 \<Longrightarrow> from_ret (of_nat n) = Inr (of_nat n)"
  by (simp add: from_ret_def signed_of_nat signed_take_bit_int_eq_self)

lemma errno_of_nat: "1 \<le> n \<Longrightarrow> n \<le> 4095 \<Longrightarrow> Errno (of_nat n) = Errno 4 \<longleftrightarrow> n = 4"
proof -
  assume "1 \<le> n" "n \<le> 4095"
  then have "unat (of_nat n :: i32) = n" by (simp add: unsigned_of_nat take_bit_nat_eq_self)
  then show ?thesis by (auto dest: arg_cong [of _ _ unat])
qed

lemma sys_read_law:
  assumes c: "read_contract P fd kinv stream eintr" and k: "kinv k"
  shows "\<exists>k' buf' res. sys_read P k fd buf = (k', buf', res) \<and> kinv k' \<and> length buf' = length buf \<and> eintr k' \<le> eintr k \<and>
     (case res of
        Inr n \<Rightarrow> unat n \<le> length buf \<and> stream k = take (unat n) buf' @ stream k' \<and> (n = 0 \<longrightarrow> buf = [] \<or> stream k = [])
      | Inl e \<Rightarrow> stream k' = stream k \<and> (e = Errno 4 \<longrightarrow> eintr k' < eintr k))"
proof -
  obtain k' r ws where call: "p_syscall P k READ [W (i32_usize fd), Out buf, W (of_nat (length buf))] = (k', r, ws)"
    by (metis prod_cases3)
  have sys: "sys_read P k fd buf = (k', out_buf buf ws 0, from_ret r)" by (simp add: sys_read_def call)
  have k': "kinv k'" using c k call unfolding read_contract_def by blast
  consider n w ws' where "r = of_nat n" "n < 2 ^ 63" "n \<le> length buf" "ws = w # ws'" "length w = n" "stream k = w @ stream k'"
        "n = 0 \<longrightarrow> buf = [] \<or> stream k = []" "eintr k' \<le> eintr k"
    | e where "r = - of_nat e" "1 \<le> e" "e \<le> 4095" "stream k' = stream k" "eintr k' \<le> eintr k" "e = 4 \<longrightarrow> eintr k' < eintr k"
    using c k call unfolding read_contract_def by blast
  then show ?thesis
  proof cases
    case 1
    have "unat (of_nat n :: u64) = n" using 1(2) by (intro unat_of_nat_u64) simp
    moreover have "take n (out_buf buf ws 0) = w" using 1(3-5) by (simp add: out_buf_take)
    moreover have "n = 0" if "(of_nat n :: u64) = 0" using that calculation(1) by (metis unat_0)
    ultimately show ?thesis using 1 sys k' from_ret_ok [of n] by auto
  next
    case 2
    then show ?thesis using sys k' from_ret_err [of e] errno_of_nat [of e] by auto
  qed
qed

lemma sys_write_law:
  assumes c: "write_contract P fd kinv written eintr" and k: "kinv k"
  shows "\<exists>k' res. sys_write P k fd buf = (k', res) \<and> kinv k' \<and> eintr k' \<le> eintr k \<and>
     (case res of
        Inr n \<Rightarrow> unat n \<le> length buf \<and> written k' = written k @ take (unat n) buf
      | Inl e \<Rightarrow> written k' = written k \<and> (e = Errno 4 \<longrightarrow> eintr k' < eintr k))"
proof -
  obtain k' r ws where call: "p_syscall P k WRITE [W (i32_usize fd), In buf, W (of_nat (length buf))] = (k', r, ws)"
    by (metis prod_cases3)
  have sys: "sys_write P k fd buf = (k', from_ret r)" by (simp add: sys_write_def call)
  have k': "kinv k'" using c k call unfolding write_contract_def by blast
  consider n where "r = of_nat n" "n < 2 ^ 63" "n \<le> length buf" "written k' = written k @ take n buf" "eintr k' \<le> eintr k"
    | e where "r = - of_nat e" "1 \<le> e" "e \<le> 4095" "written k' = written k" "eintr k' \<le> eintr k" "e = 4 \<longrightarrow> eintr k' < eintr k"
    using c k call unfolding write_contract_def by blast
  then show ?thesis
  proof cases
    case 1
    have "unat (of_nat n :: u64) = n" using 1(2) by (intro unat_of_nat_u64) simp
    then show ?thesis using 1 sys k' from_ret_ok [of n] by auto
  next
    case 2
    then show ?thesis using sys k' from_ret_err [of e] errno_of_nat [of e] by auto
  qed
qed

lemma kind_from_errno: "error_kind t (error_from_errno e) = Interrupted \<longleftrightarrow> e = Errno 4"
  by (cases e) (simp add: error_from_errno_def error_kind_def errno_kind_Interrupted)

section \<open>\<open>Fd\<close> fulfils the contracts\<close>

lemma fd_reader:
  assumes c: "read_contract P fd kinv stream eintr"
  shows "reader t (fd_read P fd) kinv stream (\<lambda>_. 0)"
proof
  fix k buf assume "kinv k"
  then show "\<exists>k' buf' res. fd_read P fd k buf = Some (k', buf', res) \<and> kinv k' \<and> length buf' = length buf \<and>
      (case res of
         Inr n \<Rightarrow> n \<le> length buf \<and> stream k = take n buf' @ stream k' \<and> (n = 0 \<longrightarrow> buf = [] \<or> stream k = []) \<and> (0::nat) \<le> 0
       | Inl e \<Rightarrow> stream k' = stream k \<and> (0::nat) \<le> 0 \<and> (error_kind t e = Interrupted \<longrightarrow> (0::nat) < 0))"
  proof (induction "eintr k" arbitrary: k buf rule: less_induct)
    case less
    obtain k1 buf1 res1 where s: "sys_read P k fd buf = (k1, buf1, res1)" "kinv k1" "length buf1 = length buf"
      and law: "case res1 of
        Inr n \<Rightarrow> unat n \<le> length buf \<and> stream k = take (unat n) buf1 @ stream k1 \<and> (n = 0 \<longrightarrow> buf = [] \<or> stream k = [])
      | Inl e \<Rightarrow> stream k1 = stream k \<and> (e = Errno 4 \<longrightarrow> eintr k1 < eintr k)"
      using sys_read_law [OF c less.prems, of buf] by blast
    show ?case
    proof (cases res1)
      case (Inr n)
      then have "fd_read P fd k buf = Some (k1, buf1, Inr (unat n))" using s(1) by (subst fd_read.simps) simp
      then show ?thesis using s law Inr by (auto simp: unat_eq_0)
    next
      case (Inl e)
      show ?thesis
      proof (cases "e = Errno 4")
        case True
        then have "fd_read P fd k buf = fd_read P fd k1 buf1" using s(1) Inl by (subst fd_read.simps) simp
        moreover have "buf1 = [] \<longleftrightarrow> buf = []" using s(3) by auto
        moreover have "stream k1 = stream k" "eintr k1 < eintr k" using law Inl True by auto
        ultimately show ?thesis using less.hyps [of k1 buf1] s(2) by (simp only: s(3))
      next
        case False
        then have "fd_read P fd k buf = Some (k1, buf1, Inl (error_from_errno e))"
          using s(1) Inl by (subst fd_read.simps) simp
        then show ?thesis using s law Inl False by (simp add: kind_from_errno)
      qed
    qed
  qed
qed

lemma fd_read_no_fatal:
  assumes c: "read_contract P fd kinv stream eintr" and o: "only_eintr P kinv READ (W (i32_usize fd))"
  shows "kinv k \<Longrightarrow> fd_read P fd k buf \<noteq> Some (k', buf', Inl e)"
proof (induction "eintr k" arbitrary: k buf rule: less_induct)
  case less
  obtain k1 r ws where call: "p_syscall P k READ [W (i32_usize fd), Out buf, W (of_nat (length buf))] = (k1, r, ws)"
    by (metis prod_cases3)
  then have s: "sys_read P k fd buf = (k1, out_buf buf ws 0, from_ret r)" by (simp add: sys_read_def)
  show ?case
  proof (cases "from_ret r")
    case (Inl x)
    consider n where "r = of_nat n" "n < 2 ^ 63" | e where "r = - of_nat e" "1 \<le> e" "e \<le> 4095"
      using c less.prems call unfolding read_contract_def by blast
    then have "x = Errno 4"
    proof cases
      case (2 e)
      then have "e = 4" using o less.prems call unfolding only_eintr_def by blast
      then show ?thesis using from_ret_err [of e] 2 Inl by simp
    qed (use Inl from_ret_ok in simp)
    then have "fd_read P fd k buf = fd_read P fd k1 (out_buf buf ws 0)" using s Inl by (subst fd_read.simps) simp
    moreover have "kinv k1" "eintr k1 < eintr k"
      using sys_read_law [OF c less.prems, of buf] s Inl \<open>x = Errno 4\<close> by auto
    ultimately show ?thesis using less.hyps by simp
  qed (use s in \<open>subst fd_read.simps, simp\<close>)
qed

lemma fd_reliable:
  assumes "read_contract P fd kinv stream eintr" "only_eintr P kinv READ (W (i32_usize fd))"
  shows "reliable_buffered t (fd_read P fd) kinv stream (\<lambda>_. 0)"
proof -
  have "reliable_reader t (fd_read P fd) kinv stream (\<lambda>_. 0)"
    using fd_reader [OF assms(1)] fd_read_no_fatal [OF assms]
    by (simp add: reliable_reader_def reliable_reader_axioms_def)
  then show ?thesis by (simp add: reliable_buffered_def)
qed

lemma fd_writer:
  assumes c: "write_contract P fd kinv written eintr"
  shows "writer t (fd_write P fd) kinv written (\<lambda>_. 0)"
proof
  fix k buf assume "kinv k"
  then show "\<exists>k' res. fd_write P fd k buf = Some (k', res) \<and> kinv k' \<and> (0::nat) \<le> 0 \<and>
      (case res of
         Inr n \<Rightarrow> n \<le> length buf \<and> written k' = written k @ take n buf
       | Inl e \<Rightarrow> written k' = written k \<and> (error_kind t e = Interrupted \<longrightarrow> (0::nat) < 0))"
  proof (induction "eintr k" arbitrary: k rule: less_induct)
    case less
    obtain k1 res1 where s: "sys_write P k fd buf = (k1, res1)" "kinv k1"
      and law: "case res1 of
        Inr n \<Rightarrow> unat n \<le> length buf \<and> written k1 = written k @ take (unat n) buf
      | Inl e \<Rightarrow> written k1 = written k \<and> (e = Errno 4 \<longrightarrow> eintr k1 < eintr k)"
      using sys_write_law [OF c less.prems, of buf] by blast
    show ?case
    proof (cases res1)
      case (Inr n)
      then have "fd_write P fd k buf = Some (k1, Inr (unat n))" using s(1) by (subst fd_write.simps) simp
      then show ?thesis using s law Inr by simp
    next
      case (Inl e)
      show ?thesis
      proof (cases "e = Errno 4")
        case True
        then have "fd_write P fd k buf = fd_write P fd k1 buf" using s(1) Inl by (subst fd_write.simps) simp
        moreover have "written k1 = written k" "eintr k1 < eintr k" using law Inl True by auto
        ultimately show ?thesis using less.hyps [of k1] s(2) by (simp only:)
      next
        case False
        then have "fd_write P fd k buf = Some (k1, Inl (error_from_errno e))"
          using s(1) Inl by (subst fd_write.simps) simp
        then show ?thesis using s law Inl False by (simp add: kind_from_errno)
      qed
    qed
  qed
qed

text \<open>A write call on a descriptor with no errors but \<open>EINTR\<close>: it was interrupted, or it took some bytes.\<close>

lemma sys_write_reliable:
  assumes "write_contract P fd kinv written eintr" "only_eintr P kinv WRITE (W (i32_usize fd))"
    "takes_some P kinv (W (i32_usize fd))" "kinv k"
  obtains (again) k' where "sys_write P k fd buf = (k', Inl (Errno 4))" "kinv k'" "eintr k' < eintr k" "written k' = written k"
  | (some) k' n where "sys_write P k fd buf = (k', Inr n)" "buf \<noteq> [] \<Longrightarrow> n \<noteq> 0"
proof -
  obtain k' r ws where call: "p_syscall P k WRITE [W (i32_usize fd), In buf, W (of_nat (length buf))] = (k', r, ws)"
    by (metis prod_cases3)
  then have s: "sys_write P k fd buf = (k', from_ret r)" by (simp add: sys_write_def)
  consider n where "r = of_nat n" "n < 2 ^ 63" | e where "r = - of_nat e" "1 \<le> e" "e \<le> 4095"
    using assms(1,4) call unfolding write_contract_def by blast
  then show thesis
  proof cases
    case (1 n)
    moreover have "r \<noteq> 0" if "buf \<noteq> []" using assms(3,4) call that unfolding takes_some_def by blast
    ultimately show thesis using s from_ret_ok some by metis
  next
    case (2 e)
    then have "e = 4" using assms(2,4) call unfolding only_eintr_def by blast
    then have "sys_write P k fd buf = (k', Inl (Errno 4))" using s 2 from_ret_err [of e] by simp
    then show thesis using sys_write_law [OF assms(1,4), of buf] again by auto
  qed
qed

lemma fd_write_reliable:
  assumes "write_contract P fd kinv written eintr" "only_eintr P kinv WRITE (W (i32_usize fd))"
    "takes_some P kinv (W (i32_usize fd))"
  shows "kinv k \<Longrightarrow> fd_write P fd k buf = Some (k', res) \<Longrightarrow> \<exists>n. res = Inr n \<and> (buf \<noteq> [] \<longrightarrow> n \<noteq> 0)"
proof (induction "eintr k" arbitrary: k rule: less_induct)
  case less
  show ?case
  proof (rule sys_write_reliable [OF assms less.prems(1), of buf], goal_cases again some)
    case (again k1)
    then have "fd_write P fd k1 buf = Some (k', res)" using less.prems(2) by (subst (asm) fd_write.simps) simp
    then show ?thesis using less.hyps again by blast
  next
    case (some k1 n)
    then show ?thesis using less.prems(2) by (subst (asm) fd_write.simps) (auto simp: unat_gt_0)
  qed
qed

lemma fd_reliable_writer:
  assumes "write_contract P fd kinv written eintr" "only_eintr P kinv WRITE (W (i32_usize fd))"
    "takes_some P kinv (W (i32_usize fd))"
  shows "reliable_writer t (fd_write P fd) kinv written (\<lambda>_. 0)"
proof -
  have "reliable_writer_axioms t (fd_write P fd) kinv"
    unfolding reliable_writer_axioms_def using fd_write_reliable [OF assms] by fastforce
  then show ?thesis using fd_writer [OF assms(1)] by (simp add: reliable_writer_def)
qed

section \<open>Properties\<close>

text \<open>C18: \<open>stdin().lines()\<close> on a descriptor that delivers its bytes in pieces of any size and may be
interrupted by signals ends, and its items are the bytes cut after every newline, none lost or repeated.\<close>

theorem stdin_lines_all:
  assumes "read_contract P 0 kinv stream eintr" "only_eintr P kinv READ (W (i32_usize 0))" "kinv k"
  shows "stdin_lines P (stdin_new k) = Some (map line_item (line_chunks (stream k)))"
  unfolding stdin_lines_def stdin_new_def bufreader_new_def
  using reliable_buf_read.lines_collect_spec [OF reliable_buffered.is_reliable_buf_read [OF fd_reliable [OF assms(1,2)]]
      br_inv_with_capacity [of kinv, OF assms(3)], of "8 * 1024"]
  by simp

text \<open>A terminal that moves one byte per call and interrupts the first calls: the input left, the signals to
come and the output so far.\<close>

definition slow_tty_call :: "byte list \<times> nat \<times> byte list \<Rightarrow> nr \<Rightarrow> arg list \<Rightarrow> (byte list \<times> nat \<times> byte list) reply" where
  "slow_tty_call k call args =
     (case k of (inp, sig, out) \<Rightarrow>
        if 0 < sig then ((inp, sig - 1, out), - 4, [])
        else case (call, args) of
          (READ, [_, Out buf, _]) \<Rightarrow>
            (if buf = [] then (k, 0, [[]]) else ((drop 1 inp, sig, out), of_nat (min 1 (length inp)), [take 1 inp]))
        | (WRITE, [_, In buf, _]) \<Rightarrow> ((inp, sig, out @ take 1 buf), of_nat (min 1 (length buf)), [])
        | _ \<Rightarrow> (k, 0, []))"

definition slow_tty :: "(byte list \<times> nat \<times> byte list) platform" where
  "slow_tty = \<lparr> p_target = Linux_x86_64, p_syscall = slow_tty_call, p_svc2 = (\<lambda>k _. (k, 0, 0, False)) \<rparr>"

lemma slow_tty_read: "read_contract slow_tty fd (\<lambda>_. True) (\<lambda>(inp, _, _). inp) (\<lambda>(_, sig, _). sig)"
proof -
  have "(\<exists>n ws'. r = of_nat n \<and> n < 2 ^ 63 \<and> n \<le> length buf \<and> (\<exists>w. ws = w # ws' \<and> length w = n \<and> inp = w @ inp') \<and>
              (n = 0 \<longrightarrow> buf = [] \<or> inp = []) \<and> sig' \<le> sig) \<or>
         (\<exists>e. r = - of_nat e \<and> 1 \<le> e \<and> e \<le> 4095 \<and> inp' = inp \<and> sig' \<le> sig \<and> (e = 4 \<longrightarrow> sig' < sig))"
    if call: "slow_tty_call (inp, sig, out) READ [f, Out buf, l] = ((inp', sig', out'), r, ws)"
    for inp sig out f l buf inp' sig' out' ws and r :: u64
  proof (cases "0 < sig")
    case True
    then have "inp' = inp" "sig' = sig - 1" "r = - of_nat 4" using call by (auto simp: slow_tty_call_def)
    then show ?thesis using True by (intro disjI2 exI [of _ 4]) simp
  next
    case False
    then show ?thesis using call
      by (intro disjI1 exI [of _ "length (hd ws)"] exI [of _ "tl ws"], cases buf; cases inp) (auto simp: slow_tty_call_def)
  qed
  then show ?thesis by (auto simp: read_contract_def slow_tty_def)
qed

lemma slow_tty_write: "write_contract slow_tty fd (\<lambda>_. True) (\<lambda>(_, _, out). out) (\<lambda>(_, sig, _). sig)"
proof -
  have step: "(\<exists>n. r = of_nat n \<and> n < 2 ^ 63 \<and> n \<le> length buf \<and> out' = out @ take n buf \<and> sig' \<le> sig) \<or>
         (\<exists>e. r = - of_nat e \<and> 1 \<le> e \<and> e \<le> 4095 \<and> out' = out \<and> sig' \<le> sig \<and> (e = 4 \<longrightarrow> sig' < sig))"
    if call: "slow_tty_call (inp, sig, out) WRITE [f, In buf, l] = ((inp', sig', out'), r, ws)"
    for inp sig out f l buf inp' sig' out' ws and r :: u64
  proof (cases "0 < sig")
    case True
    then have "out' = out" "sig' = sig - 1" "r = - of_nat 4" using call by (auto simp: slow_tty_call_def)
    then show ?thesis using True by (intro disjI2 exI [of _ 4]) simp
  next
    case False
    then show ?thesis using call
      by (intro disjI1 exI [of _ "min 1 (length buf)"]) (auto simp: slow_tty_call_def min_def Suc_le_eq)
  qed
  then show ?thesis unfolding write_contract_def slow_tty_def by (auto dest!: step)
qed

lemma slow_tty_only_eintr: "only_eintr slow_tty (\<lambda>_. True) call fd"
proof -
  have "e = 4" if r: "slow_tty_call k c as = (k', - of_nat e, ws)" and e: "1 \<le> e" "e \<le> 4095" for k c as k' ws e
  proof -
    have "from_ret (- of_nat e) = Inl (Errno (of_nat e))" using e by (rule from_ret_err)
    moreover have "from_ret (- of_nat e) = Inl (Errno 4) \<or> (\<exists>v. from_ret (- of_nat e) = Inr v)"
      using r by (auto simp: slow_tty_call_def min_def Suc_le_eq from_ret_def split: prod.splits if_splits nr.splits list.splits arg.splits)
    ultimately have "Errno (of_nat e) = Errno 4" by auto
    then show ?thesis using errno_of_nat [OF e] by simp
  qed
  then show ?thesis by (simp add: only_eintr_def slow_tty_def)
qed

lemma slow_tty_takes_some: "takes_some slow_tty (\<lambda>_. True) fd"
  by (auto simp: takes_some_def slow_tty_def slow_tty_call_def min_def Suc_le_eq split: if_splits)

theorem stdin_lines_all_witness:
  "stdin_lines slow_tty (stdin_new ([104, 105, 10, 122], 3, [])) = Some [Inr [104, 105], Inr [122]]"
proof -
  have "stdin_lines slow_tty (stdin_new ([104, 105, 10, 122], 3, [])) = Some (map line_item (line_chunks [104, 105, 10, 122]))"
    using stdin_lines_all [OF slow_tty_read slow_tty_only_eintr, of "([104, 105, 10, 122], 3, [])"] by simp
  also have "map line_item (line_chunks [104, 105, 10, 122]) = [Inr [104, 105], Inr [122]]" by code_simp
  finally show ?thesis .
qed

text \<open>\<open>print!\<close> on a descriptor that takes its bytes in pieces of any size and may be interrupted ends, and
the bytes of all the pieces arrive once and in order, up to the piece whose formatting fails, if there is one.\<close>

theorem print_all:
  assumes "write_contract P 1 kinv written eintr" "only_eintr P kinv WRITE (W (i32_usize 1))"
    "takes_some P kinv (W (i32_usize 1))" "kinv k"
  shows "\<exists>k'. print_args P k args = Some k' \<and> kinv k' \<and>
     written k' = written k @ concat (map (\<lambda>p. case p of Str s \<Rightarrow> s | Fmt_Error \<Rightarrow> []) (takeWhile (\<lambda>p. p \<noteq> Fmt_Error) args))"
  using reliable_writer.fmt_write_all [OF fd_reliable_writer [OF assms(1-3)], of "\<lparr> ad_inner = k, ad_error = Inr () \<rparr>" "p_target P" args]
    assms(4)
  by (auto simp: print_args_def write_fmt_def stdout_write_def)

theorem print_all_witness:
  "\<exists>k'. print_args slow_tty ([], 2, [1]) [Str [104, 105], Str [10]] = Some k' \<and> snd (snd k') = [1, 104, 105, 10]"
  using print_all [OF slow_tty_write slow_tty_only_eintr slow_tty_takes_some, of "([], 2, [1])" "[Str [104, 105], Str [10]]"]
  by (auto simp: case_prod_beta)

end
