(* ===== verification/Paths.thy ===== *)
theory Paths
  imports Prelude
begin

text \<open>
  \<open>Path\<close> and \<open>PathBuf\<close> of \<open>src/path.rs\<close>. Both wrap a UTF-8 string; a path is the list of
  its bytes (\<^typ>\<open>string\<close>), so offsets are byte offsets as in the source. The separators
  \<open>'/'\<close> and \<open>'.'\<close> are ASCII, hence never part of a longer character, and every offset
  a search returns is a valid slice bound.
\<close>

section \<open>String functions of the core library\<close>

definition str_find :: "char \<Rightarrow> string \<Rightarrow> nat option" where
  "str_find c s = (if c \<in> set s then Some (length (takeWhile (\<lambda>x. x \<noteq> c) s)) else None)"

definition str_rfind :: "char \<Rightarrow> string \<Rightarrow> nat option" where
  "str_rfind c s = (if c \<in> set s then Some (length s - Suc (length (takeWhile (\<lambda>x. x \<noteq> c) (rev s)))) else None)"

definition trim_start :: "char \<Rightarrow> string \<Rightarrow> string" where
  "trim_start c s = dropWhile (\<lambda>x. x = c) s"

definition trim_end :: "char \<Rightarrow> string \<Rightarrow> string" where
  "trim_end c s = rev (dropWhile (\<lambda>x. x = c) (rev s))"

definition str_starts_with :: "string \<Rightarrow> string \<Rightarrow> bool" where
  "str_starts_with p s = (take (length p) s = p)"

definition str_ends_with :: "string \<Rightarrow> string \<Rightarrow> bool" where
  "str_ends_with p s = str_starts_with (rev p) (rev s)"

definition str_strip_prefix :: "string \<Rightarrow> string \<Rightarrow> string option" where
  "str_strip_prefix p s = (if str_starts_with p s then Some (drop (length p) s) else None)"

definition str_strip_suffix :: "string \<Rightarrow> string \<Rightarrow> string option" where
  "str_strip_suffix p s = (if str_ends_with p s then Some (take (length s - length p) s) else None)"

abbreviation SEP :: char where
  "SEP \<equiv> CHR ''/''"

section \<open>\<open>Path\<close>\<close>

definition is_absolute :: "string \<Rightarrow> bool" where
  "is_absolute p = str_starts_with [SEP] p"

definition is_relative :: "string \<Rightarrow> bool" where
  "is_relative p = (\<not> is_absolute p)"

definition file_name :: "string \<Rightarrow> string option" where
  "file_name p =
     (if p = [] \<or> str_ends_with [SEP] p then None
      else case str_rfind SEP p of
             Some i \<Rightarrow> Some (drop (i + 1) p)
           | None \<Rightarrow> Some p)"

definition parent :: "string \<Rightarrow> string option" where
  "parent p =
     (let trimmed = trim_end SEP p in
      case str_rfind SEP trimmed of
        Some i \<Rightarrow> if i = 0 then Some ''/'' else Some (take i trimmed)
      | None \<Rightarrow> None)"

definition path_extension :: "string \<Rightarrow> string option" where
  "path_extension p = do {
     name \<leftarrow> file_name p;
     (case str_rfind (CHR ''.'') name of
        None \<Rightarrow> None
      | Some i \<Rightarrow> if i = 0 then None else Some (drop (i + 1) name))
   }"

definition file_stem :: "string \<Rightarrow> string option" where
  "file_stem p = do {
     name \<leftarrow> file_name p;
     (case str_rfind (CHR ''.'') name of
        None \<Rightarrow> Some name
      | Some i \<Rightarrow> if i = 0 then Some name else Some (take i name))
   }"

definition path_push :: "string \<Rightarrow> string \<Rightarrow> string" where
  "path_push self p =
     (if str_starts_with [SEP] p then p
      else (if self \<noteq> [] \<and> \<not> str_ends_with [SEP] self then self @ [SEP] else self) @ p)"

definition path_join :: "string \<Rightarrow> string \<Rightarrow> string" where
  "path_join self p = path_push self p"

definition path_starts_with :: "string \<Rightarrow> string \<Rightarrow> bool" where
  "path_starts_with self base0 =
     (let base = trim_end SEP base0; me = trim_end SEP self in
      if base = [] then True
      else me = base \<or>
           (case str_strip_prefix base me of Some r \<Rightarrow> str_starts_with [SEP] r | None \<Rightarrow> False))"

definition path_ends_with :: "string \<Rightarrow> string \<Rightarrow> bool" where
  "path_ends_with self child0 =
     (let child = trim_end SEP (trim_start SEP child0); me = trim_end SEP self in
      me = child \<or>
      (case str_strip_suffix child me of Some r \<Rightarrow> str_ends_with [SEP] r | None \<Rightarrow> False))"

datatype StripPrefixError = StripPrefixError

definition strip_prefix :: "string \<Rightarrow> string \<Rightarrow> StripPrefixError + string" where
  "strip_prefix self base0 =
     (let base = trim_end SEP base0 in
      if base = [] then Inr self
      else case str_strip_prefix base self of
             Some rest \<Rightarrow> Inr (trim_start SEP rest)
           | None \<Rightarrow> Inl StripPrefixError)"

definition with_file_name :: "string \<Rightarrow> string \<Rightarrow> string" where
  "with_file_name self name =
     (case parent self of Some p \<Rightarrow> path_join p name | None \<Rightarrow> name)"

section \<open>\<open>PathBuf\<close>\<close>

definition path_pop :: "string \<Rightarrow> string \<times> bool" where
  "path_pop self = (case parent self of Some p \<Rightarrow> (p, True) | None \<Rightarrow> (self, False))"

definition set_file_name :: "string \<Rightarrow> string \<Rightarrow> string" where
  "set_file_name self name =
     (let self' = (if file_name self \<noteq> None then fst (path_pop self) else self) in
      path_push self' name)"

definition set_extension :: "string \<Rightarrow> string \<Rightarrow> string \<times> bool" where
  "set_extension self ext =
     (case file_stem self of
        None \<Rightarrow> (self, False)
      | Some stem \<Rightarrow>
          let name = (if ext \<noteq> [] then stem @ ''.'' @ ext else stem) in
          (set_file_name self name, True))"

definition with_extension :: "string \<Rightarrow> string \<Rightarrow> string" where
  "with_extension self ext = fst (set_extension self ext)"

section \<open>Components and ancestors\<close>

datatype Component = RootDir | CurDir | ParentDir | Normal string

fun component_as_str :: "Component \<Rightarrow> string" where
  "component_as_str RootDir = ''/''"
| "component_as_str CurDir = ''.''"
| "component_as_str ParentDir = ''..''"
| "component_as_str (Normal s) = s"

record Components =
  comp_rest :: string
  comp_root_pending :: bool

lemma length_trim_start: "length (trim_start c s) \<le> length s"
  by (simp add: trim_start_def length_dropWhile_le)

lemma find_take:
  "take (case str_find c s of Some i \<Rightarrow> i | None \<Rightarrow> length s) s = takeWhile (\<lambda>x. x \<noteq> c) s"
proof (cases "c \<in> set s")
  case False
  then have eq: "takeWhile (\<lambda>x. x \<noteq> c) s = s" by (auto simp: takeWhile_eq_all_conv)
  show ?thesis unfolding eq using False by (simp add: str_find_def)
qed (simp add: str_find_def takeWhile_eq_take [symmetric])

lemma find_drop:
  "drop (case str_find c s of Some i \<Rightarrow> i | None \<Rightarrow> length s) s = dropWhile (\<lambda>x. x \<noteq> c) s"
proof (cases "c \<in> set s")
  case False
  then have eq: "dropWhile (\<lambda>x. x \<noteq> c) s = []" by (auto simp: dropWhile_eq_Nil_conv)
  show ?thesis unfolding eq using False by (simp add: str_find_def)
qed (simp add: str_find_def dropWhile_eq_drop [symmetric])

lemma segment_shorter:
  assumes "trim_start SEP r \<noteq> []"
  shows "length (dropWhile (\<lambda>x. x \<noteq> SEP) (trim_start SEP r)) < length r"
proof -
  obtain x xs where x: "trim_start SEP r = x # xs" using assms by (cases "trim_start SEP r") auto
  then have "x \<noteq> SEP" by (auto simp: trim_start_def dropWhile_eq_Cons_conv)
  then have "length (dropWhile (\<lambda>x. x \<noteq> SEP) (x # xs)) < length (x # xs)"
    using length_dropWhile_le [of "\<lambda>x. x \<noteq> SEP" xs] by simp
  then show ?thesis using length_trim_start [of SEP r] x by simp
qed

text \<open>The loop of \<open>Components::next\<close>, after the root has been delivered.\<close>

function components_loop :: "string \<Rightarrow> (Component option \<times> string)" where
  "components_loop rest0 =
     (let rest = trim_start SEP rest0 in
      if rest = [] then (None, rest)
      else
        let e = (case str_find SEP rest of Some i \<Rightarrow> i | None \<Rightarrow> length rest);
            seg = take e rest; rest' = drop e rest in
        if seg = ''.'' then components_loop rest'
        else if seg = ''..'' then (Some ParentDir, rest')
        else (Some (Normal seg), rest'))"
  by pat_completeness auto
termination
proof (relation "measure length")
  fix rest0 rest e seg rest'
  assume r: "rest = trim_start SEP rest0" "rest \<noteq> []" and d: "rest' = drop e rest"
    "e = (case str_find SEP rest of Some i \<Rightarrow> i | None \<Rightarrow> length rest)"
  show "(rest', rest0) \<in> measure length"
    unfolding d find_drop unfolding r(1) using segment_shorter [of rest0] r by simp
qed simp

declare components_loop.simps [simp del]

definition components_next :: "Components \<Rightarrow> Component option \<times> Components" where
  "components_next c =
     (if comp_root_pending c then (Some RootDir, c \<lparr> comp_root_pending := False \<rparr>)
      else case components_loop (comp_rest c) of (r, rest) \<Rightarrow> (r, c \<lparr> comp_rest := rest \<rparr>))"

definition path_components :: "string \<Rightarrow> Components" where
  "path_components p = \<lparr> comp_rest = p, comp_root_pending = str_starts_with [SEP] p \<rparr>"

definition ancestors_next :: "string option \<Rightarrow> string option \<times> string option" where
  "ancestors_next n = (case n of None \<Rightarrow> (None, None) | Some cur \<Rightarrow> (Some cur, parent cur))"

section \<open>The segments of a path\<close>

text \<open>The reference: split at every separator, drop empty segments and \<open>"."\<close>.\<close>

fun split_sep :: "string \<Rightarrow> string list" where
  "split_sep [] = [[]]"
| "split_sep (c # cs) =
     (if c = SEP then [] # split_sep cs
      else case split_sep cs of [] \<Rightarrow> [[c]] | s # ss \<Rightarrow> (c # s) # ss)"

definition segments :: "string \<Rightarrow> string list" where
  "segments p = filter (\<lambda>s. s \<noteq> [] \<and> s \<noteq> ''.'') (split_sep p)"

definition classify :: "string \<Rightarrow> Component" where
  "classify s = (if s = ''..'' then ParentDir else Normal s)"

text \<open>All the components a path's iterator yields.\<close>

definition component_list :: "string \<Rightarrow> Component list" where
  "component_list p = (if is_absolute p then [RootDir] else []) @ map classify (segments p)"

lemma split_sep_nonempty [simp]: "split_sep s \<noteq> []"
  by (induction s) (auto split: list.splits)

lemma split_sep_append: "split_sep (a @ SEP # b) = split_sep a @ split_sep b"
  by (induction a) (auto split: list.splits simp: Cons_eq_append_conv)

lemma split_sep_no_sep: "SEP \<notin> set s \<Longrightarrow> split_sep s = [s]"
  by (induction s) auto

lemma segments_append: "segments (a @ SEP # b) = segments a @ segments b"
  by (simp add: segments_def split_sep_append)

lemma segments_Nil [simp]: "segments [] = []"
  by (simp add: segments_def)

lemma segments_sep [simp]: "segments (SEP # b) = segments b"
  using segments_append [of "[]" b] by simp

lemma segments_seps_left: "set a \<subseteq> {SEP} \<Longrightarrow> segments (a @ b) = segments b"
  by (induction a) auto

lemma segments_seps_right: "set b \<subseteq> {SEP} \<Longrightarrow> segments (a @ b) = segments a"
  using segments_append [of a] segments_seps_left [of _ "[]"] by (cases b) auto

lemma segments_no_sep:
  "SEP \<notin> set s \<Longrightarrow> segments s = (if s = [] \<or> s = ''.'' then [] else [s])"
  by (simp add: segments_def split_sep_no_sep)

lemma segments_trim_start [simp]: "segments (trim_start SEP p) = segments p"
proof -
  have "set (takeWhile (\<lambda>x. x = SEP) p) \<subseteq> {SEP}" by (auto dest: set_takeWhileD)
  from segments_seps_left [OF this, of "trim_start SEP p"] show ?thesis by (simp add: trim_start_def)
qed

lemma trim_end_split:
  obtains t where "p = trim_end SEP p @ t" "set t \<subseteq> {SEP}"
proof
  have "rev (takeWhile (\<lambda>x. x = SEP) (rev p) @ dropWhile (\<lambda>x. x = SEP) (rev p)) = p" by simp
  then show "p = trim_end SEP p @ rev (takeWhile (\<lambda>x. x = SEP) (rev p))"
    unfolding trim_end_def rev_append by simp
qed (auto dest: set_takeWhileD)

lemma segments_trim_end [simp]: "segments (trim_end SEP p) = segments p"
proof -
  obtain t where t: "p = trim_end SEP p @ t" "set t \<subseteq> {SEP}" by (rule trim_end_split)
  show ?thesis using arg_cong [OF t(1), of segments] segments_seps_right [OF t(2)] by simp
qed

lemma segments_head:
  assumes "r = x # xs" "x \<noteq> SEP"
  shows "segments r = (let s = takeWhile (\<lambda>x. x \<noteq> SEP) r in
           (if s = ''.'' then [] else [s]) @ segments (dropWhile (\<lambda>x. x \<noteq> SEP) r))"
proof -
  let ?s = "takeWhile (\<lambda>x. x \<noteq> SEP) r" and ?d = "dropWhile (\<lambda>x. x \<noteq> SEP) r"
  have s: "segments ?s = (if ?s = ''.'' then [] else [?s])"
    using assms by (subst segments_no_sep) (auto dest: set_takeWhileD)
  have r: "r = ?s @ ?d" by simp
  show ?thesis
  proof (cases ?d)
    case Nil
    then have eq: "?s = r" using r by (metis append_Nil2)
    show ?thesis using s unfolding Let_def Nil eq by simp
  next
    case (Cons y ys)
    then have "y = SEP" by (auto simp: dropWhile_eq_Cons_conv)
    then have "segments (?s @ ?d) = segments ?s @ segments ?d"
      using Cons by (simp add: segments_append)
    then show ?thesis using r s by (simp add: Let_def)
  qed
qed

section \<open>The component iterator\<close>

lemma components_loop_segments:
  "components_loop r =
     (case trim_start SEP r of [] \<Rightarrow> (None, [])
      | x # xs \<Rightarrow>
          let seg = takeWhile (\<lambda>x. x \<noteq> SEP) (x # xs); rest = dropWhile (\<lambda>x. x \<noteq> SEP) (x # xs) in
          if seg = ''.'' then components_loop rest else (Some (classify seg), rest))"
  by (subst components_loop.simps)
     (simp add: Let_def find_take find_drop classify_def split: list.splits)

lemma components_loop_spec:
  "(case segments r of
      [] \<Rightarrow> fst (components_loop r) = None
    | s # ss \<Rightarrow> \<exists>r'. components_loop r = (Some (classify s), r') \<and> segments r' = ss \<and> length r' < length r)"
proof (induction r rule: length_induct)
  case (1 r)
  show ?case
  proof (cases "trim_start SEP r")
    case Nil
    then have "segments r = []" using segments_trim_start [of r] by simp
    then show ?thesis using Nil by (simp add: components_loop_segments [of r])
  next
    case (Cons x xs)
    let ?d = "dropWhile (\<lambda>x. x \<noteq> SEP) (x # xs)" and ?s = "takeWhile (\<lambda>x. x \<noteq> SEP) (x # xs)"
    have x: "x \<noteq> SEP" using Cons by (auto simp: trim_start_def dropWhile_eq_Cons_conv)
    have shorter: "length ?d < length r" using segment_shorter [of r] Cons by simp
    have segs: "segments r = (if ?s = ''.'' then [] else [?s]) @ segments ?d"
      using segments_trim_start [of r] segments_head [OF Cons x] Cons by (simp only: Let_def)
    have loop: "components_loop r = (if ?s = ''.'' then components_loop ?d else (Some (classify ?s), ?d))"
      by (subst components_loop_segments) (simp only: Cons list.case Let_def)
    show ?thesis
    proof (cases "?s = ''.''")
      case True
      then have "components_loop r = components_loop ?d" "segments r = segments ?d"
        using loop segs by simp_all
      then show ?thesis using "1" [rule_format, OF shorter] shorter
        by (fastforce split: list.splits)
    next
      case False
      then have "components_loop r = (Some (classify ?s), ?d)" "segments r = ?s # segments ?d"
        using loop segs by simp_all
      then show ?thesis using shorter by simp
    qed
  qed
qed

lemma components_next_shrinks:
  assumes "components_next c = (Some x, c')"
  shows "length (comp_rest c') + of_bool (comp_root_pending c') < length (comp_rest c) + of_bool (comp_root_pending c)"
  using assms components_loop_spec [of "comp_rest c"]
  by (auto simp: components_next_def split: if_splits prod.splits list.splits)

text \<open>The items a \<open>for\<close> loop over \<open>components()\<close> sees.\<close>

function components_collect :: "Components \<Rightarrow> Component list" where
  "components_collect c =
     (case components_next c of (None, _) \<Rightarrow> [] | (Some x, c') \<Rightarrow> x # components_collect c')"
  by pat_completeness auto
termination
  by (relation "measure (\<lambda>c. length (comp_rest c) + of_bool (comp_root_pending c))")
     (simp, metis components_next_shrinks in_measure)

declare components_collect.simps [simp del]

lemma components_collect_segments:
  "\<not> comp_root_pending c \<Longrightarrow> components_collect c = map classify (segments (comp_rest c))"
proof (induction c rule: components_collect.induct)
  case (1 c)
  show ?case
  proof (cases "segments (comp_rest c)")
    case Nil
    then show ?thesis
      using components_loop_spec [of "comp_rest c"] "1.prems"
      by (cases "components_loop (comp_rest c)")
         (simp add: components_collect.simps [of c] components_next_def)
  next
    case (Cons s ss)
    then obtain r' where r': "components_loop (comp_rest c) = (Some (classify s), r')" "segments r' = ss"
      using components_loop_spec [of "comp_rest c"] by auto
    then have n: "components_next c = (Some (classify s), c \<lparr> comp_rest := r' \<rparr>)"
      using "1.prems" by (simp add: components_next_def)
    then show ?thesis
      using "1.IH" [OF n [symmetric] refl] "1.prems" r'(2) Cons by (simp add: components_collect.simps [of c])
  qed
qed

lemma components_collect_eq: "components_collect (path_components p) = component_list p"
proof (cases "is_absolute p")
  case True
  then have "components_next (path_components p) = (Some RootDir, \<lparr> comp_rest = p, comp_root_pending = False \<rparr>)"
    by (simp add: components_next_def path_components_def is_absolute_def)
  then show ?thesis
    using True by (subst components_collect.simps) (simp add: components_collect_segments component_list_def)
next
  case False
  then show ?thesis
    by (simp add: components_collect_segments path_components_def component_list_def is_absolute_def)
qed

section \<open>Searching from the end\<close>

lemma rfind_None: "str_rfind c s = None \<longleftrightarrow> c \<notin> set s"
  by (simp add: str_rfind_def)

lemma rfind_last: "c \<notin> set b \<Longrightarrow> str_rfind c (a @ c # b) = Some (length a)"
proof -
  assume "c \<notin> set b"
  then have "takeWhile (\<lambda>x. x \<noteq> c) (rev b @ [c] @ rev a) = rev b"
    by (subst takeWhile_append2) auto
  then show ?thesis by (simp add: str_rfind_def)
qed

lemma rfind_Some:
  assumes "str_rfind c s = Some i"
  obtains a b where "s = a @ c # b" "c \<notin> set b" "i = length a"
proof -
  have "c \<in> set s" using assms by (auto simp: str_rfind_def split: if_splits)
  then obtain a b where "s = a @ c # b" "c \<notin> set b" by (meson split_list_last)
  with rfind_last [of c b a] assms that show ?thesis by simp
qed

lemma ends_with_sep: "str_ends_with [c] s \<longleftrightarrow> s \<noteq> [] \<and> last s = c"
  by (cases s rule: rev_cases) (auto simp: str_ends_with_def str_starts_with_def)

lemma starts_with_sep: "str_starts_with [c] s \<longleftrightarrow> s \<noteq> [] \<and> hd s = c"
  by (cases s) (auto simp: str_starts_with_def)

lemma trim_end_id: "s \<noteq> [] \<Longrightarrow> last s \<noteq> c \<Longrightarrow> trim_end c s = s"
  by (cases s rule: rev_cases) (auto simp: trim_end_def)

lemma trim_end_last: "trim_end c s \<noteq> [] \<Longrightarrow> last (trim_end c s) \<noteq> c"
  by (metis (mono_tags, lifting) hd_dropWhile last_rev rev_is_Nil_conv trim_end_def)

lemma is_absolute_append: "a \<noteq> [] \<Longrightarrow> is_absolute (a @ b) = is_absolute a"
  by (simp add: is_absolute_def starts_with_sep)

lemma is_absolute_Cons [simp]: "is_absolute (c # s) \<longleftrightarrow> c = SEP"
  by (simp add: is_absolute_def starts_with_sep)

lemma is_absolute_Nil [simp]: "\<not> is_absolute []"
  by (simp add: is_absolute_def starts_with_sep)

lemma is_absolute_trim_end: "trim_end SEP p \<noteq> [] \<Longrightarrow> is_absolute (trim_end SEP p) = is_absolute p"
  using trim_end_split [of p] is_absolute_append [of "trim_end SEP p"] by metis

text \<open>A path with a file name, cut at its last separator.\<close>

lemma file_name_cases:
  assumes "file_name p = Some n"
  obtains (bare) "p = n" "SEP \<notin> set n" "n \<noteq> []" "parent p = None"
  | (nested) a where "p = a @ SEP # n" "SEP \<notin> set n" "n \<noteq> []"
      "parent p = Some (if a = [] then ''/'' else a)"
proof -
  have p: "p \<noteq> []" "last p \<noteq> SEP" using assms by (auto simp: file_name_def ends_with_sep split: if_splits)
  then have trim: "trim_end SEP p = p" by (rule trim_end_id)
  show ?thesis
  proof (cases "str_rfind SEP p")
    case None
    then have "p = n" using assms p by (simp add: file_name_def ends_with_sep split: option.splits)
    moreover have "parent p = None" unfolding parent_def trim Let_def by (simp add: None)
    ultimately show ?thesis using bare None p by (auto simp: rfind_None)
  next
    case (Some i)
    then obtain a b where s: "p = a @ SEP # b" "SEP \<notin> set b" "i = length a" by (rule rfind_Some)
    then have "n = b" using assms p Some by (simp add: file_name_def ends_with_sep)
    moreover have "b \<noteq> []" using s p by auto
    moreover have "parent p = Some (if a = [] then ''/'' else a)"
      unfolding parent_def trim Let_def using Some s by simp
    ultimately show ?thesis using nested s by blast
  qed
qed

lemma file_name_nested:
  "SEP \<notin> set n \<Longrightarrow> n \<noteq> [] \<Longrightarrow> file_name (a @ SEP # n) = Some n"
  by (cases n rule: rev_cases) (auto simp: file_name_def ends_with_sep rfind_last [of SEP "_ @ [_]", simplified])

lemma join_components:
  "component_list (path_join a b) =
     (if is_absolute b then component_list b else component_list a @ component_list b)"
proof (cases "is_absolute b")
  case False
  show ?thesis
  proof (cases a rule: rev_cases)
    case Nil
    then show ?thesis using False
      by (simp add: path_join_def path_push_def is_absolute_def component_list_def starts_with_sep)
  next
    case (snoc a' x)
    have "segments (path_join a b) = segments a @ segments b"
      using False snoc segments_append [of a' b] segments_append [of a b] segments_append [of a' "[]"]
      by (auto simp: path_join_def path_push_def is_absolute_def ends_with_sep)
    moreover have "is_absolute (path_join a b) = is_absolute a"
      using False snoc is_absolute_append [of a] by (simp add: path_join_def path_push_def is_absolute_def)
    ultimately show ?thesis using False by (simp add: component_list_def)
  qed
qed (simp add: path_join_def path_push_def is_absolute_def)

lemma parent_file_name_components:
  assumes "file_name p = Some n" "parent p = Some q"
  shows "component_list (path_join q n) = component_list p"
  using assms(1)
proof (cases rule: file_name_cases)
  case (nested a)
  have q: "q = (if a = [] then ''/'' else a)" using nested(4) assms(2) by simp
  have "\<not> is_absolute n" using nested(2,3) by (cases n) auto
  then show ?thesis
    unfolding join_components
    using nested(1) q segments_append [of a n] is_absolute_append [of a]
    by (auto simp: component_list_def)
qed (use assms in simp)

lemma parent_shorter: "parent p = Some q \<Longrightarrow> length q < length p"
proof -
  assume "parent p = Some q"
  then obtain i where i: "str_rfind SEP (trim_end SEP p) = Some i"
      "q = (if i = 0 then ''/'' else take i (trim_end SEP p))"
    by (auto simp: parent_def Let_def split: option.splits if_splits)
  then obtain a b where s: "trim_end SEP p = a @ SEP # b" "i = length a" by (metis rfind_Some)
  have "b \<noteq> []" using trim_end_last [of SEP p] s by auto
  moreover have "length (trim_end SEP p) \<le> length p"
    by (metis trim_end_split length_append le_add1)
  ultimately show ?thesis using i(2) s by (cases b) auto
qed

lemma parent_components:
  assumes "parent p = Some q"
  shows "\<exists>cs. component_list p = component_list q @ cs"
proof -
  from assms obtain i where i: "str_rfind SEP (trim_end SEP p) = Some i"
      "q = (if i = 0 then ''/'' else take i (trim_end SEP p))"
    by (auto simp: parent_def Let_def split: option.splits if_splits)
  then obtain a b where s: "trim_end SEP p = a @ SEP # b" "i = length a" by (metis rfind_Some)
  have "segments p = segments a @ segments b"
    using segments_trim_end [of p] s(1) segments_append by simp
  moreover have "is_absolute p = is_absolute (trim_end SEP p)"
    using s(1) is_absolute_trim_end [of p] by simp
  ultimately show ?thesis
    using i(2) s is_absolute_append [of a] by (auto simp: component_list_def)
qed

text \<open>The items a \<open>for\<close> loop over \<open>ancestors()\<close> sees.\<close>

function ancestors_collect :: "string option \<Rightarrow> string list" where
  "ancestors_collect n = (case ancestors_next n of (None, _) \<Rightarrow> [] | (Some p, n') \<Rightarrow> p # ancestors_collect n')"
  by pat_completeness auto
termination
  by (relation "measure (\<lambda>n. case n of None \<Rightarrow> 0 | Some p \<Rightarrow> Suc (length p))")
     (auto simp: ancestors_next_def parent_shorter split: option.splits)

declare ancestors_collect.simps [simp del]

section \<open>Properties of paths\<close>

text \<open>C30: \<open>components()\<close> returns after finitely many steps with the root (for an absolute
  path) followed by the non-empty segments other than \<open>"."\<close>, and joining is
  concatenation of components: an absolute right-hand side replaces the path, a relative
  one is appended.
\<close>

theorem path_components_join:
  "components_collect (path_components (path_join a b)) =
     (if is_absolute b then components_collect (path_components b)
      else components_collect (path_components a) @ components_collect (path_components b)) \<and>
   components_collect (path_components a) =
     (if is_absolute a then [RootDir] else []) @ map classify (segments a)"
  unfolding components_collect_eq join_components by (simp add: component_list_def)

text \<open>Splitting a path into \<open>parent()\<close> and \<open>file_name()\<close> and joining the two gives a
  path with the same components; the parent is strictly shorter and its components are an
  initial part, so the \<open>ancestors()\<close> loop ends.
\<close>

theorem path_parent_file_name:
  assumes "parent p = Some q"
  shows "length q < length p \<and> (\<exists>cs. component_list p = component_list q @ cs) \<and>
         (case file_name p of None \<Rightarrow> True
          | Some n \<Rightarrow> component_list (path_join q n) = component_list p) \<and>
         ancestors_collect (Some p) = p # ancestors_collect (Some q)"
  using parent_shorter [OF assms] parent_components [OF assms] parent_file_name_components [OF _ assms]
  by (auto simp: ancestors_collect.simps [of "Some p"] ancestors_next_def assms split: option.splits)

theorem path_parent_file_name_witness:
  "parent ''/usr//lib/x.so'' = Some ''/usr//lib'' \<and>
   length ''/usr//lib'' < length ''/usr//lib/x.so'' \<and>
   component_list (path_join ''/usr//lib'' ''x.so'') = component_list ''/usr//lib/x.so''"
proof -
  have "parent ''/usr//lib/x.so'' = Some ''/usr//lib''" "file_name ''/usr//lib/x.so'' = Some ''x.so''"
    by code_simp+
  then show ?thesis using path_parent_file_name [of "''/usr//lib/x.so''"] by simp
qed

lemma stem_extension:
  assumes "path_extension p = Some e"
  obtains st where "file_stem p = Some st" "file_name p = Some (st @ ''.'' @ e)" "st \<noteq> []" "CHR ''.'' \<notin> set e"
proof -
  obtain n i where n: "file_name p = Some n" "str_rfind (CHR ''.'') n = Some i" "i \<noteq> 0" "e = drop (i + 1) n"
    using assms by (auto simp: path_extension_def split: bind_splits option.splits if_splits)
  from n(2) obtain a b where "n = a @ CHR ''.'' # b" "CHR ''.'' \<notin> set b" "i = length a" by (rule rfind_Some)
  then show ?thesis using that [of a] n by (simp add: file_stem_def)
qed

text \<open>\<open>file_stem()\<close> and \<open>extension()\<close> split the file name at its last dot: putting a
  dot between them gives the name back, the stem is not empty and the extension has no
  dot; without an extension the stem is the whole name.
\<close>

theorem path_stem_extension:
  assumes "file_name p = Some n"
  shows "case path_extension p of
           Some e \<Rightarrow> (\<exists>st. file_stem p = Some st \<and> n = st @ ''.'' @ e \<and> st \<noteq> [] \<and> CHR ''.'' \<notin> set e)
         | None \<Rightarrow> file_stem p = Some n"
proof (cases "path_extension p")
  case None
  then show ?thesis using assms
    by (auto simp: path_extension_def file_stem_def split: option.splits if_splits)
next
  case (Some e)
  then show ?thesis using stem_extension [OF Some] assms by fastforce
qed

theorem path_stem_extension_witness:
  "file_name ''a/b.tar.gz'' = Some ''b.tar.gz'' \<and> path_extension ''a/b.tar.gz'' = Some ''gz'' \<and>
   (\<exists>st. file_stem ''a/b.tar.gz'' = Some st \<and> ''b.tar.gz'' = st @ ''.'' @ ''gz'')"
proof -
  have "file_name ''a/b.tar.gz'' = Some ''b.tar.gz''" "path_extension ''a/b.tar.gz'' = Some ''gz''"
    by code_simp+
  then show ?thesis using path_stem_extension [of "''a/b.tar.gz''" "''b.tar.gz''"] by auto
qed

lemma strip_shape:
  assumes "path_starts_with p b" "trim_end SEP b \<noteq> []"
  obtains r where "p = trim_end SEP b @ r" "r = [] \<or> hd r = SEP"
proof -
  let ?b = "trim_end SEP b" and ?m = "trim_end SEP p"
  obtain t where t: "p = ?m @ t" "set t \<subseteq> {SEP}" by (rule trim_end_split)
  have tr: "t = [] \<or> hd t = SEP" using t(2) by (cases t) auto
  consider "?m = ?b" | r where "?m = ?b @ r" "r \<noteq> []" "hd r = SEP"
  proof -
    have "?m = ?b \<or> take (length ?b) ?m = ?b \<and> str_starts_with [SEP] (drop (length ?b) ?m)"
      using assms by (auto simp: path_starts_with_def str_strip_prefix_def str_starts_with_def Let_def
          split: if_splits)
    moreover have "?m = take (length ?b) ?m @ drop (length ?b) ?m" by simp
    ultimately show ?thesis using that unfolding starts_with_sep by metis
  qed
  then show ?thesis
  proof cases
    case 1
    then show ?thesis using that [of t] t tr by simp
  next
    case (2 r)
    then show ?thesis using that [of "r @ t"] t(1) by simp
  qed
qed

text \<open>When \<open>p.starts_with(base)\<close> and \<open>base\<close> is not empty or a run of separators,
  \<open>strip_prefix\<close> succeeds with a relative remainder, and the components of \<open>p\<close> are those
  of \<open>base\<close> followed by those of the remainder.
\<close>

theorem path_strip_prefix:
  assumes "path_starts_with p b" "trim_end SEP b \<noteq> []"
  shows "\<exists>r. strip_prefix p b = Inr r \<and> is_relative r \<and>
             component_list p = component_list b @ component_list r"
proof -
  let ?b = "trim_end SEP b"
  obtain r where r: "p = ?b @ r" "r = [] \<or> hd r = SEP" using assms by (rule strip_shape)
  have "strip_prefix p b = Inr (trim_start SEP r)"
    using assms(2) r(1) by (simp add: strip_prefix_def str_strip_prefix_def str_starts_with_def Let_def)
  moreover have "is_relative (trim_start SEP r)"
    using hd_dropWhile [of "\<lambda>x. x = SEP" r]
    by (auto simp: is_relative_def is_absolute_def starts_with_sep trim_start_def)
  moreover have "segments p = segments b @ segments r"
    using r segments_append [of ?b "tl r"] by (cases r) auto
  moreover have "is_absolute p = is_absolute b"
    using arg_cong [OF r(1), of is_absolute] is_absolute_append [OF assms(2)] is_absolute_trim_end [OF assms(2)] by simp
  ultimately show ?thesis by (simp add: component_list_def is_relative_def)
qed

theorem path_strip_prefix_witness:
  "\<exists>r. strip_prefix ''/usr/lib//x'' ''/usr/lib/'' = Inr r \<and> is_relative r \<and>
       component_list ''/usr/lib//x'' = component_list ''/usr/lib/'' @ component_list r"
  by (rule path_strip_prefix) code_simp+

text \<open>\<open>strip_prefix\<close> and \<open>starts_with\<close> can disagree: \<open>strip_prefix\<close> accepts a base
  that ends in the middle of a component, which \<open>starts_with\<close> rejects, and every
  non-empty \<open>base\<close> extended by any bytes without a leading separator shows it.
\<close>

theorem strip_prefix_inside_component:
  assumes "b \<noteq> []" "last b \<noteq> SEP" "r \<noteq> []" "hd r \<noteq> SEP" "last r \<noteq> SEP"
  shows "strip_prefix (b @ r) b = Inr r \<and> \<not> path_starts_with (b @ r) b"
proof -
  have t: "trim_end SEP b = b" "trim_end SEP (b @ r) = b @ r"
    using assms by (auto intro!: trim_end_id)
  have "trim_start SEP r = r" using assms(3,4) by (cases r) (auto simp: trim_start_def)
  then show ?thesis
    unfolding strip_prefix_def path_starts_with_def t Let_def
    using assms by (cases r) (simp_all add: str_strip_prefix_def str_starts_with_def)
qed

theorem strip_prefix_inside_component_witness:
  "strip_prefix (''a'' @ ''b'') ''a'' = Inr ''b'' \<and> \<not> path_starts_with (''a'' @ ''b'') ''a''"
  by (rule strip_prefix_inside_component) simp_all

lemma push_shape:
  assumes "q \<noteq> []" "\<not> is_absolute n"
  obtains x where "path_push q n = x @ SEP # n"
proof (cases "last q = SEP")
  case True
  then have "q = butlast q @ [SEP]" using assms(1) by (metis append_butlast_last_id)
  then have "path_push q n = butlast q @ SEP # n"
    using assms True by (simp add: path_push_def is_absolute_def ends_with_sep)
  then show ?thesis by (rule that)
next
  case False
  then show ?thesis using that [of q] assms by (simp add: path_push_def is_absolute_def ends_with_sep)
qed

lemma stem_no_sep:
  assumes "file_name p = Some n" "file_stem p = Some st"
  shows "SEP \<notin> set st" "st \<noteq> []"
proof -
  have n: "SEP \<notin> set n" "n \<noteq> []" using assms(1) by (cases rule: file_name_cases; simp)+
  show "SEP \<notin> set st"
    using assms n(1) by (auto simp: file_stem_def split: option.splits if_splits dest: in_set_takeD)
  show "st \<noteq> []"
    using assms n by (auto simp: file_stem_def split: option.splits if_splits)
qed

lemma stem_extension_nested:
  assumes "SEP \<notin> set st" "SEP \<notin> set e" "CHR ''.'' \<notin> set e" "st \<noteq> []"
  shows "path_extension (x @ SEP # st @ ''.'' @ e) = Some e" "file_stem (x @ SEP # st @ ''.'' @ e) = Some st"
proof -
  have "file_name (x @ SEP # st @ ''.'' @ e) = Some (st @ ''.'' @ e)"
    using assms by (intro file_name_nested) auto
  then show "path_extension (x @ SEP # st @ ''.'' @ e) = Some e" "file_stem (x @ SEP # st @ ''.'' @ e) = Some st"
    using assms rfind_last [of "CHR ''.''" e st] by (simp_all add: path_extension_def file_stem_def)
qed

text \<open>On a path that has a parent, \<open>set_extension(e)\<close> returns true, keeps the stem,
  makes \<open>e\<close> the extension, and leaves the components of the parent followed by the new
  name.
\<close>

theorem path_set_extension:
  assumes "file_name p = Some n" "parent p = Some q"
    and "e \<noteq> []" "CHR ''.'' \<notin> set e" "SEP \<notin> set e"
  shows "\<exists>st p'. file_stem p = Some st \<and> set_extension p e = (p', True) \<and>
           path_extension p' = Some e \<and> file_stem p' = Some st \<and>
           component_list p' = component_list q @ [Normal (st @ ''.'' @ e)]"
proof -
  have "file_stem p \<noteq> None" using assms(1) by (auto simp: file_stem_def split: option.splits)
  then obtain st where st: "file_stem p = Some st" by blast
  note s = stem_no_sep [OF assms(1) st]
  let ?n = "st @ ''.'' @ e"
  have rel: "\<not> is_absolute ?n" using s by (cases st) auto
  have "q \<noteq> []" using assms(1,2) by (cases rule: file_name_cases) auto
  then obtain x where x: "path_push q ?n = x @ SEP # ?n" using rel by (rule push_shape)
  have "set_extension p e = (path_push q ?n, True)"
    using st assms(1,2,3) by (simp add: set_extension_def set_file_name_def path_pop_def)
  moreover have "component_list (path_push q ?n) = component_list q @ [Normal ?n]"
    using join_components [of q ?n] rel s assms(3,4,5) segments_no_sep [of ?n]
    by (auto simp: path_join_def component_list_def classify_def append_eq_Cons_conv)
  ultimately show ?thesis using st x stem_extension_nested [OF s(1) assms(5,4) s(2), of x] by simp
qed

theorem path_set_extension_witness:
  "\<exists>st p'. file_stem ''/a/b.txt'' = Some st \<and> set_extension ''/a/b.txt'' ''md'' = (p', True) \<and>
     path_extension p' = Some ''md'' \<and> file_stem p' = Some st \<and>
     component_list p' = component_list ''/a'' @ [Normal (st @ ''.'' @ ''md'')]"
  by (rule path_set_extension [of _ "''b.txt''"]) code_simp+

text \<open>On a bare file name, which has no parent, \<open>set_file_name\<close> does not replace the
  name: \<open>pop\<close> fails and the new name is appended below the old one, while
  \<open>with_file_name\<close> on the same path replaces it.
\<close>

theorem set_file_name_bare:
  assumes "p \<noteq> []" "SEP \<notin> set p" "is_relative n"
  shows "set_file_name p n = p @ SEP # n \<and> with_file_name p n = n"
proof -
  have l: "last p \<noteq> SEP" using assms(1,2) last_in_set [of p] by metis
  then have "file_name p = Some p"
    using assms(1,2) by (simp add: file_name_def ends_with_sep str_rfind_def)
  moreover have "parent p = None"
    using assms(1,2) l by (simp add: parent_def trim_end_id str_rfind_def)
  ultimately show ?thesis
    using assms l
    by (simp add: set_file_name_def with_file_name_def path_pop_def path_push_def is_relative_def
        is_absolute_def ends_with_sep)
qed

theorem set_file_name_bare_witness:
  "set_file_name ''foo.txt'' ''bar'' = ''foo.txt'' @ SEP # ''bar'' \<and> with_file_name ''foo.txt'' ''bar'' = ''bar''"
  by (rule set_file_name_bare) code_simp+

end
