(* ===== verification/Os_Strings.thy ===== *)
theory Os_Strings
  imports Io_Fd Paths
begin

text \<open>
  Strings at the border to the system: \<open>src/ffi.rs\<close> and the string part of
  \<open>src/os.rs\<close>. A Rust string is its UTF-8 bytes, a \<^typ>\<open>string\<close>. \<open>CString::new\<close> refuses
  interior NUL bytes, \<open>String::from_utf8_lossy\<close> replaces every maximal ill-formed part
  by U+FFFD; both belong to the language's library and are written out here.
\<close>

section \<open>Bytes and strings\<close>

definition bytes_of :: "string \<Rightarrow> byte list" where
  "bytes_of s = map (\<lambda>c. of_nat (of_char c)) s"

definition str_of :: "byte list \<Rightarrow> string" where
  "str_of bs = map (\<lambda>b. char_of (unat b)) bs"

lemma bytes_of_str_of [simp]: "bytes_of (str_of bs) = bs"
proof -
  have "of_nat (of_char (char_of (unat b) :: char)) = b" for b :: byte
  proof -
    have "unat b < 256" using unsigned_less [of b] by simp
    then show ?thesis by (simp add: of_char_of)
  qed
  then show ?thesis by (simp add: bytes_of_def str_of_def comp_def)
qed

lemma str_of_bytes_of [simp]: "str_of (bytes_of s) = s"
proof -
  have "char_of (unat (of_nat (of_char c) :: byte)) = c" for c :: char
  proof -
    have "of_char c < (256 :: nat)" by simp
    then show ?thesis by (simp add: unsigned_of_nat take_bit_nat_eq_self)
  qed
  then show ?thesis by (simp add: bytes_of_def str_of_def comp_def)
qed

lemma str_of_inj [simp]: "str_of a = str_of b \<longleftrightarrow> a = b"
  using bytes_of_str_of by metis

lemma bytes_of_Nil [simp]: "bytes_of [] = []"
  by (simp add: bytes_of_def)

lemma length_bytes_of [simp]: "length (bytes_of s) = length s"
  by (simp add: bytes_of_def)

lemma length_str_of [simp]: "length (str_of s) = length s"
  by (simp add: str_of_def)

lemma str_of_append [simp]: "str_of (a @ b) = str_of a @ str_of b"
  by (simp add: str_of_def)

lemma bytes_of_append [simp]: "bytes_of (a @ b) = bytes_of a @ bytes_of b"
  by (simp add: bytes_of_def)

text \<open>\<open>CString::new\<close>.\<close>

definition cstring_new :: "string \<Rightarrow> unit + string" where
  "cstring_new s = (if char_of (0 :: nat) \<in> set s then Inl () else Inr s)"

section \<open>Lossy decoding\<close>

text \<open>The first character of a non-empty byte string: whether it is well-formed, and how many bytes it has; of an
ill-formed one, the longest part that could start a character.\<close>

definition second_ok :: "byte \<Rightarrow> byte \<Rightarrow> bool" where
  "second_ok b c =
     (if b = 0xE0 then 0xA0 \<le> c \<and> c \<le> 0xBF
      else if b = 0xED then 0x80 \<le> c \<and> c \<le> 0x9F
      else if b = 0xF0 then 0x90 \<le> c \<and> c \<le> 0xBF
      else if b = 0xF4 then 0x80 \<le> c \<and> c \<le> 0x8F
      else cont c)"

definition utf8_seq :: "byte \<Rightarrow> byte list \<Rightarrow> bool \<times> nat" where
  "utf8_seq b bs =
     (if b < 0x80 then (True, 1)
      else if 0xC2 \<le> b \<and> b \<le> 0xDF then
        (case bs of c1 # _ \<Rightarrow> if cont c1 then (True, 2) else (False, 1) | [] \<Rightarrow> (False, 1))
      else if 0xE0 \<le> b \<and> b \<le> 0xEF then
        (case bs of
           c1 # r1 \<Rightarrow>
             if second_ok b c1
             then case r1 of c2 # _ \<Rightarrow> if cont c2 then (True, 3) else (False, 2) | [] \<Rightarrow> (False, 2)
             else (False, 1)
         | [] \<Rightarrow> (False, 1))
      else if 0xF0 \<le> b \<and> b \<le> 0xF4 then
        (case bs of
           c1 # r1 \<Rightarrow>
             if second_ok b c1
             then case r1 of
                    c2 # r2 \<Rightarrow>
                      if cont c2
                      then case r2 of c3 # _ \<Rightarrow> if cont c3 then (True, 4) else (False, 3) | [] \<Rightarrow> (False, 3)
                      else (False, 2)
                  | [] \<Rightarrow> (False, 2)
             else (False, 1)
         | [] \<Rightarrow> (False, 1))
      else (False, 1))"

lemma utf8_seq_pos [simp]: "0 < snd (utf8_seq b bs)"
  by (auto simp: utf8_seq_def split: list.splits)

function utf8_lossy :: "byte list \<Rightarrow> byte list" where
  "utf8_lossy [] = []"
| "utf8_lossy (b # bs) =
     (if fst (utf8_seq b bs) then take (snd (utf8_seq b bs)) (b # bs) else [0xEF, 0xBF, 0xBD])
       @ utf8_lossy (drop (snd (utf8_seq b bs)) (b # bs))"
  by pat_completeness auto
termination by (relation "measure length") simp_all

lemma byte_list_shape:
  obtains "bs = []" | c1 where "bs = [c1]" | c1 c2 where "bs = [c1, c2]" | c1 c2 c3 r where "bs = c1 # c2 # c3 # r"
  by (metis neq_Nil_conv)

lemma utf8_seq_valid:
  "utf8_valid (b # bs) \<longleftrightarrow> fst (utf8_seq b bs) \<and> utf8_valid (drop (snd (utf8_seq b bs)) (b # bs))"
proof -
  note [simp del] = utf8_valid.simps(2)
  note step = utf8_valid.simps(2) [of b] utf8_valid.simps(2) [of "0xE0"] utf8_valid.simps(2) [of "0xED"]
    utf8_valid.simps(2) [of "0xF0"] utf8_valid.simps(2) [of "0xF4"] utf8_seq_def second_ok_def
  note nat = word_le_nat_alt word_less_nat_alt word_unat_eq_iff
  consider "b < 0x80" | "\<not> b < 0x80" "0xC2 \<le> b" "b \<le> 0xDF" | "b = 0xE0" | "b = 0xED"
    | "b \<noteq> 0xE0" "b \<noteq> 0xED" "0xE1 \<le> b" "b \<le> 0xEF" | "b = 0xF0" | "b = 0xF4" | "0xF1 \<le> b" "b \<le> 0xF3"
    | "\<not> b < 0x80" "b < 0xC2 \<or> 0xF4 < b"
  proof -
    have "b < 0x80 \<or> \<not> b < 0x80 \<and> 0xC2 \<le> b \<and> b \<le> 0xDF \<or> b = 0xE0 \<or> b = 0xED \<or>
        b \<noteq> 0xE0 \<and> b \<noteq> 0xED \<and> 0xE1 \<le> b \<and> b \<le> 0xEF \<or> b = 0xF0 \<or> b = 0xF4 \<or> 0xF1 \<le> b \<and> b \<le> 0xF3 \<or>
        \<not> b < 0x80 \<and> (b < 0xC2 \<or> 0xF4 < b)"
      by (simp add: nat) linarith
    then show thesis using that by blast
  qed
  then show ?thesis
  proof cases
    case 5
    then have "\<not> b < 0x80" "\<not> b \<le> 0xDF" "0xE0 \<le> b" "b \<noteq> 0xF0" "b \<noteq> 0xF4" by (auto simp: nat)
    then show ?thesis using 5 by (cases bs rule: byte_list_shape) (simp_all add: step)
  next
    case 8
    then have "\<not> b < 0x80" "\<not> b \<le> 0xDF" "\<not> b \<le> 0xEF" "0xF0 \<le> b" "b \<le> 0xF4" "b \<noteq> 0xE0" "b \<noteq> 0xED" "b \<noteq> 0xF0" "b \<noteq> 0xF4"
      by (auto simp: nat)
    then show ?thesis using 8 by (cases bs rule: byte_list_shape) (simp_all add: step)
  next
    case 9
    show ?thesis
    proof (cases "b < 0xC2")
      case True
      then have "\<not> 0xC2 \<le> b" "\<not> 0xE0 \<le> b" "\<not> 0xE1 \<le> b" "\<not> 0xF0 \<le> b" "\<not> 0xF1 \<le> b"
          "b \<noteq> 0xE0" "b \<noteq> 0xED" "b \<noteq> 0xF0" "b \<noteq> 0xF4"
        by (auto simp: nat)
      then show ?thesis using 9(1) by (cases bs rule: byte_list_shape) (simp_all add: step)
    next
      case False
      then have "\<not> b \<le> 0xDF" "\<not> b \<le> 0xEF" "\<not> b \<le> 0xF3" "\<not> b \<le> 0xF4"
          "b \<noteq> 0xE0" "b \<noteq> 0xED" "b \<noteq> 0xF0" "b \<noteq> 0xF4"
        using 9(2) by (auto simp: nat)
      then show ?thesis using 9(1) by (cases bs rule: byte_list_shape) (simp_all add: step)
    qed
  next
    case 1
    then show ?thesis by (simp add: step)
  next
    case 2
    then show ?thesis by (cases bs rule: byte_list_shape) (simp_all add: step)
  next
    case 3
    then show ?thesis by (cases bs rule: byte_list_shape) (auto simp: step)
  next
    case 4
    then show ?thesis by (cases bs rule: byte_list_shape) (auto simp: step)
  next
    case 6
    then show ?thesis by (cases bs rule: byte_list_shape) (auto simp: step)
  next
    case 7
    then show ?thesis by (cases bs rule: byte_list_shape) (auto simp: step)
  qed
qed

lemma utf8_lossy_valid_id: "utf8_valid bs \<Longrightarrow> utf8_lossy bs = bs"
proof (induction bs rule: utf8_lossy.induct)
  case (2 b bs)
  then have v: "fst (utf8_seq b bs)" "utf8_valid (drop (snd (utf8_seq b bs)) (b # bs))"
    using utf8_seq_valid [of b bs] by auto
  then have "utf8_lossy (drop (snd (utf8_seq b bs)) (b # bs)) = drop (snd (utf8_seq b bs)) (b # bs)" using "2.IH" by simp
  then show ?case unfolding utf8_lossy.simps by (simp only: v if_True append_take_drop_id)
qed simp

text \<open>A well-formed first character stands on its own.\<close>

lemma utf8_seq_ok:
  assumes "fst (utf8_seq b bs)"
  shows "snd (utf8_seq b bs) \<le> length (b # bs)" "utf8_seq b (take (snd (utf8_seq b bs) - 1) bs) = utf8_seq b bs"
    "utf8_seq b (bs @ cs) = utf8_seq b bs"
  using assms by (cases bs rule: byte_list_shape; simp add: utf8_seq_def split: if_splits)+

lemma utf8_valid_append: "utf8_valid a \<Longrightarrow> utf8_valid b \<Longrightarrow> utf8_valid (a @ b)"
proof (induction a rule: utf8_lossy.induct)
  case (2 x xs)
  let ?n = "snd (utf8_seq x xs)"
  have v: "fst (utf8_seq x xs)" "utf8_valid (drop ?n (x # xs))" using 2(2) utf8_seq_valid [of x xs] by blast+
  then have "utf8_valid (drop ?n (x # xs) @ b)" using 2 by blast
  moreover have "drop ?n (x # xs @ b) = drop ?n (x # xs) @ b" using utf8_seq_ok(1) [OF v(1)] by (metis append_Cons drop_append diff_is_0_eq drop0)
  ultimately show ?case unfolding append_Cons utf8_seq_valid [of x "xs @ b"] utf8_seq_ok(3) [OF v(1)] using v(1) by simp
qed simp

lemma utf8_seq_take:
  assumes ok: "fst (utf8_seq b bs)"
  shows "utf8_valid (take (snd (utf8_seq b bs)) (b # bs))"
proof -
  obtain m where m: "snd (utf8_seq b bs) = Suc m" using utf8_seq_pos [of b bs] by (metis gr0_conv_Suc)
  then have "utf8_valid (b # take m bs)"
    using utf8_seq_valid [of b "take m bs"] utf8_seq_ok(1,2) [OF ok] ok by (simp del: utf8_valid.simps(2))
  then show ?thesis using m by simp
qed

lemma utf8_lossy_valid: "utf8_valid (utf8_lossy bs)"
proof (induction bs rule: utf8_lossy.induct)
  case (2 b bs)
  have "utf8_valid [0xEF, 0xBF, 0xBD]" by (simp add: cont_def)
  then show ?case unfolding utf8_lossy.simps using 2 utf8_seq_take [of b bs] by (intro utf8_valid_append) (simp_all del: utf8_valid.simps)
qed simp

section \<open>\<open>OsStr\<close> and \<open>OsString\<close>\<close>

type_synonym OsString = string

definition os_str_to_str :: "OsString \<Rightarrow> string option" where
  "os_str_to_str s = Some s"

definition os_str_is_empty :: "OsString \<Rightarrow> bool" where
  "os_str_is_empty s \<longleftrightarrow> s = []"

definition os_string_into_string :: "OsString \<Rightarrow> OsString + string" where
  "os_string_into_string s = Inr s"

definition os_str_as_bytes :: "OsString \<Rightarrow> byte list" where
  "os_str_as_bytes s = bytes_of s"

definition os_str_from_bytes :: "byte list \<Rightarrow> OsString" where
  "os_str_from_bytes bs = (if utf8_valid bs then str_of bs else [])"

definition os_string_from_vec :: "byte list \<Rightarrow> OsString" where
  "os_string_from_vec bs = str_of (utf8_lossy bs)"

definition os_string_into_vec :: "OsString \<Rightarrow> byte list" where
  "os_string_into_vec s = (case os_string_into_string s of Inr t \<Rightarrow> bytes_of t | Inl _ \<Rightarrow> [])"

section \<open>Properties\<close>

text \<open>An \<open>OsString\<close> is always well-formed UTF-8: \<open>from_vec\<close> makes it so from any bytes, and bytes that are
well-formed come back unchanged from \<open>into_vec\<close> and from \<open>as_bytes\<close> of \<open>from_bytes\<close>.\<close>

theorem os_string_utf8:
  "utf8_valid (os_string_into_vec (os_string_from_vec bs)) \<and>
   utf8_valid (os_str_as_bytes (os_str_from_bytes bs)) \<and>
   (os_string_into_vec (os_string_from_vec bs) = bs \<longleftrightarrow> utf8_valid bs) \<and>
   (os_str_as_bytes (os_str_from_bytes bs) = (if utf8_valid bs then bs else []))"
  using utf8_lossy_valid [of bs] utf8_lossy_valid_id [of bs]
  by (auto simp: os_string_into_vec_def os_string_from_vec_def os_string_into_string_def os_str_as_bytes_def
      os_str_from_bytes_def)

end
