(* ===== verification/Times.thy ===== *)
theory Times
  imports Syscalls
begin

text \<open>
  \<open>src/time.rs\<close>: \<open>Instant\<close> and \<open>SystemTime\<close> over the \<open>Duration\<close> of the core library,
  whose constructor and checked arithmetic are written out here. A \<open>Duration\<close> is whole
  seconds in 64 bits and nanoseconds below 10^9 in 32 bits; both clocks are durations
  since their origin. \<^term>\<open>None\<close> as the outer result of a total operation is the panic of
  its \<open>expect\<close>.
\<close>

section \<open>\<open>Duration\<close>\<close>

record Duration =
  d_secs :: u64
  d_nanos :: u32

abbreviation NANOS_PER_SEC :: nat where "NANOS_PER_SEC \<equiv> 1000000000"

definition duration_zero :: Duration where
  "duration_zero = \<lparr> d_secs = 0, d_nanos = 0 \<rparr>"

text \<open>\<open>u64::checked_add\<close> and \<open>checked_sub\<close>.\<close>

definition u64_checked_add :: "u64 \<Rightarrow> u64 \<Rightarrow> u64 option" where
  "u64_checked_add a b = (if unat a + unat b < 2 ^ 64 then Some (a + b) else None)"

definition u64_checked_sub :: "u64 \<Rightarrow> u64 \<Rightarrow> u64 option" where
  "u64_checked_sub a b = (if b \<le> a then Some (a - b) else None)"

definition duration_new :: "u64 \<Rightarrow> u32 \<Rightarrow> Duration option" where
  "duration_new secs nanos =
     (if unat nanos < NANOS_PER_SEC then Some \<lparr> d_secs = secs, d_nanos = nanos \<rparr>
      else do {
        s \<leftarrow> u64_checked_add secs (of_nat (unat nanos div NANOS_PER_SEC));
        Some \<lparr> d_secs = s, d_nanos = of_nat (unat nanos mod NANOS_PER_SEC) \<rparr>
      })"

definition duration_checked_add :: "Duration \<Rightarrow> Duration \<Rightarrow> Duration option" where
  "duration_checked_add a b = do {
     secs \<leftarrow> u64_checked_add (d_secs a) (d_secs b);
     let nanos = unat (d_nanos a) + unat (d_nanos b);
     (if nanos \<ge> NANOS_PER_SEC
      then do { s \<leftarrow> u64_checked_add secs 1; Some \<lparr> d_secs = s, d_nanos = of_nat (nanos - NANOS_PER_SEC) \<rparr> }
      else Some \<lparr> d_secs = secs, d_nanos = of_nat nanos \<rparr>)
   }"

definition duration_checked_sub :: "Duration \<Rightarrow> Duration \<Rightarrow> Duration option" where
  "duration_checked_sub a b = do {
     secs \<leftarrow> u64_checked_sub (d_secs a) (d_secs b);
     (if d_nanos a \<ge> d_nanos b
      then Some \<lparr> d_secs = secs, d_nanos = d_nanos a - d_nanos b \<rparr>
      else do {
        s \<leftarrow> u64_checked_sub secs 1;
        Some \<lparr> d_secs = s, d_nanos = of_nat (unat (d_nanos a) + NANOS_PER_SEC - unat (d_nanos b)) \<rparr>
      })
   }"

section \<open>The clocks\<close>

definition now_since_epoch :: "'k platform \<Rightarrow> 'k \<Rightarrow> ('k \<times> Duration) option" where
  "now_since_epoch P k =
     (case sys_gettimeofday P k of
        (k', Inr (secs, usecs)) \<Rightarrow>
          (if unat (ucast usecs :: u32) * 1000 < 2 ^ 32
           then do { d \<leftarrow> duration_new secs (ucast usecs * 1000); Some (k', d) }
           else None)
      | (k', Inl _) \<Rightarrow> Some (k', duration_zero))"

definition monotonic_now :: "'k platform \<Rightarrow> 'k \<Rightarrow> ('k \<times> Duration) option" where
  "monotonic_now P k = do {
     (k', secs, nanos) \<leftarrow> sys_monotonic P k;
     d \<leftarrow> duration_new secs nanos;
     Some (k', d)
   }"

section \<open>\<open>Instant\<close>\<close>

datatype Instant = Instant Duration

fun instant_dur :: "Instant \<Rightarrow> Duration" where
  "instant_dur (Instant d) = d"

definition instant_now :: "'k platform \<Rightarrow> 'k \<Rightarrow> ('k \<times> Instant) option" where
  "instant_now P k = do { (k', d) \<leftarrow> monotonic_now P k; Some (k', Instant d) }"

definition instant_duration_since :: "Instant \<Rightarrow> Instant \<Rightarrow> Duration" where
  "instant_duration_since self earlier =
     (case duration_checked_sub (instant_dur self) (instant_dur earlier) of Some d \<Rightarrow> d | None \<Rightarrow> duration_zero)"

definition instant_elapsed :: "'k platform \<Rightarrow> 'k \<Rightarrow> Instant \<Rightarrow> ('k \<times> Duration) option" where
  "instant_elapsed P k self = do { (k', n) \<leftarrow> instant_now P k; Some (k', instant_duration_since n self) }"

definition instant_checked_duration_since :: "Instant \<Rightarrow> Instant \<Rightarrow> Duration option" where
  "instant_checked_duration_since self earlier = duration_checked_sub (instant_dur self) (instant_dur earlier)"

definition instant_saturating_duration_since :: "Instant \<Rightarrow> Instant \<Rightarrow> Duration" where
  "instant_saturating_duration_since self earlier = instant_duration_since self earlier"

definition instant_checked_add :: "Instant \<Rightarrow> Duration \<Rightarrow> Instant option" where
  "instant_checked_add self dur = map_option Instant (duration_checked_add (instant_dur self) dur)"

definition instant_checked_sub :: "Instant \<Rightarrow> Duration \<Rightarrow> Instant option" where
  "instant_checked_sub self dur = map_option Instant (duration_checked_sub (instant_dur self) dur)"

text \<open>The operators: a \<^term>\<open>None\<close> is the panic of \<open>expect\<close>.\<close>

definition instant_add :: "Instant \<Rightarrow> Duration \<Rightarrow> Instant option" where
  "instant_add self dur = instant_checked_add self dur"

definition instant_sub :: "Instant \<Rightarrow> Duration \<Rightarrow> Instant option" where
  "instant_sub self dur = instant_checked_sub self dur"

definition instant_minus :: "Instant \<Rightarrow> Instant \<Rightarrow> Duration" where
  "instant_minus self earlier = instant_duration_since self earlier"

section \<open>\<open>SystemTime\<close>\<close>

datatype SystemTime = SystemTime Duration
datatype SystemTimeError = SystemTimeError Duration

fun system_time_dur :: "SystemTime \<Rightarrow> Duration" where
  "system_time_dur (SystemTime d) = d"

fun system_time_error_duration :: "SystemTimeError \<Rightarrow> Duration" where
  "system_time_error_duration (SystemTimeError d) = d"

definition UNIX_EPOCH :: SystemTime where
  "UNIX_EPOCH = SystemTime duration_zero"

definition system_time_now :: "'k platform \<Rightarrow> 'k \<Rightarrow> ('k \<times> SystemTime) option" where
  "system_time_now P k = do { (k', d) \<leftarrow> now_since_epoch P k; Some (k', SystemTime d) }"

definition system_time_duration_since :: "SystemTime \<Rightarrow> SystemTime \<Rightarrow> (SystemTimeError + Duration) option" where
  "system_time_duration_since self earlier =
     (case duration_checked_sub (system_time_dur self) (system_time_dur earlier) of
        Some d \<Rightarrow> Some (Inr d)
      | None \<Rightarrow> do {
          d \<leftarrow> duration_checked_sub (system_time_dur earlier) (system_time_dur self);
          Some (Inl (SystemTimeError d))
        })"

definition system_time_elapsed :: "'k platform \<Rightarrow> 'k \<Rightarrow> SystemTime \<Rightarrow> ('k \<times> (SystemTimeError + Duration)) option" where
  "system_time_elapsed P k self = do {
     (k', n) \<leftarrow> system_time_now P k;
     r \<leftarrow> system_time_duration_since n self;
     Some (k', r)
   }"

definition system_time_checked_add :: "SystemTime \<Rightarrow> Duration \<Rightarrow> SystemTime option" where
  "system_time_checked_add self dur = map_option SystemTime (duration_checked_add (system_time_dur self) dur)"

definition system_time_checked_sub :: "SystemTime \<Rightarrow> Duration \<Rightarrow> SystemTime option" where
  "system_time_checked_sub self dur = map_option SystemTime (duration_checked_sub (system_time_dur self) dur)"

definition system_time_add :: "SystemTime \<Rightarrow> Duration \<Rightarrow> SystemTime option" where
  "system_time_add self dur = system_time_checked_add self dur"

definition system_time_sub :: "SystemTime \<Rightarrow> Duration \<Rightarrow> SystemTime option" where
  "system_time_sub self dur = system_time_checked_sub self dur"

section \<open>Durations as numbers of nanoseconds\<close>

definition duration_ok :: "Duration \<Rightarrow> bool" where
  "duration_ok d \<longleftrightarrow> unat (d_nanos d) < NANOS_PER_SEC"

definition nanoseconds :: "Duration \<Rightarrow> nat" where
  "nanoseconds d = unat (d_secs d) * NANOS_PER_SEC + unat (d_nanos d)"

lemma unat_u64_bound: "unat (x :: u64) < 2 ^ 64"
  using unsigned_less [of x] by simp

lemma u64_checked_add_unat: "u64_checked_add a b = Some c \<longleftrightarrow> unat a + unat b = unat c"
  using unat_u64_bound [of c] unat_add_lem [of a b]
  by (auto simp: u64_checked_add_def) (metis word_unat_eq_iff)

lemma u64_checked_add_None: "u64_checked_add a b = None \<longleftrightarrow> 2 ^ 64 \<le> unat a + unat b"
  by (auto simp: u64_checked_add_def)

lemma u64_checked_sub_unat: "u64_checked_sub a b = Some c \<longleftrightarrow> unat b + unat c = unat a"
  unfolding u64_checked_sub_def
  by (auto simp: word_le_nat_alt unat_sub_if_size) (metis add_diff_cancel_left' le_add1 unat_sub word_le_nat_alt word_unat_eq_iff)

lemma u64_checked_sub_None: "u64_checked_sub a b = None \<longleftrightarrow> unat a < unat b"
  by (auto simp: u64_checked_sub_def word_le_nat_alt)

lemma nanoseconds_inj: "duration_ok a \<Longrightarrow> duration_ok b \<Longrightarrow> nanoseconds a = nanoseconds b \<Longrightarrow> a = b"
proof -
  assume ok: "duration_ok a" "duration_ok b" and eq: "nanoseconds a = nanoseconds b"
  have "unat (d_secs a) = unat (d_secs b)" "unat (d_nanos a) = unat (d_nanos b)"
    using arg_cong [OF eq, of "\<lambda>n. n div NANOS_PER_SEC"] arg_cong [OF eq, of "\<lambda>n. n mod NANOS_PER_SEC"] ok
    by (simp_all add: nanoseconds_def duration_ok_def)
  then show "a = b" by (cases a; cases b) (simp add: word_unat_eq_iff)
qed

lemma duration_new_spec:
  "duration_new s n = Some d \<Longrightarrow> duration_ok d \<and> nanoseconds d = unat s * NANOS_PER_SEC + unat n"
proof (cases "unat n < NANOS_PER_SEC")
  case False
  assume d: "duration_new s n = Some d"
  have n: "unat n < 2 ^ 32" using unsigned_less [of n] by simp
  obtain t where t: "u64_checked_add s (of_nat (unat n div NANOS_PER_SEC)) = Some t"
      "d = \<lparr> d_secs = t, d_nanos = of_nat (unat n mod NANOS_PER_SEC) \<rparr>"
    using d False by (auto simp: duration_new_def split: bind_splits)
  have "unat t = unat s + unat n div NANOS_PER_SEC"
    using t(1) n by (simp add: u64_checked_add_unat unat_of_nat_u64)
  moreover have "unat (of_nat (unat n mod NANOS_PER_SEC) :: u32) = unat n mod NANOS_PER_SEC"
    by (intro unat_of_nat_u32) (meson mod_less_divisor less_trans zero_less_numeral numeral_less_iff order.strict_trans1 n mod_less_eq_dividend)
  ultimately show ?thesis using t(2) by (simp add: duration_ok_def nanoseconds_def add_mult_distrib)
qed (auto simp: duration_new_def duration_ok_def nanoseconds_def)

lemma duration_checked_add_spec:
  assumes "duration_ok a" "duration_ok b"
  shows "case duration_checked_add a b of
           Some c \<Rightarrow> duration_ok c \<and> nanoseconds c = nanoseconds a + nanoseconds b
         | None \<Rightarrow> 2 ^ 64 * NANOS_PER_SEC \<le> nanoseconds a + nanoseconds b"
proof (cases "u64_checked_add (d_secs a) (d_secs b)")
  case None
  then have "2 ^ 64 \<le> unat (d_secs a) + unat (d_secs b)" by (simp add: u64_checked_add_None)
  then have "2 ^ 64 * NANOS_PER_SEC \<le> nanoseconds a + nanoseconds b" by (simp add: nanoseconds_def)
  then show ?thesis using None by (simp add: duration_checked_add_def)
next
  case (Some s)
  then have s: "unat s = unat (d_secs a) + unat (d_secs b)" by (simp add: u64_checked_add_unat)
  let ?n = "unat (d_nanos a) + unat (d_nanos b)"
  have n: "?n < 2 * NANOS_PER_SEC" using assms by (simp add: duration_ok_def)
  show ?thesis
  proof (cases "?n \<ge> NANOS_PER_SEC")
    case True
    have m: "unat (of_nat (?n - NANOS_PER_SEC) :: u32) = ?n - NANOS_PER_SEC" using n by (intro unat_of_nat_u32) simp
    show ?thesis
    proof (cases "u64_checked_add s 1")
      case None
      then have "2 ^ 64 \<le> unat s + 1" by (simp add: u64_checked_add_None)
      then show ?thesis using Some None True s by (simp add: duration_checked_add_def nanoseconds_def)
    next
      case (Some s')
      then have "unat s' = unat s + 1" by (simp add: u64_checked_add_unat)
      then show ?thesis using \<open>u64_checked_add (d_secs a) (d_secs b) = Some s\<close> Some True s m n
        by (simp add: duration_checked_add_def nanoseconds_def duration_ok_def)
    qed
  next
    case False
    have "unat (of_nat ?n :: u32) = ?n" using n by (intro unat_of_nat_u32) simp
    then show ?thesis using Some False s by (simp add: duration_checked_add_def nanoseconds_def duration_ok_def)
  qed
qed

lemma duration_checked_sub_spec:
  assumes "duration_ok a" "duration_ok b"
  shows "case duration_checked_sub a b of
           Some c \<Rightarrow> duration_ok c \<and> nanoseconds b + nanoseconds c = nanoseconds a
         | None \<Rightarrow> nanoseconds a < nanoseconds b"
proof (cases "u64_checked_sub (d_secs a) (d_secs b)")
  case None
  then have "unat (d_secs a) < unat (d_secs b)" by (simp add: u64_checked_sub_None)
  then have "nanoseconds a < nanoseconds b" using assms by (simp add: nanoseconds_def duration_ok_def)
  then show ?thesis using None by (simp add: duration_checked_sub_def)
next
  case (Some s)
  then have s: "unat (d_secs a) = unat (d_secs b) + unat s" by (simp add: u64_checked_sub_unat)
  show ?thesis
  proof (cases "d_nanos a \<ge> d_nanos b")
    case True
    then have "unat (d_nanos a - d_nanos b) = unat (d_nanos a) - unat (d_nanos b)" by (rule unat_sub)
    then show ?thesis using Some True s assms
      by (simp add: duration_checked_sub_def nanoseconds_def duration_ok_def word_le_nat_alt)
  next
    case False
    then have n: "unat (d_nanos a) < unat (d_nanos b)" by (simp add: word_le_nat_alt)
    then have m: "unat (of_nat (unat (d_nanos a) + NANOS_PER_SEC - unat (d_nanos b)) :: u32)
        = unat (d_nanos a) + NANOS_PER_SEC - unat (d_nanos b)"
      using assms by (intro unat_of_nat_u32) (simp add: duration_ok_def)
    show ?thesis
    proof (cases "u64_checked_sub s 1")
      case None
      then have "unat s = 0" by (simp add: u64_checked_sub_None)
      then show ?thesis using Some None False s n by (simp add: duration_checked_sub_def nanoseconds_def)
    next
      case (Some s')
      then have "unat s = 1 + unat s'" by (simp add: u64_checked_sub_unat)
      then show ?thesis using \<open>u64_checked_sub (d_secs a) (d_secs b) = Some s\<close> Some False s m n assms
        by (simp add: duration_checked_sub_def nanoseconds_def duration_ok_def)
    qed
  qed
qed

section \<open>Properties\<close>

text \<open>C40: The clocks compute exactly with nanoseconds: a \<open>SystemTime\<close> difference never panics and is \<open>Ok\<close> of the
difference or \<open>Err\<close> of the reversed one, an \<open>Instant\<close> difference saturates at zero, adding a duration is
exact and undone by subtracting it, and it is refused only when the sum does not fit.\<close>

theorem time_arithmetic:
  assumes "duration_ok a" "duration_ok b" "duration_ok d"
  shows "(case system_time_duration_since (SystemTime a) (SystemTime b) of
            Some (Inr x) \<Rightarrow> nanoseconds b + nanoseconds x = nanoseconds a
          | Some (Inl (SystemTimeError x)) \<Rightarrow> nanoseconds a + nanoseconds x = nanoseconds b \<and> 0 < nanoseconds x
          | None \<Rightarrow> False) \<and>
         nanoseconds (instant_duration_since (Instant a) (Instant b)) = nanoseconds a - nanoseconds b \<and>
         (case instant_checked_add (Instant a) d of
            Some j \<Rightarrow> nanoseconds (instant_dur j) = nanoseconds a + nanoseconds d \<and> instant_checked_sub j d = Some (Instant a)
          | None \<Rightarrow> 2 ^ 64 * NANOS_PER_SEC \<le> nanoseconds a + nanoseconds d)"
proof (intro conjI)
  note sub = duration_checked_sub_spec [OF assms(1,2)] duration_checked_sub_spec [OF assms(2,1)]
  show "case system_time_duration_since (SystemTime a) (SystemTime b) of
            Some (Inr x) \<Rightarrow> nanoseconds b + nanoseconds x = nanoseconds a
          | Some (Inl (SystemTimeError x)) \<Rightarrow> nanoseconds a + nanoseconds x = nanoseconds b \<and> 0 < nanoseconds x
          | None \<Rightarrow> False"
    using sub by (auto simp: system_time_duration_since_def split: option.splits)
  show "nanoseconds (instant_duration_since (Instant a) (Instant b)) = nanoseconds a - nanoseconds b"
    using sub(1) by (auto simp: instant_duration_since_def duration_zero_def nanoseconds_def [of "\<lparr> d_secs = 0, d_nanos = 0 \<rparr>"] split: option.splits)
  show "case instant_checked_add (Instant a) d of
            Some j \<Rightarrow> nanoseconds (instant_dur j) = nanoseconds a + nanoseconds d \<and> instant_checked_sub j d = Some (Instant a)
          | None \<Rightarrow> 2 ^ 64 * NANOS_PER_SEC \<le> nanoseconds a + nanoseconds d"
  proof (cases "duration_checked_add a d")
    case None
    then show ?thesis using duration_checked_add_spec [OF assms(1,3)] by (simp add: instant_checked_add_def)
  next
    case (Some c)
    then have c: "duration_ok c" "nanoseconds c = nanoseconds a + nanoseconds d"
      using duration_checked_add_spec [OF assms(1,3)] by auto
    then obtain a' where a': "duration_checked_sub c d = Some a'" "duration_ok a'" "nanoseconds a' = nanoseconds a"
      using duration_checked_sub_spec [OF c(1) assms(3)] by (auto split: option.splits)
    then have "a' = a" using nanoseconds_inj assms(1) by blast
    then show ?thesis using Some c a' by (simp add: instant_checked_add_def instant_checked_sub_def)
  qed
qed

theorem time_arithmetic_witness:
  "duration_ok \<lparr> d_secs = 5, d_nanos = 999999999 \<rparr> \<and>
   (case instant_checked_add (Instant \<lparr> d_secs = 5, d_nanos = 999999999 \<rparr>) \<lparr> d_secs = 0, d_nanos = 2 \<rparr> of
      Some j \<Rightarrow> nanoseconds (instant_dur j) = 6000000001 | None \<Rightarrow> False)"
proof -
  let ?a = "\<lparr> d_secs = 5, d_nanos = 999999999 \<rparr>" and ?d = "\<lparr> d_secs = 0, d_nanos = 2 \<rparr>"
  have ok: "duration_ok ?a" "duration_ok ?d" by (simp_all add: duration_ok_def)
  have "nanoseconds ?a = 5999999999" "nanoseconds ?d = 2" by (simp_all add: nanoseconds_def)
  then show ?thesis using time_arithmetic [OF ok(1) ok(2) ok(2)] ok(1) by (auto split: option.splits)
qed

end
