(* ===== verification/Fs.thy ===== *)
theory Fs
  imports Os_Strings Times
begin

text \<open>
  \<open>src/fs.rs\<close>: files, metadata, directories. Operations take the kernel's state and
  return the new one; those that loop can fail to return (\<^term>\<open>None\<close>), and so can those
  that read a directory record out of range. A \<open>File\<close> or \<open>ReadDir\<close> that goes out of scope
  closes its descriptor, which the operations below do explicitly where the source does
  it by \<open>Drop\<close>.
\<close>

section \<open>Files\<close>

definition cpath :: "string \<Rightarrow> Error + string" where
  "cpath path = (case cstring_new path of Inl _ \<Rightarrow> Inl (error_from_kind InvalidInput) | Inr c \<Rightarrow> Inr c)"

record File =
  f_fd :: i32

record OpenOptions =
  oo_read :: bool
  oo_write :: bool
  oo_append :: bool
  oo_truncate :: bool
  oo_create :: bool

definition open_options_new :: OpenOptions where
  "open_options_new = \<lparr> oo_read = False, oo_write = False, oo_append = False, oo_truncate = False, oo_create = False \<rparr>"

definition open_options_read :: "OpenOptions \<Rightarrow> bool \<Rightarrow> OpenOptions" where
  "open_options_read self v = self \<lparr> oo_read := v \<rparr>"

definition open_options_write :: "OpenOptions \<Rightarrow> bool \<Rightarrow> OpenOptions" where
  "open_options_write self v = self \<lparr> oo_write := v \<rparr>"

definition open_options_append :: "OpenOptions \<Rightarrow> bool \<Rightarrow> OpenOptions" where
  "open_options_append self v = self \<lparr> oo_append := v \<rparr>"

definition open_options_truncate :: "OpenOptions \<Rightarrow> bool \<Rightarrow> OpenOptions" where
  "open_options_truncate self v = self \<lparr> oo_truncate := v \<rparr>"

definition open_options_create :: "OpenOptions \<Rightarrow> bool \<Rightarrow> OpenOptions" where
  "open_options_create self v = self \<lparr> oo_create := v \<rparr>"

definition open_flags :: "target \<Rightarrow> OpenOptions \<Rightarrow> u64" where
  "open_flags t self =
     (let flags = (case (oo_read self, oo_write self \<or> oo_append self) of
                     (True, True) \<Rightarrow> O_RDWR | (False, True) \<Rightarrow> O_WRONLY | _ \<Rightarrow> O_RDONLY);
          flags = (if oo_create self then flags OR O_CREAT t else flags);
          flags = (if oo_truncate self then flags OR O_TRUNC t else flags) in
      (if oo_append self then flags OR O_APPEND t else flags))"

definition open_options_open :: "'k platform \<Rightarrow> 'k \<Rightarrow> OpenOptions \<Rightarrow> string \<Rightarrow> 'k \<times> (Error + File)" where
  "open_options_open P k self path =
     (case cpath path of
        Inl e \<Rightarrow> (k, Inl e)
      | Inr c \<Rightarrow>
          (case sys_open P k c (open_flags (p_target P) self) 0x1A4 of
             (k', r) \<Rightarrow> (k', map_ok (\<lambda>fd. \<lparr> f_fd = fd \<rparr>) (io_result r))))"

definition file_open :: "'k platform \<Rightarrow> 'k \<Rightarrow> string \<Rightarrow> 'k \<times> (Error + File)" where
  "file_open P k path = open_options_open P k (open_options_read open_options_new True) path"

definition file_create :: "'k platform \<Rightarrow> 'k \<Rightarrow> string \<Rightarrow> 'k \<times> (Error + File)" where
  "file_create P k path =
     open_options_open P k
       (open_options_truncate (open_options_create (open_options_write open_options_new True) True) True) path"

definition file_as_raw_fd :: "File \<Rightarrow> i32" where
  "file_as_raw_fd self = f_fd self"

definition file_set_len :: "'k platform \<Rightarrow> 'k \<Rightarrow> File \<Rightarrow> u64 \<Rightarrow> 'k \<times> (Error + unit)" where
  "file_set_len P k self n = (case sys_ftruncate P k (f_fd self) n of (k', r) \<Rightarrow> (k', io_result r))"

definition file_sync_all :: "'k platform \<Rightarrow> 'k \<Rightarrow> File \<Rightarrow> 'k \<times> (Error + unit)" where
  "file_sync_all P k self = (case sys_fsync P k (f_fd self) of (k', r) \<Rightarrow> (k', io_result r))"

definition file_sync_data :: "'k platform \<Rightarrow> 'k \<Rightarrow> File \<Rightarrow> 'k \<times> (Error + unit)" where
  "file_sync_data P k self = (case sys_fsync P k (f_fd self) of (k', r) \<Rightarrow> (k', io_result r))"

definition file_drop :: "'k platform \<Rightarrow> 'k \<Rightarrow> File \<Rightarrow> 'k" where
  "file_drop P k self = fst (sys_close P k (f_fd self))"

definition file_read :: "'k platform \<Rightarrow> File \<Rightarrow> 'k \<Rightarrow> byte list \<Rightarrow> ('k \<times> byte list \<times> (Error + nat)) option" where
  "file_read P self k buf = fd_read P (f_fd self) k buf"

definition file_read_vectored ::
    "'k platform \<Rightarrow> File \<Rightarrow> 'k \<Rightarrow> byte list list \<Rightarrow> ('k \<times> byte list list \<times> (Error + nat)) option" where
  "file_read_vectored P self k bufs = fd_read_vectored P (f_fd self) k bufs"

definition file_write :: "'k platform \<Rightarrow> File \<Rightarrow> 'k \<Rightarrow> byte list \<Rightarrow> ('k \<times> (Error + nat)) option" where
  "file_write P self k buf = fd_write P (f_fd self) k buf"

definition file_write_vectored :: "'k platform \<Rightarrow> File \<Rightarrow> 'k \<Rightarrow> byte list list \<Rightarrow> ('k \<times> (Error + nat)) option" where
  "file_write_vectored P self k bufs = fd_write_vectored P (f_fd self) k bufs"

definition file_seek :: "'k platform \<Rightarrow> File \<Rightarrow> 'k \<Rightarrow> SeekFrom \<Rightarrow> 'k \<times> (Error + u64)" where
  "file_seek P self k p = fd_seek P (f_fd self) k p"

section \<open>Whole-file helpers\<close>

definition fs_read :: "'k platform \<Rightarrow> 'k \<Rightarrow> string \<Rightarrow> ('k \<times> (Error + byte list)) option" where
  "fs_read P k path =
     (case file_open P k path of
        (k1, Inl e) \<Rightarrow> Some (k1, Inl e)
      | (k1, Inr f) \<Rightarrow> do {
          (k2, buf, r) \<leftarrow> read_to_end (p_target P) (file_read P f) k1 [];
          Some (file_drop P k2 f, map_ok (\<lambda>_. buf) r)
        })"

definition fs_read_to_string :: "'k platform \<Rightarrow> 'k \<Rightarrow> string \<Rightarrow> ('k \<times> (Error + byte list)) option" where
  "fs_read_to_string P k path =
     (case file_open P k path of
        (k1, Inl e) \<Rightarrow> Some (k1, Inl e)
      | (k1, Inr f) \<Rightarrow> do {
          (k2, s, r) \<leftarrow> read_to_string (p_target P) (file_read P f) k1 [];
          Some (file_drop P k2 f, map_ok (\<lambda>_. s) r)
        })"

definition fs_write :: "'k platform \<Rightarrow> 'k \<Rightarrow> string \<Rightarrow> byte list \<Rightarrow> ('k \<times> (Error + unit)) option" where
  "fs_write P k path contents =
     (case file_create P k path of
        (k1, Inl e) \<Rightarrow> Some (k1, Inl e)
      | (k1, Inr f) \<Rightarrow> do {
          (k2, r) \<leftarrow> write_all (p_target P) (file_write P f) k1 contents;
          Some (file_drop P k2 f, r)
        })"

text \<open>The helpers that pass one path to one system call.\<close>

definition on_cpath :: "'k \<Rightarrow> string \<Rightarrow> (string \<Rightarrow> 'k \<times> (Errno + 'a)) \<Rightarrow> 'k \<times> (Error + 'a)" where
  "on_cpath k path call =
     (case cpath path of Inl e \<Rightarrow> (k, Inl e) | Inr c \<Rightarrow> (case call c of (k', r) \<Rightarrow> (k', io_result r)))"

definition remove_file :: "'k platform \<Rightarrow> 'k \<Rightarrow> string \<Rightarrow> 'k \<times> (Error + unit)" where
  "remove_file P k path = on_cpath k path (sys_unlink P k)"

definition create_dir :: "'k platform \<Rightarrow> 'k \<Rightarrow> string \<Rightarrow> 'k \<times> (Error + unit)" where
  "create_dir P k path = on_cpath k path (\<lambda>c. sys_mkdir P k c 0x1ED)"

definition remove_dir :: "'k platform \<Rightarrow> 'k \<Rightarrow> string \<Rightarrow> 'k \<times> (Error + unit)" where
  "remove_dir P k path = on_cpath k path (sys_rmdir P k)"

definition fs_rename :: "'k platform \<Rightarrow> 'k \<Rightarrow> string \<Rightarrow> string \<Rightarrow> 'k \<times> (Error + unit)" where
  "fs_rename P k from to =
     (case cpath from of
        Inl e \<Rightarrow> (k, Inl e)
      | Inr a \<Rightarrow> on_cpath k to (sys_rename P k a))"

text \<open>
  \<open>fs::copy\<close>: the source and the target are descriptors of the same kernel, so reading and
  writing thread one state; \<open>io::copy\<close> is the loop of \<open>copy_loop\<close> over that shared state.
\<close>

partial_function (option) file_copy_loop ::
    "'k platform \<Rightarrow> File \<Rightarrow> File \<Rightarrow> 'k \<Rightarrow> byte list \<Rightarrow> u64 \<Rightarrow> ('k \<times> (Error + u64)) option" where
  "file_copy_loop P src dst k buf tot = do {
     (k1, buf1, res) \<leftarrow> file_read P src k buf;
     (case res of
        Inr n \<Rightarrow>
          if n = 0 then Some (k1, Inr tot)
          else do {
            s \<leftarrow> slice_range buf1 0 n;
            (k2, wres) \<leftarrow> write_all (p_target P) (file_write P dst) k1 s;
            (case wres of
               Inl e \<Rightarrow> Some (k2, Inl e)
             | Inr _ \<Rightarrow> file_copy_loop P src dst k2 buf1 (tot + of_nat n))
          }
      | Inl e \<Rightarrow>
          if error_kind (p_target P) e = Interrupted then file_copy_loop P src dst k1 buf1 tot
          else Some (k1, Inl e))
   }"

definition fs_copy :: "'k platform \<Rightarrow> 'k \<Rightarrow> string \<Rightarrow> string \<Rightarrow> ('k \<times> (Error + u64)) option" where
  "fs_copy P k from to =
     (case file_open P k from of
        (k1, Inl e) \<Rightarrow> Some (k1, Inl e)
      | (k1, Inr src) \<Rightarrow>
          (case file_create P k1 to of
             (k2, Inl e) \<Rightarrow> Some (file_drop P k2 src, Inl e)
           | (k2, Inr dst) \<Rightarrow> do {
               (k3, r) \<leftarrow> file_copy_loop P src dst k2 (replicate 8192 0) 0;
               Some (file_drop P (file_drop P k3 dst) src, r)
             }))"

section \<open>Metadata\<close>

definition S_IFMT :: u32 where "S_IFMT = 0xF000"
definition S_IFREG :: u32 where "S_IFREG = 0x8000"
definition S_IFDIR :: u32 where "S_IFDIR = 0x4000"
definition S_IFLNK :: u32 where "S_IFLNK = 0xA000"

text \<open>A field of the \<open>struct stat\<close> buffer, whose offsets differ per target.\<close>

definition stat_field :: "nat \<Rightarrow> nat \<Rightarrow> byte list \<Rightarrow> 'a::len word option" where
  "stat_field off n b = map_option from_le_bytes (slice_range b off (off + n))"

definition st_mode :: "target \<Rightarrow> byte list \<Rightarrow> u32 option" where
  "st_mode t b =
     (if is_macos t then map_option (\<lambda>m :: u16. ucast m) (stat_field 4 2 b)
      else if t = Linux_x86_64 then stat_field 24 4 b
      else stat_field 16 4 b)"

definition ST_SIZE_OFF :: "target \<Rightarrow> nat" where
  "ST_SIZE_OFF t = (if is_macos t then 96 else 48)"

definition ST_MTIME_OFF :: "target \<Rightarrow> nat" where
  "ST_MTIME_OFF t = (if is_macos t then 48 else 88)"

definition ST_UID_OFF :: "target \<Rightarrow> nat" where
  "ST_UID_OFF t = (if is_macos t then 16 else if t = Linux_x86_64 then 28 else 24)"

definition read_i64 :: "byte list \<Rightarrow> nat \<Rightarrow> i64 option" where
  "read_i64 b off = stat_field off 8 b"

definition read_time_secs :: "byte list \<Rightarrow> nat \<Rightarrow> i64 option" where
  "read_time_secs b off = read_i64 b off"

datatype FileType = FileType u32

fun file_type_is_file :: "FileType \<Rightarrow> bool" where
  "file_type_is_file (FileType m) = (m AND S_IFMT = S_IFREG)"

fun file_type_is_dir :: "FileType \<Rightarrow> bool" where
  "file_type_is_dir (FileType m) = (m AND S_IFMT = S_IFDIR)"

fun file_type_is_symlink :: "FileType \<Rightarrow> bool" where
  "file_type_is_symlink (FileType m) = (m AND S_IFMT = S_IFLNK)"

datatype Permissions = Permissions u32

fun permissions_readonly :: "Permissions \<Rightarrow> bool" where
  "permissions_readonly (Permissions m) = (m AND 0x92 = 0)"

fun permissions_set_readonly :: "Permissions \<Rightarrow> bool \<Rightarrow> Permissions" where
  "permissions_set_readonly (Permissions m) ro = Permissions (if ro then m AND NOT 0x92 else m OR 0x80)"

fun permissions_mode :: "Permissions \<Rightarrow> u32" where
  "permissions_mode (Permissions m) = m"

definition permissions_from_mode :: "u32 \<Rightarrow> Permissions" where
  "permissions_from_mode m = Permissions (m AND 0xFFF)"

record Metadata =
  md_raw :: "byte list"

definition metadata_file_type :: "target \<Rightarrow> Metadata \<Rightarrow> FileType option" where
  "metadata_file_type t self = map_option (\<lambda>m. FileType (m AND S_IFMT)) (st_mode t (md_raw self))"

definition metadata_is_file :: "target \<Rightarrow> Metadata \<Rightarrow> bool option" where
  "metadata_is_file t self = map_option file_type_is_file (metadata_file_type t self)"

definition metadata_is_dir :: "target \<Rightarrow> Metadata \<Rightarrow> bool option" where
  "metadata_is_dir t self = map_option file_type_is_dir (metadata_file_type t self)"

definition metadata_is_symlink :: "target \<Rightarrow> Metadata \<Rightarrow> bool option" where
  "metadata_is_symlink t self = map_option file_type_is_symlink (metadata_file_type t self)"

definition metadata_len :: "target \<Rightarrow> Metadata \<Rightarrow> u64 option" where
  "metadata_len t self = read_i64 (md_raw self) (ST_SIZE_OFF t)"

definition metadata_permissions :: "target \<Rightarrow> Metadata \<Rightarrow> Permissions option" where
  "metadata_permissions t self = map_option (\<lambda>m. Permissions (m AND 0xFFF)) (st_mode t (md_raw self))"

definition metadata_modified :: "target \<Rightarrow> Metadata \<Rightarrow> SystemTime option" where
  "metadata_modified t self = do {
     secs \<leftarrow> read_time_secs (md_raw self) (ST_MTIME_OFF t);
     system_time_add UNIX_EPOCH \<lparr> d_secs = secs, d_nanos = 0 \<rparr>
   }"

definition metadata_mode :: "target \<Rightarrow> Metadata \<Rightarrow> u32 option" where
  "metadata_mode t self = st_mode t (md_raw self)"

definition metadata_uid :: "target \<Rightarrow> Metadata \<Rightarrow> u32 option" where
  "metadata_uid t self = stat_field (ST_UID_OFF t) 4 (md_raw self)"

definition metadata_gid :: "target \<Rightarrow> Metadata \<Rightarrow> u32 option" where
  "metadata_gid t self = stat_field (ST_UID_OFF t + 4) 4 (md_raw self)"

definition metadata_ino :: "Metadata \<Rightarrow> u64 option" where
  "metadata_ino self = stat_field 8 8 (md_raw self)"

definition file_metadata :: "'k platform \<Rightarrow> 'k \<Rightarrow> File \<Rightarrow> 'k \<times> (Error + Metadata)" where
  "file_metadata P k self =
     (case sys_fstat P k (f_fd self) of (k', r) \<Rightarrow> (k', map_ok (\<lambda>b. \<lparr> md_raw = b \<rparr>) (io_result r)))"

definition fs_metadata :: "'k platform \<Rightarrow> 'k \<Rightarrow> string \<Rightarrow> 'k \<times> (Error + Metadata)" where
  "fs_metadata P k path =
     (case on_cpath k path (\<lambda>c. sys_statat P k c True) of (k', r) \<Rightarrow> (k', map_ok (\<lambda>b. \<lparr> md_raw = b \<rparr>) r))"

definition symlink_metadata :: "'k platform \<Rightarrow> 'k \<Rightarrow> string \<Rightarrow> 'k \<times> (Error + Metadata)" where
  "symlink_metadata P k path =
     (case on_cpath k path (\<lambda>c. sys_statat P k c False) of (k', r) \<Rightarrow> (k', map_ok (\<lambda>b. \<lparr> md_raw = b \<rparr>) r))"

text \<open>The kernel's \<open>stat\<close> buffer has 256 bytes, so no field is out of range.\<close>

lemma stat_field_total: "length b = 256 \<Longrightarrow> off + n \<le> 256 \<Longrightarrow> \<exists>v. stat_field off n b = Some v"
  by (simp add: stat_field_def slice_range_Some)

section \<open>Properties\<close>

lemma reliable_file:
  assumes "read_contract P (f_fd f) kinv stream eintr" "only_eintr P kinv READ (W (i32_usize (f_fd f)))"
  shows "reliable_reader t (file_read P f) kinv stream (\<lambda>_. 0)"
proof -
  have "file_read P f = fd_read P (f_fd f)" by (simp add: fun_eq_iff file_read_def)
  then show ?thesis using fd_reliable [OF assms] by (simp add: reliable_buffered_def)
qed

text \<open>C39: \<open>fs::read\<close> of a file that could be opened ends, closes the descriptor and returns all its bytes,
through short and interrupted reads; \<open>fs::read_to_string\<close> returns them when they are UTF-8 and fails with
\<open>InvalidData\<close> otherwise.\<close>

theorem fs_read_all:
  assumes "file_open P k path = (k1, Inr f)" "kinv k1"
    and "read_contract P (f_fd f) kinv stream eintr" "only_eintr P kinv READ (W (i32_usize (f_fd f)))"
  shows "\<exists>k2. kinv k2 \<and> stream k2 = [] \<and> fs_read P k path = Some (file_drop P k2 f, Inr (stream k1)) \<and>
     fs_read_to_string P k path =
       Some (file_drop P k2 f, if utf8_valid (stream k1) then Inr (stream k1) else Inl (error_from_kind InvalidData))"
proof -
  obtain k2 where "read_to_end (p_target P) (file_read P f) k1 [] = Some (k2, stream k1, Inr (length (stream k1)))"
      "kinv k2" "stream k2 = []"
    using reliable_reader.read_to_end_all [OF reliable_file [OF assms(3,4)] assms(2), of "p_target P" "[]"] by auto
  then show ?thesis
    using assms(1) by (intro exI [of _ k2]) (simp add: fs_read_def fs_read_to_string_def read_to_string_def)
qed

text \<open>The slow terminal of the stream examples, with every open giving descriptor 0.\<close>

definition slow_disk :: "(byte list \<times> nat \<times> byte list) platform" where
  "slow_disk = slow_tty \<lparr> p_syscall := (\<lambda>k call args. if call = OPENAT then (k, 0, []) else slow_tty_call k call args) \<rparr>"

theorem fs_read_all_witness:
  "\<exists>k f. fs_read slow_disk ([104, 105], 2, []) ''/f'' = Some (file_drop slow_disk k f, Inr [104, 105]) \<and>
     fs_read_to_string slow_disk ([104, 105], 2, []) ''/f'' = Some (file_drop slow_disk k f, Inr [104, 105])"
proof -
  let ?k = "([104, 105], 2, [])" and ?f = "\<lparr> f_fd = 0 \<rparr>"
  have "cpath ''/f'' = Inr ''/f''" by code_simp
  then have o: "file_open slow_disk ?k ''/f'' = (?k, Inr ?f)"
    by (simp add: file_open_def open_options_open_def sys_open_def slow_disk_def slow_tty_def from_ret_def)
  have r: "read_contract slow_disk (f_fd ?f) (\<lambda>_. True) (\<lambda>(inp, _, _). inp) (\<lambda>(_, sig, _). sig)"
    using slow_tty_read [of "f_fd ?f"] unfolding read_contract_def slow_disk_def slow_tty_def by simp
  have e: "only_eintr slow_disk (\<lambda>_. True) READ (W (i32_usize (f_fd ?f)))"
    using slow_tty_only_eintr [of READ "W (i32_usize (f_fd ?f))"] unfolding only_eintr_def slow_disk_def slow_tty_def by simp
  have "utf8_valid [104, 105]" by code_simp
  then show ?thesis using fs_read_all [OF o _ r e] by auto
qed

end
