(* ===== verification/Fs_Dir.thy ===== *)
theory Fs_Dir
  imports Fs
begin

text \<open>
  The directory part of \<open>src/fs.rs\<close>: \<open>read_dir\<close>, which decodes the records the kernel
  writes into a buffer, and the recursive helpers. The decoding is related to the
  record layout of \<^verbatim>\<open>getdents64(2)\<close>, written out as an encoder.
\<close>

section \<open>Directory entries\<close>

definition DT_DIR :: byte where "DT_DIR = 4"
definition DT_REG :: byte where "DT_REG = 8"
definition DT_LNK :: byte where "DT_LNK = 10"

record DirEntry =
  de_name :: string
  de_type :: byte
  de_parent :: string

definition dir_entry_path :: "DirEntry \<Rightarrow> string" where
  "dir_entry_path self = path_join (de_parent self) (de_name self)"

definition dir_entry_metadata :: "'k platform \<Rightarrow> 'k \<Rightarrow> DirEntry \<Rightarrow> 'k \<times> (Error + Metadata)" where
  "dir_entry_metadata P k self = symlink_metadata P k (dir_entry_path self)"

definition dir_entry_file_type :: "'k platform \<Rightarrow> 'k \<Rightarrow> DirEntry \<Rightarrow> ('k \<times> (Error + FileType)) option" where
  "dir_entry_file_type P k self =
     (if de_type self = DT_DIR then Some (k, Inr (FileType S_IFDIR))
      else if de_type self = DT_REG then Some (k, Inr (FileType S_IFREG))
      else if de_type self = DT_LNK then Some (k, Inr (FileType S_IFLNK))
      else case symlink_metadata P k (dir_entry_path self) of
             (k', Inl e) \<Rightarrow> Some (k', Inl e)
           | (k', Inr m) \<Rightarrow> do { ft \<leftarrow> metadata_file_type (p_target P) m; Some (k', Inr ft) })"

record ReadDir =
  rd_fd :: i32
  rd_parent :: string
  rd_buf :: "byte list"
  rd_pos :: nat
  rd_cap :: nat

definition read_dir_drop :: "'k platform \<Rightarrow> 'k \<Rightarrow> ReadDir \<Rightarrow> 'k" where
  "read_dir_drop P k self = fst (sys_close P k (rd_fd self))"

definition read_dir :: "'k platform \<Rightarrow> 'k \<Rightarrow> string \<Rightarrow> 'k \<times> (Error + ReadDir)" where
  "read_dir P k path =
     (case cpath path of
        Inl e \<Rightarrow> (k, Inl e)
      | Inr c \<Rightarrow>
          (case sys_open P k c O_RDONLY 0 of
             (k', r) \<Rightarrow>
               (k', map_ok (\<lambda>fd. \<lparr> rd_fd = fd, rd_parent = path, rd_buf = replicate 4096 0, rd_pos = 0, rd_cap = 0 \<rparr>)
                      (io_result r))))"

text \<open>The type byte and the name bytes of the record \<open>rec\<close>, for the two layouts.\<close>

definition dirent_fields :: "target \<Rightarrow> byte list \<Rightarrow> nat \<Rightarrow> (byte \<times> byte list) option" where
  "dirent_fields t rec reclen =
     (if is_macos t
      then do {
        l0 \<leftarrow> index_at rec 18; l1 \<leftarrow> index_at rec 19;
        ty \<leftarrow> index_at rec 20;
        name \<leftarrow> slice_range rec 21 (21 + unat (from_le_bytes [l0, l1] :: u16));
        Some (ty, name)
      }
      else do {
        ty \<leftarrow> index_at rec 18;
        tail \<leftarrow> slice_range rec 19 reclen;
        let e = (case byte_position 0 tail of Some i \<Rightarrow> 19 + i | None \<Rightarrow> reclen);
        name \<leftarrow> slice_range rec 19 e;
        Some (ty, name)
      })"

text \<open>The body of the loop after the refill: the entry, or \<^term>\<open>None\<close> when the loop goes on.\<close>

definition read_dir_record :: "target \<Rightarrow> ReadDir \<Rightarrow> (ReadDir \<times> DirEntry option) option" where
  "read_dir_record t self = do {
     rec \<leftarrow> slice_range (rd_buf self) (rd_pos self) (rd_cap self);
     b0 \<leftarrow> index_at rec 16; b1 \<leftarrow> index_at rec 17;
     let reclen = unat (from_le_bytes [b0, b1] :: u16);
     (if reclen = 0 \<or> rd_pos self + reclen > rd_cap self then Some (self \<lparr> rd_pos := rd_cap self \<rparr>, None)
      else do {
        (ty, name_bytes) \<leftarrow> dirent_fields t rec reclen;
        let name = str_of (utf8_lossy name_bytes);
        let self' = self \<lparr> rd_pos := rd_pos self + reclen \<rparr>;
        (if name = ''.'' \<or> name = ''..'' then Some (self', None)
         else Some (self', Some \<lparr> de_name = name, de_type = ty, de_parent = rd_parent self \<rparr>))
      })
   }"

partial_function (option) read_dir_next ::
    "'k platform \<Rightarrow> 'k \<Rightarrow> ReadDir \<Rightarrow> ('k \<times> ReadDir \<times> (Error + DirEntry) option) option" where
  "read_dir_next P k self =
     (if rd_pos self \<ge> rd_cap self
      then case sys_getdirentries P k (rd_fd self) (rd_buf self) of
             (k', buf, Inl e) \<Rightarrow> Some (k', self \<lparr> rd_buf := buf \<rparr>, Some (Inl (error_from_errno e)))
           | (k', buf, Inr n) \<Rightarrow>
               (if n = 0 then Some (k', self \<lparr> rd_buf := buf \<rparr>, None)
                else do {
                  (self', item) \<leftarrow> read_dir_record (p_target P) (self \<lparr> rd_buf := buf, rd_cap := unat n, rd_pos := 0 \<rparr>);
                  (case item of Some d \<Rightarrow> Some (k', self', Some (Inr d)) | None \<Rightarrow> read_dir_next P k' self')
                })
      else do {
        (self', item) \<leftarrow> read_dir_record (p_target P) self;
        (case item of Some d \<Rightarrow> Some (k, self', Some (Inr d)) | None \<Rightarrow> read_dir_next P k self')
      })"

section \<open>Recursive helpers\<close>

text \<open>\<open>metadata(p).map(|m| m.is_dir()).unwrap_or(false)\<close>.\<close>

definition path_is_dir :: "'k platform \<Rightarrow> 'k \<Rightarrow> string \<Rightarrow> ('k \<times> bool) option" where
  "path_is_dir P k p =
     (case fs_metadata P k p of
        (k', Inl _) \<Rightarrow> Some (k', False)
      | (k', Inr m) \<Rightarrow> do { b \<leftarrow> metadata_is_dir (p_target P) m; Some (k', b) })"

definition create_dir_tolerant :: "'k platform \<Rightarrow> 'k \<Rightarrow> string \<Rightarrow> 'k \<times> (Error + unit)" where
  "create_dir_tolerant P k p =
     (case create_dir P k p of
        (k', Inr _) \<Rightarrow> (k', Inr ())
      | (k', Inl e) \<Rightarrow> (k', if error_kind (p_target P) e = AlreadyExists then Inr () else Inl e))"

function create_dir_all :: "'k platform \<Rightarrow> 'k \<Rightarrow> string \<Rightarrow> ('k \<times> (Error + unit)) option" where
  "create_dir_all P k p = do {
     (k1, d) \<leftarrow> path_is_dir P k p;
     (if d then Some (k1, Inr ())
      else case parent p of
        Some q \<Rightarrow>
          if q \<noteq> [] then do {
            (k2, r) \<leftarrow> create_dir_all P k1 q;
            (case r of Inl e \<Rightarrow> Some (k2, Inl e) | Inr _ \<Rightarrow> Some (create_dir_tolerant P k2 p))
          }
          else Some (create_dir_tolerant P k1 p)
      | None \<Rightarrow> Some (create_dir_tolerant P k1 p))
   }"
  by pat_completeness auto
termination by (relation "measure (\<lambda>(P, k, p). length p)") (auto simp: parent_shorter)

declare create_dir_all.simps [simp del]

text \<open>
  \<open>remove_dir_all\<close>: the loop over the entries, given the recursive call, and the recursion
  with a bound on the depth of the tree; \<^term>\<open>None\<close> stands for a deeper tree. A path has at
  most 4096 bytes, so no tree the kernel can name is deeper than that.
\<close>

partial_function (option) remove_entries ::
    "('k \<Rightarrow> string \<Rightarrow> ('k \<times> (Error + unit)) option) \<Rightarrow> 'k platform \<Rightarrow> 'k \<Rightarrow> ReadDir \<Rightarrow> ('k \<times> (Error + unit)) option" where
  "remove_entries recur P k rd = do {
     (k1, rd1, item) \<leftarrow> read_dir_next P k rd;
     (case item of
        None \<Rightarrow> Some (read_dir_drop P k1 rd1, Inr ())
      | Some (Inl e) \<Rightarrow> Some (read_dir_drop P k1 rd1, Inl e)
      | Some (Inr entry) \<Rightarrow> do {
          (k2, ft) \<leftarrow> dir_entry_file_type P k1 entry;
          (case ft of
             Inl e \<Rightarrow> Some (read_dir_drop P k2 rd1, Inl e)
           | Inr ty \<Rightarrow> do {
               (k3, r) \<leftarrow> (if file_type_is_dir ty then recur k2 (dir_entry_path entry)
                           else Some (remove_file P k2 (dir_entry_path entry)));
               (case r of
                  Inl e \<Rightarrow> Some (read_dir_drop P k3 rd1, Inl e)
                | Inr _ \<Rightarrow> remove_entries recur P k3 rd1)
             })
        })
   }"

primrec remove_dir_all :: "nat \<Rightarrow> 'k platform \<Rightarrow> 'k \<Rightarrow> string \<Rightarrow> ('k \<times> (Error + unit)) option" where
  "remove_dir_all 0 P k p = None"
| "remove_dir_all (Suc depth) P k p =
     (case read_dir P k p of
        (k1, Inl e) \<Rightarrow> Some (k1, Inl e)
      | (k1, Inr rd) \<Rightarrow> do {
          (k2, r) \<leftarrow> remove_entries (remove_dir_all depth P) P k1 rd;
          Some (case r of Inl e \<Rightarrow> (k2, Inl e) | Inr _ \<Rightarrow> remove_dir P k2 p)
        })"

section \<open>The record layout\<close>

text \<open>A \<open>linux_dirent64\<close>: inode and offset, record length, type, name, NUL, padding.\<close>

record dirent =
  dn_head :: "byte list"
  dn_type :: byte
  dn_name :: "byte list"
  dn_pad :: "byte list"

definition dirent_len :: "dirent \<Rightarrow> nat" where
  "dirent_len d = 20 + length (dn_name d) + length (dn_pad d)"

definition encode_dirent :: "dirent \<Rightarrow> byte list" where
  "encode_dirent d =
     dn_head d @ to_le_bytes 2 (of_nat (dirent_len d) :: u16) @ dn_type d # dn_name d @ 0 # dn_pad d"

definition dirent_ok :: "dirent \<Rightarrow> bool" where
  "dirent_ok d \<longleftrightarrow> length (dn_head d) = 16 \<and> 0 \<notin> set (dn_name d) \<and> dirent_len d < 2 ^ 16"

definition dirent_entry :: "string \<Rightarrow> dirent \<Rightarrow> DirEntry" where
  "dirent_entry dir d = \<lparr> de_name = str_of (utf8_lossy (dn_name d)), de_type = dn_type d, de_parent = dir \<rparr>"

definition is_dot :: "dirent \<Rightarrow> bool" where
  "is_dot d \<longleftrightarrow> str_of (utf8_lossy (dn_name d)) \<in> {''.'', ''..''}"

lemma length_encode_dirent: "dirent_ok d \<Longrightarrow> length (encode_dirent d) = dirent_len d"
  by (simp add: encode_dirent_def dirent_ok_def dirent_len_def)

lemma byte_position_name:
  assumes "0 \<notin> set name"
  shows "byte_position 0 (name @ 0 # rest) = Some (length name)"
proof -
  have "takeWhile (\<lambda>b. b \<noteq> 0) (name @ 0 # rest) = name @ takeWhile (\<lambda>b. b \<noteq> 0) (0 # rest)"
    using assms by (intro takeWhile_append2) auto
  then show ?thesis by (simp add: byte_position_def)
qed

text \<open>The record at the position of the buffer is decoded to its entry.\<close>

lemma read_dir_record_decodes:
  assumes t: "\<not> is_macos t" and d: "dirent_ok d"
    and buf: "rd_pos rd \<le> rd_cap rd" "rd_cap rd \<le> length (rd_buf rd)"
      "take (rd_cap rd - rd_pos rd) (drop (rd_pos rd) (rd_buf rd)) = encode_dirent d @ rest"
  shows "read_dir_record t rd =
     Some (rd \<lparr> rd_pos := rd_pos rd + dirent_len d \<rparr>, if is_dot d then None else Some (dirent_entry (rd_parent rd) d))"
proof -
  let ?rec = "encode_dirent d @ rest"
  let ?lb = "to_le_bytes 2 (of_nat (dirent_len d) :: u16)"
  have h: "length (dn_head d) = 16" "0 \<notin> set (dn_name d)" "dirent_len d < 2 ^ 16" using d by (auto simp: dirent_ok_def)
  have slice: "slice_range (rd_buf rd) (rd_pos rd) (rd_cap rd) = Some ?rec" using buf by (simp add: slice_range_Some)
  have len: "rd_pos rd + dirent_len d \<le> rd_cap rd"
    using arg_cong [OF buf(3), of length] buf(1,2) length_encode_dirent [OF d] by simp
  have bytes: "?lb = [?lb ! 0, ?lb ! 1]" by (simp add: numeral_2_eq_2)
  have idx: "index_at ?rec 16 = Some (?lb ! 0)" "index_at ?rec 17 = Some (?lb ! 1)" "index_at ?rec 18 = Some (dn_type d)"
    using h(1) by (simp_all add: index_at_def encode_dirent_def nth_append)
  have "from_le_bytes [?lb ! 0, ?lb ! 1] = (of_nat (dirent_len d) :: u16)"
    using from_to_le_bytes [of 2 "of_nat (dirent_len d) :: u16"] bytes by simp
  moreover have "unat (of_nat (dirent_len d) :: u16) = dirent_len d"
    using h(3) by (simp add: unsigned_of_nat take_bit_nat_eq_self)
  ultimately have reclen: "unat (from_le_bytes [?lb ! 0, ?lb ! 1] :: u16) = dirent_len d" by simp
  have rec: "?rec = (dn_head d @ ?lb @ [dn_type d]) @ (dn_name d @ 0 # dn_pad d) @ rest" by (simp add: encode_dirent_def)
  have pre: "length (dn_head d @ ?lb @ [dn_type d]) = 19" using h(1) by simp
  have tl: "slice_range ?rec 19 (dirent_len d) = Some (dn_name d @ 0 # dn_pad d)"
    unfolding rec using pre by (simp add: slice_range_def dirent_len_def)
  have name: "slice_range ?rec 19 (19 + length (dn_name d)) = Some (dn_name d)"
    unfolding rec using pre by (simp add: slice_range_def)
  have fields: "dirent_fields t ?rec (dirent_len d) = Some (dn_type d, dn_name d)"
    using t idx(3) tl name byte_position_name [OF h(2)] by (simp add: dirent_fields_def)
  have "dirent_len d \<noteq> 0" by (simp add: dirent_len_def)
  then show ?thesis
    using slice idx reclen len fields
    by (simp add: read_dir_record_def Let_def is_dot_def dirent_entry_def)
qed

section \<open>Reading a whole directory\<close>

text \<open>The items a \<open>for\<close> loop over \<open>read_dir\<close> sees.\<close>

partial_function (option) read_dir_collect ::
    "'k platform \<Rightarrow> 'k \<Rightarrow> ReadDir \<Rightarrow> ('k \<times> ReadDir \<times> (Error + DirEntry) list) option" where
  "read_dir_collect P k rd = do {
     (k1, rd1, item) \<leftarrow> read_dir_next P k rd;
     (case item of
        None \<Rightarrow> Some (k1, rd1, [])
      | Some x \<Rightarrow> do { (k2, rd2, xs) \<leftarrow> read_dir_collect P k1 rd1; Some (k2, rd2, x # xs) })
   }"

text \<open>
  What \<^verbatim>\<open>getdents64(2)\<close> promises on descriptor \<open>fd\<close>: \<open>chunks k\<close> are the groups of records it has
  yet to deliver, one group of whole records per call, then zero.
\<close>

definition getdents_contract :: "'k platform \<Rightarrow> i32 \<Rightarrow> ('k \<Rightarrow> bool) \<Rightarrow> ('k \<Rightarrow> dirent list list) \<Rightarrow> bool" where
  "getdents_contract P fd kinv chunks \<longleftrightarrow>
     (\<forall>k buf k' r ws. kinv k \<longrightarrow> length buf = 4096 \<longrightarrow>
        p_syscall P k GETDENTS64 [W (i32_usize fd), Out buf, W (of_nat (length buf))] = (k', r, ws) \<longrightarrow>
        kinv k' \<and>
        (case chunks k of
           [] \<Rightarrow> r = 0 \<and> chunks k' = []
         | c # cs \<Rightarrow> chunks k' = cs \<and> c \<noteq> [] \<and> (\<forall>d\<in>set c. dirent_ok d) \<and>
             length (concat (map encode_dirent c)) \<le> 4096 \<and> r = of_nat (length (concat (map encode_dirent c))) \<and>
             (\<exists>ws'. ws = concat (map encode_dirent c) # ws')))"

definition rd_pending :: "ReadDir \<Rightarrow> dirent list \<Rightarrow> bool" where
  "rd_pending rd c \<longleftrightarrow> rd_pos rd \<le> rd_cap rd \<and> rd_cap rd \<le> length (rd_buf rd) \<and> length (rd_buf rd) = 4096 \<and>
     take (rd_cap rd - rd_pos rd) (drop (rd_pos rd) (rd_buf rd)) = concat (map encode_dirent c) \<and>
     (\<forall>d\<in>set c. dirent_ok d)"

lemma encode_dirent_nonempty: "encode_dirent d \<noteq> []"
  by (simp add: encode_dirent_def)

lemma rd_pending_Nil: "rd_pending rd [] \<Longrightarrow> rd_pos rd = rd_cap rd"
  by (auto simp: rd_pending_def)

lemma rd_pending_Cons:
  assumes "rd_pending rd (d # c)" "\<not> is_macos t"
  shows "rd_pos rd < rd_cap rd"
    "\<exists>rd'. read_dir_record t rd = Some (rd', if is_dot d then None else Some (dirent_entry (rd_parent rd) d)) \<and>
       rd_pending rd' c \<and> rd_parent rd' = rd_parent rd \<and> rd_fd rd' = rd_fd rd"
proof -
  have p: "rd_pos rd \<le> rd_cap rd" "rd_cap rd \<le> length (rd_buf rd)" "length (rd_buf rd) = 4096" "dirent_ok d"
    "take (rd_cap rd - rd_pos rd) (drop (rd_pos rd) (rd_buf rd)) = encode_dirent d @ concat (map encode_dirent c)"
    "\<forall>d\<in>set c. dirent_ok d"
    using assms(1) by (simp_all add: rd_pending_def)
  show "rd_pos rd < rd_cap rd"
  proof (rule ccontr)
    assume "\<not> rd_pos rd < rd_cap rd"
    then have "take (rd_cap rd - rd_pos rd) (drop (rd_pos rd) (rd_buf rd)) = []" by simp
    then show False using p(5) encode_dirent_nonempty by simp
  qed
  have e: "length (encode_dirent d) = dirent_len d" by (rule length_encode_dirent [OF p(4)])
  have le: "dirent_len d \<le> rd_cap rd - rd_pos rd" using arg_cong [OF p(5), of length] p(1,2) e by simp
  have "drop (dirent_len d) (take (rd_cap rd - rd_pos rd) (drop (rd_pos rd) (rd_buf rd))) = concat (map encode_dirent c)"
    unfolding p(5) using e by simp
  then have "take (rd_cap rd - (rd_pos rd + dirent_len d)) (drop (rd_pos rd + dirent_len d) (rd_buf rd))
      = concat (map encode_dirent c)"
    by (simp add: drop_take add.commute)
  then have "rd_pending (rd \<lparr> rd_pos := rd_pos rd + dirent_len d \<rparr>) c" using p le by (simp add: rd_pending_def)
  then show "\<exists>rd'. read_dir_record t rd = Some (rd', if is_dot d then None else Some (dirent_entry (rd_parent rd) d)) \<and>
       rd_pending rd' c \<and> rd_parent rd' = rd_parent rd \<and> rd_fd rd' = rd_fd rd"
    using read_dir_record_decodes [OF assms(2) p(4,1,2,5)] by simp
qed

lemma getdents_refill:
  assumes c: "getdents_contract P fd kinv chunks" "\<not> is_macos (p_target P)" and k: "kinv k"
    and rd: "rd_fd rd = fd" "length (rd_buf rd) = 4096"
  shows "\<exists>k' buf r. sys_getdirentries P k fd (rd_buf rd) = (k', buf, Inr r) \<and> kinv k' \<and> length buf = 4096 \<and>
     (case chunks k of
        [] \<Rightarrow> r = 0
      | c # cs \<Rightarrow> r \<noteq> 0 \<and> chunks k' = cs \<and> c \<noteq> [] \<and> rd_pending (rd \<lparr> rd_buf := buf, rd_cap := unat r, rd_pos := 0 \<rparr>) c)"
proof -
  obtain k' r ws where call: "p_syscall P k GETDENTS64 [W (i32_usize fd), Out (rd_buf rd), W (of_nat (length (rd_buf rd)))] = (k', r, ws)"
    by (metis prod_cases3)
  have sys: "sys_getdirentries P k fd (rd_buf rd) = (k', out_buf (rd_buf rd) ws 0, from_ret r)"
    using c(2) call by (simp add: sys_getdirentries_def)
  have law: "kinv k'" "case chunks k of
           [] \<Rightarrow> r = 0 \<and> chunks k' = []
         | c # cs \<Rightarrow> chunks k' = cs \<and> c \<noteq> [] \<and> (\<forall>d\<in>set c. dirent_ok d) \<and>
             length (concat (map encode_dirent c)) \<le> 4096 \<and> r = of_nat (length (concat (map encode_dirent c))) \<and>
             (\<exists>ws'. ws = concat (map encode_dirent c) # ws')"
    using c(1) k call rd(2) unfolding getdents_contract_def by blast+
  show ?thesis
  proof (cases "chunks k")
    case Nil
    then show ?thesis using sys law rd(2) by (simp add: from_ret_def)
  next
    case (Cons c cs)
    let ?b = "concat (map encode_dirent c)"
    obtain ws' where w: "chunks k' = cs" "c \<noteq> []" "\<forall>d\<in>set c. dirent_ok d" "length ?b \<le> 4096" "r = of_nat (length ?b)" "ws = ?b # ws'"
      using law(2) Cons by auto
    have u: "unat (of_nat (length ?b) :: u64) = length ?b" using w(4) by (intro unat_of_nat_u64) simp
    have "?b \<noteq> []" using w(2) encode_dirent_nonempty by (cases c) auto
    then have nz: "r \<noteq> 0" using u w(5) by (metis length_0_conv unat_0)
    have "from_ret r = Inr r" using w(4,5) from_ret_ok [of "length ?b"] by simp
    moreover have "take (length ?b) (out_buf (rd_buf rd) ws 0) = ?b" using w(4,6) rd(2) by (simp add: out_buf_take)
    ultimately show ?thesis using sys law(1) w nz Cons u rd(2) by (simp add: rd_pending_def)
  qed
qed

lemma read_dir_next_spec:
  assumes c: "getdents_contract P fd kinv chunks" "\<not> is_macos (p_target P)"
  shows "kinv k \<Longrightarrow> rd_fd rd = fd \<Longrightarrow> rd_pending rd c \<Longrightarrow>
    \<exists>k' rd' item. read_dir_next P k rd = Some (k', rd', item) \<and>
      (case dropWhile is_dot (c @ concat (chunks k)) of
         [] \<Rightarrow> item = None
       | d # ds \<Rightarrow> item = Some (Inr (dirent_entry (rd_parent rd) d)) \<and> kinv k' \<and> rd_fd rd' = fd \<and>
           rd_parent rd' = rd_parent rd \<and> (\<exists>c'. rd_pending rd' c' \<and> c' @ concat (chunks k') = ds))"
proof (induction "length c + length (concat (chunks k)) + length (chunks k)" arbitrary: k rd c rule: less_induct)
  case less
  have buf: "length (rd_buf rd) = 4096" using less.prems(3) by (simp add: rd_pending_def)
  show ?case
  proof (cases c)
    case Nil
    have pos: "rd_pos rd = rd_cap rd" using rd_pending_Nil less.prems(3) Nil by simp
    obtain k1 buf1 r where g: "sys_getdirentries P k fd (rd_buf rd) = (k1, buf1, Inr r)" "kinv k1" "length buf1 = 4096"
      "case chunks k of [] \<Rightarrow> r = 0
       | c # cs \<Rightarrow> r \<noteq> 0 \<and> chunks k1 = cs \<and> c \<noteq> [] \<and> rd_pending (rd \<lparr> rd_buf := buf1, rd_cap := unat r, rd_pos := 0 \<rparr>) c"
      using getdents_refill [OF c less.prems(1,2) buf] by blast
    show ?thesis
    proof (cases "chunks k")
      case [simp]: Nil
      have "read_dir_next P k rd = Some (k1, rd \<lparr> rd_buf := buf1 \<rparr>, None)"
        using g pos less.prems(2) by (subst read_dir_next.simps) simp
      then show ?thesis using \<open>c = []\<close> by simp
    next
      case (Cons c1 cs)
      let ?rd = "rd \<lparr> rd_buf := buf1, rd_cap := unat r, rd_pos := 0 \<rparr>"
      have g1: "r \<noteq> 0" "chunks k1 = cs" "rd_pending ?rd c1" using g(4) Cons by auto
      obtain d ds where c1: "c1 = d # ds" using g(4) Cons by (cases c1) auto
      have "0 < unat r" using g1(1) by (simp add: unat_gt_0)
      then have eq: "read_dir_next P k rd = read_dir_next P k1 ?rd"
        using g(1) g1(1) pos less.prems(2)
        by (subst (1 2) read_dir_next.simps) simp
      have lt: "length c1 + length (concat (chunks k1)) + length (chunks k1)
          < length c + length (concat (chunks k)) + length (chunks k)"
        using Cons g1(2) Nil by simp
      have all: "c @ concat (chunks k) = c1 @ concat (chunks k1)" "rd_parent rd = rd_parent ?rd" using Cons g1(2) Nil by simp_all
      have "rd_fd ?rd = fd" using less.prems(2) by simp
      then show ?thesis unfolding eq all by (rule less.hyps [OF lt g(2) _ g1(3)])
    qed
  next
    case (Cons d ds)
    have pend: "rd_pending rd (d # ds)" using less.prems(3) Cons by simp
    obtain rd1 where r1: "read_dir_record (p_target P) rd = Some (rd1, if is_dot d then None else Some (dirent_entry (rd_parent rd) d))"
      "rd_pending rd1 ds" "rd_parent rd1 = rd_parent rd" "rd_fd rd1 = rd_fd rd" "rd_pos rd < rd_cap rd"
      using rd_pending_Cons [OF pend c(2)] by blast
    show ?thesis
    proof (cases "is_dot d")
      case True
      then have eq: "read_dir_next P k rd = read_dir_next P k rd1"
        using r1(1,5) by (subst read_dir_next.simps) simp
      have all: "dropWhile is_dot (c @ concat (chunks k)) = dropWhile is_dot (ds @ concat (chunks k))" using Cons True by simp
      have "length ds + length (concat (chunks k)) + length (chunks k) < length c + length (concat (chunks k)) + length (chunks k)"
        using Cons by simp
      moreover have "rd_fd rd1 = fd" using r1(4) less.prems(2) by simp
      ultimately show ?thesis unfolding eq all r1(3) [symmetric] using less.hyps [OF _ less.prems(1) _ r1(2)] by blast
    next
      case False
      then have "read_dir_next P k rd = Some (k, rd1, Some (Inr (dirent_entry (rd_parent rd) d)))"
        using r1(1,5) by (subst read_dir_next.simps) simp
      then show ?thesis using r1 less.prems Cons False by auto
    qed
  qed
qed

lemma filter_not_dropWhile: "filter (\<lambda>x. \<not> Q x) xs = filter (\<lambda>x. \<not> Q x) (dropWhile Q xs)"
  by (induction xs) auto

lemma read_dir_collect_spec:
  assumes c: "getdents_contract P fd kinv chunks" "\<not> is_macos (p_target P)"
  shows "kinv k \<Longrightarrow> rd_fd rd = fd \<Longrightarrow> rd_pending rd c \<Longrightarrow>
    \<exists>k' rd'. read_dir_collect P k rd =
      Some (k', rd', map (\<lambda>d. Inr (dirent_entry (rd_parent rd) d)) (filter (\<lambda>d. \<not> is_dot d) (c @ concat (chunks k))))"
proof (induction "length (c @ concat (chunks k))" arbitrary: k rd c rule: less_induct)
  case less
  let ?all = "c @ concat (chunks k)"
  obtain k1 rd1 item where n: "read_dir_next P k rd = Some (k1, rd1, item)"
    "case dropWhile is_dot ?all of
         [] \<Rightarrow> item = None
       | d # ds \<Rightarrow> item = Some (Inr (dirent_entry (rd_parent rd) d)) \<and> kinv k1 \<and> rd_fd rd1 = fd \<and>
           rd_parent rd1 = rd_parent rd \<and> (\<exists>c'. rd_pending rd1 c' \<and> c' @ concat (chunks k1) = ds)"
    using read_dir_next_spec [OF c less.prems] by blast
  have f: "filter (\<lambda>d. \<not> is_dot d) ?all = filter (\<lambda>d. \<not> is_dot d) (dropWhile is_dot ?all)" by (rule filter_not_dropWhile)
  show ?case
  proof (cases "dropWhile is_dot ?all")
    case Nil
    have "item = None" using n(2) unfolding Nil by simp
    moreover have "filter (\<lambda>d. \<not> is_dot d) ?all = []" unfolding f Nil by simp
    ultimately show ?thesis using n(1) by (subst read_dir_collect.simps) (simp only: bind.bind_lunit prod.case option.case list.map, blast)
  next
    case (Cons d ds)
    obtain c' where c': "rd_pending rd1 c'" "c' @ concat (chunks k1) = ds" "item = Some (Inr (dirent_entry (rd_parent rd) d))"
        "kinv k1" "rd_fd rd1 = fd" "rd_parent rd1 = rd_parent rd"
      using n(2) Cons by auto
    have "length (d # ds) \<le> length ?all" unfolding Cons [symmetric] by (rule length_dropWhile_le)
    then have lt: "length (c' @ concat (chunks k1)) < length ?all" unfolding c'(2) by simp
    obtain k2 rd2 where ih: "read_dir_collect P k1 rd1 = Some (k2, rd2, map (\<lambda>d. Inr (dirent_entry (rd_parent rd1) d)) (filter (\<lambda>d. \<not> is_dot d) ds))"
      using less.hyps [OF lt c'(4,5,1)] unfolding c'(2) by blast
    have nd: "\<not> is_dot d" using Cons by (metis hd_dropWhile list.distinct(1) list.sel(1))
    have "read_dir_collect P k rd = Some (k2, rd2, Inr (dirent_entry (rd_parent rd) d) # map (\<lambda>d. Inr (dirent_entry (rd_parent rd1) d)) (filter (\<lambda>d. \<not> is_dot d) ds))"
      using n(1) c'(3) ih by (subst read_dir_collect.simps) simp
    then show ?thesis unfolding f Cons c'(6) using nd by simp
  qed
qed

section \<open>Properties\<close>

text \<open>C38: On Linux a directory opened by \<open>read_dir\<close> is read to its end without a panic, and its items are the
records of the kernel in their order, however they are grouped into calls, without \<open>.\<close> and \<open>..\<close>: every name
decoded from the record and attached to the opened path.\<close>

theorem read_dir_all:
  assumes "getdents_contract P fd kinv chunks" "\<not> is_macos (p_target P)"
    and "read_dir P k path = (k1, Inr rd)" "rd_fd rd = fd" "kinv k1"
  shows "\<exists>k' rd'. read_dir_collect P k1 rd =
      Some (k', rd', map (\<lambda>d. Inr (dirent_entry path d)) (filter (\<lambda>d. \<not> is_dot d) (concat (chunks k1))))"
proof -
  have "rd_pending rd []" "rd_parent rd = path"
    using assms(3) by (auto simp: read_dir_def rd_pending_def map_ok_def split: sum.splits prod.splits)
  then show ?thesis using read_dir_collect_spec [OF assms(1,2,5,4), of "[]"] by simp
qed

text \<open>A kernel with one directory, whose records it hands out one group per call.\<close>

definition dir_kernel :: "dirent list list platform" where
  "dir_kernel =
     \<lparr> p_target = Linux_x86_64,
       p_syscall = (\<lambda>k call args.
         if call = GETDENTS64
         then (case k of [] \<Rightarrow> ([], 0, [])
               | c # cs \<Rightarrow> (cs, of_nat (length (concat (map encode_dirent c))), [concat (map encode_dirent c)]))
         else (k, 3, [])),
       p_svc2 = (\<lambda>k _. (k, 0, 0, False)) \<rparr>"

definition small_dirents :: "dirent list list \<Rightarrow> bool" where
  "small_dirents k \<longleftrightarrow> (\<forall>c\<in>set k. c \<noteq> [] \<and> (\<forall>d\<in>set c. dirent_ok d) \<and> length (concat (map encode_dirent c)) \<le> 4096)"

lemma dir_kernel_contract: "getdents_contract dir_kernel fd small_dirents (\<lambda>k. k)"
  by (auto simp: getdents_contract_def dir_kernel_def small_dirents_def split: list.splits)

definition demo_dirents :: "dirent list list" where
  "demo_dirents =
     [[\<lparr> dn_head = replicate 16 0, dn_type = 4, dn_name = [46], dn_pad = [0, 0, 0] \<rparr>],
      [\<lparr> dn_head = replicate 16 1, dn_type = 8, dn_name = [97, 98], dn_pad = [0, 0] \<rparr>]]"

theorem read_dir_all_witness:
  "\<exists>rd k' rd' e. read_dir dir_kernel demo_dirents ''/x'' = (demo_dirents, Inr rd) \<and>
     read_dir_collect dir_kernel demo_dirents rd = Some (k', rd', [Inr e]) \<and>
     de_name e = ''ab'' \<and> de_type e = 8 \<and> dir_entry_path e = ''/x/ab''"
proof -
  obtain rd where rd: "read_dir dir_kernel demo_dirents ''/x'' = (demo_dirents, Inr rd)" "rd_fd rd = 3"
  proof -
    have "cpath ''/x'' = Inr ''/x''" by code_simp
    then have "read_dir dir_kernel demo_dirents ''/x'' =
        (demo_dirents, Inr \<lparr> rd_fd = 3, rd_parent = ''/x'', rd_buf = replicate 4096 0, rd_pos = 0, rd_cap = 0 \<rparr>)"
      by (simp add: read_dir_def sys_open_def dir_kernel_def from_ret_def)
    then show thesis using that by simp
  qed
  have "small_dirents demo_dirents"
    by (simp add: small_dirents_def demo_dirents_def dirent_ok_def dirent_len_def encode_dirent_def)
  then have all: "\<exists>k' rd'. read_dir_collect dir_kernel demo_dirents rd =
      Some (k', rd', map (\<lambda>d. Inr (dirent_entry ''/x'' d)) (filter (\<lambda>d. \<not> is_dot d) (concat demo_dirents)))"
    using read_dir_all [OF dir_kernel_contract _ rd(1)] rd(2) by (simp add: dir_kernel_def)
  let ?e = "\<lparr> de_name = ''ab'', de_type = 8, de_parent = ''/x'' \<rparr>"
  have "map (\<lambda>d. Inr (dirent_entry ''/x'' d)) (filter (\<lambda>d. \<not> is_dot d) (concat demo_dirents)) = [Inr ?e :: Error + DirEntry]"
    by (simp add: demo_dirents_def is_dot_def dirent_entry_def str_of_def char_of_def utf8_seq_def bit_Suc_0_iff)
  moreover have "dir_entry_path ?e = ''/x/ab''" by code_simp
  ultimately show ?thesis using rd(1) all by (metis DirEntry.select_convs(1,2))
qed

end
