(* ===== verification/Sip_Hash.thy ===== *)
theory Sip_Hash
  imports Prelude
begin

text \<open>
  The hasher of \<open>src/hash.rs\<close>: the streaming SipHash-1-3 state machine
  (\<open>SipHasher13\<close>), its byte loads, \<open>DefaultHasher\<close>, \<open>RandomState\<close> and the process
  keys. The main result is that every split of the input into \<open>write\<close> calls gives the
  value of the one-shot reference function \<open>siphash_1_3\<close>.
\<close>

section \<open>Byte loads\<close>

text \<open>The loop of \<open>u8to64_le\<close>: \<open>out |= (buf[start + i] as u64) << (8 * i)\<close>.\<close>

function u8to64_le_loop :: "byte list \<Rightarrow> nat \<Rightarrow> nat \<Rightarrow> u64 \<Rightarrow> nat \<Rightarrow> u64 option" where
  "u8to64_le_loop buf start len out i =
     (if i < len then do {
        b \<leftarrow> index_at buf (start + i);
        u8to64_le_loop buf start len (out OR push_bit (8 * i) (ucast b)) (i + 1)
      } else Some out)"
  by pat_completeness auto
termination
  by (relation "measure (\<lambda>(buf, start, len, out, i). len - i)") auto

declare u8to64_le_loop.simps [simp del]

definition u8to64_le :: "byte list \<Rightarrow> nat \<Rightarrow> nat \<Rightarrow> u64 option" where
  "u8to64_le buf start len = u8to64_le_loop buf start len 0 0"

definition load_u64_le :: "byte list \<Rightarrow> nat \<Rightarrow> u64 option" where
  "load_u64_le buf start = do {
     bytes \<leftarrow> slice_range buf start (start + 8);
     Some (from_le_bytes bytes)
   }"

section \<open>The hasher\<close>

definition rotate_left :: "u64 \<Rightarrow> nat \<Rightarrow> u64" where
  "rotate_left w n = push_bit n w OR drop_bit (64 - n) w"

type_synonym sip_vars = "u64 \<times> u64 \<times> u64 \<times> u64"

text \<open>The macro \<open>sipround!\<close>, one assignment per line of the source.\<close>

fun sipround :: "sip_vars \<Rightarrow> sip_vars" where
  "sipround (v0, v1, v2, v3) =
     (let v0 = v0 + v1;
          v1 = rotate_left v1 13;
          v1 = v1 XOR v0;
          v0 = rotate_left v0 32;
          v2 = v2 + v3;
          v3 = rotate_left v3 16;
          v3 = v3 XOR v2;
          v0 = v0 + v3;
          v3 = rotate_left v3 21;
          v3 = v3 XOR v0;
          v2 = v2 + v1;
          v1 = rotate_left v1 17;
          v1 = v1 XOR v2;
          v2 = rotate_left v2 32
      in (v0, v1, v2, v3))"

record SipHasher13 =
  sip_v :: sip_vars
  sip_length :: usize
  sip_tail :: u64
  sip_ntail :: nat

definition new_with_keys :: "u64 \<Rightarrow> u64 \<Rightarrow> SipHasher13" where
  "new_with_keys k0 k1 = \<lparr>
     sip_v = (k0 XOR 0x736f6d6570736575, k1 XOR 0x646f72616e646f6d,
              k0 XOR 0x6c7967656e657261, k1 XOR 0x7465646279746573),
     sip_length = 0, sip_tail = 0, sip_ntail = 0 \<rparr>"

definition sip_new :: SipHasher13 where
  "sip_new = new_with_keys 0 0"

text \<open>\<open>v3 ^= m; sipround!; v0 ^= m\<close>: one compressed block.\<close>

fun sip_block :: "u64 \<Rightarrow> sip_vars \<Rightarrow> sip_vars" where
  "sip_block m (v0, v1, v2, v3) =
     (let (v0, v1, v2, v3) = sipround (v0, v1, v2, v3 XOR m) in (v0 XOR m, v1, v2, v3))"

text \<open>The loop over full 8-byte words of \<open>Hasher::write\<close>.\<close>

function sip_write_loop :: "byte list \<Rightarrow> nat \<Rightarrow> nat \<Rightarrow> sip_vars \<Rightarrow> (sip_vars \<times> nat) option" where
  "sip_write_loop msg stop i v =
     (if i < stop then do {
        mi \<leftarrow> load_u64_le msg i;
        sip_write_loop msg stop (i + 8) (sip_block mi v)
      } else Some (v, i))"
  by pat_completeness auto
termination
  by (relation "measure (\<lambda>(msg, stop, i, v). stop - i)") auto

declare sip_write_loop.simps [simp del]

text \<open>The second half of \<open>Hasher::write\<close>, from \<open>let remaining\<close> on.\<close>

definition sip_write_words :: "SipHasher13 \<Rightarrow> byte list \<Rightarrow> nat \<Rightarrow> SipHasher13 option" where
  "sip_write_words self msg needed = do {
     remaining \<leftarrow> usub (length msg) needed;
     let left = remaining mod 8;
     stop \<leftarrow> usub (length msg) left;
     (v, i) \<leftarrow> sip_write_loop msg stop needed (sip_v self);
     t \<leftarrow> u8to64_le msg i left;
     Some (self \<lparr> sip_v := v, sip_tail := t, sip_ntail := left \<rparr>)
   }"

definition sip_write :: "SipHasher13 \<Rightarrow> byte list \<Rightarrow> SipHasher13 option" where
  "sip_write self0 msg =
     (let len = length msg;
          self = self0 \<lparr> sip_length := sip_length self0 + of_nat len \<rparr>
      in if sip_ntail self \<noteq> 0 then do {
           needed \<leftarrow> usub 8 (sip_ntail self);
           w \<leftarrow> u8to64_le msg 0 (min len needed);
           let tail = sip_tail self OR push_bit (8 * sip_ntail self) w;
           if len < needed
           then Some (self \<lparr> sip_tail := tail, sip_ntail := sip_ntail self + len \<rparr>)
           else sip_write_words
                  (self \<lparr> sip_v := sip_block tail (sip_v self), sip_ntail := 0, sip_tail := 0 \<rparr>)
                  msg needed
         } else sip_write_words self msg 0)"

definition sip_finish :: "SipHasher13 \<Rightarrow> u64" where
  "sip_finish self =
     (let b = push_bit 56 (sip_length self AND 0xff) OR sip_tail self;
          (v0, v1, v2, v3) = sip_block b (sip_v self);
          (v0, v1, v2, v3) = sipround (sipround (sipround (v0, v1, v2 XOR 0xff, v3)))
      in v0 XOR v1 XOR v2 XOR v3)"

text \<open>\<open>DefaultHasher\<close> wraps a \<open>SipHasher13\<close> with fixed keys and delegates.\<close>

datatype DefaultHasher = DefaultHasher SipHasher13

definition default_hasher_new :: DefaultHasher where
  "default_hasher_new = DefaultHasher (new_with_keys 0 0)"

fun default_hasher_write :: "DefaultHasher \<Rightarrow> byte list \<Rightarrow> DefaultHasher option" where
  "default_hasher_write (DefaultHasher h) bytes = map_option DefaultHasher (sip_write h bytes)"

fun default_hasher_finish :: "DefaultHasher \<Rightarrow> u64" where
  "default_hasher_finish (DefaultHasher h) = sip_finish h"

text \<open>
  The process-wide keys: the static \<open>OnceLock\<close> holds the keys of the first call; the
  initialiser takes the outcome of \<open>syscall::getrandom\<close> on a 16-byte buffer and falls
  back to fixed keys when the call failed.
\<close>

definition process_keys_init :: "'e + byte list \<Rightarrow> (u64 \<times> u64) option" where
  "process_keys_init r =
     (case r of
        Inr buf \<Rightarrow> do {
          lo \<leftarrow> slice_range buf 0 8;
          hi \<leftarrow> slice_range buf 8 16;
          Some (from_le_bytes lo, from_le_bytes hi)
        }
      | Inl _ \<Rightarrow> Some (0x0706050403020100, 0x0f0e0d0c0b0a0908))"

definition process_keys ::
    "'e + byte list \<Rightarrow> (u64 \<times> u64) option \<Rightarrow> ((u64 \<times> u64) \<times> (u64 \<times> u64) option) option" where
  "process_keys r keys =
     (case keys of
        Some ks \<Rightarrow> Some (ks, keys)
      | None \<Rightarrow> do { ks \<leftarrow> process_keys_init r; Some (ks, Some ks) })"

record RandomState =
  rs_k0 :: u64
  rs_k1 :: u64

definition random_state_new ::
    "'e + byte list \<Rightarrow> (u64 \<times> u64) option \<Rightarrow> (RandomState \<times> (u64 \<times> u64) option) option" where
  "random_state_new r keys = do {
     ((k0, k1), keys') \<leftarrow> process_keys r keys;
     Some (\<lparr> rs_k0 = k0, rs_k1 = k1 \<rparr>, keys')
   }"

definition build_hasher :: "RandomState \<Rightarrow> SipHasher13" where
  "build_hasher s = new_with_keys (rs_k0 s) (rs_k1 s)"

section \<open>The reference function\<close>

text \<open>
  SipHash-1-3 of a whole message: absorb the full 8-byte little-endian blocks, then one
  block made of the remaining bytes and the message length modulo 256, then three
  finalisation rounds.
\<close>

function sip_absorb :: "byte list \<Rightarrow> sip_vars \<Rightarrow> sip_vars" where
  "sip_absorb msg v =
     (if length msg < 8 then v
      else sip_absorb (drop 8 msg) (sip_block (from_le_bytes (take 8 msg)) v))"
  by pat_completeness auto
termination
  by (relation "measure (\<lambda>(msg, v). length msg)") auto

declare sip_absorb.simps [simp del]

definition sip_rest :: "byte list \<Rightarrow> byte list" where
  "sip_rest msg = drop (8 * (length msg div 8)) msg"

definition sip_init :: "u64 \<Rightarrow> u64 \<Rightarrow> sip_vars" where
  "sip_init k0 k1 = (k0 XOR 0x736f6d6570736575, k1 XOR 0x646f72616e646f6d,
                     k0 XOR 0x6c7967656e657261, k1 XOR 0x7465646279746573)"

definition siphash_1_3 :: "u64 \<Rightarrow> u64 \<Rightarrow> byte list \<Rightarrow> u64" where
  "siphash_1_3 k0 k1 msg =
     (let b = push_bit 56 (of_nat (length msg) AND 0xff) OR from_le_bytes (sip_rest msg);
          (v0, v1, v2, v3) = sip_block b (sip_absorb msg (sip_init k0 k1));
          (v0, v1, v2, v3) = (sipround ^^ 3) (v0, v1, v2 XOR 0xff, v3)
      in v0 XOR v1 XOR v2 XOR v3)"

section \<open>Loads read the bytes they name\<close>

lemma u8to64_le_loop_eq:
  assumes "start + len \<le> length buf" "i \<le> len"
  shows "u8to64_le_loop buf start len (from_le_bytes (take i (drop start buf))) i
    = Some (from_le_bytes (take len (drop start buf)))"
  using assms
proof (induction "len - i" arbitrary: i)
  case 0
  then show ?case by (simp add: u8to64_le_loop.simps)
next
  case (Suc n)
  then have i: "i < len" "n = len - (i + 1)" and b: "start + i < length buf"
    by auto
  have "take (i + 1) (drop start buf) = take i (drop start buf) @ [buf ! (start + i)]"
    using b by (simp add: take_Suc_index)
  then have "from_le_bytes (take (i + 1) (drop start buf))
    = from_le_bytes (take i (drop start buf)) OR (push_bit (8 * i) (ucast (buf ! (start + i))) :: u64)"
    using b by (simp add: from_le_bytes_append)
  moreover have "u8to64_le_loop buf start len (from_le_bytes (take (i + 1) (drop start buf))) (i + 1)
    = Some (from_le_bytes (take len (drop start buf)))"
    using Suc.hyps(1) [OF i(2)] Suc.prems i by simp
  ultimately show ?case
    using i b by (simp add: u8to64_le_loop.simps [of buf start len _ i] slice_simps)
qed

lemma u8to64_le_eq [byte_simps]:
  "start + len \<le> length buf \<Longrightarrow> u8to64_le buf start len = Some (from_le_bytes (take len (drop start buf)))"
  using u8to64_le_loop_eq [of start len buf 0] by (simp add: u8to64_le_def)

lemma load_u64_le_eq [byte_simps]:
  "start + 8 \<le> length buf \<Longrightarrow> load_u64_le buf start = Some (from_le_bytes (take 8 (drop start buf)))"
  by (simp add: load_u64_le_def slice_simps)

section \<open>Absorbing blocks\<close>

lemma sip_absorb_short [simp]: "length r < 8 \<Longrightarrow> sip_absorb r v = v"
  by (simp add: sip_absorb.simps)

lemma sip_absorb_append:
  "length a mod 8 = 0 \<Longrightarrow> sip_absorb (a @ b) v = sip_absorb b (sip_absorb a v)"
proof (induction a v rule: sip_absorb.induct)
  case (1 a v)
  show ?case
  proof (cases "length a < 8")
    case True
    with "1.prems" have "a = []" by simp
    then show ?thesis by simp
  next
    case False
    with "1.prems" have "length (drop 8 a) mod 8 = 0"
      by (simp add: le_mod_geq)
    with "1.IH" False show ?thesis
      by (simp add: sip_absorb.simps [of a] sip_absorb.simps [of "a @ b"])
  qed
qed

lemma sip_absorb_block:
  "length w = 8 \<Longrightarrow> sip_absorb w v = sip_block (from_le_bytes w) v"
  by (simp add: sip_absorb.simps [of w])

lemma sip_write_loop_eq:
  assumes "i \<le> stop" "stop \<le> length msg" "(stop - i) mod 8 = 0"
  shows "sip_write_loop msg stop i v = Some (sip_absorb (take (stop - i) (drop i msg)) v, stop)"
  using assms
proof (induction "stop - i" arbitrary: i v rule: less_induct)
  case less
  show ?case
  proof (cases "i < stop")
    case False
    with less.prems show ?thesis by (simp add: sip_write_loop.simps)
  next
    case True
    with less.prems have i8: "i + 8 \<le> stop"
      by (metis (no_types) diff_is_0_eq' le_add_diff_inverse less_imp_le_nat mod_less
          nat_add_left_cancel_le not_le zero_less_diff)
    let ?w = "take 8 (drop i msg)" and ?r = "take (stop - (i + 8)) (drop (i + 8) msg)"
    have split: "take (stop - i) (drop i msg) = ?w @ ?r"
    proof -
      have "stop - i = 8 + (stop - (i + 8))" using i8 by simp
      then show ?thesis by (simp only: take_add drop_drop ac_simps)
    qed
    have w: "length ?w = 8" using i8 less.prems by simp
    have "sip_write_loop msg stop (i + 8) (sip_block (from_le_bytes ?w) v)
      = Some (sip_absorb ?r (sip_block (from_le_bytes ?w) v), stop)"
      using less.hyps [of "i + 8"] less.prems i8 True
      by (simp add: le_mod_geq)
    then show ?thesis
      using True i8 less.prems w
      by (simp add: sip_write_loop.simps [of msg stop i] byte_simps split sip_absorb_append sip_absorb_block)
  qed
qed

section \<open>The hasher state is a function of the bytes written\<close>

definition sip_state :: "u64 \<Rightarrow> u64 \<Rightarrow> byte list \<Rightarrow> SipHasher13" where
  "sip_state k0 k1 m = \<lparr>
     sip_v = sip_absorb m (sip_init k0 k1),
     sip_length = of_nat (length m),
     sip_tail = from_le_bytes (sip_rest m),
     sip_ntail = length m mod 8 \<rparr>"

definition sip_blocks :: "byte list \<Rightarrow> byte list" where
  "sip_blocks m = take (8 * (length m div 8)) m"

lemma sip_blocks_rest: "m = sip_blocks m @ sip_rest m"
  by (simp add: sip_blocks_def sip_rest_def)

lemma length_sip_blocks [simp]: "length (sip_blocks m) mod 8 = 0"
proof -
  have "8 * (length m div 8) \<le> length m" by simp
  then show ?thesis by (simp add: sip_blocks_def min_absorb2)
qed

lemma length_sip_rest [simp]: "length (sip_rest m) = length m mod 8"
  by (simp add: sip_rest_def minus_mult_div_eq_mod)

lemma sip_split:
  assumes "length a mod 8 = 0" "length r < 8"
  shows "sip_absorb (a @ r) v = sip_absorb a v" and "sip_rest (a @ r) = r"
    and "length (a @ r) mod 8 = length r"
proof -
  from assms(1) obtain q where q: "length a = 8 * q" by (auto simp: mod_eq_0_iff_dvd)
  show "sip_absorb (a @ r) v = sip_absorb a v"
    using assms by (simp add: sip_absorb_append)
  show "sip_rest (a @ r) = r" "length (a @ r) mod 8 = length r"
    using assms(2) q by (simp_all add: sip_rest_def)
qed

lemma sip_write_words_eq:
  assumes "length a mod 8 = 0" "needed \<le> length c"
    and "sip_v h = sip_absorb a (sip_init k0 k1)"
    and "sip_length h = of_nat (length (a @ drop needed c))"
  shows "sip_write_words h c needed = Some (sip_state k0 k1 (a @ drop needed c))"
proof -
  define q where "q = (length c - needed) div 8"
  define r where "r = (length c - needed) mod 8"
  have "length c - needed = 8 * q + r" by (simp add: q_def r_def)
  with assms(2) have len: "length c = needed + 8 * q + r" by simp
  have r8: "r < 8" by (simp add: r_def)
  define b t where "b = take (8 * q) (drop needed c)" and "t = drop (needed + 8 * q) c"
  have d: "drop needed c = b @ t"
    unfolding b_def t_def by (metis add.commute append_take_drop_id drop_drop)
  have lb: "length b = 8 * q" and lt: "length t = r"
    using len by (simp_all add: b_def t_def)
  have loop: "sip_write_loop c (needed + 8 * q) needed (sip_v h) = Some (sip_absorb b (sip_v h), needed + 8 * q)"
    using len by (subst sip_write_loop_eq) (simp_all add: b_def)
  have load: "u8to64_le c (needed + 8 * q) r = Some (from_le_bytes t)"
    using len lt by (simp add: byte_simps t_def)
  have split: "sip_absorb (a @ b @ t) v = sip_absorb b (sip_absorb a v)"
    "sip_rest (a @ b @ t) = t" "length (a @ b @ t) mod 8 = r" for v
    using sip_split [of "a @ b" t] assms(1) r8 lb lt
    by (simp_all add: sip_absorb_append mod_add_left_eq [symmetric] flip: append_assoc)
  have sub: "usub (length c) needed = Some (8 * q + r)" "usub (length c) r = Some (needed + 8 * q)"
    using len by (simp_all add: usub_def)
  have rm: "r mod 8 = r" using r8 by simp
  show ?thesis
    unfolding sip_write_words_def d sip_state_def split
    using loop load assms(3,4) by (simp add: rm Let_def d sub)
qed

lemma sip_write_eq [byte_simps]:
  "sip_write (sip_state k0 k1 m) c = Some (sip_state k0 k1 (m @ c))"
proof (cases "length m mod 8 = 0")
  case True
  then show ?thesis
    using sip_write_words_eq [of m 0 c "sip_state k0 k1 m \<lparr> sip_length := of_nat (length (m @ c)) \<rparr>" k0 k1]
    by (simp add: sip_write_def sip_state_def Let_def)
next
  case False
  let ?p = "sip_blocks m" and ?r = "sip_rest m"
  define n where "n = 8 - length m mod 8"
  have m: "m = ?p @ ?r" by (rule sip_blocks_rest)
  have av: "sip_absorb m (sip_init k0 k1) = sip_absorb ?p (sip_init k0 k1)"
    using sip_split(1) [of ?p ?r] m by simp
  have n: "usub 8 (length m mod 8) = Some n" "0 < n" "length ?r + n = 8"
    by (simp_all add: usub_def n_def)
  have word: "from_le_bytes ?r OR push_bit (8 * (length m mod 8)) (from_le_bytes x)
    = (from_le_bytes (?r @ x) :: u64)" for x
    by (simp add: from_le_bytes_append)
  show ?thesis
  proof (cases "length c < n")
    case True
    with n have short: "length (?r @ c) < 8" by simp
    have "sip_absorb (m @ c) v = sip_absorb ?p v" "sip_rest (m @ c) = ?r @ c"
      "length (m @ c) mod 8 = length m mod 8 + length c" for v
      using sip_split [of ?p "?r @ c"] short m
      by (metis append_assoc length_sip_blocks, metis append_assoc length_sip_blocks,
          metis append_assoc length_append length_sip_blocks length_sip_rest)
    then show ?thesis
      using True False n
      by (simp add: sip_write_def sip_state_def Let_def byte_simps word av)
  next
    case nc: False
    let ?a = "?p @ (?r @ take n c)"
    have a: "length ?a mod 8 = 0" and mc: "m @ c = ?a @ drop n c"
      using nc n m length_sip_blocks [of m] by (auto simp: min_absorb2 mod_add_left_eq [symmetric])
    have blk: "sip_block (from_le_bytes (?r @ take n c)) (sip_absorb m (sip_init k0 k1))
      = sip_absorb ?a (sip_init k0 k1)"
      using nc n by (simp add: av sip_absorb_append sip_absorb_block)
    let ?h = "sip_state k0 k1 m \<lparr> sip_length := of_nat (length (m @ c)),
      sip_v := sip_block (from_le_bytes (?r @ take n c)) (sip_absorb m (sip_init k0 k1)),
      sip_ntail := 0, sip_tail := 0 \<rparr>"
    have "sip_write_words ?h c n = Some (sip_state k0 k1 (m @ c))"
      unfolding mc using a nc blk mc
      by (intro sip_write_words_eq) simp_all
    then show ?thesis
      using nc False n
      by (simp add: sip_write_def sip_state_def Let_def byte_simps word)
  qed
qed

lemma sip_finish_state: "sip_finish (sip_state k0 k1 m) = siphash_1_3 k0 k1 m"
  by (simp add: sip_finish_def sip_state_def siphash_1_3_def numeral_3_eq_3 split: prod.splits)

lemma new_with_keys_state: "new_with_keys k0 k1 = sip_state k0 k1 []"
  by (simp add: new_with_keys_def sip_state_def sip_init_def sip_rest_def)

section \<open>The streaming contract of a hasher\<close>

text \<open>
  What a \<open>Hash\<close> implementation relies on: the hasher accepts any sequence of
  \<open>write\<close> calls, and \<open>finish\<close> depends only on the concatenation of what was written.
\<close>

primrec write_chunks :: "('h \<Rightarrow> byte list \<Rightarrow> 'h option) \<Rightarrow> 'h \<Rightarrow> byte list list \<Rightarrow> 'h option" where
  "write_chunks wr h [] = Some h"
| "write_chunks wr h (c # cs) = do { h' \<leftarrow> wr h c; write_chunks wr h' cs }"

locale streaming_hasher =
  fixes fresh :: 'h
    and wr :: "'h \<Rightarrow> byte list \<Rightarrow> 'h option"
    and fin :: "'h \<Rightarrow> u64"
    and st :: "byte list \<Rightarrow> 'h"
    and digest :: "byte list \<Rightarrow> u64"
  assumes fresh_st: "fresh = st []"
    and write_st: "wr (st m) c = Some (st (m @ c))"
    and finish_st: "fin (st m) = digest m"
begin

lemma write_chunks_st: "write_chunks wr (st m) cs = Some (st (m @ concat cs))"
  by (induction cs arbitrary: m) (simp_all add: write_st)

lemma write_chunks_digest: "map_option fin (write_chunks wr fresh cs) = Some (digest (concat cs))"
  by (simp add: fresh_st write_chunks_st finish_st)

end

interpretation sip: streaming_hasher "new_with_keys k0 k1" sip_write sip_finish
  "sip_state k0 k1" "siphash_1_3 k0 k1" for k0 k1
  by unfold_locales (simp_all add: new_with_keys_state sip_write_eq sip_finish_state)

interpretation dh: streaming_hasher default_hasher_new default_hasher_write default_hasher_finish
  "\<lambda>m. DefaultHasher (sip_state 0 0 m)" "siphash_1_3 0 0"
  by unfold_locales
    (simp_all add: default_hasher_new_def new_with_keys_state sip_write_eq sip_finish_state)

interpretation rs: streaming_hasher "build_hasher s" sip_write sip_finish
  "sip_state (rs_k0 s) (rs_k1 s)" "siphash_1_3 (rs_k0 s) (rs_k1 s)" for s
  by unfold_locales
    (simp_all add: build_hasher_def new_with_keys_state sip_write_eq sip_finish_state)

section \<open>Properties\<close>

text \<open>C17: however a message is cut into \<open>write\<close> calls, a \<open>SipHasher13\<close> built with
  \<open>new_with_keys\<close> never panics and finishes with the SipHash-1-3 value of the whole
  message.\<close>

theorem sip_streaming:
  "map_option sip_finish (write_chunks sip_write (new_with_keys k0 k1) chunks)
     = Some (siphash_1_3 k0 k1 (concat chunks))"
  by (rule sip.write_chunks_digest)

text \<open>Evaluation of closed hashes: rotations unfold only on literals.\<close>

lemma rotate_left_numeral:
  "rotate_left (numeral w) n = push_bit n (numeral w) OR drop_bit (64 - n) (numeral w)"
  by (simp add: rotate_left_def)

lemma siphash_vector_0:
  "siphash_1_3 0x0706050403020100 0x0f0e0d0c0b0a0908 []
     = 0xabac0158050fc4dc"
proof -
  have init: "sip_init 0x0706050403020100 0x0f0e0d0c0b0a0908
    = (0x7469686173716475, 0x6b617f6d656e6665, 0x6b7f62616d677361, 0x7b6b696e727e6c7b)"
    by (simp add: sip_init_def)
  have absorb: "sip_absorb [] v = v" for v by simp
  have final: "sip_block 0 (0x7469686173716475, 0x6b617f6d656e6665, 0x6b7f62616d677361, 0x7b6b696e727e6c7b)
    = (0x6864848c93698c85, 0x41d43f143c94a7dc, 0xf3f94792d7121732, 0x5e52f75805987c12)"
    by (simp add: rotate_left_numeral)
  have r1: "sipround (0x6864848c93698c85, 0x41d43f143c94a7dc, 0xf3f94792d71217cd, 0x5e52f75805987c12)
    = (0x75126fd44af1912d, 0x84235164f060b8e, 0x37b0503a8026831d, 0x1b4678cdfb4533aa)"
    by (simp add: rotate_left_numeral)
  have r2: "sipround (0x75126fd44af1912d, 0x84235164f060b8e, 0x37b0503a8026831d, 0x1b4678cdfb4533aa)
    = (0xc432cf08c616526b, 0x54f9871e68946396, 0xd3f2147a8eed3612, 0x8d9bd73d7633150d)"
    by (simp add: rotate_left_numeral)
  have r3: "sipround (0xc432cf08c616526b, 0x54f9871e68946396, 0xd3f2147a8eed3612, 0x8d9bd73d7633150d)
    = (0xe55b538c295a1cab, 0xbd36c35d5ec49422, 0xa7f8c7bd8b5d86ed, 0x54395634f9cccab8)"
    by (simp add: rotate_left_numeral)
  have last: "push_bit 56 (of_nat (length ([] :: byte list)) AND 0xff) OR from_le_bytes (sip_rest []) = (0 :: u64)"
    by (simp add: sip_rest_def)
  show ?thesis
    unfolding siphash_1_3_def last init absorb final Let_def prod.case numeral_3_eq_3 funpow.simps comp_apply
    by (simp add: r1 r2 r3 del: sipround.simps)
qed

lemma siphash_vector_15:
  "siphash_1_3 0x0706050403020100 0x0f0e0d0c0b0a0908 [0, 1, 2, 3, 4, 5, 6, 7, 8, 9, 10, 11, 12, 13, 14]
     = 0xd320d86d2a519956"
proof -
  have init: "sip_init 0x0706050403020100 0x0f0e0d0c0b0a0908
    = (0x7469686173716475, 0x6b617f6d656e6665, 0x6b7f62616d677361, 0x7b6b696e727e6c7b)"
    by (simp add: sip_init_def)
  have block: "sip_block 0x706050403020100 (0x7469686173716475, 0x6b617f6d656e6665, 0x6b7f62616d677361, 0x7b6b696e727e6c7b)
    = (0x63608f969061857f, 0x4ed232083d9aa8dc, 0xf2f74892d8141a2e, 0x9290f9810552f4a8)"
    by (simp add: rotate_left_numeral)
  have absorb: "sip_absorb [0, 1, 2, 3, 4, 5, 6, 7, 8, 9, 10, 11, 12, 13, 14]
    (0x7469686173716475, 0x6b617f6d656e6665, 0x6b7f62616d677361, 0x7b6b696e727e6c7b)
    = (0x63608f969061857f, 0x4ed232083d9aa8dc, 0xf2f74892d8141a2e, 0x9290f9810552f4a8)"
    by (simp add: sip_absorb.simps block del: sip_block.simps)
  have final: "sip_block 0xf0e0d0c0b0a0908 (0x63608f969061857f, 0x4ed232083d9aa8dc, 0xf2f74892d8141a2e, 0x9290f9810552f4a8)
    = (0x3d196caec50a42e6, 0x9513282305757a8, 0x7f54bf4f850a034d, 0x5af41813840cc888)"
    by (simp add: rotate_left_numeral)
  have r1: "sipround (0x3d196caec50a42e6, 0x9513282305757a8, 0x7f54bf4f850a03b2, 0x5af41813840cc888)
    = (0xb7bcedfe080935fe, 0x88f78fb41fe3a7ab, 0x28ab67de3a83b09d, 0xda44de2cd1d17e94)"
    by (simp add: rotate_left_numeral)
  have r2: "sipround (0xb7bcedfe080935fe, 0x88f78fb41fe3a7ab, 0x28ab67de3a83b09d, 0xda44de2cd1d17e94)
    = (0x4c97583b3767327, 0x48afe26a0601b96d, 0x5f6edbe8b4334459, 0xff872dbd1dcde8b5)"
    by (simp add: rotate_left_numeral)
  have r3: "sipround (0x4c97583b3767327, 0x48afe26a0601b96d, 0x5f6edbe8b4334459, 0xff872dbd1dcde8b5)
    = (0x2cc340fc882e2a76, 0x3e713c786b55d0e7, 0x6056b28f102a20d3, 0xa1c41666d9004314)"
    by (simp add: rotate_left_numeral)
  have last: "push_bit 56 (of_nat (length ([0, 1, 2, 3, 4, 5, 6, 7, 8, 9, 10, 11, 12, 13, 14] :: byte list)) AND 0xff) OR from_le_bytes (sip_rest [0, 1, 2, 3, 4, 5, 6, 7, 8, 9, 10, 11, 12, 13, 14]) = (0xf0e0d0c0b0a0908 :: u64)"
    by (simp add: sip_rest_def)
  show ?thesis
    unfolding siphash_1_3_def last init absorb final Let_def prod.case numeral_3_eq_3 funpow.simps comp_apply
    by (simp add: r1 r2 r3 del: sipround.simps)
qed

text \<open>The hasher reproduces the canonical SipHash-1-3 vectors of
  \<open>examples/sipcheck.rs\<close> for the empty and the 15-byte input, the latter fed as two
  writes cut at byte 6, as the example cuts it.\<close>

theorem sip_reference_vectors:
  "map_option sip_finish (write_chunks sip_write (new_with_keys 0x0706050403020100 0x0f0e0d0c0b0a0908) [])
     = Some 0xabac0158050fc4dc \<and>
   map_option sip_finish (write_chunks sip_write (new_with_keys 0x0706050403020100 0x0f0e0d0c0b0a0908)
       [[0, 1, 2, 3, 4, 5], [6, 7, 8, 9, 10, 11, 12, 13, 14]])
     = Some 0xd320d86d2a519956"
  by (simp only: sip.write_chunks_digest concat.simps append_Cons append_Nil append_Nil2
      siphash_vector_0 siphash_vector_15)

end
