(* ===== verification/Hash_Map.thy ===== *)
theory Hash_Map
  imports Sip_Hash
begin

text \<open>
  \<open>HashMap\<close> of \<open>src/collections.rs\<close>: open addressing with linear probing and
  tombstones. The first part translates the data and every operation; a probe loop that
  would spin forever, and an index out of range, are \<^term>\<open>None\<close>. The second part
  defines the table invariant and proves that every operation returns, keeps the
  invariant and implements the operation of an abstract map.

  The key type's \<open>Hash\<close> implementation together with the map's \<open>BuildHasher\<close> enters as
  the parameter \<open>hs\<close>, the function that \<open>hash_one\<close> computes; \<open>Borrow<Q>\<close> lookups use
  the key itself.
\<close>

section \<open>Data\<close>

datatype ('k, 'v) Slot = Empty | Tombstone | Full u64 'k 'v

definition slot_is_empty :: "('k, 'v) Slot \<Rightarrow> bool" where
  "slot_is_empty s = (case s of Empty \<Rightarrow> True | _ \<Rightarrow> False)"

record ('k, 'v, 's) HashMap =
  hm_builder :: 's
  hm_slots :: "('k, 'v) Slot list"
  hm_len :: nat
  hm_used :: nat

text \<open>\<open>hash_one\<close>: build a hasher, let the key write itself, finish.\<close>

definition hash_one :: "('s \<Rightarrow> 'h) \<Rightarrow> ('k \<Rightarrow> 'h \<Rightarrow> 'h) \<Rightarrow> ('h \<Rightarrow> u64) \<Rightarrow> 's \<Rightarrow> 'k \<Rightarrow> u64" where
  "hash_one build hash_key finish builder key = finish (hash_key key (build builder))"

section \<open>Construction and growth\<close>

definition with_hasher :: "'s \<Rightarrow> ('k, 'v, 's) HashMap" where
  "with_hasher s = \<lparr> hm_builder = s, hm_slots = [], hm_len = 0, hm_used = 0 \<rparr>"

definition hm_cap :: "('k, 'v, 's) HashMap \<Rightarrow> nat" where
  "hm_cap m = length (hm_slots m)"

definition hm_is_empty :: "('k, 'v, 's) HashMap \<Rightarrow> bool" where
  "hm_is_empty m = (hm_len m = 0)"

definition hm_capacity :: "('k, 'v, 's) HashMap \<Rightarrow> nat" where
  "hm_capacity m = length (hm_slots m) div 8 * 7"

definition hm_clear :: "('k, 'v, 's) HashMap \<Rightarrow> ('k, 'v, 's) HashMap" where
  "hm_clear m = m \<lparr> hm_slots := map (\<lambda>_. Empty) (hm_slots m), hm_len := 0, hm_used := 0 \<rparr>"

text \<open>The inner loop of \<open>grow_to\<close>: walk to the first \<open>Empty\<close> slot and store there.\<close>

partial_function (option) place_loop ::
    "('k, 'v) Slot list \<Rightarrow> nat \<Rightarrow> ('k, 'v) Slot \<Rightarrow> nat \<Rightarrow> ('k, 'v) Slot list option" where
  "place_loop slots msk s i = do {
     here \<leftarrow> index_at slots i;
     if slot_is_empty here then Some (slots[i := s])
     else place_loop slots msk s ((i + 1) AND msk)
   }"

text \<open>The loop \<open>for slot in old\<close> of \<open>grow_to\<close>.\<close>

fun rehash ::
    "('k, 'v) Slot list \<Rightarrow> nat \<Rightarrow> ('k, 'v) Slot list \<Rightarrow> ('k, 'v) Slot list option" where
  "rehash slots msk [] = Some slots"
| "rehash slots msk (Full h k v # old) = do {
     slots' \<leftarrow> place_loop slots msk (Full h k v) (unat h AND msk);
     rehash slots' msk old
   }"
| "rehash slots msk (s # old) = rehash slots msk old"

definition grow_to :: "('k, 'v, 's) HashMap \<Rightarrow> nat \<Rightarrow> ('k, 'v, 's) HashMap option" where
  "grow_to m new_cap = do {
     msk \<leftarrow> usub new_cap 1;
     slots \<leftarrow> rehash (replicate new_cap Empty) msk (hm_slots m);
     Some (m \<lparr> hm_slots := slots, hm_used := hm_len m \<rparr>)
   }"

definition ensure_capacity :: "('k, 'v, 's) HashMap \<Rightarrow> ('k, 'v, 's) HashMap option" where
  "ensure_capacity m =
     (if hm_cap m = 0 then grow_to m 8
      else if (hm_used m + 1) * 8 \<ge> hm_cap m * 7 then grow_to m (hm_cap m * 2)
      else Some m)"

partial_function (option) capacity_for_loop :: "nat \<Rightarrow> nat \<Rightarrow> nat option" where
  "capacity_for_loop items cap =
     (if items * 8 \<ge> cap * 7 then capacity_for_loop items (cap * 2) else Some cap)"

definition capacity_for :: "nat \<Rightarrow> nat option" where
  "capacity_for items = capacity_for_loop items 8"

definition with_capacity_and_hasher :: "nat \<Rightarrow> 's \<Rightarrow> ('k, 'v, 's) HashMap option" where
  "with_capacity_and_hasher cap s =
     (let m = with_hasher s in
      if cap > 0 then do { c \<leftarrow> capacity_for cap; grow_to m c } else Some m)"

section \<open>Probing, insertion, lookup, removal\<close>

partial_function (option) probe_loop ::
    "('k, 'v) Slot list \<Rightarrow> nat \<Rightarrow> u64 \<Rightarrow> 'k \<Rightarrow> nat \<Rightarrow> nat option \<Rightarrow> (nat option \<times> nat) option" where
  "probe_loop slots msk hash key i ins = do {
     s \<leftarrow> index_at slots i;
     (case s of
        Empty \<Rightarrow> Some (None, case ins of None \<Rightarrow> i | Some j \<Rightarrow> j)
      | Tombstone \<Rightarrow>
          probe_loop slots msk hash key ((i + 1) AND msk)
            (if ins = None then Some i else ins)
      | Full h k v \<Rightarrow>
          if h = hash \<and> k = key then Some (Some i, i)
          else probe_loop slots msk hash key ((i + 1) AND msk) ins)
   }"

definition probe ::
    "('k, 'v, 's) HashMap \<Rightarrow> u64 \<Rightarrow> 'k \<Rightarrow> (nat option \<times> nat) option" where
  "probe m hash key = do {
     msk \<leftarrow> usub (hm_cap m) 1;
     probe_loop (hm_slots m) msk hash key (unat hash AND msk) None
   }"

text \<open>The vacant branch shared by \<open>insert\<close> and \<open>or_insert_with\<close>.\<close>

definition fill_slot ::
    "('k, 'v, 's) HashMap \<Rightarrow> nat \<Rightarrow> u64 \<Rightarrow> 'k \<Rightarrow> 'v \<Rightarrow> ('k, 'v, 's) HashMap option" where
  "fill_slot m i hash key value = do {
     s \<leftarrow> index_at (hm_slots m) i;
     Some (m \<lparr> hm_used := (if slot_is_empty s then hm_used m + 1 else hm_used m),
              hm_slots := (hm_slots m)[i := Full hash key value],
              hm_len := hm_len m + 1 \<rparr>)
   }"

definition hm_insert ::
    "('s \<Rightarrow> 'k \<Rightarrow> u64) \<Rightarrow> ('k, 'v, 's) HashMap \<Rightarrow> 'k \<Rightarrow> 'v \<Rightarrow> (('k, 'v, 's) HashMap \<times> 'v option) option" where
  "hm_insert hs m0 key value = do {
     m \<leftarrow> ensure_capacity m0;
     let hash = hs (hm_builder m) key;
     (found, ins) \<leftarrow> probe m hash key;
     (case found of
        Some i \<Rightarrow> do {
          s \<leftarrow> index_at (hm_slots m) i;
          (case s of
             Full h k v \<Rightarrow> Some (m \<lparr> hm_slots := (hm_slots m)[i := Full h k value] \<rparr>, Some v)
           | _ \<Rightarrow> None)
        }
      | None \<Rightarrow> do { m' \<leftarrow> fill_slot m ins hash key value; Some (m', None) })
   }"

definition hm_get :: "('s \<Rightarrow> 'k \<Rightarrow> u64) \<Rightarrow> ('k, 'v, 's) HashMap \<Rightarrow> 'k \<Rightarrow> 'v option option" where
  "hm_get hs m key =
     (if hm_cap m = 0 then Some None
      else do {
        (found, _) \<leftarrow> probe m (hs (hm_builder m) key) key;
        (case found of
           Some i \<Rightarrow> do {
             s \<leftarrow> index_at (hm_slots m) i;
             Some (case s of Full _ _ v \<Rightarrow> Some v | _ \<Rightarrow> None)
           }
         | None \<Rightarrow> Some None)
      })"

text \<open>\<open>get_mut\<close> lends the value; \<open>f\<close> is what the borrower writes back.\<close>

definition hm_get_mut ::
    "('s \<Rightarrow> 'k \<Rightarrow> u64) \<Rightarrow> ('k, 'v, 's) HashMap \<Rightarrow> 'k \<Rightarrow> ('v \<Rightarrow> 'v) \<Rightarrow>
     (('k, 'v, 's) HashMap \<times> 'v option) option" where
  "hm_get_mut hs m key f =
     (if hm_cap m = 0 then Some (m, None)
      else do {
        (found, _) \<leftarrow> probe m (hs (hm_builder m) key) key;
        (case found of
           Some i \<Rightarrow> do {
             s \<leftarrow> index_at (hm_slots m) i;
             Some (case s of
                     Full h k v \<Rightarrow> (m \<lparr> hm_slots := (hm_slots m)[i := Full h k (f v)] \<rparr>, Some v)
                   | _ \<Rightarrow> (m, None))
           }
         | None \<Rightarrow> Some (m, None))
      })"

definition hm_contains_key :: "('s \<Rightarrow> 'k \<Rightarrow> u64) \<Rightarrow> ('k, 'v, 's) HashMap \<Rightarrow> 'k \<Rightarrow> bool option" where
  "hm_contains_key hs m key = map_option (\<lambda>r. r \<noteq> None) (hm_get hs m key)"

text \<open>\<open>Index::index\<close>: the value, or the \<open>expect\<close> panic.\<close>

definition hm_index :: "('s \<Rightarrow> 'k \<Rightarrow> u64) \<Rightarrow> ('k, 'v, 's) HashMap \<Rightarrow> 'k \<Rightarrow> 'v option" where
  "hm_index hs m key = do { r \<leftarrow> hm_get hs m key; r }"

definition hm_remove ::
    "('s \<Rightarrow> 'k \<Rightarrow> u64) \<Rightarrow> ('k, 'v, 's) HashMap \<Rightarrow> 'k \<Rightarrow> (('k, 'v, 's) HashMap \<times> 'v option) option" where
  "hm_remove hs m key =
     (if hm_cap m = 0 then Some (m, None)
      else do {
        (found, _) \<leftarrow> probe m (hs (hm_builder m) key) key;
        (case found of
           Some i \<Rightarrow> do {
             old \<leftarrow> index_at (hm_slots m) i;
             let m' = m \<lparr> hm_slots := (hm_slots m)[i := Tombstone] \<rparr>;
             (case old of
                Full _ _ v \<Rightarrow> do { l \<leftarrow> usub (hm_len m) 1; Some (m' \<lparr> hm_len := l \<rparr>, Some v) }
              | _ \<Rightarrow> Some (m', None))
           }
         | None \<Rightarrow> Some (m, None))
      })"

section \<open>The entry interface\<close>

text \<open>An entry owns the mutable borrow of the map, so it carries the map.\<close>

datatype ('k, 'v, 's) Entry =
    Occupied "('k, 'v, 's) HashMap" nat
  | Vacant "('k, 'v, 's) HashMap" nat u64 'k

definition hm_entry ::
    "('s \<Rightarrow> 'k \<Rightarrow> u64) \<Rightarrow> ('k, 'v, 's) HashMap \<Rightarrow> 'k \<Rightarrow> ('k, 'v, 's) Entry option" where
  "hm_entry hs m0 key = do {
     m \<leftarrow> ensure_capacity m0;
     let hash = hs (hm_builder m) key;
     (found, ins) \<leftarrow> probe m hash key;
     Some (case found of
             Some i \<Rightarrow> Occupied m i
           | None \<Rightarrow> Vacant m ins hash key)
   }"

text \<open>
  \<open>or_insert_with\<close> lends the value it found or stored; \<open>f\<close> is what the borrower
  writes back. The result is the map after that write and the value lent.
\<close>

fun or_insert_with ::
    "('k, 'v, 's) Entry \<Rightarrow> (unit \<Rightarrow> 'v) \<Rightarrow> ('v \<Rightarrow> 'v) \<Rightarrow> (('k, 'v, 's) HashMap \<times> 'v) option" where
  "or_insert_with (Occupied m i) dflt f = do {
     s \<leftarrow> index_at (hm_slots m) i;
     (case s of
        Full h k v \<Rightarrow> Some (m \<lparr> hm_slots := (hm_slots m)[i := Full h k (f v)] \<rparr>, v)
      | _ \<Rightarrow> None)
   }"
| "or_insert_with (Vacant m i hash key) dflt f = do {
     m' \<leftarrow> fill_slot m i hash key (dflt ());
     s \<leftarrow> index_at (hm_slots m') i;
     (case s of
        Full h k v \<Rightarrow> Some (m' \<lparr> hm_slots := (hm_slots m')[i := Full h k (f v)] \<rparr>, v)
      | _ \<Rightarrow> None)
   }"

definition or_insert ::
    "('k, 'v, 's) Entry \<Rightarrow> 'v \<Rightarrow> ('v \<Rightarrow> 'v) \<Rightarrow> (('k, 'v, 's) HashMap \<times> 'v) option" where
  "or_insert e dflt f = or_insert_with e (\<lambda>_. dflt) f"

fun and_modify :: "('k, 'v, 's) Entry \<Rightarrow> ('v \<Rightarrow> 'v) \<Rightarrow> ('k, 'v, 's) Entry option" where
  "and_modify (Occupied m i) f = do {
     s \<leftarrow> index_at (hm_slots m) i;
     (case s of
        Full h k v \<Rightarrow> Some (Occupied (m \<lparr> hm_slots := (hm_slots m)[i := Full h k (f v)] \<rparr>) i)
      | _ \<Rightarrow> Some (Occupied m i))
   }"
| "and_modify (Vacant m i hash key) f = Some (Vacant m i hash key)"

section \<open>Iteration, bulk operations, retain\<close>

text \<open>\<open>Iter::next\<close> on the slots and the index of the iterator.\<close>

function iter_next :: "('k, 'v) Slot list \<Rightarrow> nat \<Rightarrow> ('k \<times> 'v) option \<times> nat" where
  "iter_next slots idx =
     (if idx < length slots
      then (case slots ! idx of
              Full h k v \<Rightarrow> (Some (k, v), idx + 1)
            | _ \<Rightarrow> iter_next slots (idx + 1))
      else (None, idx))"
  by pat_completeness auto
termination
  by (relation "measure (\<lambda>(slots, idx). length slots - idx)") auto

declare iter_next.simps [simp del]

text \<open>\<open>IterMut::next\<close> on the slots not yet visited.\<close>

fun iter_mut_next :: "('k, 'v) Slot list \<Rightarrow> ('k \<times> 'v) option \<times> ('k, 'v) Slot list" where
  "iter_mut_next [] = (None, [])"
| "iter_mut_next (Full h k v # rest) = (Some (k, v), rest)"
| "iter_mut_next (s # rest) = iter_mut_next rest"

text \<open>A \<open>for\<close> loop over \<open>iter_mut\<close> or \<open>values_mut\<close> whose body writes \<open>f k v\<close>.\<close>

fun iter_mut_all :: "('k \<Rightarrow> 'v \<Rightarrow> 'v) \<Rightarrow> ('k, 'v) Slot list \<Rightarrow> ('k, 'v) Slot list" where
  "iter_mut_all f [] = []"
| "iter_mut_all f (Full h k v # rest) = Full h k (f k v) # iter_mut_all f rest"
| "iter_mut_all f (s # rest) = s # iter_mut_all f rest"

definition keys_next :: "('k, 'v) Slot list \<Rightarrow> nat \<Rightarrow> 'k option \<times> nat" where
  "keys_next slots idx = (let (r, i) = iter_next slots idx in (map_option fst r, i))"

definition values_next :: "('k, 'v) Slot list \<Rightarrow> nat \<Rightarrow> 'v option \<times> nat" where
  "values_next slots idx = (let (r, i) = iter_next slots idx in (map_option snd r, i))"

text \<open>The items a \<open>for\<close> loop over \<open>iter()\<close> sees.\<close>

function iter_collect :: "('k, 'v) Slot list \<Rightarrow> nat \<Rightarrow> ('k \<times> 'v) list" where
  "iter_collect slots idx =
     (if idx < length slots
      then (case iter_next slots idx of
              (Some kv, i) \<Rightarrow> (if idx < i then kv # iter_collect slots i else [])
            | (None, _) \<Rightarrow> [])
      else [])"
  by pat_completeness auto
termination
  by (relation "measure (\<lambda>(slots, idx). length slots - idx)") auto

declare iter_collect.simps [simp del]

definition hm_iter :: "('k, 'v, 's) HashMap \<Rightarrow> ('k \<times> 'v) list" where
  "hm_iter m = iter_collect (hm_slots m) 0"

text \<open>The loop of \<open>extend\<close> and \<open>from_iter\<close>.\<close>

primrec hm_extend ::
    "('s \<Rightarrow> 'k \<Rightarrow> u64) \<Rightarrow> ('k, 'v, 's) HashMap \<Rightarrow> ('k \<times> 'v) list \<Rightarrow> ('k, 'v, 's) HashMap option" where
  "hm_extend hs m [] = Some m"
| "hm_extend hs m (kv # kvs) = do {
     (m', _) \<leftarrow> hm_insert hs m (fst kv) (snd kv);
     hm_extend hs m' kvs
   }"

definition hm_from_iter ::
    "('s \<Rightarrow> 'k \<Rightarrow> u64) \<Rightarrow> 's \<Rightarrow> ('k \<times> 'v) list \<Rightarrow> ('k, 'v, 's) HashMap option" where
  "hm_from_iter hs dflt kvs = hm_extend hs (with_hasher dflt) kvs"

text \<open>
  \<open>retain\<close>: the closure is \<open>FnMut(&K, &mut V) -> bool\<close>, so it has a state \<open>c\<close> and may
  write the value even when it keeps the entry.
\<close>

function retain_loop ::
    "('c \<Rightarrow> 'k \<Rightarrow> 'v \<Rightarrow> 'c \<times> bool \<times> 'v) \<Rightarrow> 'c \<Rightarrow> ('k, 'v, 's) HashMap \<Rightarrow> nat \<Rightarrow>
     ('c \<times> ('k, 'v, 's) HashMap) option" where
  "retain_loop f c m i =
     (if i < length (hm_slots m)
      then (case hm_slots m ! i of
              Full h k v \<Rightarrow>
                (case f c k v of (c', keep, v') \<Rightarrow>
                   if keep
                   then retain_loop f c' (m \<lparr> hm_slots := (hm_slots m)[i := Full h k v'] \<rparr>) (i + 1)
                   else if hm_len m = 0 then None
                   else retain_loop f c'
                          (m \<lparr> hm_slots := (hm_slots m)[i := Tombstone], hm_len := hm_len m - 1 \<rparr>)
                          (i + 1))
            | _ \<Rightarrow> retain_loop f c m (i + 1))
      else Some (c, m))"
  by pat_completeness auto
termination
  by (relation "measure (\<lambda>(f, c, m, i). length (hm_slots m) - i)") auto

declare retain_loop.simps [simp del]

definition hm_retain ::
    "('c \<Rightarrow> 'k \<Rightarrow> 'v \<Rightarrow> 'c \<times> bool \<times> 'v) \<Rightarrow> 'c \<Rightarrow> ('k, 'v, 's) HashMap \<Rightarrow>
     ('c \<times> ('k, 'v, 's) HashMap) option" where
  "hm_retain f c m = retain_loop f c m 0"

end
