(* ===== verification/Hash_Table.thy ===== *)
theory Hash_Table
  imports Hash_Map
begin

text \<open>
  The table of \<open>HashMap\<close>: the entries a slot array holds, when every entry can be
  reached from its home position without crossing an \<open>Empty\<close> slot, and what the two
  probe loops of \<open>src/collections.rs\<close> return on such a table.
\<close>

section \<open>Entries of a slot array\<close>

definition slot_entries :: "('k, 'v) Slot \<Rightarrow> ('k \<times> 'v) list" where
  "slot_entries s = (case s of Full h k v \<Rightarrow> [(k, v)] | _ \<Rightarrow> [])"

definition entries :: "('k, 'v) Slot list \<Rightarrow> ('k \<times> 'v) list" where
  "entries slots = concat (map slot_entries slots)"

definition occupied :: "('k, 'v) Slot list \<Rightarrow> nat" where
  "occupied slots = length (filter (\<lambda>s. s \<noteq> Empty) slots)"

lemma slot_entries_simps [simp]:
  "slot_entries Empty = []" "slot_entries Tombstone = []" "slot_entries (Full h k v) = [(k, v)]"
  by (simp_all add: slot_entries_def)

lemma slot_is_empty_iff [simp]: "slot_is_empty s \<longleftrightarrow> s = Empty"
  by (cases s) (simp_all add: slot_is_empty_def)

lemma entries_simps [simp]:
  "entries [] = []" "entries (s # ss) = slot_entries s @ entries ss"
  "entries (xs @ ys) = entries xs @ entries ys"
  by (simp_all add: entries_def)

lemma entries_replicate_Empty [simp]: "entries (replicate n Empty) = []"
  by (induction n) auto

lemma occupied_replicate_Empty [simp]: "occupied (replicate n Empty) = 0"
  by (simp add: occupied_def)

lemma set_entries: "(k, v) \<in> set (entries slots) \<longleftrightarrow> (\<exists>h. Full h k v \<in> set slots)"
  by (induction slots) (auto simp: slot_entries_def split: Slot.splits)

lemma key_in_entries:
  "k \<in> fst ` set (entries slots) \<longleftrightarrow> (\<exists>i h v. i < length slots \<and> slots ! i = Full h k v)"
proof -
  have "k \<in> fst ` set (entries slots) \<longleftrightarrow> (\<exists>v. (k, v) \<in> set (entries slots))" by force
  also have "\<dots> \<longleftrightarrow> (\<exists>v h. Full h k v \<in> set slots)" by (simp add: set_entries)
  finally show ?thesis by (auto simp: in_set_conv_nth)
qed

lemma entries_split:
  "i < length slots \<Longrightarrow>
   entries slots = entries (take i slots) @ slot_entries (slots ! i) @ entries (drop (Suc i) slots)"
  by (metis id_take_nth_drop entries_simps(2,3))

lemma entries_update:
  "i < length slots \<Longrightarrow>
   entries (slots[i := s]) = entries (take i slots) @ slot_entries s @ entries (drop (Suc i) slots)"
  by (simp add: upd_conv_take_nth_drop)

lemma length_entries_le_occupied: "length (entries slots) \<le> occupied slots"
  by (induction slots) (auto simp: occupied_def slot_entries_def split: Slot.splits)

lemma occupied_update:
  "i < length slots \<Longrightarrow>
   occupied (slots[i := s]) + (if slots ! i \<noteq> Empty then 1 else 0)
     = occupied slots + (if s \<noteq> Empty then 1 else 0)"
proof (induction slots arbitrary: i)
  case (Cons x xs)
  show ?case
  proof (cases i)
    case (Suc i')
    with Cons.IH [of i'] Cons.prems show ?thesis by (simp add: occupied_def split: if_splits)
  qed (simp add: occupied_def)
qed simp

lemma occupied_update_Empty:
  "i < length slots \<Longrightarrow> slots ! i = Empty \<Longrightarrow> s \<noteq> Empty \<Longrightarrow>
   occupied (slots[i := s]) = Suc (occupied slots)"
  using occupied_update [of i slots s] by simp

lemma occupied_update_same:
  "i < length slots \<Longrightarrow> slots ! i \<noteq> Empty \<Longrightarrow> s \<noteq> Empty \<Longrightarrow>
   occupied (slots[i := s]) = occupied slots"
  using occupied_update [of i slots s] by simp

lemma Empty_exists:
  assumes "occupied slots < length slots"
  obtains i where "i < length slots" "slots ! i = Empty"
proof -
  have "\<exists>i<length slots. slots ! i = Empty"
  proof (rule ccontr)
    assume "\<not> ?thesis"
    then have "filter (\<lambda>s. s \<noteq> Empty) slots = slots"
      by (auto simp: filter_id_conv in_set_conv_nth)
    with assms show False by (simp add: occupied_def)
  qed
  then show ?thesis using that by blast
qed

lemma map_of_insert_mid:
  "k \<notin> fst ` set A \<Longrightarrow> map_of (A @ (k, v) # B) = (map_of (A @ B))(k \<mapsto> v)"
  by (induction A) (auto intro: fun_upd_twist)

lemma map_of_delete_mid:
  "k \<notin> fst ` set (A @ B) \<Longrightarrow> map_of (A @ B) = (map_of (A @ (k, v) # B))(k := None)"
  by (induction A) (auto simp: fun_eq_iff map_of_eq_None_iff)

section \<open>Probe positions\<close>

text \<open>The \<open>d\<close>-th position of the probe sequence that starts at hash \<open>h\<close>.\<close>

definition pos :: "nat \<Rightarrow> u64 \<Rightarrow> nat \<Rightarrow> nat" where
  "pos n h d = (unat h + d) mod n"

lemma pos_less [simp]: "0 < n \<Longrightarrow> pos n h d < n"
  by (simp add: pos_def)

lemma pos_inj_le:
  assumes "d \<le> e" "e < n" "pos n h d = pos n h e"
  shows "d = e"
proof -
  have "n dvd (unat h + e) - (unat h + d)"
    using assms mod_eq_dvd_iff_nat [of "unat h + d" "unat h + e" n] by (simp add: pos_def)
  then have "n dvd e - d" by simp
  with assms show ?thesis by (auto dest: dvd_imp_le)
qed

lemma pos_inj: "d < n \<Longrightarrow> e < n \<Longrightarrow> pos n h d = pos n h e \<Longrightarrow> d = e"
  using pos_inj_le [of d e n h] pos_inj_le [of e d n h] by (cases "d \<le> e") auto

lemma pos_surj:
  assumes "i < n"
  obtains d where "d < n" "pos n h d = i"
proof
  let ?r = "unat h mod n"
  have r: "?r < n" using assms by simp
  show "(i + n - ?r) mod n < n" using assms by simp
  have "pos n h ((i + n - ?r) mod n) = (?r + (i + n - ?r)) mod n"
    unfolding pos_def by (simp only: mod_add_left_eq mod_add_right_eq)
  also have "?r + (i + n - ?r) = i + n" using r by simp
  finally show "pos n h ((i + n - ?r) mod n) = i" using assms by simp
qed

lemma pos_mask_0: "n = 2 ^ j \<Longrightarrow> unat h AND (n - Suc 0) = pos n h 0"
  using and_mask_mod [of "unat h" j] by (simp add: pos_def)

lemma pos_mask_Suc: "n = 2 ^ j \<Longrightarrow> Suc (pos n h d) AND (n - Suc 0) = pos n h (Suc d)"
  using and_mask_mod [of "Suc (pos n h d)" j] by (simp add: pos_def mod_simps)

section \<open>The probe loops\<close>

lemma place_loop_spec:
  assumes n: "n = 2 ^ j" "length slots = n"
    and stop: "slots ! pos n h e = Empty"
    and before: "\<And>x. x < e \<Longrightarrow> slots ! pos n h x \<noteq> Empty"
    and "d \<le> e"
  shows "place_loop slots (n - Suc 0) s (pos n h d) = Some (slots[pos n h e := s])"
proof -
  have less: "pos n h x < length slots" for x using n by simp
  show ?thesis using \<open>d \<le> e\<close>
  proof (induction rule: inc_induct)
    case base
    show ?case using stop by (subst place_loop.simps) (simp add: index_at_Some less)
  next
    case (step d)
    then show ?case using before [of d]
      by (subst place_loop.simps) (simp add: index_at_Some less pos_mask_Suc [OF n(1)])
  qed
qed

lemma probe_loop_found:
  assumes n: "n = 2 ^ j" "length slots = n"
    and stop: "slots ! pos n h e = Full h k v"
    and before: "\<And>x. x < e \<Longrightarrow> slots ! pos n h x \<noteq> Empty \<and> (\<forall>v'. slots ! pos n h x \<noteq> Full h k v')"
    and "d \<le> e"
  shows "probe_loop slots (n - Suc 0) h k (pos n h d) ins = Some (Some (pos n h e), pos n h e)"
proof -
  have less: "pos n h x < length slots" for x using n by simp
  show ?thesis using \<open>d \<le> e\<close>
  proof (induction arbitrary: ins rule: inc_induct)
    case base
    show ?case using stop by (subst probe_loop.simps) (simp add: index_at_Some less)
  next
    case (step d)
    then show ?case using before [of d]
      by (subst probe_loop.simps)
         (auto simp: index_at_Some less pos_mask_Suc [OF n(1)] split: Slot.splits)
  qed
qed

lemma probe_loop_vacant:
  assumes n: "n = 2 ^ j" "length slots = n"
    and stop: "slots ! pos n h e = Empty"
    and before: "\<And>x. x < e \<Longrightarrow> slots ! pos n h x \<noteq> Empty \<and> (\<forall>v'. slots ! pos n h x \<noteq> Full h k v')"
    and "d \<le> e"
  shows "\<exists>p. probe_loop slots (n - Suc 0) h k (pos n h d) ins = Some (None, p) \<and>
           (case ins of Some j \<Rightarrow> p = j
            | None \<Rightarrow> \<exists>x\<le>e. p = pos n h x \<and> slot_entries (slots ! p) = [])"
proof -
  have less: "pos n h x < length slots" for x using n by simp
  show ?thesis using \<open>d \<le> e\<close>
  proof (induction arbitrary: ins rule: inc_induct)
    case base
    show ?case using stop
      by (subst probe_loop.simps) (auto simp: index_at_Some less split: option.splits)
  next
    case (step d)
    show ?case
    proof (cases "slots ! pos n h d")
      case Tombstone
      have "probe_loop slots (n - Suc 0) h k (pos n h d) ins
          = probe_loop slots (n - Suc 0) h k (pos n h (Suc d)) (if ins = None then Some (pos n h d) else ins)"
        by (subst probe_loop.simps) (simp add: index_at_Some less Tombstone pos_mask_Suc [OF n(1)])
      then show ?thesis
        using step.IH [of "Some (pos n h d)"] step.IH [of ins] step.hyps Tombstone
        by (cases ins) (auto intro: exI [of _ d])
    next
      case (Full h' k' v')
      then show ?thesis
        using step.IH [of ins] before [OF step.hyps(2)]
        by (subst probe_loop.simps) (auto simp: index_at_Some less pos_mask_Suc [OF n(1)])
    qed (use before [OF step.hyps(2)] in simp)
  qed
qed

section \<open>Well-formed tables\<close>

text \<open>
  Position \<open>i\<close> is \<open>reachable\<close> from hash \<open>h\<close> when the probe sequence of \<open>h\<close> gets to it
  without meeting an \<open>Empty\<close> slot earlier.
\<close>

definition reachable :: "('k, 'v) Slot list \<Rightarrow> u64 \<Rightarrow> nat \<Rightarrow> bool" where
  "reachable slots h i \<longleftrightarrow>
     (\<exists>d<length slots. i = pos (length slots) h d \<and>
        (\<forall>x<d. slots ! pos (length slots) h x \<noteq> Empty))"

definition table_ok :: "('k \<Rightarrow> u64) \<Rightarrow> ('k, 'v) Slot list \<Rightarrow> bool" where
  "table_ok H slots \<longleftrightarrow>
     distinct (map fst (entries slots)) \<and>
     (\<forall>i<length slots. \<forall>h k v. slots ! i = Full h k v \<longrightarrow> h = H k \<and> reachable slots (H k) i)"

lemma table_okD:
  "table_ok H slots \<Longrightarrow> i < length slots \<Longrightarrow> slots ! i = Full h k v \<Longrightarrow> h = H k"
  "table_ok H slots \<Longrightarrow> i < length slots \<Longrightarrow> slots ! i = Full h k v \<Longrightarrow> reachable slots (H k) i"
  "table_ok H slots \<Longrightarrow> distinct (map fst (entries slots))"
  by (auto simp: table_ok_def)

lemma table_okI:
  assumes "distinct (map fst (entries slots))"
    and "\<And>i h k v. i < length slots \<Longrightarrow> slots ! i = Full h k v \<Longrightarrow> h = H k \<and> reachable slots (H k) i"
  shows "table_ok H slots"
  using assms unfolding table_ok_def by blast

lemma table_ok_empty [simp]: "table_ok H (replicate n Empty)" "table_ok H []"
  by (simp_all add: table_ok_def)

lemma table_ok_all_empty [simp]: "table_ok H (map (\<lambda>_. Empty) slots)"
  by (simp add: table_ok_def map_replicate_const)

lemma reachable_update:
  "reachable slots h i \<Longrightarrow> s \<noteq> Empty \<Longrightarrow> reachable (slots[p := s]) h i"
  by (cases "p < length slots") (auto simp: reachable_def nth_list_update list_update_beyond)

lemma keys_unique:
  assumes "distinct (map fst (entries slots))"
    and "i < length slots" "slots ! i = Full h k v"
    and "i' < length slots" "slots ! i' = Full h' k v'"
  shows "i = i'"
proof -
  have False if lt: "a < b" and b: "b < length slots"
    and a: "slots ! a = Full ha k va" "slots ! b = Full hb k vb" for a b ha hb va vb
  proof -
    have "k \<in> fst ` set (entries (drop (Suc a) slots))"
      using lt b a by (subst key_in_entries) (auto intro!: exI [of _ "b - Suc a"])
    moreover have "entries slots = entries (take a slots) @ (k, va) # entries (drop (Suc a) slots)"
      using entries_split [of a slots] lt b a by simp
    ultimately show False using assms(1) by auto
  qed
  then show ?thesis using assms by (metis linorder_neqE_nat)
qed

lemma table_ok_store:
  assumes ok: "table_ok H slots" and p: "p < length slots" "reachable slots (H k) p"
    and free: "slot_entries (slots ! p) = []" and new: "k \<notin> fst ` set (entries slots)"
  shows "table_ok H (slots[p := Full (H k) k v])"
    and "map_of (entries (slots[p := Full (H k) k v])) = (map_of (entries slots))(k \<mapsto> v)"
    and "length (entries (slots[p := Full (H k) k v])) = Suc (length (entries slots))"
proof -
  note parts = entries_split [OF p(1)] entries_update [OF p(1)]
  have "distinct (map fst (entries (slots[p := Full (H k) k v])))"
    using table_okD(3) [OF ok] new free by (auto simp: parts)
  moreover have "h' = H k' \<and> reachable (slots[p := Full (H k) k v]) (H k') i"
    if "i < length slots" "slots[p := Full (H k) k v] ! i = Full h' k' v'" for i h' k' v'
    using that p table_okD(1,2) [OF ok] by (auto simp: nth_list_update intro!: reachable_update split: if_splits)
  ultimately show "table_ok H (slots[p := Full (H k) k v])" by (intro table_okI) auto
  show "map_of (entries (slots[p := Full (H k) k v])) = (map_of (entries slots))(k \<mapsto> v)"
    using map_of_insert_mid [of k "entries (take p slots)" v "entries (drop (Suc p) slots)"] new free
    by (auto simp: parts simp del: map_of_append)
  show "length (entries (slots[p := Full (H k) k v])) = Suc (length (entries slots))"
    using free by (simp add: parts)
qed

lemma table_ok_overwrite:
  assumes ok: "table_ok H slots" and p: "p < length slots" "slots ! p = Full h k v"
  shows "table_ok H (slots[p := Full h k v'])"
    and "map_of (entries (slots[p := Full h k v'])) = (map_of (entries slots))(k \<mapsto> v')"
    and "map fst (entries (slots[p := Full h k v'])) = map fst (entries slots)"
    and "map_of (entries slots) k = Some v"
proof -
  note parts = entries_split [OF p(1)] entries_update [OF p(1)]
  show keys: "map fst (entries (slots[p := Full h k v'])) = map fst (entries slots)"
    using p by (simp add: parts)
  have "h' = H k' \<and> reachable (slots[p := Full h k v']) (H k') i"
    if "i < length slots" "slots[p := Full h k v'] ! i = Full h' k' w" for i h' k' w
    using that p table_okD(1,2) [OF ok] by (auto simp: nth_list_update intro!: reachable_update split: if_splits)
  then show "table_ok H (slots[p := Full h k v'])"
    using keys table_okD(3) [OF ok] by (intro table_okI) auto
  have "k \<notin> fst ` set (entries (take p slots))"
    using table_okD(3) [OF ok] p by (auto simp: parts)
  then show "map_of (entries (slots[p := Full h k v'])) = (map_of (entries slots))(k \<mapsto> v')"
    using p by (simp add: parts map_of_insert_mid del: map_of_append)
  show "map_of (entries slots) k = Some v"
    using table_okD(3) [OF ok] nth_mem [OF p(1)] p(2)
    by (auto intro!: map_of_is_SomeI simp: set_entries)
qed

lemma table_ok_bury:
  assumes ok: "table_ok H slots" and p: "p < length slots" "slots ! p = Full h k v"
  shows "table_ok H (slots[p := Tombstone])"
    and "map_of (entries (slots[p := Tombstone])) = (map_of (entries slots))(k := None)"
    and "Suc (length (entries (slots[p := Tombstone]))) = length (entries slots)"
proof -
  note parts = entries_split [OF p(1)] entries_update [OF p(1)]
  have "h' = H k' \<and> reachable (slots[p := Tombstone]) (H k') i"
    if "i < length slots" "slots[p := Tombstone] ! i = Full h' k' w" for i h' k' w
    using that p table_okD(1,2) [OF ok] by (auto simp: nth_list_update intro!: reachable_update split: if_splits)
  then show "table_ok H (slots[p := Tombstone])"
    using table_okD(3) [OF ok] p by (intro table_okI) (auto simp: parts)
  have "k \<notin> fst ` set (entries (take p slots) @ entries (drop (Suc p) slots))"
    using table_okD(3) [OF ok] p by (auto simp: parts)
  from map_of_delete_mid [OF this]
  show "map_of (entries (slots[p := Tombstone])) = (map_of (entries slots))(k := None)"
    using p by (simp add: parts del: map_of_append)
  show "Suc (length (entries (slots[p := Tombstone]))) = length (entries slots)"
    using p by (simp add: parts)
qed

section \<open>Probing a well-formed table\<close>

lemma first_Empty:
  assumes "occupied slots < length slots"
  obtains e where "e < length slots" "slots ! pos (length slots) h e = Empty"
    "\<And>x. x < e \<Longrightarrow> slots ! pos (length slots) h x \<noteq> Empty"
proof -
  obtain i where "i < length slots" "slots ! i = Empty" using assms by (rule Empty_exists)
  moreover from this(1) obtain d where "d < length slots" "pos (length slots) h d = i"
    by (rule pos_surj)
  ultimately have ex: "\<exists>d. d < length slots \<and> slots ! pos (length slots) h d = Empty" by blast
  define e where "e = (LEAST d. d < length slots \<and> slots ! pos (length slots) h d = Empty)"
  have "e < length slots \<and> slots ! pos (length slots) h e = Empty"
    unfolding e_def using ex by (rule LeastI_ex)
  moreover from this have "slots ! pos (length slots) h x \<noteq> Empty" if "x < e" for x
    using that not_less_Least [of x "\<lambda>d. d < length slots \<and> slots ! pos (length slots) h d = Empty"]
    unfolding e_def [symmetric] by auto
  ultimately show ?thesis using that by blast
qed

lemma probe_loop_present:
  assumes ok: "table_ok H slots" and n: "length slots = 2 ^ j"
    and p: "p < length slots" "slots ! p = Full h k v"
  shows "probe_loop slots (length slots - Suc 0) (H k) k (pos (length slots) (H k) 0) None
         = Some (Some p, p)"
proof -
  let ?n = "length slots"
  from table_okD(2) [OF ok p] obtain d where d: "d < ?n" "p = pos ?n (H k) d"
    "\<And>x. x < d \<Longrightarrow> slots ! pos ?n (H k) x \<noteq> Empty"
    by (auto simp: reachable_def)
  have "slots ! pos ?n (H k) x \<noteq> Full (H k) k v'" if "x < d" for x v'
  proof
    assume "slots ! pos ?n (H k) x = Full (H k) k v'"
    moreover have "pos ?n (H k) x < ?n" by (rule pos_less) (use p in linarith)
    ultimately have "pos ?n (H k) x = p" using keys_unique [OF table_okD(3) [OF ok]] p by blast
    then have "x = d" using d that pos_inj [of x ?n d "H k"] by simp
    with that show False by simp
  qed
  then show ?thesis
    using probe_loop_found [OF n refl, of "H k" d k v 0 None] d p table_okD(1) [OF ok p] n by auto
qed

lemma probe_loop_absent:
  assumes n: "length slots = 2 ^ j" and room: "occupied slots < length slots"
    and new: "k \<notin> fst ` set (entries slots)"
  obtains p where
    "probe_loop slots (length slots - Suc 0) h k (pos (length slots) h 0) None = Some (None, p)"
    "p < length slots" "slot_entries (slots ! p) = []" "reachable slots h p"
proof -
  let ?n = "length slots"
  obtain e where e: "e < ?n" "slots ! pos ?n h e = Empty"
    "\<And>x. x < e \<Longrightarrow> slots ! pos ?n h x \<noteq> Empty"
    using room by (rule first_Empty [of slots h]) blast
  have "slots ! pos ?n h x \<noteq> Full h k v'" for x v'
  proof -
    have "pos ?n h x < ?n" by (rule pos_less) (use e(1) in linarith)
    then show ?thesis using new unfolding key_in_entries by blast
  qed
  then obtain p where p: "probe_loop slots (?n - Suc 0) h k (pos ?n h 0) None = Some (None, p)"
      "\<exists>x\<le>e. p = pos ?n h x \<and> slot_entries (slots ! p) = []"
    using probe_loop_vacant [OF n refl e(2), of k 0 None] e(3) by auto
  then obtain x where x: "x \<le> e" "p = pos ?n h x" "slot_entries (slots ! p) = []" by blast
  have "p < ?n" unfolding x(2) by (rule pos_less) (use e(1) in linarith)
  moreover have "reachable slots h p"
    unfolding reachable_def using x e by (intro exI [of _ x]) auto
  ultimately show ?thesis using that p(1) x(3) by blast
qed

end
