(* ===== verification/Hash_Map_Spec.thy ===== *)
theory Hash_Map_Spec
  imports Hash_Table
begin

text \<open>
  \<open>HashMap\<close> as a finite map: the invariant of the struct, that every operation returns
  and keeps it, and that each operation is the corresponding operation of
  \<^typ>\<open>'k \<rightharpoonup> 'v\<close>. The contract is the locale \<open>map_contract\<close>, interpreted on the table.
\<close>

section \<open>Invariant and abstraction\<close>

definition hm_map :: "('k, 'v, 's) HashMap \<Rightarrow> 'k \<rightharpoonup> 'v" where
  "hm_map m = map_of (entries (hm_slots m))"

definition hm_inv :: "('s \<Rightarrow> 'k \<Rightarrow> u64) \<Rightarrow> ('k, 'v, 's) HashMap \<Rightarrow> bool" where
  "hm_inv hs m \<longleftrightarrow>
     table_ok (hs (hm_builder m)) (hm_slots m) \<and>
     hm_len m = length (entries (hm_slots m)) \<and>
     hm_used m = occupied (hm_slots m) \<and>
     (hm_slots m = [] \<or>
      (\<exists>j\<ge>3. length (hm_slots m) = 2 ^ j) \<and> hm_used m * 8 < length (hm_slots m) * 7)"

text \<open>The state between \<open>ensure_capacity\<close> and the store: one more entry still fits.\<close>

definition hm_room :: "('s \<Rightarrow> 'k \<Rightarrow> u64) \<Rightarrow> ('k, 'v, 's) HashMap \<Rightarrow> bool" where
  "hm_room hs m \<longleftrightarrow> hm_inv hs m \<and> hm_slots m \<noteq> [] \<and> (hm_used m + 1) * 8 < length (hm_slots m) * 7"

lemma hm_invD:
  assumes "hm_inv hs m"
  shows "table_ok (hs (hm_builder m)) (hm_slots m)"
    and "hm_len m = length (entries (hm_slots m))"
    and "hm_used m = occupied (hm_slots m)"
    and "hm_slots m \<noteq> [] \<Longrightarrow> \<exists>j\<ge>3. length (hm_slots m) = 2 ^ j"
    and "hm_slots m \<noteq> [] \<Longrightarrow> hm_used m * 8 < length (hm_slots m) * 7"
    and "hm_slots m \<noteq> [] \<Longrightarrow> occupied (hm_slots m) < length (hm_slots m)"
  using assms by (auto simp: hm_inv_def)

lemma hm_inv_with_hasher [simp]: "hm_inv hs (with_hasher s)"
  by (simp add: hm_inv_def with_hasher_def occupied_def)

lemma hm_map_with_hasher [simp]: "hm_map (with_hasher s) = Map.empty"
  by (simp add: hm_map_def with_hasher_def)

lemma hm_len_card: "hm_inv hs m \<Longrightarrow> hm_len m = card (dom (hm_map m))"
  using hm_invD(1,2) [of hs m] table_okD(3)
  by (metis hm_map_def dom_map_of_conv_image_fst distinct_card length_map list.set_map)

section \<open>Growth\<close>

lemma place_loop_store:
  assumes ok: "table_ok H slots" and n: "length slots = 2 ^ j"
    and room: "occupied slots < length slots" and new: "k \<notin> fst ` set (entries slots)"
  obtains p where
    "place_loop slots (length slots - Suc 0) (Full (H k) k v) (pos (length slots) (H k) 0)
       = Some (slots[p := Full (H k) k v])"
    "p < length slots" "slots ! p = Empty" "reachable slots (H k) p"
proof -
  let ?n = "length slots" and ?h = "H k"
  obtain e where e: "e < ?n" "slots ! pos ?n ?h e = Empty"
    "\<And>x. x < e \<Longrightarrow> slots ! pos ?n ?h x \<noteq> Empty"
    using room by (rule first_Empty [of slots ?h]) blast
  have "pos ?n ?h e < ?n" by (rule pos_less) (use e(1) in linarith)
  moreover have "reachable slots ?h (pos ?n ?h e)" using e by (auto simp: reachable_def)
  ultimately show ?thesis
    using that [of "pos ?n ?h e"] place_loop_spec [OF n refl e(2,3), of 0] e(2) by simp
qed

lemma rehash_spec:
  assumes "table_ok H slots" "length slots = 2 ^ j"
    and "occupied slots + length (entries old) < length slots"
    and "distinct (map fst (entries old))"
    and "fst ` set (entries old) \<inter> fst ` set (entries slots) = {}"
    and "\<And>h k v. Full h k v \<in> set old \<Longrightarrow> h = H k"
  shows "\<exists>slots'. rehash slots (length slots - Suc 0) old = Some slots' \<and>
           length slots' = length slots \<and> table_ok H slots' \<and>
           map_of (entries slots') = map_of (entries slots) ++ map_of (entries old) \<and>
           length (entries slots') = length (entries slots) + length (entries old) \<and>
           occupied slots' = occupied slots + length (entries old)"
  using assms
proof (induction old arbitrary: slots)
  case (Cons s old)
  show ?case
  proof (cases s)
    case (Full h k v)
    have h: "h = H k" using Cons.prems(6) [of h k v] Full by simp
    have new: "k \<notin> fst ` set (entries slots)" using Cons.prems(5) Full by auto
    obtain p where place:
        "place_loop slots (length slots - Suc 0) (Full h k v) (pos (length slots) h 0)
           = Some (slots[p := Full h k v])"
      and p: "p < length slots" "slots ! p = Empty" "reachable slots (H k) p"
      using place_loop_store [OF Cons.prems(1,2) _ new, of v] Cons.prems(3) h by auto
    let ?t = "slots[p := Full h k v]"
    note t = table_ok_store [OF Cons.prems(1) p(1,3) _ new, of v, folded h]
    have keys: "fst ` set (entries ?t) = insert k (fst ` set (entries slots))"
      using t(2) p(2) by (metis dom_map_of_conv_image_fst dom_fun_upd option.distinct(1) slot_entries_simps(1))
    have occ: "occupied ?t = Suc (occupied slots)" using p by (simp add: occupied_update_Empty)
    have "\<exists>slots'. rehash ?t (length ?t - Suc 0) old = Some slots' \<and>
           length slots' = length ?t \<and> table_ok H slots' \<and>
           map_of (entries slots') = map_of (entries ?t) ++ map_of (entries old) \<and>
           length (entries slots') = length (entries ?t) + length (entries old) \<and>
           occupied slots' = occupied ?t + length (entries old)"
    proof (rule Cons.IH)
      show "fst ` set (entries old) \<inter> fst ` set (entries ?t) = {}"
        using Cons.prems(4,5) Full by (auto simp: keys)
    qed (use t Cons.prems p occ Full in auto)
    moreover have "rehash slots (length slots - Suc 0) (s # old) = rehash ?t (length ?t - Suc 0) old"
      using place by (simp add: Full pos_mask_0 [OF Cons.prems(2)])
    moreover have "map_of (entries ?t) ++ map_of (entries old)
        = map_of (entries slots) ++ map_of (entries (s # old))"
      using Cons.prems(4) Full p(2) t(2)
      by (simp add: map_add_upd_left map_add_upd dom_map_of_conv_image_fst)
    moreover have "length (entries ?t) + length (entries old) = length (entries slots) + length (entries (s # old))"
        "occupied ?t + length (entries old) = occupied slots + length (entries (s # old))"
      using t(3) p(2) occ Full by simp_all
    ultimately show ?thesis by (simp only: length_list_update)
  qed (use Cons in auto)
qed simp

lemma grow_to_spec:
  fixes m :: "('k, 'v, 's) HashMap"
  assumes inv: "hm_inv hs m" and cap: "new_cap = 2 ^ j" "3 \<le> j"
    and room: "(hm_len m + 1) * 8 < new_cap * 7"
  shows "\<exists>m'. grow_to m new_cap = Some m' \<and> hm_room hs m' \<and> hm_map m' = hm_map m \<and>
           hm_builder m' = hm_builder m \<and> hm_len m' = hm_len m \<and> hm_cap m' = new_cap"
proof -
  let ?H = "hs (hm_builder m)" and ?e = "replicate new_cap Empty :: ('k, 'v) Slot list"
  note ok = hm_invD(1) [OF inv] and len = hm_invD(2) [OF inv]
  have "h = ?H k" if "Full h k v \<in> set (hm_slots m)" for h k v
    using that table_okD(1) [OF ok] by (auto simp: in_set_conv_nth)
  then obtain slots' where s: "rehash ?e (new_cap - Suc 0) (hm_slots m) = Some slots'"
      "length slots' = new_cap" "table_ok ?H slots'"
      "map_of (entries slots') = map_of (entries (hm_slots m))"
      "length (entries slots') = hm_len m" "occupied slots' = hm_len m"
    using rehash_spec [of ?H ?e j "hm_slots m"] cap room table_okD(3) [OF ok] len by auto
  have "0 < new_cap" using cap by simp
  then have "grow_to m new_cap = Some (m \<lparr> hm_slots := slots', hm_used := hm_len m \<rparr>)"
    using s(1) by (simp add: grow_to_def usub_Some)
  then show ?thesis
    using s cap room \<open>0 < new_cap\<close>
    by (auto simp: hm_room_def hm_inv_def hm_map_def hm_cap_def intro: exI [of _ j])
qed

lemma ensure_capacity_spec:
  assumes inv: "hm_inv hs m"
  shows "\<exists>m'. ensure_capacity m = Some m' \<and> hm_room hs m' \<and> hm_map m' = hm_map m \<and>
           hm_builder m' = hm_builder m \<and> hm_len m' = hm_len m"
proof (cases "hm_slots m = []")
  case True
  then have "hm_len m = 0" using hm_invD(2) [OF inv] by simp
  then show ?thesis
    using grow_to_spec [OF inv, of 8 3] True by (auto simp: ensure_capacity_def hm_cap_def)
next
  case False
  from hm_invD(4) [OF inv False] obtain j where j: "3 \<le> j" "length (hm_slots m) = 2 ^ j" by blast
  have "8 \<le> length (hm_slots m)"
    using power_increasing [OF j(1), of "2::nat"] j(2) by simp
  moreover have "hm_len m \<le> hm_used m"
    using hm_invD(2,3) [OF inv] length_entries_le_occupied by metis
  ultimately have "(hm_len m + 1) * 8 < length (hm_slots m) * 2 * 7"
    using hm_invD(5) [OF inv False] by simp
  then show ?thesis
    using grow_to_spec [OF inv, of "length (hm_slots m) * 2" "Suc j"] j False inv
    by (auto simp: ensure_capacity_def hm_cap_def hm_room_def not_le)
qed

section \<open>Probing\<close>

lemma hm_map_Some:
  assumes "hm_inv hs m"
  shows "hm_map m k = Some v \<longleftrightarrow>
     (\<exists>p<length (hm_slots m). hm_slots m ! p = Full (hs (hm_builder m) k) k v)"
proof -
  note ok = hm_invD(1) [OF assms]
  have "hm_map m k = Some v \<longleftrightarrow> (k, v) \<in> set (entries (hm_slots m))"
    using table_okD(3) [OF ok] by (simp add: hm_map_def)
  also have "\<dots> \<longleftrightarrow> (\<exists>h. \<exists>p<length (hm_slots m). hm_slots m ! p = Full h k v)"
    unfolding set_entries by (auto simp: in_set_conv_nth)
  finally show ?thesis using table_okD(1) [OF ok] by metis
qed

lemma hm_map_None: "hm_map m k = None \<longleftrightarrow> k \<notin> fst ` set (entries (hm_slots m))"
  by (simp add: hm_map_def map_of_eq_None_iff)

lemma hm_map_no_slots [simp]: "hm_slots m = [] \<Longrightarrow> hm_map m = Map.empty"
  by (simp add: hm_map_def)

lemma probe_present:
  assumes inv: "hm_inv hs m" and k: "hm_map m k = Some v"
  obtains p where "probe m (hs (hm_builder m) k) k = Some (Some p, p)" "p < length (hm_slots m)"
    "hm_slots m ! p = Full (hs (hm_builder m) k) k v"
proof -
  obtain p where p: "p < length (hm_slots m)" "hm_slots m ! p = Full (hs (hm_builder m) k) k v"
    using k hm_map_Some [OF inv] by blast
  then have "hm_slots m \<noteq> []" by auto
  from hm_invD(4) [OF inv this] obtain j where j: "length (hm_slots m) = 2 ^ j" by blast
  have "probe m (hs (hm_builder m) k) k = Some (Some p, p)"
    using probe_loop_present [OF hm_invD(1) [OF inv] j p] p(1) pos_mask_0 [OF j]
    by (simp add: probe_def hm_cap_def usub_Some)
  with p show ?thesis using that by blast
qed

lemma probe_absent:
  assumes inv: "hm_inv hs m" and ne: "hm_slots m \<noteq> []" and k: "hm_map m k = None"
  obtains p where "probe m (hs (hm_builder m) k) k = Some (None, p)" "p < length (hm_slots m)"
    "slot_entries (hm_slots m ! p) = []" "reachable (hm_slots m) (hs (hm_builder m) k) p"
proof -
  from hm_invD(4) [OF inv ne] obtain j where j: "length (hm_slots m) = 2 ^ j" by blast
  obtain p where p: "probe_loop (hm_slots m) (length (hm_slots m) - Suc 0) (hs (hm_builder m) k) k
        (pos (length (hm_slots m)) (hs (hm_builder m) k) 0) None = Some (None, p)"
      "p < length (hm_slots m)" "slot_entries (hm_slots m ! p) = []"
      "reachable (hm_slots m) (hs (hm_builder m) k) p"
    using probe_loop_absent [OF j hm_invD(6) [OF inv ne]] k hm_map_None by metis
  have "probe m (hs (hm_builder m) k) k = Some (None, p)"
    using p(1,2) pos_mask_0 [OF j] by (simp add: probe_def hm_cap_def usub_Some)
  with p show ?thesis using that by blast
qed

lemma probe_misses:
  assumes "hm_inv hs m" "hm_cap m \<noteq> 0" "hm_map m k = None"
  shows "\<exists>p. probe m (hs (hm_builder m) k) k = Some (None, p)"
  using probe_absent [of hs m k] assms by (auto simp: hm_cap_def)

section \<open>Slot updates on the struct\<close>

lemma overwrite_inv:
  assumes inv: "hm_inv hs m" and p: "p < length (hm_slots m)" "hm_slots m ! p = Full h k v"
  shows "hm_inv hs (m \<lparr> hm_slots := (hm_slots m)[p := Full h k v'] \<rparr>)"
    and "hm_map (m \<lparr> hm_slots := (hm_slots m)[p := Full h k v'] \<rparr>) = (hm_map m)(k \<mapsto> v')"
proof -
  note t = table_ok_overwrite(1,2,3) [OF hm_invD(1) [OF inv] p, of v']
  have "length (entries ((hm_slots m)[p := Full h k v'])) = length (entries (hm_slots m))"
    using arg_cong [OF t(3), of length] by simp
  then show "hm_inv hs (m \<lparr> hm_slots := (hm_slots m)[p := Full h k v'] \<rparr>)"
    using inv t(1) p by (auto simp: hm_inv_def occupied_update_same)
  show "hm_map (m \<lparr> hm_slots := (hm_slots m)[p := Full h k v'] \<rparr>) = (hm_map m)(k \<mapsto> v')"
    using t(2) by (simp add: hm_map_def)
qed

lemma fill_slot_spec:
  assumes room: "hm_room hs m" and p: "p < length (hm_slots m)"
    "slot_entries (hm_slots m ! p) = []" "reachable (hm_slots m) (hs (hm_builder m) k) p"
    and k: "hm_map m k = None"
  obtains m' where "fill_slot m p (hs (hm_builder m) k) k v = Some m'" "hm_inv hs m'"
    "hm_map m' = (hm_map m)(k \<mapsto> v)" "hm_builder m' = hm_builder m"
    "hm_slots m' = (hm_slots m)[p := Full (hs (hm_builder m) k) k v]"
    "hm_cap m' = hm_cap m" "hm_used m' \<le> hm_used m + 1"
proof -
  let ?s = "(hm_slots m)[p := Full (hs (hm_builder m) k) k v]"
  have inv: "hm_inv hs m" using room by (simp add: hm_room_def)
  have new: "k \<notin> fst ` set (entries (hm_slots m))" using k by (simp add: hm_map_None)
  note t = table_ok_store [OF hm_invD(1) [OF inv] p(1,3,2) new, of v]
  let ?u = "if slot_is_empty (hm_slots m ! p) then hm_used m + 1 else hm_used m"
  have u: "occupied ?s = ?u"
    using p(1) hm_invD(3) [OF inv] by (auto simp: occupied_update_Empty occupied_update_same)
  let ?m = "m \<lparr> hm_used := ?u, hm_slots := ?s, hm_len := hm_len m + 1 \<rparr>"
  have "?u * 8 < length (hm_slots m) * 7" using room by (auto simp: hm_room_def)
  then have "hm_inv hs ?m"
    using t(1,3) u hm_invD(2,4) [OF inv] p(1) by (auto simp: hm_inv_def)
  moreover have "hm_map ?m = (hm_map m)(k \<mapsto> v)" using t(2) by (simp add: hm_map_def)
  moreover have "fill_slot m p (hs (hm_builder m) k) k v = Some ?m"
    using p(1) by (simp add: fill_slot_def index_at_Some)
  ultimately show ?thesis using that [of ?m] by (simp add: hm_cap_def)
qed

section \<open>The operations\<close>

lemma hm_insert_spec:
  assumes inv: "hm_inv hs m"
  shows "\<exists>m'. hm_insert hs m k v = Some (m', hm_map m k) \<and> hm_inv hs m' \<and>
           hm_map m' = (hm_map m)(k \<mapsto> v) \<and> hm_builder m' = hm_builder m"
proof -
  obtain g where g: "ensure_capacity m = Some g" "hm_room hs g" "hm_map g = hm_map m"
      "hm_builder g = hm_builder m"
    using ensure_capacity_spec [OF inv] by blast
  then have invg: "hm_inv hs g" and ne: "hm_slots g \<noteq> []" by (simp_all add: hm_room_def)
  show ?thesis
  proof (cases "hm_map g k")
    case None
    obtain p where p: "probe g (hs (hm_builder g) k) k = Some (None, p)" "p < length (hm_slots g)"
        "slot_entries (hm_slots g ! p) = []" "reachable (hm_slots g) (hs (hm_builder g) k) p"
      using probe_absent [OF invg ne None] by blast
    obtain m' where "fill_slot g p (hs (hm_builder g) k) k v = Some m'" "hm_inv hs m'"
        "hm_map m' = (hm_map g)(k \<mapsto> v)" "hm_builder m' = hm_builder g"
      using fill_slot_spec [OF g(2) p(2,3,4) None] by blast
    then show ?thesis using g None p(1) by (simp add: hm_insert_def)
  next
    case (Some w)
    obtain p where p: "probe g (hs (hm_builder g) k) k = Some (Some p, p)" "p < length (hm_slots g)"
        "hm_slots g ! p = Full (hs (hm_builder g) k) k w"
      using probe_present [OF invg Some] by blast
    then show ?thesis
      using g Some overwrite_inv [OF invg p(2,3), of v] by (simp add: hm_insert_def index_at_Some)
  qed
qed

lemma hm_get_spec:
  assumes inv: "hm_inv hs m"
  shows "hm_get hs m k = Some (hm_map m k)"
proof (cases "hm_map m k")
  case None
  then show ?thesis using probe_misses [OF inv _ None] by (auto simp: hm_get_def)
next
  case (Some v)
  obtain p where p: "probe m (hs (hm_builder m) k) k = Some (Some p, p)" "p < length (hm_slots m)"
      "hm_slots m ! p = Full (hs (hm_builder m) k) k v"
    using probe_present [OF inv Some] by blast
  then show ?thesis using Some by (auto simp: hm_get_def hm_cap_def index_at_Some)
qed

lemma hm_get_mut_spec:
  assumes inv: "hm_inv hs m"
  shows "\<exists>m'. hm_get_mut hs m k f = Some (m', hm_map m k) \<and> hm_inv hs m' \<and>
           hm_map m' = (hm_map m)(k := map_option f (hm_map m k)) \<and> hm_builder m' = hm_builder m"
proof (cases "hm_map m k")
  case None
  then show ?thesis
    using probe_misses [OF inv _ None] inv by (auto simp: hm_get_mut_def fun_upd_idem)
next
  case (Some v)
  obtain p where p: "probe m (hs (hm_builder m) k) k = Some (Some p, p)" "p < length (hm_slots m)"
      "hm_slots m ! p = Full (hs (hm_builder m) k) k v"
    using probe_present [OF inv Some] by blast
  then show ?thesis
    using Some overwrite_inv [OF inv p(2,3), of "f v"]
    by (auto simp: hm_get_mut_def hm_cap_def index_at_Some)
qed

lemma hm_remove_spec:
  assumes inv: "hm_inv hs m"
  shows "\<exists>m'. hm_remove hs m k = Some (m', hm_map m k) \<and> hm_inv hs m' \<and>
           hm_map m' = (hm_map m)(k := None) \<and> hm_builder m' = hm_builder m"
proof (cases "hm_map m k")
  case None
  then show ?thesis
    using probe_misses [OF inv _ None] inv by (auto simp: hm_remove_def fun_upd_idem)
next
  case (Some v)
  obtain p where p: "probe m (hs (hm_builder m) k) k = Some (Some p, p)" "p < length (hm_slots m)"
      "hm_slots m ! p = Full (hs (hm_builder m) k) k v"
    using probe_present [OF inv Some] by blast
  note t = table_ok_bury [OF hm_invD(1) [OF inv] p(2,3)]
  let ?m = "m \<lparr> hm_slots := (hm_slots m)[p := Tombstone], hm_len := hm_len m - 1 \<rparr>"
  have "0 < hm_len m" using t(3) hm_invD(2) [OF inv] by linarith
  then have "hm_remove hs m k = Some (?m, Some v)"
    using p by (auto simp: hm_remove_def hm_cap_def index_at_Some usub_Some)
  moreover have "hm_inv hs ?m"
    using inv t(1,3) p by (auto simp: hm_inv_def occupied_update_same)
  moreover have "hm_map ?m = (hm_map m)(k := None)" using t(2) by (simp add: hm_map_def)
  ultimately show ?thesis using Some by simp
qed

lemma hm_clear_spec: "hm_inv hs m \<Longrightarrow> hm_inv hs (hm_clear m) \<and> hm_map (hm_clear m) = Map.empty"
  by (auto simp: hm_inv_def hm_clear_def hm_map_def occupied_def map_replicate_const)

section \<open>The entry interface\<close>

text \<open>What an entry for key \<open>k\<close> of a map with contents \<open>M\<close> guarantees.\<close>

fun entry_ok :: "('s \<Rightarrow> 'k \<Rightarrow> u64) \<Rightarrow> 'k \<Rightarrow> ('k \<rightharpoonup> 'v) \<Rightarrow> ('k, 'v, 's) Entry \<Rightarrow> bool" where
  "entry_ok hs k M (Occupied m i) \<longleftrightarrow>
     hm_inv hs m \<and> hm_map m = M \<and> i < length (hm_slots m) \<and>
     (\<exists>v. M k = Some v \<and> hm_slots m ! i = Full (hs (hm_builder m) k) k v)"
| "entry_ok hs k M (Vacant m i h key) \<longleftrightarrow>
     hm_room hs m \<and> hm_map m = M \<and> M k = None \<and> i < length (hm_slots m) \<and> key = k \<and>
     h = hs (hm_builder m) k \<and> slot_entries (hm_slots m ! i) = [] \<and> reachable (hm_slots m) h i"

lemma hm_entry_ok:
  assumes inv: "hm_inv hs m"
  shows "\<exists>e. hm_entry hs m k = Some e \<and> entry_ok hs k (hm_map m) e"
proof -
  obtain g where g: "ensure_capacity m = Some g" "hm_room hs g" "hm_map g = hm_map m"
    using ensure_capacity_spec [OF inv] by blast
  then have invg: "hm_inv hs g" and ne: "hm_slots g \<noteq> []" by (simp_all add: hm_room_def)
  show ?thesis
  proof (cases "hm_map g k")
    case None
    then show ?thesis using probe_absent [OF invg ne None] g by (force simp: hm_entry_def)
  next
    case (Some w)
    obtain p where "probe g (hs (hm_builder g) k) k = Some (Some p, p)" "p < length (hm_slots g)"
        "hm_slots g ! p = Full (hs (hm_builder g) k) k w"
      using probe_present [OF invg Some] by blast
    then show ?thesis using g Some invg by (simp add: hm_entry_def)
  qed
qed

lemma and_modify_ok:
  assumes "entry_ok hs k M e"
  shows "\<exists>e'. and_modify e f = Some e' \<and> entry_ok hs k (M(k := map_option f (M k))) e'"
proof (cases e)
  case (Occupied m i)
  then obtain v where v: "hm_inv hs m" "hm_map m = M" "i < length (hm_slots m)" "M k = Some v"
      "hm_slots m ! i = Full (hs (hm_builder m) k) k v"
    using assms by auto
  then show ?thesis
    using overwrite_inv [OF v(1,3,5), of "f v"] Occupied by (simp add: index_at_Some)
qed (use assms in \<open>auto simp: fun_upd_idem\<close>)

lemma or_insert_with_ok:
  assumes "entry_ok hs k M e"
  shows "\<exists>m'. or_insert_with e d f = Some (m', case M k of None \<Rightarrow> d () | Some v \<Rightarrow> v) \<and> hm_inv hs m' \<and>
           hm_map m' = M(k \<mapsto> f (case M k of None \<Rightarrow> d () | Some v \<Rightarrow> v))"
proof (cases e)
  case (Occupied m i)
  then obtain v where v: "hm_inv hs m" "hm_map m = M" "i < length (hm_slots m)" "M k = Some v"
      "hm_slots m ! i = Full (hs (hm_builder m) k) k v"
    using assms by auto
  then show ?thesis
    using overwrite_inv [OF v(1,3,5), of "f v"] Occupied by (simp add: index_at_Some)
next
  case (Vacant m i h key)
  then have v: "hm_room hs m" "hm_map m = M" "M k = None" "i < length (hm_slots m)" "key = k"
      "h = hs (hm_builder m) k" "slot_entries (hm_slots m ! i) = []"
      "reachable (hm_slots m) (hs (hm_builder m) k) i"
    using assms by auto
  obtain m' where m': "fill_slot m i h k (d ()) = Some m'" "hm_inv hs m'"
      "hm_map m' = M(k \<mapsto> d ())" "hm_slots m' = (hm_slots m)[i := Full h k (d ())]"
    using fill_slot_spec [OF v(1,4,7,8), of "d ()"] v(2,3,6) by metis
  have i: "i < length (hm_slots m')" "hm_slots m' ! i = Full h k (d ())"
    using m'(4) v(4) by simp_all
  show ?thesis
    using Vacant v(3,5) m'(1,3) i overwrite_inv [OF m'(2) i, of "f (d ())"]
    by (simp add: index_at_Some)
qed

section \<open>Iteration, retain\<close>

lemma iter_next_None: "entries (drop idx slots) = [] \<Longrightarrow> fst (iter_next slots idx) = None"
proof (induction slots idx rule: iter_next.induct)
  case (1 slots idx)
  show ?case
  proof (cases "idx < length slots")
    case True
    then have "drop idx slots = slots ! idx # drop (Suc idx) slots" by (simp add: Cons_nth_drop_Suc)
    then show ?thesis
      using 1 True by (cases "slots ! idx") (simp_all add: iter_next.simps [of slots idx])
  qed (simp add: iter_next.simps [of slots idx])
qed

lemma iter_next_Some:
  "entries (drop idx slots) = kv # r \<Longrightarrow>
   \<exists>i. iter_next slots idx = (Some kv, i) \<and> idx < i \<and> entries (drop i slots) = r"
proof (induction slots idx rule: iter_next.induct)
  case (1 slots idx)
  have True: "idx < length slots" using "1.prems" by (cases "idx < length slots") auto
  then have d: "drop idx slots = slots ! idx # drop (Suc idx) slots" by (simp add: Cons_nth_drop_Suc)
  show ?case
  proof (cases "slots ! idx")
    case (Full h k v)
    then show ?thesis using True d "1.prems" by (simp add: iter_next.simps [of slots idx])
  qed (use 1 True d in \<open>auto simp: iter_next.simps [of slots idx] intro: Suc_lessD\<close>)
qed

lemma iter_collect_eq: "iter_collect slots idx = entries (drop idx slots)"
proof (induction slots idx rule: iter_collect.induct)
  case (1 slots idx)
  show ?case
  proof (cases "entries (drop idx slots)")
    case Nil
    then show ?thesis
      using iter_next_None [OF Nil] by (cases "iter_next slots idx") (simp add: iter_collect.simps [of slots idx])
  next
    case (Cons kv r)
    then have lt: "idx < length slots" by (cases "idx < length slots") auto
    obtain i where i: "iter_next slots idx = (Some kv, i)" "idx < i" "entries (drop i slots) = r"
      using iter_next_Some [OF Cons] by blast
    have "iter_collect slots i = r" using "1.IH" [OF lt i(1) [symmetric] refl i(2)] i(3) by simp
    then show ?thesis using lt i Cons by (simp add: iter_collect.simps [of slots idx])
  qed
qed

text \<open>\<open>retain\<close> on a list of entries: the closure sees them in order.\<close>

fun retain_list :: "('c \<Rightarrow> 'k \<Rightarrow> 'v \<Rightarrow> 'c \<times> bool \<times> 'v) \<Rightarrow> 'c \<Rightarrow> ('k \<times> 'v) list \<Rightarrow> 'c \<times> ('k \<times> 'v) list" where
  "retain_list f c [] = (c, [])"
| "retain_list f c ((k, v) # kvs) =
     (case f c k v of (c', keep, v') \<Rightarrow>
        (case retain_list f c' kvs of (c'', r) \<Rightarrow> (c'', if keep then (k, v') # r else r)))"

lemma retain_loop_spec:
  assumes "hm_inv hs m"
  shows "\<exists>m'. retain_loop f c m i = Some (fst (retain_list f c (entries (drop i (hm_slots m)))), m') \<and>
           hm_inv hs m' \<and> hm_builder m' = hm_builder m \<and>
           entries (hm_slots m') =
             entries (take i (hm_slots m)) @ snd (retain_list f c (entries (drop i (hm_slots m))))"
  using assms
proof (induction f c m i rule: retain_loop.induct)
  case (1 f c m i)
  show ?case
  proof (cases "i < length (hm_slots m)")
    case True
    have d: "drop i (hm_slots m) = hm_slots m ! i # drop (Suc i) (hm_slots m)"
      using True by (simp add: Cons_nth_drop_Suc)
    have t: "take (Suc i) (hm_slots m) = take i (hm_slots m) @ [hm_slots m ! i]"
      using True by (simp add: take_Suc_conv_app_nth)
    show ?thesis
    proof (cases "hm_slots m ! i")
      case (Full h k v)
      obtain c' keep v' where f: "f c k v = (c', keep, v')" by (cases "f c k v") auto
      show ?thesis
      proof (cases keep)
        case keep: True
        let ?m = "m \<lparr> hm_slots := (hm_slots m)[i := Full h k v'] \<rparr>"
        have "hm_inv hs ?m" by (rule overwrite_inv(1) [OF "1.prems" True Full])
        from "1.IH"(3) [OF True Full f [symmetric] refl keep this] show ?thesis
          using True Full f keep d t
          by (auto simp: retain_loop.simps [of f c m] drop_update_cancel take_Suc_conv_app_nth split: prod.splits)
      next
        case drop: False
        note b = table_ok_bury [OF hm_invD(1) [OF "1.prems"] True Full]
        let ?m = "m \<lparr> hm_slots := (hm_slots m)[i := Tombstone], hm_len := hm_len m - 1 \<rparr>"
        have pos: "hm_len m \<noteq> 0" using b(3) hm_invD(2) [OF "1.prems"] by linarith
        have "hm_inv hs ?m"
          using "1.prems" b(1,3) True Full by (auto simp: hm_inv_def occupied_update_same)
        from "1.IH"(4) [OF True Full f [symmetric] refl drop pos this] show ?thesis
          using True Full f drop pos d t
          by (auto simp: retain_loop.simps [of f c m] take_Suc_conv_app_nth split: prod.splits)
      qed
    qed (use 1 True d t in \<open>simp_all add: retain_loop.simps [of f c m]\<close>)
  qed (use "1.prems" in \<open>simp add: retain_loop.simps [of f c m]\<close>)
qed

section \<open>The map contract\<close>

datatype ('k, 'v) map_op = OpInsert 'k 'v | OpGet 'k | OpRemove 'k | OpClear

text \<open>A client program: a sequence of calls, run on an implementation and on a map.\<close>

fun run_call ::
    "('m \<Rightarrow> 'k \<Rightarrow> 'v \<Rightarrow> ('m \<times> 'v option) option) \<Rightarrow> ('m \<Rightarrow> 'k \<Rightarrow> 'v option option) \<Rightarrow>
     ('m \<Rightarrow> 'k \<Rightarrow> ('m \<times> 'v option) option) \<Rightarrow> ('m \<Rightarrow> 'm) \<Rightarrow> 'm \<Rightarrow> ('k, 'v) map_op \<Rightarrow> ('m \<times> 'v option) option" where
  "run_call ins get del clr m (OpInsert k v) = ins m k v"
| "run_call ins get del clr m (OpGet k) = map_option (Pair m) (get m k)"
| "run_call ins get del clr m (OpRemove k) = del m k"
| "run_call ins get del clr m OpClear = Some (clr m, None)"

primrec run_ops ::
    "('m \<Rightarrow> 'o \<Rightarrow> ('m \<times> 'r) option) \<Rightarrow> 'm \<Rightarrow> 'o list \<Rightarrow> ('m \<times> 'r list) option" where
  "run_ops call m [] = Some (m, [])"
| "run_ops call m (x # xs) = do {
     (m', r) \<leftarrow> call m x;
     (m'', rs) \<leftarrow> run_ops call m' xs;
     Some (m'', r # rs)
   }"

fun map_call :: "('k \<rightharpoonup> 'v) \<Rightarrow> ('k, 'v) map_op \<Rightarrow> ('k \<rightharpoonup> 'v) \<times> 'v option" where
  "map_call M (OpInsert k v) = (M(k \<mapsto> v), M k)"
| "map_call M (OpGet k) = (M, M k)"
| "map_call M (OpRemove k) = (M(k := None), M k)"
| "map_call M OpClear = (Map.empty, None)"

primrec spec_ops :: "('a \<Rightarrow> 'o \<Rightarrow> 'a \<times> 'r) \<Rightarrow> 'a \<Rightarrow> 'o list \<Rightarrow> 'a \<times> 'r list" where
  "spec_ops call M [] = (M, [])"
| "spec_ops call M (x # xs) =
     (case call M x of (M', r) \<Rightarrow> (case spec_ops call M' xs of (M'', rs) \<Rightarrow> (M'', r # rs)))"

text \<open>
  Any state machine with an invariant whose every call returns and implements a call on
  an abstract value does so along every sequence of calls.
\<close>

locale refined_calls =
  fixes inv :: "'m \<Rightarrow> bool" and absf :: "'m \<Rightarrow> 'a"
    and call :: "'m \<Rightarrow> 'o \<Rightarrow> ('m \<times> 'r) option" and acall :: "'a \<Rightarrow> 'o \<Rightarrow> 'a \<times> 'r"
  assumes call_refines: "inv m \<Longrightarrow>
    \<exists>m' r. call m x = Some (m', r) \<and> inv m' \<and> acall (absf m) x = (absf m', r)"
begin

lemma run_refines:
  "inv m \<Longrightarrow> \<exists>m' rs. run_ops call m xs = Some (m', rs) \<and> inv m' \<and>
     spec_ops acall (absf m) xs = (absf m', rs)"
proof (induction xs arbitrary: m)
  case (Cons x xs)
  obtain m1 r where 1: "call m x = Some (m1, r)" "inv m1" "acall (absf m) x = (absf m1, r)"
    using call_refines [OF Cons.prems] by blast
  obtain m2 rs where "run_ops call m1 xs = Some (m2, rs)" "inv m2"
      "spec_ops acall (absf m1) xs = (absf m2, rs)"
    using Cons.IH [OF 1(2)] by blast
  then show ?case using 1 by simp
qed simp

end

locale map_contract =
  fixes inv :: "'m \<Rightarrow> bool" and look :: "'m \<Rightarrow> 'k \<rightharpoonup> 'v"
    and ins :: "'m \<Rightarrow> 'k \<Rightarrow> 'v \<Rightarrow> ('m \<times> 'v option) option"
    and get :: "'m \<Rightarrow> 'k \<Rightarrow> 'v option option"
    and del :: "'m \<Rightarrow> 'k \<Rightarrow> ('m \<times> 'v option) option"
    and clr :: "'m \<Rightarrow> 'm"
  assumes ins_law: "inv m \<Longrightarrow> \<exists>m'. ins m k v = Some (m', look m k) \<and> inv m' \<and> look m' = (look m)(k \<mapsto> v)"
    and get_law: "inv m \<Longrightarrow> get m k = Some (look m k)"
    and del_law: "inv m \<Longrightarrow> \<exists>m'. del m k = Some (m', look m k) \<and> inv m' \<and> look m' = (look m)(k := None)"
    and clr_law: "inv m \<Longrightarrow> inv (clr m) \<and> look (clr m) = Map.empty"

sublocale map_contract \<subseteq> calls: refined_calls inv look "run_call ins get del clr" map_call
proof
  fix m x assume inv: "inv m"
  show "\<exists>m' r. run_call ins get del clr m x = Some (m', r) \<and> inv m' \<and> map_call (look m) x = (look m', r)"
  proof (cases x)
    case (OpInsert k v)
    then show ?thesis using ins_law [OF inv, of k v] by auto
  next
    case (OpRemove k)
    then show ?thesis using del_law [OF inv, of k] by auto
  qed (use inv get_law clr_law in auto)
qed

context map_contract
begin

lemma extend_law:
  "inv m \<Longrightarrow> \<exists>m' rs. run_ops (\<lambda>m kv. ins m (fst kv) (snd kv)) m kvs = Some (m', rs) \<and> inv m' \<and>
     look m' = look m ++ map_of (rev kvs)"
proof (induction kvs arbitrary: m)
  case (Cons kv kvs)
  obtain m1 where 1: "ins m (fst kv) (snd kv) = Some (m1, look m (fst kv))" "inv m1"
      "look m1 = (look m)(fst kv \<mapsto> snd kv)"
    using ins_law [OF Cons.prems] by blast
  have "look m ++ map_of (rev (kv # kvs)) = look m1 ++ map_of (rev kvs)"
    using 1(3) by (cases kv) (simp add: map_add_upd map_add_assoc)
  then show ?case using Cons.IH [OF 1(2)] 1(1) by (auto simp del: rev.simps)
qed simp

end

interpretation hm: map_contract "hm_inv hs" hm_map "hm_insert hs" "hm_get hs" "hm_remove hs" hm_clear
  for hs
proof unfold_locales
  fix m k v assume inv: "hm_inv hs m"
  show "\<exists>m'. hm_insert hs m k v = Some (m', hm_map m k) \<and> hm_inv hs m' \<and> hm_map m' = (hm_map m)(k \<mapsto> v)"
    using hm_insert_spec [OF inv] by blast
  show "\<exists>m'. hm_remove hs m k = Some (m', hm_map m k) \<and> hm_inv hs m' \<and> hm_map m' = (hm_map m)(k := None)"
    using hm_remove_spec [OF inv] by blast
qed (simp_all add: hm_get_spec hm_clear_spec)

lemma hm_extend_run:
  "hm_extend hs m kvs = map_option fst (run_ops (\<lambda>m kv. hm_insert hs m (fst kv) (snd kv)) m kvs)"
  by (induction kvs arbitrary: m) (auto simp: bind_eq_None_conv split: bind_splits prod.splits)

section \<open>Capacity\<close>

lemma capacity_for_loop_spec:
  assumes "3 \<le> j" "3 < j \<Longrightarrow> 2 ^ (j - 1) * 7 \<le> n * 8"
  shows "\<exists>i\<ge>3. capacity_for_loop n (2 ^ j) = Some (2 ^ i) \<and> n * 8 < 2 ^ i * 7 \<and>
           (3 < i \<longrightarrow> 2 ^ (i - 1) * 7 \<le> n * 8)"
  using assms
proof (induction "n * 8 - 2 ^ j" arbitrary: j rule: less_induct)
  case less
  show ?case
  proof (cases "2 ^ j * 7 \<le> n * 8")
    case True
    have "n * 8 - 2 ^ Suc j < n * 8 - 2 ^ j"
      using True by (intro diff_less_mono2) (auto intro: less_le_trans [of _ "2 ^ j * 7"])
    from less.hyps [OF this] True less.prems show ?thesis
      by (subst capacity_for_loop.simps) (simp add: mult.commute)
  next
    case False
    then show ?thesis using less.prems by (subst capacity_for_loop.simps) auto
  qed
qed

lemma capacity_for_spec:
  "\<exists>i\<ge>3. capacity_for n = Some (2 ^ i) \<and> n * 8 < 2 ^ i * 7 \<and> (3 < i \<longrightarrow> 2 ^ (i - 1) * 7 \<le> n * 8)"
  using capacity_for_loop_spec [of 3 n] by (simp add: capacity_for_def)

lemma hm_insert_no_growth:
  assumes inv: "hm_inv hs m" and fits: "(hm_used m + 1) * 8 < hm_cap m * 7"
  shows "\<exists>m' r. hm_insert hs m k v = Some (m', r) \<and> hm_inv hs m' \<and> hm_cap m' = hm_cap m \<and>
           hm_used m' \<le> hm_used m + 1"
proof -
  have room: "hm_room hs m" and ne: "hm_slots m \<noteq> []"
    using assms by (auto simp: hm_room_def hm_cap_def)
  have g: "ensure_capacity m = Some m" using fits by (auto simp: ensure_capacity_def)
  show ?thesis
  proof (cases "hm_map m k")
    case None
    obtain p where p: "probe m (hs (hm_builder m) k) k = Some (None, p)" "p < length (hm_slots m)"
        "slot_entries (hm_slots m ! p) = []" "reachable (hm_slots m) (hs (hm_builder m) k) p"
      using probe_absent [OF inv ne None] by blast
    obtain m' where "fill_slot m p (hs (hm_builder m) k) k v = Some m'" "hm_inv hs m'"
        "hm_cap m' = hm_cap m" "hm_used m' \<le> hm_used m + 1"
      using fill_slot_spec [OF room p(2,3,4) None] by blast
    then show ?thesis using g p(1) by (simp add: hm_insert_def)
  next
    case (Some w)
    obtain p where p: "probe m (hs (hm_builder m) k) k = Some (Some p, p)" "p < length (hm_slots m)"
        "hm_slots m ! p = Full (hs (hm_builder m) k) k w"
      using probe_present [OF inv Some] by blast
    then show ?thesis
      using g overwrite_inv(1) [OF inv p(2,3), of v] by (simp add: hm_insert_def index_at_Some hm_cap_def)
  qed
qed

lemma hm_extend_no_growth:
  assumes "hm_inv hs m" "(hm_used m + length kvs) * 8 < hm_cap m * 7"
  shows "\<exists>m'. hm_extend hs m kvs = Some m' \<and> hm_cap m' = hm_cap m"
  using assms
proof (induction kvs arbitrary: m)
  case (Cons kv kvs)
  then obtain m1 r where 1: "hm_insert hs m (fst kv) (snd kv) = Some (m1, r)" "hm_inv hs m1"
      "hm_cap m1 = hm_cap m" "hm_used m1 \<le> hm_used m + 1"
    using hm_insert_no_growth [of hs m "fst kv" "snd kv"] by auto
  then show ?case using Cons.IH [OF 1(2)] Cons.prems(2) by auto
qed simp

lemma with_capacity_spec:
  fixes hs :: "'s \<Rightarrow> 'k \<Rightarrow> u64"
  shows "\<exists>m :: ('k, 'v, 's) HashMap. with_capacity_and_hasher n s = Some m \<and> hm_inv hs m \<and> hm_map m = Map.empty \<and> hm_used m = 0 \<and>
     (0 < n \<longrightarrow> (\<exists>i\<ge>3. hm_cap m = 2 ^ i \<and> n * 8 < 2 ^ i * 7 \<and> (3 < i \<longrightarrow> 2 ^ (i - 1) * 7 \<le> n * 8)))"
proof (cases "n = 0")
  case False
  obtain i where i: "3 \<le> i" "capacity_for n = Some (2 ^ i)" "n * 8 < 2 ^ i * 7"
      "3 < i \<longrightarrow> 2 ^ (i - 1) * 7 \<le> n * 8"
    using capacity_for_spec by blast
  let ?w = "with_hasher s :: ('k, 'v, 's) HashMap"
  have "(hm_len ?w + 1) * 8 < 2 ^ i * 7"
    using False i(3) by (simp add: with_hasher_def)
  from grow_to_spec [OF hm_inv_with_hasher [of hs] refl i(1) this]
  obtain m where m: "grow_to ?w (2 ^ i) = Some m" "hm_room hs m" "hm_map m = Map.empty"
      "hm_len m = hm_len ?w" "hm_cap m = 2 ^ i"
    by auto
  moreover have "hm_used m = 0"
    using m(1) by (auto simp: grow_to_def with_hasher_def split: bind_splits)
  moreover have "with_capacity_and_hasher n s = Some m"
    using False i(2) m(1) by (simp add: with_capacity_and_hasher_def)
  ultimately show ?thesis using i unfolding hm_room_def by blast
qed (simp add: with_capacity_and_hasher_def, simp add: with_hasher_def)

section \<open>Properties of \<open>HashMap\<close>\<close>

text \<open>A table with two colliding entries, at which the properties are instantiated.\<close>

definition demo_table :: "'v \<Rightarrow> 'v \<Rightarrow> (nat, 'v, unit) HashMap" where
  "demo_table a b = \<lparr> hm_builder = (), hm_slots = [Full 0 1 a, Full 0 2 b] @ replicate 6 Empty,
                      hm_len = 2, hm_used = 2 \<rparr>"

lemma demo_table_inv: "hm_inv (\<lambda>_ _. 0) (demo_table a b)"
proof -
  let ?s = "[Full 0 1 a, Full 0 2 b] @ replicate 6 (Empty :: (nat, 'a) Slot)"
  have "reachable ?s 0 0" by (auto simp: reachable_def pos_def intro: exI [of _ 0])
  moreover have "reachable ?s 0 1" by (auto simp: reachable_def pos_def intro!: exI [of _ 1])
  ultimately have "table_ok (\<lambda>_. 0) ?s"
    by (intro table_okI) (auto simp: nth_append nth_Cons less_Suc_eq split: nat.splits if_splits)
  moreover have "\<exists>j\<ge>3. (8 :: nat) = 2 ^ j" by (intro exI [of _ 3]) simp
  ultimately show ?thesis by (simp add: hm_inv_def demo_table_def occupied_def)
qed

definition demo_map :: "(nat, nat, unit) HashMap" where
  "demo_map = demo_table 10 20"

lemma demo_map_inv: "hm_inv (\<lambda>_ _. 0) demo_map"
  by (simp add: demo_map_def demo_table_inv)

text \<open>C1: Whatever the hash function, every sequence of \<open>insert\<close>, \<open>get\<close>, \<open>remove\<close> and
  \<open>clear\<close> calls on a fresh \<open>HashMap\<close> returns (no probe loop spins, no index is out of
  range), ends in a state satisfying the table invariant, and gives exactly the results
  of the same calls on a mathematical finite map.
\<close>

theorem hash_map_refines_map:
  "\<exists>m rs. run_ops (run_call (hm_insert hs) (hm_get hs) (hm_remove hs) hm_clear) (with_hasher s) ops
            = Some (m, rs) \<and>
          hm_inv hs m \<and> hm_len m = card (dom (hm_map m)) \<and>
          spec_ops map_call Map.empty ops = (hm_map m, rs)"
  using hm.calls.run_refines [OF hm_inv_with_hasher, of hs s ops] hm_len_card by fastforce

text \<open>C28: \<open>map.entry(k).and_modify(g).or_insert_with(d)\<close> followed by a write \<open>f\<close> through the
  reference it returns: the calls return, lend \<open>g v\<close> for a present key and \<open>d()\<close> for an
  absent one, and change exactly that key.
\<close>

theorem hash_map_entry:
  assumes "hm_inv hs m"
  shows "\<exists>e e' m'. hm_entry hs m k = Some e \<and> and_modify e g = Some e' \<and>
           or_insert_with e' d f = Some (m', case hm_map m k of None \<Rightarrow> d () | Some v \<Rightarrow> g v) \<and>
           hm_inv hs m' \<and>
           hm_map m' = (hm_map m)(k \<mapsto> f (case hm_map m k of None \<Rightarrow> d () | Some v \<Rightarrow> g v))"
proof -
  obtain e where e: "hm_entry hs m k = Some e" "entry_ok hs k (hm_map m) e"
    using hm_entry_ok [OF assms] by blast
  obtain e' where e': "and_modify e g = Some e'"
      "entry_ok hs k ((hm_map m)(k := map_option g (hm_map m k))) e'"
    using and_modify_ok [OF e(2)] by blast
  show ?thesis
    using e(1) e'(1) or_insert_with_ok [OF e'(2), of d f] by (cases "hm_map m k") auto
qed

theorem hash_map_entry_witness:
  "\<exists>e e' m'. hm_entry (\<lambda>_ _. 3) (with_hasher ()) (7 :: nat) = Some e \<and> and_modify e Suc = Some e' \<and>
     or_insert_with e' (\<lambda>_. 41) Suc = Some (m', 41) \<and> hm_inv (\<lambda>_ _. 3) m' \<and> hm_map m' = [7 \<mapsto> 42]"
  using hash_map_entry [of "\<lambda>_ _. 3" "with_hasher ()" 7 Suc "\<lambda>_. 41" Suc] by simp

text \<open>C29: \<open>retain\<close> returns, keeps the invariant, and leaves exactly the entries the closure
  kept, with the values it wrote, the closure's state being threaded through the entries
  in iteration order.
\<close>

theorem hash_map_retain:
  assumes "hm_inv hs m"
  shows "\<exists>c' m'. hm_retain f c m = Some (c', m') \<and> hm_inv hs m' \<and>
           retain_list f c (hm_iter m) = (c', hm_iter m')"
  using retain_loop_spec [OF assms, of f c 0]
  by (auto simp: hm_retain_def hm_iter_def iter_collect_eq prod_eq_iff)

theorem hash_map_retain_witness:
  "\<exists>c' m'. hm_retain (\<lambda>c k v. (c + v, k = 2, v)) 0 demo_map = Some (c', m') \<and> hm_inv (\<lambda>_ _. 0) m' \<and>
     (30, [(2, 20)]) = (c', hm_iter m')"
proof -
  have "retain_list (\<lambda>c k v. (c + v, k = 2, v)) 0 (hm_iter demo_map) = (30, [(2, 20)])"
    by (simp add: hm_iter_def iter_collect_eq demo_map_def demo_table_def)
  then show ?thesis
    using hash_map_retain [OF demo_map_inv, of "\<lambda>c k v. (c + v, k = 2, v)" 0] by simp
qed

text \<open>Iteration visits every entry exactly once: the pairs \<open>iter()\<close> yields have distinct
  keys, are the graph of the map, and are \<open>len()\<close> many.
\<close>

theorem hash_map_iter:
  assumes "hm_inv hs m"
  shows "distinct (map fst (hm_iter m)) \<and> map_of (hm_iter m) = hm_map m \<and>
         length (hm_iter m) = hm_len m"
  using table_okD(3) [OF hm_invD(1) [OF assms]] hm_invD(2) [OF assms]
  by (simp add: hm_iter_def iter_collect_eq hm_map_def)

theorem hash_map_iter_witness:
  "distinct (map fst (hm_iter demo_map)) \<and> map_of (hm_iter demo_map) = [2 \<mapsto> 20, 1 \<mapsto> 10] \<and>
   length (hm_iter demo_map) = 2"
  using hash_map_iter [OF demo_map_inv] by (simp add: demo_map_def demo_table_def hm_map_def)

text \<open>A map made by \<open>with_capacity_and_hasher(n, s)\<close> takes \<open>n\<close> insertions without
  reallocating its table, and its table is the smallest power of two, at least 8, that
  keeps \<open>n\<close> entries under the load factor 7/8.
\<close>

theorem hash_map_with_capacity:
  fixes hs :: "'s \<Rightarrow> 'k \<Rightarrow> u64" and kvs :: "('k \<times> 'v) list"
  assumes "length kvs \<le> n" "0 < n"
  shows "\<exists>m m' i. with_capacity_and_hasher n s = Some m \<and> hm_cap m = 2 ^ i \<and> 3 \<le> i \<and>
           n * 8 < 2 ^ i * 7 \<and> (3 < i \<longrightarrow> 2 ^ (i - 1) * 7 \<le> n * 8) \<and>
           hm_extend hs m kvs = Some m' \<and> hm_cap m' = hm_cap m"
proof -
  obtain m :: "('k, 'v, 's) HashMap" and i where
    m: "with_capacity_and_hasher n s = Some m" "hm_inv hs m" "hm_used m = 0" and
    i: "hm_cap m = 2 ^ i" "3 \<le> i" "n * 8 < 2 ^ i * 7" "3 < i \<longrightarrow> 2 ^ (i - 1) * 7 \<le> n * 8"
    using with_capacity_spec [of n s hs] assms(2) by blast
  then show ?thesis using hm_extend_no_growth [OF m(2), of kvs] assms by auto
qed

theorem hash_map_with_capacity_witness:
  "\<exists>m m' i. with_capacity_and_hasher 7 () = Some m \<and> hm_cap m = 2 ^ i \<and> 3 \<le> i \<and>
     7 * 8 < 2 ^ i * (7 :: nat) \<and> (3 < i \<longrightarrow> 2 ^ (i - 1) * 7 \<le> 7 * (8 :: nat)) \<and>
     hm_extend (\<lambda>_ _. 0) m [(1 :: nat, True), (2, False)] = Some m' \<and> hm_cap m' = hm_cap m"
  by (rule hash_map_with_capacity) simp_all

text \<open>\<open>extend\<close> and \<open>from_iter\<close> return and leave the map updated by the pairs in order, a
  later pair overriding an earlier one with the same key.
\<close>

theorem hash_map_from_iter:
  "\<exists>m. hm_from_iter hs s kvs = Some m \<and> hm_inv hs m \<and> hm_map m = map_of (rev kvs) \<and>
       (\<exists>m'. hm_extend hs m kvs' = Some m' \<and> hm_inv hs m' \<and> hm_map m' = map_of (rev (kvs @ kvs')))"
proof -
  obtain m rs where m: "run_ops (\<lambda>m kv. hm_insert hs m (fst kv) (snd kv)) (with_hasher s) kvs = Some (m, rs)"
      "hm_inv hs m" "hm_map m = map_of (rev kvs)"
    using hm.extend_law [OF hm_inv_with_hasher, of hs s kvs] by auto
  then show ?thesis
    using hm.extend_law [OF m(2), of kvs'] by (auto simp: hm_from_iter_def hm_extend_run)
qed

end
