(* ===== verification/Hash_Set.thy ===== *)
theory Hash_Set
  imports Hash_Map_Spec
begin

text \<open>
  \<open>HashSet\<close> of \<open>src/collections.rs\<close>, the wrapper over \<open>HashMap<T, ()>\<close>, and its
  contract: every operation returns and is the operation of a finite set.
\<close>

section \<open>Operations\<close>

record ('t, 's) HashSet =
  hset_map :: "('t, unit, 's) HashMap"

definition hset_with_hasher :: "'s \<Rightarrow> ('t, 's) HashSet" where
  "hset_with_hasher s = \<lparr> hset_map = with_hasher s \<rparr>"

definition hset_len :: "('t, 's) HashSet \<Rightarrow> nat" where
  "hset_len s = hm_len (hset_map s)"

definition hset_is_empty :: "('t, 's) HashSet \<Rightarrow> bool" where
  "hset_is_empty s = hm_is_empty (hset_map s)"

definition hset_clear :: "('t, 's) HashSet \<Rightarrow> ('t, 's) HashSet" where
  "hset_clear s = s \<lparr> hset_map := hm_clear (hset_map s) \<rparr>"

text \<open>The items of \<open>self.map.keys()\<close>.\<close>

definition hset_iter :: "('t, 's) HashSet \<Rightarrow> 't list" where
  "hset_iter s = map fst (hm_iter (hset_map s))"

definition hset_insert ::
    "('s \<Rightarrow> 't \<Rightarrow> u64) \<Rightarrow> ('t, 's) HashSet \<Rightarrow> 't \<Rightarrow> (('t, 's) HashSet \<times> bool) option" where
  "hset_insert hs s value = do {
     (m, old) \<leftarrow> hm_insert hs (hset_map s) value ();
     Some (s \<lparr> hset_map := m \<rparr>, old = None)
   }"

definition hset_contains :: "('s \<Rightarrow> 't \<Rightarrow> u64) \<Rightarrow> ('t, 's) HashSet \<Rightarrow> 't \<Rightarrow> bool option" where
  "hset_contains hs s value = hm_contains_key hs (hset_map s) value"

definition hset_remove ::
    "('s \<Rightarrow> 't \<Rightarrow> u64) \<Rightarrow> ('t, 's) HashSet \<Rightarrow> 't \<Rightarrow> (('t, 's) HashSet \<times> bool) option" where
  "hset_remove hs s value = do {
     (m, old) \<leftarrow> hm_remove hs (hset_map s) value;
     Some (s \<lparr> hset_map := m \<rparr>, old \<noteq> None)
   }"

primrec hset_extend ::
    "('s \<Rightarrow> 't \<Rightarrow> u64) \<Rightarrow> ('t, 's) HashSet \<Rightarrow> 't list \<Rightarrow> ('t, 's) HashSet option" where
  "hset_extend hs s [] = Some s"
| "hset_extend hs s (v # vs) = do {
     (s', _) \<leftarrow> hset_insert hs s v;
     hset_extend hs s' vs
   }"

definition hset_from_iter :: "('s \<Rightarrow> 't \<Rightarrow> u64) \<Rightarrow> 's \<Rightarrow> 't list \<Rightarrow> ('t, 's) HashSet option" where
  "hset_from_iter hs dflt vs = hset_extend hs (hset_with_hasher dflt) vs"

definition hset_get :: "('s \<Rightarrow> 't \<Rightarrow> u64) \<Rightarrow> ('t, 's) HashSet \<Rightarrow> 't \<Rightarrow> 't option option" where
  "hset_get hs s value = do {
     c \<leftarrow> hm_contains_key hs (hset_map s) value;
     Some (if c then find (\<lambda>k. k = value) (hset_iter s) else None)
   }"

text \<open>\<open>Iterator::all\<close> and \<open>Iterator::filter\<close> with a predicate that may not return.\<close>

primrec iter_all :: "('a \<Rightarrow> bool option) \<Rightarrow> 'a list \<Rightarrow> bool option" where
  "iter_all P [] = Some True"
| "iter_all P (x # xs) = do { b \<leftarrow> P x; if b then iter_all P xs else Some False }"

primrec iter_filter :: "('a \<Rightarrow> bool option) \<Rightarrow> 'a list \<Rightarrow> 'a list option" where
  "iter_filter P [] = Some []"
| "iter_filter P (x # xs) = do {
     b \<leftarrow> P x;
     ys \<leftarrow> iter_filter P xs;
     Some (if b then x # ys else ys)
   }"

definition hset_is_disjoint ::
    "('s \<Rightarrow> 't \<Rightarrow> u64) \<Rightarrow> ('t, 's) HashSet \<Rightarrow> ('t, 's) HashSet \<Rightarrow> bool option" where
  "hset_is_disjoint hs s other = iter_all (\<lambda>v. map_option Not (hset_contains hs other v)) (hset_iter s)"

definition hset_is_subset ::
    "('s \<Rightarrow> 't \<Rightarrow> u64) \<Rightarrow> ('t, 's) HashSet \<Rightarrow> ('t, 's) HashSet \<Rightarrow> bool option" where
  "hset_is_subset hs s other = iter_all (\<lambda>v. hset_contains hs other v) (hset_iter s)"

definition hset_is_superset ::
    "('s \<Rightarrow> 't \<Rightarrow> u64) \<Rightarrow> ('t, 's) HashSet \<Rightarrow> ('t, 's) HashSet \<Rightarrow> bool option" where
  "hset_is_superset hs s other = hset_is_subset hs other s"

definition hset_intersection ::
    "('s \<Rightarrow> 't \<Rightarrow> u64) \<Rightarrow> ('t, 's) HashSet \<Rightarrow> ('t, 's) HashSet \<Rightarrow> 't list option" where
  "hset_intersection hs s other = iter_filter (\<lambda>v. hset_contains hs other v) (hset_iter s)"

definition hset_difference ::
    "('s \<Rightarrow> 't \<Rightarrow> u64) \<Rightarrow> ('t, 's) HashSet \<Rightarrow> ('t, 's) HashSet \<Rightarrow> 't list option" where
  "hset_difference hs s other =
     iter_filter (\<lambda>v. map_option Not (hset_contains hs other v)) (hset_iter s)"

definition hset_union ::
    "('s \<Rightarrow> 't \<Rightarrow> u64) \<Rightarrow> ('t, 's) HashSet \<Rightarrow> ('t, 's) HashSet \<Rightarrow> 't list option" where
  "hset_union hs s other = do {
     rest \<leftarrow> iter_filter (\<lambda>v. map_option Not (hset_contains hs s v)) (hset_iter other);
     Some (hset_iter s @ rest)
   }"

definition hset_retain ::
    "('c \<Rightarrow> 't \<Rightarrow> 'c \<times> bool) \<Rightarrow> 'c \<Rightarrow> ('t, 's) HashSet \<Rightarrow> ('c \<times> ('t, 's) HashSet) option" where
  "hset_retain f c s = do {
     (c', m) \<leftarrow> hm_retain (\<lambda>c k u. case f c k of (c', keep) \<Rightarrow> (c', keep, u)) c (hset_map s);
     Some (c', s \<lparr> hset_map := m \<rparr>)
   }"

section \<open>The set contract\<close>

datatype 't set_op = SetInsert 't | SetContains 't | SetRemove 't | SetClear

fun run_set_call ::
    "('m \<Rightarrow> 't \<Rightarrow> ('m \<times> bool) option) \<Rightarrow> ('m \<Rightarrow> 't \<Rightarrow> bool option) \<Rightarrow> ('m \<Rightarrow> 't \<Rightarrow> ('m \<times> bool) option) \<Rightarrow>
     ('m \<Rightarrow> 'm) \<Rightarrow> 'm \<Rightarrow> 't set_op \<Rightarrow> ('m \<times> bool) option" where
  "run_set_call ins mem del clr m (SetInsert x) = ins m x"
| "run_set_call ins mem del clr m (SetContains x) = map_option (Pair m) (mem m x)"
| "run_set_call ins mem del clr m (SetRemove x) = del m x"
| "run_set_call ins mem del clr m SetClear = Some (clr m, True)"

fun set_call :: "'t set \<Rightarrow> 't set_op \<Rightarrow> 't set \<times> bool" where
  "set_call A (SetInsert x) = (insert x A, x \<notin> A)"
| "set_call A (SetContains x) = (A, x \<in> A)"
| "set_call A (SetRemove x) = (A - {x}, x \<in> A)"
| "set_call A SetClear = ({}, True)"

locale set_contract =
  fixes inv :: "'m \<Rightarrow> bool" and elems :: "'m \<Rightarrow> 't set"
    and ins :: "'m \<Rightarrow> 't \<Rightarrow> ('m \<times> bool) option" and mem :: "'m \<Rightarrow> 't \<Rightarrow> bool option"
    and del :: "'m \<Rightarrow> 't \<Rightarrow> ('m \<times> bool) option" and clr :: "'m \<Rightarrow> 'm" and items :: "'m \<Rightarrow> 't list"
  assumes ins_law: "inv m \<Longrightarrow> \<exists>m'. ins m x = Some (m', x \<notin> elems m) \<and> inv m' \<and> elems m' = insert x (elems m)"
    and mem_law: "inv m \<Longrightarrow> mem m x = Some (x \<in> elems m)"
    and del_law: "inv m \<Longrightarrow> \<exists>m'. del m x = Some (m', x \<in> elems m) \<and> inv m' \<and> elems m' = elems m - {x}"
    and clr_law: "inv m \<Longrightarrow> inv (clr m) \<and> elems (clr m) = {}"
    and items_law: "inv m \<Longrightarrow> distinct (items m) \<and> set (items m) = elems m"

sublocale set_contract \<subseteq> calls: refined_calls inv elems "run_set_call ins mem del clr" set_call
proof
  fix m x assume inv: "inv m"
  show "\<exists>m' r. run_set_call ins mem del clr m x = Some (m', r) \<and> inv m' \<and> set_call (elems m) x = (elems m', r)"
  proof (cases x)
    case (SetInsert y)
    then show ?thesis using ins_law [OF inv, of y] by auto
  next
    case (SetRemove y)
    then show ?thesis using del_law [OF inv, of y] by auto
  qed (use inv mem_law clr_law in auto)
qed

lemma iter_all_total: "(\<And>x. x \<in> set xs \<Longrightarrow> P x = Some (Q x)) \<Longrightarrow> iter_all P xs = Some (\<forall>x\<in>set xs. Q x)"
  by (induction xs) auto

lemma iter_filter_total: "(\<And>x. x \<in> set xs \<Longrightarrow> P x = Some (Q x)) \<Longrightarrow> iter_filter P xs = Some (filter Q xs)"
  by (induction xs) auto

context set_contract
begin

lemma all_mem: "inv m \<Longrightarrow> inv n \<Longrightarrow> iter_all (\<lambda>v. mem n v) (items m) = Some (elems m \<subseteq> elems n)"
  using items_law [of m] by (subst iter_all_total [where Q = "\<lambda>v. v \<in> elems n"]) (auto simp: mem_law)

lemma all_not_mem:
  "inv m \<Longrightarrow> inv n \<Longrightarrow> iter_all (\<lambda>v. map_option Not (mem n v)) (items m) = Some (elems m \<inter> elems n = {})"
  using items_law [of m] by (subst iter_all_total [where Q = "\<lambda>v. v \<notin> elems n"]) (auto simp: mem_law)

lemma filter_mem:
  "inv m \<Longrightarrow> inv n \<Longrightarrow> \<exists>vs. iter_filter (\<lambda>v. mem n v) (items m) = Some vs \<and> distinct vs \<and> set vs = elems m \<inter> elems n"
  using items_law [of m] by (subst iter_filter_total [where Q = "\<lambda>v. v \<in> elems n"]) (auto simp: mem_law)

lemma filter_not_mem:
  "inv m \<Longrightarrow> inv n \<Longrightarrow>
   \<exists>vs. iter_filter (\<lambda>v. map_option Not (mem n v)) (items m) = Some vs \<and> distinct vs \<and> set vs = elems m - elems n"
  using items_law [of m] by (subst iter_filter_total [where Q = "\<lambda>v. v \<notin> elems n"]) (auto simp: mem_law)

end

definition hset_inv :: "('s \<Rightarrow> 't \<Rightarrow> u64) \<Rightarrow> ('t, 's) HashSet \<Rightarrow> bool" where
  "hset_inv hs s = hm_inv hs (hset_map s)"

definition hset_elems :: "('t, 's) HashSet \<Rightarrow> 't set" where
  "hset_elems s = dom (hm_map (hset_map s))"

lemma hset_iter_entries: "hset_iter s = map fst (entries (hm_slots (hset_map s)))"
  by (simp add: hset_iter_def hm_iter_def iter_collect_eq)

interpretation hset: set_contract "hset_inv hs" hset_elems "hset_insert hs" "hset_contains hs"
  "hset_remove hs" hset_clear hset_iter for hs
proof unfold_locales
  fix s x assume inv: "hset_inv hs s"
  then have m: "hm_inv hs (hset_map s)" by (simp add: hset_inv_def)
  show "\<exists>s'. hset_insert hs s x = Some (s', x \<notin> hset_elems s) \<and> hset_inv hs s' \<and>
      hset_elems s' = insert x (hset_elems s)"
    using hm_insert_spec [OF m, of x "()"]
    by (cases "hm_map (hset_map s) x") (auto simp: hset_insert_def hset_inv_def hset_elems_def domIff)
  show "\<exists>s'. hset_remove hs s x = Some (s', x \<in> hset_elems s) \<and> hset_inv hs s' \<and>
      hset_elems s' = hset_elems s - {x}"
    using hm_remove_spec [OF m, of x]
    by (auto simp: hset_remove_def hset_inv_def hset_elems_def domIff)
  show "hset_contains hs s x = Some (x \<in> hset_elems s)"
    by (simp add: hset_contains_def hm_contains_key_def hm_get_spec [OF m] hset_elems_def domIff)
  show "distinct (hset_iter s) \<and> set (hset_iter s) = hset_elems s"
    using table_okD(3) [OF hm_invD(1) [OF m]]
    by (simp add: hset_iter_entries hset_elems_def hm_map_def dom_map_of_conv_image_fst)
qed (simp add: hset_inv_def hset_clear_def hset_elems_def hm_clear_spec)

lemma hset_inv_with_hasher [simp]:
  "hset_inv hs (hset_with_hasher s)" "hset_elems (hset_with_hasher s) = {}"
  by (simp_all add: hset_inv_def hset_elems_def hset_with_hasher_def)

lemma hset_extend_spec:
  "hset_inv hs s \<Longrightarrow> \<exists>s'. hset_extend hs s vs = Some s' \<and> hset_inv hs s' \<and> hset_elems s' = hset_elems s \<union> set vs"
proof (induction vs arbitrary: s)
  case (Cons v vs)
  obtain s1 where 1: "hset_insert hs s v = Some (s1, v \<notin> hset_elems s)" "hset_inv hs s1"
      "hset_elems s1 = insert v (hset_elems s)"
    using hset.ins_law [OF Cons.prems] by blast
  then show ?case using Cons.IH [OF 1(2)] by auto
qed simp

lemma retain_list_pure:
  "retain_list (\<lambda>c k u. (c, P k, ())) c kvs = (c, filter (P \<circ> fst) kvs)"
  by (induction kvs) auto

lemma find_eq: "find (\<lambda>k. k = x) xs = (if x \<in> set xs then Some x else None)"
  by (induction xs) auto

section \<open>Properties of \<open>HashSet\<close>\<close>

text \<open>C20: Every sequence of \<open>insert\<close>, \<open>contains\<close>, \<open>remove\<close> and \<open>clear\<close> calls on a fresh
  \<open>HashSet\<close> returns, and the booleans it gives are those of a mathematical set.
\<close>

theorem hash_set_refines_set:
  "\<exists>s rs. run_ops (run_set_call (hset_insert hs) (hset_contains hs) (hset_remove hs) hset_clear)
            (hset_with_hasher b) ops = Some (s, rs) \<and>
          hset_inv hs s \<and> hset_len s = card (hset_elems s) \<and>
          spec_ops set_call {} ops = (hset_elems s, rs)"
proof -
  have "hset_inv hs s \<Longrightarrow> hset_len s = card (hset_elems s)" for s
    by (simp add: hset_len_def hset_inv_def hset_elems_def hm_len_card)
  then show ?thesis using hset.calls.run_refines [OF hset_inv_with_hasher(1), of hs b ops] by fastforce
qed

text \<open>The binary operations of \<open>HashSet\<close> are those of sets: \<open>is_subset\<close>, \<open>is_superset\<close>
  and \<open>is_disjoint\<close> decide the relations, and \<open>intersection\<close>, \<open>difference\<close> and \<open>union\<close>
  yield every element of the result exactly once.
\<close>

theorem hash_set_algebra:
  assumes "hset_inv hs a" "hset_inv hs b"
  shows "hset_is_subset hs a b = Some (hset_elems a \<subseteq> hset_elems b) \<and>
         hset_is_superset hs a b = Some (hset_elems b \<subseteq> hset_elems a) \<and>
         hset_is_disjoint hs a b = Some (hset_elems a \<inter> hset_elems b = {}) \<and>
         (\<exists>vs. hset_intersection hs a b = Some vs \<and> distinct vs \<and> set vs = hset_elems a \<inter> hset_elems b) \<and>
         (\<exists>vs. hset_difference hs a b = Some vs \<and> distinct vs \<and> set vs = hset_elems a - hset_elems b) \<and>
         (\<exists>vs. hset_union hs a b = Some vs \<and> distinct vs \<and> set vs = hset_elems a \<union> hset_elems b)"
proof -
  obtain vs where "iter_filter (\<lambda>v. map_option Not (hset_contains hs a v)) (hset_iter b) = Some vs"
      "distinct vs" "set vs = hset_elems b - hset_elems a"
    using hset.filter_not_mem [OF assms(2,1)] by blast
  then have "\<exists>vs. hset_union hs a b = Some vs \<and> distinct vs \<and> set vs = hset_elems a \<union> hset_elems b"
    using hset.items_law [OF assms(1)] by (auto simp: hset_union_def)
  then show ?thesis
    using hset.all_mem [OF assms] hset.all_mem [OF assms(2,1)] hset.all_not_mem [OF assms]
      hset.filter_mem [OF assms] hset.filter_not_mem [OF assms]
    by (simp add: hset_is_subset_def hset_is_superset_def hset_is_disjoint_def
        hset_intersection_def hset_difference_def)
qed

definition demo_set :: "(nat, unit) HashSet" where
  "demo_set = \<lparr> hset_map = demo_table () () \<rparr>"

lemma demo_set_inv [simp]: "hset_inv (\<lambda>_ _. 0) demo_set" "hset_elems demo_set = {1, 2}"
  using demo_table_inv by (auto simp: hset_inv_def demo_set_def hset_elems_def hm_map_def demo_table_def)

theorem hash_set_algebra_witness:
  "hset_is_subset (\<lambda>_ _. 0) demo_set (hset_with_hasher ()) = Some False \<and>
   hset_is_superset (\<lambda>_ _. 0) demo_set (hset_with_hasher ()) = Some True \<and>
   (\<exists>vs. hset_union (\<lambda>_ _. 0) demo_set (hset_with_hasher ()) = Some vs \<and> distinct vs \<and> set vs = {1, 2})"
  using hash_set_algebra [of "\<lambda>_ _. 0" demo_set "hset_with_hasher ()"] by simp

text \<open>\<open>HashSet::retain\<close> with a predicate keeps exactly the elements that satisfy it, and
  \<open>get\<close> returns the stored element when there is one.
\<close>

theorem hash_set_retain_get:
  assumes "hset_inv hs s"
  shows "\<exists>s'. hset_retain (\<lambda>c k. (c, P k)) c s = Some (c, s') \<and> hset_inv hs s' \<and>
           hset_elems s' = {x \<in> hset_elems s. P x} \<and>
           hset_get hs s' x = Some (if x \<in> hset_elems s \<and> P x then Some x else None)"
proof -
  let ?f = "\<lambda>c k u. case (c, P k) of (c', keep) \<Rightarrow> (c', keep, u)"
  obtain m' where m': "hm_retain ?f c (hset_map s) = Some (c, m')" "hm_inv hs m'"
      "entries (hm_slots m') = filter (P \<circ> fst) (entries (hm_slots (hset_map s)))"
    using retain_loop_spec [of hs "hset_map s" ?f c 0] assms
    by (auto simp: hset_inv_def hm_retain_def retain_list_pure)
  let ?s = "s \<lparr> hset_map := m' \<rparr>"
  have inv: "hset_inv hs ?s" using m'(2) by (simp add: hset_inv_def)
  have el: "hset_elems ?s = {x \<in> hset_elems s. P x}"
    using m'(3) by (auto simp: hset_elems_def hm_map_def dom_map_of_conv_image_fst)
  have "find (\<lambda>k. k = x) (hset_iter ?s) = (if x \<in> hset_elems ?s then Some x else None)"
    using hset.items_law [OF inv] by (simp add: find_eq)
  then have "hset_get hs ?s x = Some (if x \<in> hset_elems s \<and> P x then Some x else None)"
    using hset.mem_law [OF inv, of x] el by (auto simp: hset_get_def hset_contains_def)
  then show ?thesis using m'(1) inv el by (auto simp: hset_retain_def)
qed

theorem hash_set_retain_get_witness:
  "\<exists>s'. hset_retain (\<lambda>c k. (c, even k)) () demo_set = Some ((), s') \<and> hset_inv (\<lambda>_ _. 0) s' \<and>
     hset_elems s' = {x \<in> {1, 2}. even x} \<and> hset_get (\<lambda>_ _. 0) s' 2 = Some (Some 2)"
  using hash_set_retain_get [of "\<lambda>_ _. 0" demo_set even "()" 2] by simp

end
