(* ===== verification/Linux32.thy ===== *)
theory Linux32
  imports Io_Error Times
begin

text \<open>
  What \<open>src/syscall.rs\<close> and \<open>src/sys_thread.rs\<close> do differently, or the same with different effect, on 32-bit
  Linux (i686 and ARM): seeking, truncating, clocks and sleeping. A register is 32 bits wide.
\<close>

datatype (plugins only: size) nr32 = LLSEEK | FTRUNCATE64 | CLOCK_GETTIME32 | GETTIMEOFDAY32 | NANOSLEEP32

datatype arg32 = W32 u32 | In32 "byte list" | Out32 "byte list"

record 'k platform32 =
  q_arm :: bool
  q_syscall :: "'k \<Rightarrow> nr32 \<Rightarrow> arg32 list \<Rightarrow> 'k \<times> u32 \<times> byte list list"

section \<open>The calls\<close>

definition from_ret32 :: "u32 \<Rightarrow> Errno + u32" where
  "from_ret32 ret = (if - 4095 \<le> sint ret \<and> sint ret < 0 then Inl (Errno (- ret)) else Inr ret)"

text \<open>\<open>_llseek\<close> takes the two halves of the offset and writes the position through a pointer.\<close>

definition lseek32 :: "'k platform32 \<Rightarrow> 'k \<Rightarrow> i32 \<Rightarrow> i64 \<Rightarrow> i32 \<Rightarrow> 'k \<times> (Errno + u64)" where
  "lseek32 P k fd offset whence =
     (case q_syscall P k LLSEEK
             [W32 fd, W32 (ucast (signed_drop_bit 32 offset)), W32 (ucast offset), Out32 (replicate 8 0), W32 whence] of
        (k', r, ws) \<Rightarrow> (k', map_ok (\<lambda>_. from_le_bytes (out_buf (replicate 8 0) ws 0)) (from_ret32 r)))"

text \<open>ARM passes the length in an aligned register pair, after a padding slot.\<close>

definition ftruncate32 :: "'k platform32 \<Rightarrow> 'k \<Rightarrow> i32 \<Rightarrow> u64 \<Rightarrow> 'k \<times> (Errno + unit)" where
  "ftruncate32 P k fd len =
     (case q_syscall P k FTRUNCATE64
             ([W32 fd] @ (if q_arm P then [W32 0] else []) @ [W32 (ucast len), W32 (ucast (drop_bit 32 len))]) of
        (k', r, _) \<Rightarrow> (k', map_ok (\<lambda>_. ()) (from_ret32 r)))"

text \<open>The buffer is two 64-bit words, as on the 64-bit targets, and its first and second word are taken.\<close>

definition monotonic32 :: "'k platform32 \<Rightarrow> 'k \<Rightarrow> 'k \<times> u64 \<times> u32" where
  "monotonic32 P k =
     (case q_syscall P k CLOCK_GETTIME32 [W32 1, Out32 time_zero] of (k', _, ws) \<Rightarrow>
        let ts = out_buf time_zero ws 0 in (k', time_field ts 0, ucast (time_field ts 1)))"

definition gettimeofday32 :: "'k platform32 \<Rightarrow> 'k \<Rightarrow> 'k \<times> (Errno + u64 \<times> u64)" where
  "gettimeofday32 P k =
     (case q_syscall P k GETTIMEOFDAY32 [Out32 time_zero, W32 0] of (k', r, ws) \<Rightarrow>
        let tv = out_buf time_zero ws 0 in
        (k', map_ok (\<lambda>_. (time_field tv 0, time_field tv 1)) (from_ret32 r)))"

definition sleep32 :: "'k platform32 \<Rightarrow> 'k \<Rightarrow> Duration \<Rightarrow> 'k" where
  "sleep32 P k dur =
     fst (q_syscall P k NANOSLEEP32
            [In32 (to_le_bytes 8 (d_secs dur) @ to_le_bytes 8 (ucast (d_nanos dur) :: u64)), W32 0])"

section \<open>Offsets\<close>

text \<open>\<open>seek\<close> is what the kernel does with a whole offset; \<open>_llseek\<close> joins the halves and writes the position.\<close>

definition llseek_contract :: "'k platform32 \<Rightarrow> ('k \<Rightarrow> i32 \<Rightarrow> i64 \<Rightarrow> i32 \<Rightarrow> 'k \<times> u32 \<times> u64) \<Rightarrow> bool" where
  "llseek_contract P seek \<longleftrightarrow>
     (\<forall>k fd hi lo whence. q_syscall P k LLSEEK [W32 fd, W32 hi, W32 lo, Out32 (replicate 8 0), W32 whence] =
        (case seek k fd (push_bit 32 (ucast hi) OR ucast lo) whence of (k', r, pos) \<Rightarrow> (k', r, [to_le_bytes 8 pos])))"

lemma join_halves: "push_bit 32 (ucast (ucast (signed_drop_bit 32 w) :: u32)) OR ucast (ucast w :: u32) = (w :: u64)"
  by (rule bit_word_eqI) (auto simp: bit_simps not_less)

lemma lseek32_whole_offset:
  assumes "llseek_contract P seek"
  shows "lseek32 P k fd offset whence =
    (case seek k fd offset whence of (k', r, pos) \<Rightarrow> (k', map_ok (\<lambda>_. pos) (from_ret32 r)))"
  using assms
  by (simp add: lseek32_def llseek_contract_def join_halves out_buf_def overwrite_def from_to_le_bytes split: prod.split)

section \<open>Times\<close>

text \<open>
  The numbers in \<open>arch/i686_linux.rs\<close> and \<open>arch/arm_linux.rs\<close> are those of the calls whose times are two 32-bit words:
  \<open>now\<close> and \<open>today\<close> are the clocks, \<open>nap\<close> is sleeping for so many seconds and nanoseconds.
\<close>

definition time32_abi ::
    "'k platform32 \<Rightarrow> ('k \<Rightarrow> u32 \<times> u32) \<Rightarrow> ('k \<Rightarrow> u32 \<times> u32) \<Rightarrow> ('k \<Rightarrow> u32 \<Rightarrow> u32 \<Rightarrow> 'k) \<Rightarrow> bool" where
  "time32_abi P now today nap \<longleftrightarrow>
     (\<forall>k. q_syscall P k CLOCK_GETTIME32 [W32 1, Out32 time_zero] =
            (k, 0, [to_le_bytes 4 (fst (now k)) @ to_le_bytes 4 (snd (now k))])) \<and>
     (\<forall>k. q_syscall P k GETTIMEOFDAY32 [Out32 time_zero, W32 0] =
            (k, 0, [to_le_bytes 4 (fst (today k)) @ to_le_bytes 4 (snd (today k))])) \<and>
     (\<forall>k bs. 8 \<le> length bs \<longrightarrow> fst (q_syscall P k NANOSLEEP32 [In32 bs, W32 0]) =
            nap k (from_le_bytes (take 4 bs)) (from_le_bytes (take 4 (drop 4 bs))))"

lemma drop_to_le_bytes: "drop i (to_le_bytes n w) = to_le_bytes (n - i) (drop_bit (8 * i) w)"
proof (induction n arbitrary: i w)
  case (Suc n)
  then show ?case by (cases i) (simp_all add: drop_bit_drop_bit add.commute)
qed simp

lemma take_to_le_bytes: "take j (to_le_bytes n w) = to_le_bytes (min j n) w"
proof (induction n arbitrary: j w)
  case (Suc n)
  then show ?case by (cases j) simp_all
qed simp

lemma from_to_le_bytes_cast: "(from_le_bytes (to_le_bytes n (w :: 'a::len word)) :: 'b::len word) = ucast (take_bit (8 * n) w)"
proof (induction n arbitrary: w)
  case (Suc n)
  have "(ucast (ucast w :: byte) :: 'b word) OR push_bit 8 (ucast (take_bit (8 * n) (drop_bit 8 w))) = ucast (take_bit (8 * Suc n) w)"
    by (rule bit_word_eqI) (auto simp: bit_simps not_less dest: bit_imp_le_length)
  then show ?case by (simp add: Suc.IH)
qed simp

lemma from_le_bytes_zeros: "from_le_bytes (replicate n 0) = (0 :: 'a::len word)"
  by (induction n) simp_all

lemma time_pair_bytes:
  "time_field (out_buf time_zero [to_le_bytes 4 (a :: u32) @ to_le_bytes 4 (b :: u32)] 0) 0 = ucast a OR push_bit 32 (ucast b)"
  "time_field (out_buf time_zero [to_le_bytes 4 (a :: u32) @ to_le_bytes 4 (b :: u32)] 0) 1 = 0"
proof -
  have "out_buf time_zero [to_le_bytes 4 a @ to_le_bytes 4 b] 0 = (to_le_bytes 4 a @ to_le_bytes 4 b) @ replicate 8 0"
    by (simp add: out_buf_def overwrite_def time_zero_def)
  moreover have "take_bit 32 w = w" for w :: u32 by (rule bit_word_eqI) (simp add: bit_simps)
  ultimately show "time_field (out_buf time_zero [to_le_bytes 4 a @ to_le_bytes 4 b] 0) 0 = ucast a OR push_bit 32 (ucast b)"
    "time_field (out_buf time_zero [to_le_bytes 4 a @ to_le_bytes 4 b] 0) 1 = 0"
    by (simp_all only: time_field_def take_append drop_append)
      (simp_all add: from_le_bytes_append from_to_le_bytes_cast from_le_bytes_zeros)
qed

lemma timespec_low_words:
  "(from_le_bytes (take 4 (to_le_bytes 8 (s :: u64) @ r)) :: u32) = ucast s"
  "(from_le_bytes (take 4 (drop 4 (to_le_bytes 8 (s :: u64) @ r))) :: u32) = ucast (drop_bit 32 s)"
proof -
  have "(ucast (take_bit 32 w) :: u32) = ucast w" for w :: u64 by (rule bit_word_eqI) (auto simp: bit_simps)
  then show "(from_le_bytes (take 4 (to_le_bytes 8 s @ r)) :: u32) = ucast s"
    "(from_le_bytes (take 4 (drop 4 (to_le_bytes 8 s @ r))) :: u32) = ucast (drop_bit 32 s)"
    by (simp_all add: drop_to_le_bytes take_to_le_bytes from_to_le_bytes_cast)
qed

text \<open>C36: On 32-bit Linux the clocks and \<open>sleep\<close> mistake the layout. The seconds that \<open>monotonic\<close> and \<open>gettimeofday\<close>
  report have the fraction in their upper half, and the fraction they report is zero. \<open>sleep\<close> drops the nanoseconds: the
  kernel takes the upper half of the seconds for them, so a duration below a second does not sleep.
\<close>

theorem linux32_times_misread:
  assumes "time32_abi P now today nap"
  shows "monotonic32 P k = (k, ucast (fst (now k)) OR push_bit 32 (ucast (snd (now k))), 0) \<and>
    gettimeofday32 P k = (k, Inr (ucast (fst (today k)) OR push_bit 32 (ucast (snd (today k))), 0)) \<and>
    sleep32 P k dur = nap k (ucast (d_secs dur)) (ucast (drop_bit 32 (d_secs dur)))"
proof (intro conjI)
  note abi = assms [unfolded time32_abi_def]
  show "monotonic32 P k = (k, ucast (fst (now k)) OR push_bit 32 (ucast (snd (now k))), 0)"
    by (simp only: monotonic32_def abi prod.case Let_def time_pair_bytes unsigned_0)
  have "from_ret32 0 = Inr 0" by (simp add: from_ret32_def)
  then show "gettimeofday32 P k = (k, Inr (ucast (fst (today k)) OR push_bit 32 (ucast (snd (today k))), 0))"
    by (simp only: gettimeofday32_def abi prod.case Let_def time_pair_bytes map_ok_def sum.case)
  let ?bs = "to_le_bytes 8 (d_secs dur) @ to_le_bytes 8 (ucast (d_nanos dur) :: u64)"
  have "fst (q_syscall P k NANOSLEEP32 [In32 ?bs, W32 0]) = nap k (from_le_bytes (take 4 ?bs)) (from_le_bytes (take 4 (drop 4 ?bs)))"
    using abi by simp
  then show "sleep32 P k dur = nap k (ucast (d_secs dur)) (ucast (drop_bit 32 (d_secs dur)))"
    by (simp only: sleep32_def timespec_low_words)
qed

text \<open>A machine whose only state is its clock, in nanoseconds, 5.25 seconds after it started.\<close>

definition clock_machine :: "nat platform32" where
  "clock_machine =
     \<lparr> q_arm = False,
       q_syscall = (\<lambda>k n args.
         case n of
           NANOSLEEP32 \<Rightarrow>
             (case args of
                [In32 bs, _] \<Rightarrow>
                  (k + unat (from_le_bytes (take 4 bs) :: u32) * 1000000000 + unat (from_le_bytes (take 4 (drop 4 bs)) :: u32), 0, [])
              | _ \<Rightarrow> (k, 0, []))
         | GETTIMEOFDAY32 \<Rightarrow>
             (k, 0, [to_le_bytes 4 (of_nat (k div 1000000000) :: u32) @ to_le_bytes 4 (of_nat (k mod 1000000000 div 1000) :: u32)])
         | _ \<Rightarrow> (k, 0, [to_le_bytes 4 (of_nat (k div 1000000000) :: u32) @ to_le_bytes 4 (of_nat (k mod 1000000000) :: u32)])) \<rparr>"

theorem linux32_times_misread_witness:
  "monotonic32 clock_machine 5250000000 = (5250000000, 5 + 2 ^ 32 * 250000000, 0) \<and>
   sleep32 clock_machine 5250000000 \<lparr> d_secs = 0, d_nanos = 500000000 \<rparr> = 5250000000"
proof -
  have "time32_abi clock_machine
      (\<lambda>k. (of_nat (k div 1000000000), of_nat (k mod 1000000000)))
      (\<lambda>k. (of_nat (k div 1000000000), of_nat (k mod 1000000000 div 1000)))
      (\<lambda>k s ns. k + unat s * 1000000000 + unat ns)"
    by (simp add: time32_abi_def clock_machine_def)
  from linux32_times_misread [OF this, of 5250000000 "\<lparr> d_secs = 0, d_nanos = 500000000 \<rparr>"]
  show ?thesis by simp
qed

end
