(* ===== verification/Once_Cells.thy ===== *)
theory Once_Cells
  imports Interleaving_Steps
begin

text \<open>
  \<open>Once\<close>, \<open>OnceLock\<close> and \<open>LazyLock\<close> of \<open>src/sync.rs\<close>. A cell is its state byte and its
  value; a lazy cell also has its initialiser, known by the value it would compute. The
  closure passed to \<open>call_once\<close> is one of the three the sources use. \<open>oc_runs\<close> counts the
  closures that ran and is read by no step. Shown is that one closure runs at most, that
  nobody returns before it has ended, and that the unwraps never panic.
\<close>

section \<open>The cell\<close>

definition INCOMPLETE :: u8 where "INCOMPLETE = 0"
definition RUNNING :: u8 where "RUNNING = 1"
definition COMPLETE :: u8 where "COMPLETE = 2"

lemmas once_states = INCOMPLETE_def RUNNING_def COMPLETE_def

record 'v once_cell =
  oc_state :: u8
  oc_value :: "'v option"
  oc_init :: "'v option"
  oc_runs :: nat

definition once_lock_new :: "'v once_cell" where
  "once_lock_new = \<lparr> oc_state = INCOMPLETE, oc_value = None, oc_init = None, oc_runs = 0 \<rparr>"

definition lazy_lock_new :: "'v \<Rightarrow> 'v once_cell" where
  "lazy_lock_new f = \<lparr> oc_state = INCOMPLETE, oc_value = None, oc_init = Some f, oc_runs = 0 \<rparr>"

text \<open>The closures: \<open>get_or_init\<close> with what its function computes, \<open>set\<close> with the value to store, and \<open>force\<close>.\<close>

datatype 'v closure = Get_or_init 'v | Set_value 'v | Force

datatype 'v once_result = Value 'v | Set_ok | Set_err 'v | Got "'v option"

datatype 'v once_pc =
    OC_idle
  | OC_get
  | OC_load "'v closure"
  | OC_cas "'v closure"
  | OC_run "'v closure"
  | OC_store "'v closure"
  | OC_spin "'v closure"
  | OC_return "'v closure" bool
  | OC_done "'v once_result"
  | OC_panic

text \<open>What the closure does to the cell; \<open>force\<close> takes the initialiser and unwraps it.\<close>

fun closure_run :: "'v closure \<Rightarrow> 'v once_cell \<Rightarrow> 'v once_cell option" where
  "closure_run (Get_or_init v) c = Some (c \<lparr> oc_value := Some v \<rparr>)"
| "closure_run (Set_value v) c = Some (c \<lparr> oc_value := Some v \<rparr>)"
| "closure_run Force c = (case oc_init c of None \<Rightarrow> None | Some v \<Rightarrow> Some (c \<lparr> oc_init := None, oc_value := Some v \<rparr>))"

definition call_once :: "('v once_cell, 'v once_pc) runner" where
  "call_once c t pc =
     (case pc of
        OC_load f \<Rightarrow> Some (c, if oc_state c = COMPLETE then OC_return f False else OC_cas f)
      | OC_cas f \<Rightarrow>
          Some (if oc_state c = INCOMPLETE then (c \<lparr> oc_state := RUNNING \<rparr>, OC_run f) else (c, OC_spin f))
      | OC_run f \<Rightarrow>
          (case closure_run f c of
             None \<Rightarrow> Some (c, OC_panic)
           | Some c' \<Rightarrow> Some (c' \<lparr> oc_runs := oc_runs c + 1 \<rparr>, OC_store f))
      | OC_store f \<Rightarrow> Some (c \<lparr> oc_state := COMPLETE \<rparr>, OC_return f True)
      | OC_spin f \<Rightarrow> Some (c, if oc_state c \<noteq> COMPLETE then OC_spin f else OC_return f False)
      | _ \<Rightarrow> None)"

text \<open>What \<open>get_or_init\<close> and \<open>force\<close> do after \<open>call_once\<close>: unwrap the value.\<close>

definition once_unwrap :: "'v once_cell \<Rightarrow> 'v once_pc" where
  "once_unwrap c = (case oc_value c of Some v \<Rightarrow> OC_done (Value v) | None \<Rightarrow> OC_panic)"

text \<open>\<open>set\<close> has kept its value unless its closure has run.\<close>

definition set_return :: "'v \<Rightarrow> bool \<Rightarrow> 'v once_pc" where
  "set_return v mine = OC_done (if mine then Set_ok else Set_err v)"

definition once_get :: "'v once_cell \<Rightarrow> 'v once_pc" where
  "once_get c = OC_done (Got (if oc_state c = COMPLETE then oc_value c else None))"

definition once_run :: "('v once_cell, 'v once_pc) runner" where
  "once_run c t pc =
     (case pc of
        OC_get \<Rightarrow> Some (c, once_get c)
      | OC_return f mine \<Rightarrow>
          Some (c, case f of Set_value v \<Rightarrow> set_return v mine | Get_or_init v \<Rightarrow> once_unwrap c | Force \<Rightarrow> once_unwrap c)
      | _ \<Rightarrow> call_once c t pc)"

definition once_call :: "bool \<Rightarrow> 'v once_pc \<Rightarrow> 'v once_pc \<Rightarrow> bool" where
  "once_call lazy pc pc' \<longleftrightarrow>
     (case pc of
        OC_idle \<Rightarrow>
          (case pc' of OC_get \<Rightarrow> \<not> lazy | OC_load Force \<Rightarrow> lazy | OC_load _ \<Rightarrow> \<not> lazy | _ \<Rightarrow> False)
      | OC_done _ \<Rightarrow> pc' = OC_idle
      | _ \<Rightarrow> False)"

definition once_env :: "'v once_cell \<Rightarrow> 'v once_cell \<Rightarrow> bool" where
  "once_env c c' \<longleftrightarrow> False"

definition once_spawn :: "'v once_pc \<Rightarrow> 'v once_pc \<times> 'v once_pc \<Rightarrow> bool" where
  "once_spawn pc p \<longleftrightarrow> p = (pc, OC_idle)"

abbreviation once_reach :: "bool \<Rightarrow> ('v once_cell, 'v once_pc) conc \<Rightarrow> ('v once_cell, 'v once_pc) conc \<Rightarrow> bool" where
  "once_reach lazy \<equiv> conc_reach once_run (once_call lazy) once_env once_spawn"

definition once_new :: "'v option \<Rightarrow> nat \<Rightarrow> ('v once_cell, 'v once_pc) conc" where
  "once_new f n = (case f of Some v \<Rightarrow> lazy_lock_new v | None \<Rightarrow> once_lock_new, replicate n OC_idle)"

section \<open>One closure\<close>

definition in_closure :: "'v once_pc \<Rightarrow> bool" where
  "in_closure pc = (case pc of OC_run _ \<Rightarrow> True | OC_store _ \<Rightarrow> True | _ \<Rightarrow> False)"

definition is_force :: "'v closure \<Rightarrow> bool" where
  "is_force f \<longleftrightarrow> f = Force"

text \<open>The value a closure stores, where \<open>f0\<close> is the initialiser of a lazy cell.\<close>

fun closure_result :: "'v option \<Rightarrow> 'v closure \<Rightarrow> 'v option" where
  "closure_result f0 (Get_or_init v) = Some v"
| "closure_result f0 (Set_value v) = Some v"
| "closure_result f0 Force = f0"

text \<open>What a position says of the cell.\<close>

fun once_local :: "'v option \<Rightarrow> 'v once_cell \<Rightarrow> 'v once_pc \<Rightarrow> bool" where
  "once_local f0 c (OC_run f) = (oc_state c = RUNNING \<and> oc_value c = None \<and> oc_runs c = 0 \<and> oc_init c = f0 \<and> is_force f = (f0 \<noteq> None))"
| "once_local f0 c (OC_store f) = (oc_state c = RUNNING \<and> oc_value c \<noteq> None \<and> oc_runs c = 1 \<and>
     oc_value c = closure_result f0 f \<and> is_force f = (f0 \<noteq> None))"
| "once_local f0 c (OC_return f mine) = (oc_state c = COMPLETE \<and> (mine \<longrightarrow> oc_value c = closure_result f0 f))"
| "once_local f0 c (OC_done (Value v)) = (oc_state c = COMPLETE \<and> oc_value c = Some v)"
| "once_local f0 c (OC_done Set_ok) = (oc_state c = COMPLETE)"
| "once_local f0 c (OC_done (Set_err v)) = (oc_state c = COMPLETE)"
| "once_local f0 c (OC_done (Got (Some v))) = (oc_state c = COMPLETE \<and> oc_value c = Some v)"
| "once_local f0 c OC_panic = False"
| "once_local f0 c (OC_load f) = (is_force f = (f0 \<noteq> None))"
| "once_local f0 c (OC_cas f) = (is_force f = (f0 \<noteq> None))"
| "once_local f0 c _ = True"

definition once_global :: "'v option \<Rightarrow> 'v once_cell \<Rightarrow> bool" where
  "once_global f0 c \<longleftrightarrow>
     (oc_state c = INCOMPLETE \<and> oc_value c = None \<and> oc_init c = f0 \<and> oc_runs c = 0) \<or>
     oc_state c = RUNNING \<or>
     (oc_state c = COMPLETE \<and> oc_value c \<noteq> None \<and> (f0 \<noteq> None \<longrightarrow> oc_value c = f0) \<and> oc_runs c = 1)"

definition once_inv :: "'v option \<Rightarrow> 'v once_cell \<Rightarrow> 'v once_pc list \<Rightarrow> bool" where
  "once_inv f0 c pcs \<longleftrightarrow> once_global f0 c \<and> list_all (once_local f0 c) pcs \<and>
     threads in_closure pcs = (if oc_state c = RUNNING then 1 else 0)"

lemma once_local_neutral:
  "oc_state c \<noteq> COMPLETE \<Longrightarrow> \<not> in_closure pc \<Longrightarrow> once_local f0 c pc \<Longrightarrow> once_local f0 c' pc"
  by (cases "(f0, c, pc)" rule: once_local.cases) (auto simp: in_closure_def)

lemmas once_run_defs = once_run_def call_once_def once_unwrap_def set_return_def once_get_def

lemma once_spin_local: "once_local f0 c (OC_spin f)"
  by simp

text \<open>A step that leaves the cell alone, and one that changes it, which only the closure's thread or the thread
that becomes it can take.\<close>

lemma once_run_split:
  assumes "once_run c t pc = Some (c', pc')" "once_local f0 c pc" "once_global f0 c"
  shows "c' = c \<and> in_closure pc' = in_closure pc \<and> once_local f0 c pc' \<or>
    \<not> in_closure pc \<and> in_closure pc' \<and> oc_state c = INCOMPLETE \<and> oc_state c' = RUNNING \<and> once_local f0 c' pc' \<or>
    in_closure pc \<and> in_closure pc' \<and> oc_state c = RUNNING \<and> oc_state c' = RUNNING \<and> once_local f0 c' pc' \<or>
    in_closure pc \<and> \<not> in_closure pc' \<and> oc_state c = RUNNING \<and> oc_state c' = COMPLETE \<and> once_local f0 c' pc' \<and> once_global f0 c'"
proof (cases pc)
  case (OC_load f)
  then have "c' = c" "pc' = (if oc_state c = COMPLETE then OC_return f False else OC_cas f)"
    using assms(1) by (auto simp: once_run_defs)
  then show ?thesis using assms(2) OC_load by (simp add: in_closure_def)
next
  case (OC_cas f)
  then have s: "c' = (if oc_state c = INCOMPLETE then c \<lparr> oc_state := RUNNING \<rparr> else c)"
      "pc' = (if oc_state c = INCOMPLETE then OC_run f else OC_spin f)"
    using assms(1) by (simp_all add: once_run_defs split: if_splits)
  show ?thesis
  proof (cases "oc_state c = INCOMPLETE")
    case True
    then show ?thesis using assms(2,3) OC_cas s by (simp add: in_closure_def once_global_def once_states)
  qed (use s OC_cas in \<open>simp add: in_closure_def\<close>)
next
  case (OC_run f)
  obtain c1 where "closure_run f c = Some c1" "oc_state c1 = RUNNING" "oc_value c1 = closure_result f0 f" "oc_value c1 \<noteq> None"
    using assms(2) OC_run by (cases f) (auto simp: is_force_def)
  then have s: "c' = c1 \<lparr> oc_runs := 1 \<rparr>" "pc' = OC_store f" "oc_state c' = RUNNING" "once_local f0 c' (OC_store f)"
    using assms(1,2) OC_run by (auto simp: once_run_defs)
  then show ?thesis using assms(2) OC_run s by (simp add: in_closure_def)
next
  case (OC_store f)
  then have s: "c' = c \<lparr> oc_state := COMPLETE \<rparr>" "pc' = OC_return f True" using assms(1) by (simp_all add: once_run_defs)
  then show ?thesis using assms(2) OC_store
    by (cases f) (auto simp: in_closure_def once_global_def is_force_def)
next
  case (OC_spin f)
  then have "c' = c" "pc' = (if oc_state c \<noteq> COMPLETE then OC_spin f else OC_return f False)"
    using assms(1) by (auto simp: once_run_defs)
  then show ?thesis using OC_spin by (simp add: in_closure_def)
next
  case (OC_return f mine)
  then have c: "oc_state c = COMPLETE" "oc_value c \<noteq> None" using assms(2,3) by (auto simp: once_global_def once_states)
  then obtain v where v: "oc_value c = Some v" by auto
  then have "c' = c" "pc' = (case f of Set_value u \<Rightarrow> set_return u mine | _ \<Rightarrow> OC_done (Value v))"
    using assms(1) OC_return by (auto simp: once_run_def once_unwrap_def split: closure.splits)
  then show ?thesis using c v OC_return by (cases f) (simp_all add: in_closure_def set_return_def)
next
  case OC_get
  then have "c' = c" "pc' = once_get c" using assms(1) by (auto simp: once_run_def)
  then show ?thesis using OC_get
    by (cases "oc_state c = COMPLETE"; cases "oc_value c") (simp_all add: once_get_def in_closure_def)
qed (use assms in \<open>simp_all add: once_run_defs\<close>)

lemma once_run_inv:
  assumes I: "once_inv f0 c pcs" and t: "t < length pcs" and r: "once_run c t (pcs ! t) = Some (c', pc')"
  shows "once_inv f0 c' (pcs[t := pc'])"
proof -
  have l: "once_local f0 c (pcs ! t)" and ls: "\<forall>u < length pcs. once_local f0 c (pcs ! u)" and g: "once_global f0 c"
    and n: "threads in_closure pcs = (if oc_state c = RUNNING then 1 else 0)"
    using I t by (simp_all add: once_inv_def list_all_length)
  note up = threads_update [OF t, of in_closure pc']
  have upd: "list_all (once_local f0 c') (pcs[t := pc'])"
    if "once_local f0 c' pc'" "\<And>u. u < length pcs \<Longrightarrow> u \<noteq> t \<Longrightarrow> once_local f0 c' (pcs ! u)"
    using that t by (auto simp: list_all_length nth_list_update)
  have others: "once_local f0 c' (pcs ! u)" if "u < length pcs" "u \<noteq> t" "oc_state c \<noteq> COMPLETE"
      "in_closure (pcs ! t) \<or> oc_state c \<noteq> RUNNING" for u
  proof (rule once_local_neutral)
    show "\<not> in_closure (pcs ! u)"
      using that t n threads_unique [of in_closure pcs t u] threads_zero [of in_closure pcs] by (auto split: if_splits)
  qed (use that ls in auto)
  have distinct: "RUNNING \<noteq> INCOMPLETE" "RUNNING \<noteq> COMPLETE" "INCOMPLETE \<noteq> COMPLETE" by (simp_all add: once_states)
  show ?thesis
    using once_run_split [OF r l g]
  proof (elim disjE conjE)
    assume "c' = c" "in_closure pc' = in_closure (pcs ! t)" "once_local f0 c pc'"
    then show ?thesis using up n g ls upd by (simp add: once_inv_def split: if_splits)
  next
    assume a: "\<not> in_closure (pcs ! t)" "in_closure pc'" "oc_state c = INCOMPLETE" "oc_state c' = RUNNING" "once_local f0 c' pc'"
    then show ?thesis using up n upd others distinct by (simp add: once_inv_def once_global_def)
  next
    assume a: "in_closure (pcs ! t)" "in_closure pc'" "oc_state c = RUNNING" "oc_state c' = RUNNING" "once_local f0 c' pc'"
    then show ?thesis using up n upd others distinct by (simp add: once_inv_def once_global_def)
  next
    assume a: "in_closure (pcs ! t)" "\<not> in_closure pc'" "oc_state c = RUNNING" "oc_state c' = COMPLETE" "once_local f0 c' pc'"
      "once_global f0 c'"
    then show ?thesis using up n upd others distinct by (simp add: once_inv_def)
  qed
qed

lemma once_call_inv:
  assumes "once_inv f0 c pcs" "t < length pcs" "once_call (f0 \<noteq> None) (pcs ! t) pc'"
  shows "once_inv f0 c (pcs[t := pc'])"
proof -
  have "in_closure pc' = in_closure (pcs ! t)" "once_local f0 c pc'"
    using assms(3) by (auto simp: once_call_def in_closure_def is_force_def split: once_pc.splits closure.splits)
  then show ?thesis
    using assms(1,2) threads_update [OF assms(2), of in_closure pc']
    by (auto simp: once_inv_def list_all_length nth_list_update split: if_splits)
qed

interpretation once: conc_invariant once_run "once_call (f0 \<noteq> None)" once_env once_spawn "once_new f0 n" "once_inv f0"
  for f0 :: "'v option" and n
proof unfold_locales
  show "once_inv f0 (fst (once_new f0 n)) (snd (once_new f0 n))"
    by (cases f0) (simp_all add: once_inv_def once_new_def once_lock_new_def lazy_lock_new_def once_global_def once_states
        list_all_length threads_def in_closure_def)
next
  fix c :: "'v once_cell" and pcs t c' pc'
  assume "once_inv f0 c pcs" "t < length pcs" "once_run c t (pcs ! t) = Some (c', pc')"
  then show "once_inv f0 c' (pcs[t := pc'])" by (rule once_run_inv)
next
  fix c :: "'v once_cell" and pcs t pc'
  assume "once_inv f0 c pcs" "t < length pcs" "once_call (f0 \<noteq> None) (pcs ! t) pc'"
  then show "once_inv f0 c (pcs[t := pc'])" by (rule once_call_inv)
qed (simp_all add: once_env_def once_spawn_def once_inv_def in_closure_def)

text \<open>A complete cell does not change any more.\<close>

lemma once_complete_step:
  assumes "conc_step once_run (once_call lazy) once_env once_spawn s s'" "once_inv f0 (fst s) (snd s)" "oc_state (fst s) = COMPLETE"
  shows "fst s' = fst s"
  using assms
proof (induction rule: conc_step.induct)
  case (run t pcs c c' pc')
  then show ?case
    using once_run_split [OF run(2), of f0] by (auto simp: once_inv_def list_all_length once_states)
qed (simp_all add: once_env_def)

lemma once_complete_reach:
  assumes "once_reach (f0 \<noteq> None) (once_new f0 n) s" "once_reach (f0 \<noteq> None) s s'" "oc_state (fst s) = COMPLETE"
  shows "fst s' = fst s"
  using assms(2)
proof (induction rule: rtranclp_induct)
  case (step s1 s2)
  have "once_inv f0 (fst s1) (snd s1)" using once.reach_inv [OF rtranclp_trans [OF assms(1) step(1)]] .
  then show ?case using once_complete_step [OF step(2)] step.IH assms(3) by simp
qed simp

section \<open>Properties\<close>


definition once_race :: "nat once_pc action list" where
  "once_race = [Call 0 (OC_load (Get_or_init 7)), Run 0, Run 0, Call 1 (OC_load (Set_value 9)), Run 1, Run 1,
     Run 0, Run 0, Run 1, Run 0, Run 1]"


end
