(* ===== verification/Descriptors.thy ===== *)
theory Descriptors
  imports Fs
begin

text \<open>
  What the system calls do to the table of open descriptors. The table belongs to the kernel, so it is a
  view \<open>tbl\<close> of the kernel's state from descriptors to open file descriptions, and \<open>fd_contract\<close>
  states the documented effect of every call on it. The lemmas lift the contract to the wrappers of
  \<open>src/syscall.rs\<close> and to the readers of \<open>src/io.rs\<close> and \<open>src/fs.rs\<close>; sockets and processes build on
  them.
\<close>

section \<open>The contract\<close>

text \<open>A call that gives a new descriptor takes a free one.\<close>

definition fd_fresh :: "(i32 \<rightharpoonup> 'o) \<Rightarrow> (i32 \<rightharpoonup> 'o) \<Rightarrow> i32 \<Rightarrow> bool" where
  "fd_fresh T T' fd \<longleftrightarrow> T fd = None \<and> (\<exists>d. T' = T(fd \<mapsto> d))"

text \<open>A pipe is two free descriptors for two ends that belong together.\<close>

definition fd_pipe :: "('o \<Rightarrow> 'o \<Rightarrow> bool) \<Rightarrow> (i32 \<rightharpoonup> 'o) \<Rightarrow> (i32 \<rightharpoonup> 'o) \<Rightarrow> i32 \<Rightarrow> i32 \<Rightarrow> bool" where
  "fd_pipe ends T T' r w \<longleftrightarrow> r \<noteq> w \<and> T r = None \<and> T w = None \<and> (\<exists>dr dw. ends dr dw \<and> T' = T(r \<mapsto> dr, w \<mapsto> dw))"

definition fd_effect :: "('o \<Rightarrow> 'o \<Rightarrow> bool) \<Rightarrow> nr \<Rightarrow> arg list \<Rightarrow> Errno + u64 \<Rightarrow> byte list list \<Rightarrow> (i32 \<rightharpoonup> 'o) \<Rightarrow> (i32 \<rightharpoonup> 'o) \<Rightarrow> bool" where
  "fd_effect ends n args res ws T T' \<longleftrightarrow>
     (if n = CLOSE then (case args of [W fd] \<Rightarrow> T' = T(ucast fd := None) | _ \<Rightarrow> True)
      else if n = FCNTL then (case args of [_, W cmd, _] \<Rightarrow> (if cmd = 0 then True else T' = T) | _ \<Rightarrow> True)
      else case res of
             Inl _ \<Rightarrow> T' = T
           | Inr v \<Rightarrow>
               if n = OPENAT \<or> n = SOCKET \<or> n = ACCEPT then fd_fresh T T' (ucast v)
               else if n = DUP
               then (case args of [W fd] \<Rightarrow> T (ucast v) = None \<and> T (ucast fd) \<noteq> None \<and> T' = T(ucast v := T (ucast fd)) | _ \<Rightarrow> True)
               else if n = DUP2 \<or> n = DUP3
               then (case args of W old # W new # _ \<Rightarrow> T (ucast old) \<noteq> None \<and> T' = T(ucast new := T (ucast old)) | _ \<Rightarrow> True)
               else if n = PIPE2 then (\<exists>r w. ws = [to_le_bytes 4 r @ to_le_bytes 4 w] \<and> fd_pipe ends T T' r w)
               else T' = T)"

definition fd_contract :: "'k platform \<Rightarrow> ('k \<Rightarrow> i32 \<rightharpoonup> 'o) \<Rightarrow> ('o \<Rightarrow> 'o \<Rightarrow> bool) \<Rightarrow> bool" where
  "fd_contract P tbl ends \<longleftrightarrow>
     (\<forall>k n args k' r ws. p_syscall P k n args = (k', r, ws) \<longrightarrow> fd_effect ends n args (from_ret r) ws (tbl k) (tbl k')) \<and>
     (\<forall>k n k' x0 x1 err. p_svc2 P k n = (k', x0, x1, err) \<longrightarrow>
        (if n = 0x2000000 OR 42 \<and> \<not> err then fd_pipe ends (tbl k) (tbl k') (ucast x0) (ucast x1) else tbl k' = tbl k))"

lemma fd_call:
  "fd_contract P tbl ends \<Longrightarrow> p_syscall P k n args = (k', r, ws) \<Longrightarrow> fd_effect ends n args (from_ret r) ws (tbl k) (tbl k')"
  by (simp add: fd_contract_def)

lemma fd_svc2:
  "fd_contract P tbl ends \<Longrightarrow> p_svc2 P k n = (k', x0, x1, err) \<Longrightarrow>
     (if n = 0x2000000 OR 42 \<and> \<not> err then fd_pipe ends (tbl k) (tbl k') (ucast x0) (ucast x1) else tbl k' = tbl k)"
  by (simp add: fd_contract_def)

lemma ucast_i32_usize [simp]: "ucast (i32_usize fd) = fd"
  by (simp add: i32_usize_def bit_eq_iff bit_unsigned_iff bit_signed_iff)

text \<open>The calls that leave the table alone.\<close>

definition fd_neutral :: "nr \<Rightarrow> bool" where
  "fd_neutral n \<longleftrightarrow> n \<noteq> CLOSE \<and> n \<noteq> FCNTL \<and> n \<noteq> OPENAT \<and> n \<noteq> SOCKET \<and> n \<noteq> ACCEPT \<and> n \<noteq> DUP \<and> n \<noteq> DUP2 \<and> n \<noteq> DUP3 \<and> n \<noteq> PIPE2"

lemma fd_call_neutral:
  "fd_contract P tbl ends \<Longrightarrow> p_syscall P k n args = (k', r, ws) \<Longrightarrow> fd_neutral n \<Longrightarrow> tbl k' = tbl k"
  using fd_call [of P tbl ends k n args k' r ws] by (cases "from_ret r") (simp_all add: fd_effect_def fd_neutral_def)

section \<open>The wrappers\<close>

definition fd_gain :: "(i32 \<rightharpoonup> 'o) \<Rightarrow> (i32 \<rightharpoonup> 'o) \<Rightarrow> 'e + i32 \<Rightarrow> bool" where
  "fd_gain T T' r \<longleftrightarrow> (case r of Inl _ \<Rightarrow> T' = T | Inr fd \<Rightarrow> fd_fresh T T' fd)"

lemma fd_gain_simps [simp]: "fd_gain T T' (Inl e) \<longleftrightarrow> T' = T" "fd_gain T T' (Inr fd) \<longleftrightarrow> fd_fresh T T' fd"
  by (simp_all add: fd_gain_def)

lemma fd_gain_io_result [simp]: "fd_gain T T' (io_result r) \<longleftrightarrow> fd_gain T T' r"
  by (cases r) simp_all

lemma fd_fresh_close: "fd_fresh T T' fd \<Longrightarrow> T'(fd := None) = T"
  by (auto simp: fd_fresh_def fun_eq_iff)

lemma sys_close_fds: "fd_contract P tbl ends \<Longrightarrow> sys_close P k fd = (k', r) \<Longrightarrow> tbl k' = (tbl k)(fd := None)"
  by (auto simp: sys_close_def fd_effect_def dest!: fd_call split: prod.splits)

lemma sys_open_fds: "fd_contract P tbl ends \<Longrightarrow> sys_open P k path flags mode = (k', r) \<Longrightarrow> fd_gain (tbl k) (tbl k') r"
  by (auto simp: sys_open_def fd_effect_def map_ok_def dest!: fd_call split: prod.splits sum.splits)

lemma sys_socket_fds: "fd_contract P tbl ends \<Longrightarrow> sys_socket P k f t p = (k', r) \<Longrightarrow> fd_gain (tbl k) (tbl k') r"
  by (auto simp: sys_socket_def fd_effect_def map_ok_def dest!: fd_call split: prod.splits sum.splits)

lemma sys_accept_fds: "fd_contract P tbl ends \<Longrightarrow> sys_accept P k fd b l = (k', b', l', r) \<Longrightarrow> fd_gain (tbl k) (tbl k') r"
  by (auto simp: sys_accept_def fd_effect_def map_ok_def dest!: fd_call split: prod.splits sum.splits)

lemma sys_dup_fds: "fd_contract P tbl ends \<Longrightarrow> sys_dup P k fd = (k', r) \<Longrightarrow>
    (case r of Inl _ \<Rightarrow> tbl k' = tbl k
     | Inr fd' \<Rightarrow> tbl k fd' = None \<and> tbl k fd \<noteq> None \<and> tbl k' = (tbl k)(fd' := tbl k fd))"
  by (auto simp: sys_dup_def fd_effect_def map_ok_def dest!: fd_call split: prod.splits sum.splits)

lemma sys_dup2_fds: "fd_contract P tbl ends \<Longrightarrow> sys_dup2 P k old new = (k', r) \<Longrightarrow>
    (case r of Inl _ \<Rightarrow> tbl k' = tbl k | Inr _ \<Rightarrow> tbl k old \<noteq> None \<and> tbl k' = (tbl k)(new := tbl k old))"
  by (auto simp: sys_dup2_def fd_effect_def map_ok_def dest!: fd_call split: prod.splits sum.splits if_splits)

lemma le_bytes4: "from_le_bytes (to_le_bytes 4 (w :: i32)) = w"
  by (intro from_to_le_bytes) simp

lemma sys_pipe_fds:
  assumes "fd_contract P tbl ends" "sys_pipe P k = (k', res)"
  shows "case res of Inl _ \<Rightarrow> tbl k' = tbl k | Inr (r, w) \<Rightarrow> fd_pipe ends (tbl k) (tbl k') r w"
proof (cases "is_macos (p_target P)")
  case True
  then show ?thesis
    using assms fd_svc2 [OF assms(1), of k "0x2000000 OR 42"] by (auto simp: sys_pipe_def split: prod.splits if_splits)
next
  case False
  obtain k2 r ws where c: "p_syscall P k PIPE2 [Out (replicate 8 0), W 0] = (k2, r, ws)" by (metis prod_cases3)
  have e: "fd_effect ends PIPE2 [Out (replicate 8 0), W 0] (from_ret r) ws (tbl k) (tbl k2)" by (rule fd_call [OF assms(1) c])
  show ?thesis
  proof (cases "from_ret r")
    case (Inr v)
    then obtain a b where ab: "ws = [to_le_bytes 4 a @ to_le_bytes 4 b]" "fd_pipe ends (tbl k) (tbl k2) a b"
      using e by (auto simp: fd_effect_def)
    have "out_buf (replicate 8 0) ws 0 = to_le_bytes 4 a @ to_le_bytes 4 b" using ab(1) by (simp add: out_buf_def overwrite_def)
    then show ?thesis using assms(2) False c Inr ab by (auto simp: sys_pipe_def le_bytes4)
  qed (use assms(2) False c e in \<open>auto simp: sys_pipe_def fd_effect_def\<close>)
qed

lemma sys_fork_fds:
  assumes "fd_contract P tbl ends" "sys_fork P k = (k', r)"
  shows "tbl k' = tbl k"
proof (cases "is_macos (p_target P)")
  case True
  obtain k2 a b err where c: "p_svc2 P k (0x2000000 OR 2) = (k2, a, b, err)" by (metis prod_cases4)
  then have "k2 = k'" using True assms(2) by (cases "p_target P") (auto simp: sys_fork_def split: if_splits)
  then show ?thesis using fd_svc2 [OF assms(1) c] by simp
next
  case False
  obtain k1 r1 ws1 k2 r2 ws2 where c: "p_syscall P k FORK [] = (k1, r1, ws1)"
      "p_syscall P k CLONE [W 17, W 0, W 0, W 0, W 0] = (k2, r2, ws2)" by (metis prod_cases3)
  then have "k' = k1 \<or> k' = k2" using False assms(2) by (cases "p_target P") (auto simp: sys_fork_def)
  then show ?thesis
    using fd_call_neutral [OF assms(1) c(1)] fd_call_neutral [OF assms(1) c(2)] by (auto simp: fd_neutral_def)
qed

lemma sys_fcntl_fds: "fd_contract P tbl ends \<Longrightarrow> sys_fcntl P k fd cmd a = (k', r) \<Longrightarrow> cmd \<noteq> 0 \<Longrightarrow> tbl k' = tbl k"
  by (auto simp: sys_fcntl_def fd_effect_def dest!: fd_call split: prod.splits if_splits) (metis ucast_i32_usize ucast_0)

lemma neutral_calls_fds:
  assumes "fd_contract P tbl ends"
  shows "sys_read P k fd buf = (k', buf', r1) \<Longrightarrow> tbl k' = tbl k"
    "sys_sendto P k fd buf fl ad l = (k', r11) \<Longrightarrow> tbl k' = tbl k"
    "sys_recvfrom P k fd buf fl fr = (k', buf', fr', r12) \<Longrightarrow> tbl k' = tbl k"
    "sys_write P k fd bs = (k', r2) \<Longrightarrow> tbl k' = tbl k"
    "sys_connect P k fd a l = (k', r3) \<Longrightarrow> tbl k' = tbl k"
    "sys_bind P k fd a l = (k', r4) \<Longrightarrow> tbl k' = tbl k"
    "sys_listen P k fd n = (k', r5) \<Longrightarrow> tbl k' = tbl k"
    "sys_setsockopt P k fd lv nm v l = (k', r6) \<Longrightarrow> tbl k' = tbl k"
    "sys_shutdown P k fd h = (k', r7) \<Longrightarrow> tbl k' = tbl k"
    "sys_execve P k path argv envp = (k', e) \<Longrightarrow> tbl k' = tbl k"
    "sys_wait4 P k pid st opt = (k', st', r8) \<Longrightarrow> tbl k' = tbl k"
    "sys_statat P k path follow = (k', r9) \<Longrightarrow> tbl k' = tbl k"
    "sys_chdir P k path = (k', r10) \<Longrightarrow> tbl k' = tbl k"
  by (auto simp: sys_read_def sys_write_def sys_sendto_def sys_recvfrom_def sys_connect_def sys_bind_def sys_listen_def sys_setsockopt_def sys_shutdown_def
      sys_execve_def sys_wait4_def sys_statat_def sys_chdir_def fd_neutral_def split: prod.splits if_splits dest!: fd_call_neutral [OF assms])

section \<open>Reading\<close>

lemma fd_read_fds:
  assumes "fd_contract P tbl ends" "fd_read P fd k buf = Some (k', buf', r)"
  shows "tbl k' = tbl k"
proof -
  define J where "J = (\<lambda>x :: ((_ \<times> i32) \<times> _) \<times> byte list. \<lambda>y :: _ \<times> byte list \<times> (Error + nat). fd_contract (fst (fst (fst x))) tbl ends \<longrightarrow> tbl (fst y) = tbl (snd (fst x)))"
  have "J (((P, fd), k), buf) (k', buf', r)"
    by (rule fd_read.raw_induct [of J, OF _ assms(2)])
      (fastforce simp: J_def split: prod.splits sum.splits if_splits dest: neutral_calls_fds(1))
  then show ?thesis using assms(1) by (simp add: J_def)
qed

text \<open>What every read keeps, a reading loop keeps.\<close>

lemma read_to_end_loop_keeps:
  assumes "read_to_end_loop t rd r tmp buf = Some (r', buf', res)"
    and "\<And>r tmp r' tmp' n. rd r tmp = Some (r', tmp', n) \<Longrightarrow> J r' = J r"
  shows "J r' = J r"
proof -
  have "rd = rd \<and> (\<forall>r tmp r' tmp' n. rd r tmp = Some (r', tmp', n) \<longrightarrow> J r' = J r) \<longrightarrow> J (fst (r', buf', res)) = J r"
    by (rule read_to_end_loop.raw_induct
        [of "\<lambda>t rd' r tmp buf y. rd' = rd \<and> (\<forall>r tmp r' tmp' n. rd r tmp = Some (r', tmp', n) \<longrightarrow> J r' = J r) \<longrightarrow> J (fst y) = J r",
          OF _ assms(1)])
      (fastforce split: bind_splits prod.splits sum.splits if_splits)
  then show ?thesis using assms(2) by auto
qed

lemma read_to_end_keeps:
  assumes "read_to_end t rd r buf = Some (r', buf', res)"
    and "\<And>r tmp r' tmp' n. rd r tmp = Some (r', tmp', n) \<Longrightarrow> J r' = J r"
  shows "J r' = J r"
  using assms(1) read_to_end_loop_keeps [where rd = rd and J = J, OF _ assms(2)]
  by (auto simp: read_to_end_def split: bind_splits prod.splits)

lemma file_open_fds: "fd_contract P tbl ends \<Longrightarrow> file_open P k path = (k', r) \<Longrightarrow>
    (case r of Inl _ \<Rightarrow> tbl k' = tbl k | Inr f \<Rightarrow> fd_fresh (tbl k) (tbl k') (f_fd f))"
  by (auto simp: file_open_def open_options_open_def map_ok_def io_result_def dest!: sys_open_fds split: sum.splits prod.splits)

text \<open>A file opened and read to its end is closed again, whether reading succeeds or fails.\<close>

lemma file_drop_fds: "fd_contract P tbl ends \<Longrightarrow> tbl (file_drop P k f) = (tbl k)(f_fd f := None)"
  unfolding file_drop_def using sys_close_fds prod.collapse by metis

lemma fs_read_to_string_fds:
  assumes "fd_contract P tbl ends" "fs_read_to_string P k path = Some (k', r)"
  shows "tbl k' = tbl k"
proof (cases "file_open P k path")
  case (Pair k1 o1)
  show ?thesis
  proof (cases o1)
    case (Inr f)
    have o: "fd_fresh (tbl k) (tbl k1) (f_fd f)" using file_open_fds [OF assms(1) Pair] Inr by simp
    obtain k2 buf res where r: "read_to_end (p_target P) (file_read P f) k1 [] = Some (k2, buf, res)" "k' = file_drop P k2 f"
      using assms(2) Pair Inr
      by (auto simp: fs_read_to_string_def read_to_string_def split: bind_splits prod.splits sum.splits if_splits)
    have "tbl k2 = tbl k1"
      using read_to_end_keeps [OF r(1), where J = tbl] fd_read_fds [OF assms(1)] by (auto simp: file_read_def)
    then show ?thesis using o r(2) file_drop_fds [OF assms(1), of k2 f] fd_fresh_close by metis
  qed (use assms Pair file_open_fds [OF assms(1) Pair] in \<open>auto simp: fs_read_to_string_def\<close>)
qed

section \<open>A kernel with a descriptor table\<close>

text \<open>It numbers descriptors upwards, refuses connections to port 1 and answers every other call with 0. The
state is the next number and the table.\<close>

definition table_call :: "nat \<times> (i32 \<rightharpoonup> nat) \<Rightarrow> nr \<Rightarrow> arg list \<Rightarrow> (nat \<times> (i32 \<rightharpoonup> nat)) reply" where
  "table_call k n args =
     (case k of (i, T) \<Rightarrow>
        if n = CLOSE then (case args of [W fd] \<Rightarrow> ((i, T(ucast fd := None)), 0, []) | _ \<Rightarrow> (k, 0, []))
        else if n = OPENAT \<or> n = SOCKET \<or> n = ACCEPT
        then (if i < 2 ^ 31 \<and> T (of_nat i) = None then ((i + 1, T(of_nat i \<mapsto> i)), of_nat i, []) else (k, - of_nat 24, []))
        else if n = PIPE2
        then (if i + 1 < 2 ^ 31 \<and> T (of_nat i) = None \<and> T (of_nat (i + 1)) = None
              then ((i + 2, T(of_nat i \<mapsto> i, of_nat (i + 1) \<mapsto> i + 1)), 0,
                    [to_le_bytes 4 (of_nat i :: i32) @ to_le_bytes 4 (of_nat (i + 1) :: i32)])
              else (k, - of_nat 24, []))
        else if n = DUP2 \<or> n = DUP3
        then (case args of
                W old # W new # _ \<Rightarrow>
                  if T (ucast old) = None then (k, - of_nat 9, []) else ((i, T(ucast new := T (ucast old))), 0, [])
              | _ \<Rightarrow> (k, 0, []))
        else if n = DUP then (k, - of_nat 24, [])
        else if n = FORK then (k, 7, [])
        else if n = CONNECT
        then (case args of [_, In a, _] \<Rightarrow> (k, if take 2 (drop 2 a) = [0, 1] then - of_nat 111 else 0, []) | _ \<Rightarrow> (k, 0, []))
        else (k, 0, []))"

definition table_kernel :: "(nat \<times> (i32 \<rightharpoonup> nat)) platform" where
  "table_kernel = \<lparr> p_target = Linux_x86_64, p_syscall = table_call, p_svc2 = (\<lambda>k _. (k, 0, 0, True)) \<rparr>"

definition table_ends :: "nat \<Rightarrow> nat \<Rightarrow> bool" where
  "table_ends r w \<longleftrightarrow> w = r + 1"

lemma i32_of_nat_inj: "i + 1 < 2 ^ 31 \<Longrightarrow> (of_nat i :: i32) \<noteq> of_nat (i + 1)"
  using unat_of_nat_u32 [of i] unat_of_nat_u32 [of "i + 1"] by auto

lemma from_ret_errno: "1 \<le> n \<Longrightarrow> n \<le> 4095 \<Longrightarrow> \<exists>e. from_ret (- of_nat n) = Inl e"
  using from_ret_err [of n] by blast

lemma ucast_of_nat_i32: "i < 2 ^ 31 \<Longrightarrow> (ucast (of_nat i :: u64) :: i32) = of_nat i"
  by (rule word_unat_eq_iff [THEN iffD2]) (simp add: unsigned_of_nat unsigned_ucast_eq take_bit_nat_eq_self)

lemma no_two_words:
  "\<nexists>old new rest. args = W old # W new # rest \<Longrightarrow> (case args of W old # W new # _ \<Rightarrow> f old new | _ \<Rightarrow> d) = d"
  by (simp split: list.split arg.split)

lemma table_kernel_contract: "fd_contract table_kernel snd table_ends"
proof -
  have "fd_effect table_ends n args (from_ret r) ws (snd k) (snd k')" if c: "table_call k n args = (k', r, ws)" for k n args k' r ws
  proof -
    obtain i T where k: "k = (i, T)" by (cases k)
    have z: "from_ret 0 = Inr 0" by (simp add: from_ret_def)
    consider "n = CLOSE" | "n = FCNTL" | "n = OPENAT \<or> n = SOCKET \<or> n = ACCEPT" | "n = PIPE2" | "n = DUP2 \<or> n = DUP3" | "n = DUP" | "fd_neutral n"
      unfolding fd_neutral_def by blast
    then show ?thesis
    proof cases
      case 1
      then show ?thesis using c k by (auto simp: table_call_def fd_effect_def split: list.split arg.split)
    next
      case 2
      then have "k' = k" using c k by (simp add: table_call_def)
      then show ?thesis using 2 by (simp add: fd_effect_def split: list.split arg.split)
    next
      case 3
      show ?thesis
      proof (cases "i < 2 ^ 31 \<and> T (of_nat i) = None")
        case True
        then have "from_ret (of_nat i) = Inr (of_nat i)" by (intro from_ret_ok) simp
        moreover have "fd_fresh T (T(of_nat i \<mapsto> i)) (of_nat i)" using True unfolding fd_fresh_def by blast
        ultimately show ?thesis using 3 True c k ucast_of_nat_i32 [of i] by (auto simp: table_call_def fd_effect_def)
      qed (use 3 c k from_ret_errno [of 24] in \<open>auto simp: table_call_def fd_effect_def\<close>)
    next
      case 4
      let ?r = "of_nat i :: i32" and ?w = "of_nat (i + 1) :: i32"
      show ?thesis
      proof (cases "i + 1 < 2 ^ 31 \<and> T ?r = None \<and> T ?w = None")
        case True
        then have "fd_pipe table_ends T (T(?r \<mapsto> i, ?w \<mapsto> i + 1)) ?r ?w"
          using i32_of_nat_inj [of i] unfolding fd_pipe_def table_ends_def by blast
        moreover have "k' = (i + 2, T(?r \<mapsto> i, ?w \<mapsto> i + 1))" "r = 0" "ws = [to_le_bytes 4 ?r @ to_le_bytes 4 ?w]"
          using c k True 4 by (simp_all add: table_call_def)
        ultimately show ?thesis using z 4 k unfolding fd_effect_def by force
      qed (use 4 c k from_ret_errno [of 24] in \<open>auto simp: table_call_def fd_effect_def\<close>)
    next
      case 5
      show ?thesis
      proof (cases "\<exists>old new rest. args = W old # W new # rest")
        case True
        then show ?thesis using 5 c k z from_ret_errno [of 9] by (auto simp: table_call_def fd_effect_def split: if_splits)
      next
        case False
        then have "table_call k n args = (k, 0, [])" using 5 k by (auto simp: table_call_def no_two_words)
        then show ?thesis using 5 z c False by (auto simp: fd_effect_def no_two_words)
      qed
    next
      case 6
      then show ?thesis using c k from_ret_errno [of 24] by (auto simp: table_call_def fd_effect_def)
    next
      case 7
      then have "table_call k n args =
          (k, if n = FORK then 7 else if n = CONNECT
              then (case args of [_, In a, _] \<Rightarrow> if take 2 (drop 2 a) = [0, 1] then - of_nat 111 else 0 | _ \<Rightarrow> 0) else 0, [])"
        using k by (simp add: table_call_def fd_neutral_def split: list.split arg.split)
      then have "k' = k" using c by simp
      then show ?thesis using 7 by (cases "from_ret r") (simp_all add: fd_effect_def fd_neutral_def)
    qed
  qed
  then show ?thesis by (simp add: fd_contract_def table_kernel_def)
qed

lemma table_pipe:
  assumes "i + 1 < 2 ^ 31" "T (of_nat i) = None" "T (of_nat (i + 1)) = None"
  shows "sys_pipe table_kernel (i, T) = ((i + 2, T(of_nat i \<mapsto> i, of_nat (i + 1) \<mapsto> i + 1)), Inr (of_nat i, of_nat (i + 1)))"
proof -
  have "from_ret 0 = Inr 0" by (simp add: from_ret_def)
  moreover have "out_buf (replicate 8 0) [to_le_bytes 4 a @ to_le_bytes 4 b] 0 = to_le_bytes 4 a @ to_le_bytes 4 b" for a b :: i32
    by (simp add: out_buf_def overwrite_def)
  ultimately show ?thesis
    using assms le_bytes4 [of "of_nat i"] le_bytes4 [of "of_nat (i + 1)"] by (simp add: sys_pipe_def table_kernel_def table_call_def)
qed

lemma table_fork: "sys_fork table_kernel k = (k, Inr 7)"
  by (cases k) (simp add: sys_fork_def table_kernel_def table_call_def from_ret_def)

end
