(* ===== verification/Owned_Fds.thy ===== *)
theory Owned_Fds
  imports Descriptors
begin

text \<open>
  \<open>OwnedFd\<close> of \<open>src/os.rs\<close>, over the descriptor table of \<open>Descriptors\<close>: an owned descriptor is closed exactly
  once, by its drop, unless \<open>into_raw_fd\<close> gave it away.
\<close>

record OwnedFd =
  of_fd :: i32

definition owned_try_clone :: "'k platform \<Rightarrow> 'k \<Rightarrow> OwnedFd \<Rightarrow> 'k \<times> (Error + OwnedFd)" where
  "owned_try_clone P k o1 =
     (case sys_dup P k (of_fd o1) of
        (k', Inl e) \<Rightarrow> (k', Inl (error_from_errno e))
      | (k', Inr new) \<Rightarrow> (k', Inr \<lparr> of_fd = new \<rparr>))"

definition owned_from_raw_fd :: "i32 \<Rightarrow> OwnedFd" where
  "owned_from_raw_fd fd = \<lparr> of_fd = fd \<rparr>"

text \<open>\<open>into_raw_fd\<close> forgets the value, so no drop follows.\<close>

definition owned_into_raw_fd :: "OwnedFd \<Rightarrow> i32" where
  "owned_into_raw_fd o1 = of_fd o1"

definition owned_drop :: "'k platform \<Rightarrow> 'k \<Rightarrow> OwnedFd \<Rightarrow> 'k" where
  "owned_drop P k o1 = fst (sys_close P k (of_fd o1))"

text \<open>A clone refers to the same open file on a descriptor that was free, and dropping it gives the table back.\<close>

lemma owned_clone_drop:
  assumes C: "fd_contract P tbl ends" and run: "owned_try_clone P k o1 = (k', r)"
  shows "case r of
      Inl _ \<Rightarrow> tbl k' = tbl k
    | Inr o2 \<Rightarrow> tbl k (of_fd o2) = None \<and> tbl k' (of_fd o2) = tbl k (of_fd o1) \<and> tbl k (of_fd o1) \<noteq> None \<and>
        tbl (owned_drop P k' o2) = tbl k"
proof -
  obtain k1 res where dup: "sys_dup P k (of_fd o1) = (k1, res)" by fastforce
  note d = sys_dup_fds [OF C dup]
  show ?thesis
  proof (cases res)
    case (Inl e)
    then show ?thesis using run dup d by (auto simp: owned_try_clone_def)
  next
    case (Inr new)
    then have r: "k' = k1" "r = Inr \<lparr> of_fd = new \<rparr>" using run dup by (auto simp: owned_try_clone_def)
    obtain k2 u where cl: "sys_close P k1 new = (k2, u)" by fastforce
    have "(tbl k1)(new := None) = tbl k" using d Inr by (auto simp: fun_eq_iff)
    then show ?thesis using d Inr cl sys_close_fds [OF C cl] by (simp add: r owned_drop_def)
  qed
qed

text \<open>Giving a descriptor away and taking it back makes no system call and keeps it.\<close>

lemma owned_raw_roundtrip: "owned_from_raw_fd (owned_into_raw_fd o1) = o1"
  by (simp add: owned_from_raw_fd_def owned_into_raw_fd_def)

end
