(* ===== verification/Parking.thy ===== *)
theory Parking
  imports Futex
begin

text \<open>
  \<open>Parker\<close> of \<open>src/thread.rs\<close>: a word that is 1 while a token waits to be taken. Only the
  thread that the parker belongs to parks (it reaches the parker through \<open>current()\<close>), it is
  the thread at index 0; every thread with a handle may unpark. \<open>pa_unparks\<close>, \<open>pa_taken\<close> and
  \<open>pa_parks\<close> count the unparks, the tokens taken and the calls of \<open>park\<close> that returned; no
  step reads them.
\<close>

section \<open>The parker\<close>

record 'q parker =
  pa_state :: u32
  pa_kernel :: 'q
  pa_unparks :: nat
  pa_taken :: nat
  pa_parks :: nat

datatype park_pc =
    PK_idle
  | PK_swap
  | PK_wait futex_pc
  | PK_again
  | PT_swap
  | PT_wait futex_pc
  | PT_last
  | UP_idle
  | UP_swap bool
  | UP_wake bool

definition parker_new :: "'q \<Rightarrow> 'q parker" where
  "parker_new q = \<lparr> pa_state = 0, pa_kernel = q, pa_unparks = 0, pa_taken = 0, pa_parks = 0 \<rparr>"

text \<open>\<open>self.state.swap(0) == 1\<close>.\<close>

definition take_token :: "'q parker \<Rightarrow> 'q parker \<times> bool" where
  "take_token p =
     (let got = (pa_state p = 1) in
      (p \<lparr> pa_state := 0, pa_taken := pa_taken p + (if got then 1 else 0) \<rparr>, got))"

definition park :: "'q futex \<Rightarrow> ('q parker, park_pc) runner" where
  "park F p t pc =
     (case pc of
        PK_swap \<Rightarrow>
          (case take_token p of (p', got) \<Rightarrow>
             Some (if got then (p' \<lparr> pa_parks := pa_parks p' + 1 \<rparr>, PK_idle) else (p', PK_wait FW_load)))
      | PK_wait fp \<Rightarrow>
          map_option (\<lambda>(q, r). (p \<lparr> pa_kernel := q \<rparr>, case r of Some fp' \<Rightarrow> PK_wait fp' | None \<Rightarrow> PK_again))
            (futex_wait F 0 0 t (pa_state p) (pa_kernel p) fp)
      | PK_again \<Rightarrow>
          (case take_token p of (p', got) \<Rightarrow>
             Some (if got then (p' \<lparr> pa_parks := pa_parks p' + 1 \<rparr>, PK_idle) else (p', PK_wait FW_load)))
      | _ \<Rightarrow> None)"

definition park_timeout :: "'q futex \<Rightarrow> ('q parker, park_pc) runner" where
  "park_timeout F p t pc =
     (case pc of
        PT_swap \<Rightarrow> (case take_token p of (p', got) \<Rightarrow> Some (p', if got then PK_idle else PT_wait FW_load))
      | PT_wait fp \<Rightarrow>
          map_option (\<lambda>(q, r). (p \<lparr> pa_kernel := q \<rparr>, case r of Some fp' \<Rightarrow> PT_wait fp' | None \<Rightarrow> PT_last))
            (futex_wait_timeout F 0 0 t (pa_state p) (pa_kernel p) fp)
      | PT_last \<Rightarrow> Some (fst (take_token p), PK_idle)
      | _ \<Rightarrow> None)"

text \<open>The flag of the positions of \<open>unpark\<close> tells whether the owner itself is the caller.\<close>

definition unpark_return :: "bool \<Rightarrow> park_pc" where
  "unpark_return own = (if own then PK_idle else UP_idle)"

definition unpark :: "'q futex \<Rightarrow> ('q parker, park_pc) runner" where
  "unpark F p t pc =
     (case pc of
        UP_swap own \<Rightarrow>
          Some (p \<lparr> pa_state := 1, pa_unparks := pa_unparks p + 1 \<rparr>,
                if pa_state p = 0 then UP_wake own else unpark_return own)
      | UP_wake own \<Rightarrow> Some (p \<lparr> pa_kernel := futex_wake F (pa_kernel p) 0 \<rparr>, unpark_return own)
      | _ \<Rightarrow> None)"

definition park_run :: "'q futex \<Rightarrow> ('q parker, park_pc) runner" where
  "park_run F p t pc =
     (case pc of
        UP_swap _ \<Rightarrow> unpark F p t pc
      | UP_wake _ \<Rightarrow> unpark F p t pc
      | PT_swap \<Rightarrow> park_timeout F p t pc
      | PT_wait _ \<Rightarrow> park_timeout F p t pc
      | PT_last \<Rightarrow> park_timeout F p t pc
      | _ \<Rightarrow> park F p t pc)"

definition park_call :: "park_pc \<Rightarrow> park_pc \<Rightarrow> bool" where
  "park_call pc pc' \<longleftrightarrow> pc = PK_idle \<and> pc' \<in> {PK_swap, PT_swap, UP_swap True} \<or> pc = UP_idle \<and> pc' = UP_swap False"

definition park_env :: "'q futex \<Rightarrow> 'q parker \<Rightarrow> 'q parker \<Rightarrow> bool" where
  "park_env F p p' \<longleftrightarrow> (\<exists>q. p' = p \<lparr> pa_kernel := q \<rparr> \<and> kernel_returns F (pa_kernel p) q)"

text \<open>Any thread may give a clone of the handle to a new thread.\<close>

definition park_spawn :: "park_pc \<Rightarrow> park_pc \<times> park_pc \<Rightarrow> bool" where
  "park_spawn pc p \<longleftrightarrow> p = (pc, UP_idle)"

definition park_new :: "'q \<Rightarrow> ('q parker, park_pc) conc" where
  "park_new q = (parker_new q, [PK_idle])"

abbreviation park_reach :: "'q futex \<Rightarrow> ('q parker, park_pc) conc \<Rightarrow> ('q parker, park_pc) conc \<Rightarrow> bool" where
  "park_reach F \<equiv> conc_reach (park_run F) park_call (park_env F) park_spawn"

lemmas park_run_defs = park_run_def park_def park_timeout_def unpark_def take_token_def unpark_return_def
  futex_wait_def futex_wait_timeout_def Let_def

section \<open>Tokens\<close>

fun is_owner :: "park_pc \<Rightarrow> bool" where
  "is_owner UP_idle = False"
| "is_owner (UP_swap own) = own"
| "is_owner (UP_wake own) = own"
| "is_owner _ = True"

text \<open>Every token taken was put there by an unpark of its own, and \<open>park\<close> returns with a token only.\<close>

definition park_inv :: "'q parker \<Rightarrow> park_pc list \<Rightarrow> bool" where
  "park_inv p pcs \<longleftrightarrow>
     pa_state p \<in> {0, 1} \<and> pa_taken p + unat (pa_state p) \<le> pa_unparks p \<and> pa_parks p \<le> pa_taken p \<and>
     pcs \<noteq> [] \<and> (\<forall>t < length pcs. is_owner (pcs ! t) \<longleftrightarrow> t = 0)"

lemma park_run_tokens:
  assumes "park_run F p t pc = Some (p', pc')" "pa_state p \<in> {0, 1}"
    and "pa_taken p + unat (pa_state p) \<le> pa_unparks p" "pa_parks p \<le> pa_taken p"
  shows "pa_state p' \<in> {0, 1} \<and> pa_taken p' + unat (pa_state p') \<le> pa_unparks p' \<and> pa_parks p' \<le> pa_taken p' \<and>
     (is_owner pc' \<longleftrightarrow> is_owner pc)"
proof (cases pc)
  case (PK_wait fp)
  then show ?thesis using assms by (cases fp) (auto simp: park_run_defs split: if_splits)
next
  case (PT_wait fp)
  then show ?thesis using assms by (cases fp) (auto simp: park_run_defs split: if_splits)
qed (use assms in \<open>auto simp: park_run_defs split: if_splits\<close>)

interpretation parker: conc_invariant "park_run F" park_call "park_env F" park_spawn "park_new q" park_inv
  for F :: "'q futex" and q
proof unfold_locales
  fix p p' :: "'q parker" and pcs t pc'
  assume a: "park_inv p pcs" "t < length pcs" "park_run F p t (pcs ! t) = Some (p', pc')"
  then have r: "pa_state p' \<in> {0, 1} \<and> pa_taken p' + unat (pa_state p') \<le> pa_unparks p' \<and> pa_parks p' \<le> pa_taken p' \<and>
      (is_owner pc' \<longleftrightarrow> is_owner (pcs ! t))"
    by (intro park_run_tokens [OF a(3)]) (simp_all add: park_inv_def)
  then show "park_inv p' (pcs[t := pc'])" using a(1,2) by (auto simp: park_inv_def nth_list_update)
next
  fix p :: "'q parker" and pcs t pc'
  assume "park_inv p pcs" "t < length pcs" "park_call (pcs ! t) pc'"
  moreover then have "is_owner pc' \<longleftrightarrow> is_owner (pcs ! t)" by (auto simp: park_call_def)
  ultimately show "park_inv p (pcs[t := pc'])" by (auto simp: park_inv_def nth_list_update)
next
  fix p :: "'q parker" and pcs t pc' new
  assume "park_inv p pcs" "t < length pcs" "park_spawn (pcs ! t) (pc', new)"
  then show "park_inv p (pcs[t := pc'] @ [new])" by (auto simp: park_inv_def park_spawn_def nth_append)
qed (auto simp: park_inv_def park_env_def park_new_def parker_new_def)

section \<open>Sleeping\<close>

fun park_waking :: "park_pc \<Rightarrow> bool" where
  "park_waking (UP_wake own) = True"
| "park_waking _ = False"

text \<open>The owner sleeps only while there is no token, or the thread that left one is about to wake it.\<close>

definition park_wake_inv :: "'q futex \<Rightarrow> 'q parker \<Rightarrow> park_pc list \<Rightarrow> bool" where
  "park_wake_inv F p pcs \<longleftrightarrow>
     fx_sleeping F (pa_kernel p) 0 \<subseteq> {0} \<and>
     (fx_sleeping F (pa_kernel p) 0 \<noteq> {} \<longrightarrow>
        pcs ! 0 \<in> {PK_wait FW_blocked, PT_wait FW_blocked} \<and>
        (pa_state p = 0 \<or> list_ex park_waking pcs))"

text \<open>The three ways a step can touch the queue: not at all, by sleeping, by park_waking.\<close>

lemma park_run_queue:
  assumes "park_run F p t pc = Some (p', pc')" "pa_state p \<in> {0, 1}"
  shows "pa_kernel p' = pa_kernel p \<and> (pa_state p' = 0 \<or> park_waking pc' \<or> pa_state p = 1 \<and> \<not> park_waking pc) \<or>
    pa_kernel p' = fx_wait F (pa_kernel p) 0 t \<and> pa_state p' = 0 \<and> pc' \<in> {PK_wait FW_blocked, PT_wait FW_blocked} \<or>
    pa_kernel p' = futex_wake F (pa_kernel p) 0"
proof (cases pc)
  case (PK_wait fp)
  then show ?thesis using assms by (cases fp) (auto simp: park_run_defs split: if_splits)
next
  case (PT_wait fp)
  then show ?thesis using assms by (cases fp) (auto simp: park_run_defs split: if_splits)
qed (use assms in \<open>auto simp: park_run_defs split: if_splits\<close>)

lemma park_wake_run:
  assumes F: "futex_contract F" and I: "park_inv p pcs" "park_wake_inv F p pcs" and t: "t < length pcs"
    and r: "park_run F p t (pcs ! t) = Some (p', pc')"
  shows "park_wake_inv F p' (pcs[t := pc'])"
proof -
  have sl: "fx_sleeping F (pa_kernel p) 0 \<subseteq> {0}" using I(2) by (simp add: park_wake_inv_def)
  have awake: "t \<noteq> 0 \<or> fx_sleeping F (pa_kernel p) 0 = {}"
  proof (rule ccontr)
    assume "\<not> ?thesis"
    then have "t = 0" "0 \<in> fx_sleeping F (pa_kernel p) 0" "pcs ! 0 \<in> {PK_wait FW_blocked, PT_wait FW_blocked}"
      using sl I(2) by (auto simp: park_wake_inv_def)
    then show False using r by (auto simp: park_run_defs)
  qed
  have own: "is_owner (pcs ! t) \<longleftrightarrow> t = 0" using I(1) t by (simp add: park_inv_def)
  have st: "pa_state p \<in> {0, 1}" using I(1) by (simp add: park_inv_def)
  consider (same) "pa_kernel p' = pa_kernel p" "pa_state p' = 0 \<or> park_waking pc' \<or> pa_state p = 1 \<and> \<not> park_waking (pcs ! t)"
    | (sleep) "pa_kernel p' = fx_wait F (pa_kernel p) 0 t" "pa_state p' = 0" "pc' \<in> {PK_wait FW_blocked, PT_wait FW_blocked}"
    | (wake) "pa_kernel p' = futex_wake F (pa_kernel p) 0"
    using park_run_queue [OF r st] by blast
  then show ?thesis
  proof cases
    case same
    have "list_ex park_waking (pcs[t := pc'])" if "pa_state p' \<noteq> 0" "fx_sleeping F (pa_kernel p) 0 \<noteq> {}"
      using same(2) that t I(2) list_ex_update [of park_waking pcs t pc'] list_ex_update_self [of t pcs park_waking pc']
      by (auto simp: park_wake_inv_def)
    then show ?thesis using same(1) I(2) awake by (auto simp: park_wake_inv_def)
  next
    case sleep
    have "is_owner pc'" using sleep(3) by auto
    then have "t = 0" using own park_run_tokens [OF r st] I(1) by (simp add: park_inv_def)
    then show ?thesis using sleep t sl fx_wait_sleeping [OF F, of "pa_kernel p" 0 t 0] by (auto simp: park_wake_inv_def)
  next
    case wake
    then have "fx_sleeping F (pa_kernel p') 0 = {}" using futex_wake_single [OF F sl] by simp
    then show ?thesis by (simp add: park_wake_inv_def)
  qed
qed

interpretation parker_wakes: conc_invariant_given "park_run F" park_call "park_env F" park_spawn "park_new q" park_inv
    "\<lambda>p pcs. futex_contract F \<and> fx_sleeping F q 0 = {} \<longrightarrow> park_wake_inv F p pcs"
  for F :: "'q futex" and q
proof unfold_locales
  fix s :: "('q parker, park_pc) conc"
  assume "park_reach F (park_new q) s"
  then show "park_inv (fst s) (snd s)" by (rule parker.reach_inv)
next
  fix p p' :: "'q parker" and pcs t pc'
  assume "park_inv p pcs" "futex_contract F \<and> fx_sleeping F q 0 = {} \<longrightarrow> park_wake_inv F p pcs" "t < length pcs"
    "park_run F p t (pcs ! t) = Some (p', pc')"
  then show "futex_contract F \<and> fx_sleeping F q 0 = {} \<longrightarrow> park_wake_inv F p' (pcs[t := pc'])"
    using park_wake_run [of F p pcs t p' pc'] by blast
next
  fix p :: "'q parker" and pcs t pc'
  assume a: "futex_contract F \<and> fx_sleeping F q 0 = {} \<longrightarrow> park_wake_inv F p pcs" "t < length pcs" "park_call (pcs ! t) pc'"
  have pcs: "pcs ! t = PK_idle \<or> pcs ! t = UP_idle" using a(3) by (auto simp: park_call_def)
  then have "park_wake_inv F p (pcs[t := pc'])" if "park_wake_inv F p pcs"
    using that a(2) list_ex_update [of park_waking pcs t pc']
    by (cases "t = 0") (auto simp: park_wake_inv_def)
  then show "futex_contract F \<and> fx_sleeping F q 0 = {} \<longrightarrow> park_wake_inv F p (pcs[t := pc'])" using a(1) by blast
next
  fix p p' :: "'q parker" and pcs
  assume a: "futex_contract F \<and> fx_sleeping F q 0 = {} \<longrightarrow> park_wake_inv F p pcs" "park_env F p p'"
  obtain q' where "p' = p \<lparr> pa_kernel := q' \<rparr>" "kernel_returns F (pa_kernel p) q'" using a(2) unfolding park_env_def by blast
  then have "pa_state p' = pa_state p" "fx_sleeping F (pa_kernel p') 0 \<subseteq> fx_sleeping F (pa_kernel p) 0"
    by (simp_all add: kernel_returns_def)
  then show "futex_contract F \<and> fx_sleeping F q 0 = {} \<longrightarrow> park_wake_inv F p' pcs"
    using a(1) unfolding park_wake_inv_def by auto
next
  fix p :: "'q parker" and pcs t pc' new
  assume "park_inv p pcs" "futex_contract F \<and> fx_sleeping F q 0 = {} \<longrightarrow> park_wake_inv F p pcs" "t < length pcs"
    "park_spawn (pcs ! t) (pc', new)"
  then show "futex_contract F \<and> fx_sleeping F q 0 = {} \<longrightarrow> park_wake_inv F p (pcs[t := pc'] @ [new])"
    by (auto simp: park_wake_inv_def park_spawn_def park_inv_def nth_append)
qed (auto simp: park_wake_inv_def park_new_def parker_new_def)

section \<open>Progress\<close>

text \<open>The owner is inside \<open>park\<close> and a token is there.\<close>

fun parked :: "park_pc \<Rightarrow> bool" where
  "parked PK_swap = True"
| "parked (PK_wait fp) = True"
| "parked PK_again = True"
| "parked _ = False"

fun park_rank :: "park_pc \<Rightarrow> nat" where
  "park_rank PK_swap = 1"
| "park_rank PK_again = 1"
| "park_rank (PK_wait FW_load) = 2"
| "park_rank (PK_wait FW_call) = 3"
| "park_rank (PK_wait FW_blocked) = 3"
| "park_rank (UP_swap own) = 2"
| "park_rank (UP_wake own) = 1"
| "park_rank _ = 0"

definition unparked :: "'q futex \<Rightarrow> ('q parker, park_pc) conc \<Rightarrow> bool" where
  "unparked F s \<longleftrightarrow> futex_contract F \<and> park_inv (fst s) (snd s) \<and> park_wake_inv F (fst s) (snd s) \<and>
     pa_state (fst s) = 1 \<and> parked (snd s ! 0)"

definition park_returned :: "('q parker, park_pc) conc \<Rightarrow> bool" where
  "park_returned s \<longleftrightarrow> snd s ! 0 = PK_idle"

lemma park_run_rank:
  assumes "park_run F p t pc = Some (p', pc')" "pa_state p = 1" "is_owner pc \<longrightarrow> parked pc"
  shows "park_rank pc' < park_rank pc \<and> (pc' = PK_idle \<or> pa_state p' = 1 \<and> (parked pc' \<longleftrightarrow> parked pc))"
proof (cases pc)
  case (PK_wait fp)
  then show ?thesis using assms by (cases fp) (auto simp: park_run_defs split: if_splits)
next
  case (UP_swap own)
  then show ?thesis using assms by (cases own) (auto simp: park_run_defs split: if_splits)
next
  case (UP_wake own)
  then show ?thesis using assms by (cases own) (auto simp: park_run_defs split: if_splits)
qed (use assms in \<open>auto simp: park_run_defs split: if_splits\<close>)

lemma unparked_step:
  assumes P: "unparked F s" and s: "run_thread (park_run F) t s = Some s'"
  shows "park_returned s' \<or> unparked F s' \<and> thread_sum park_rank (snd s') < thread_sum park_rank (snd s)"
proof -
  obtain p pcs p' pc' where s: "s = (p, pcs)" "s' = (p', pcs[t := pc'])" and t: "t < length pcs"
    and r: "park_run F p t (pcs ! t) = Some (p', pc')"
    using s by (cases s) (auto simp: run_thread_def split: if_splits)
  have F: "futex_contract F" and I: "park_inv p pcs" "park_wake_inv F p pcs" and st: "pa_state p = 1" "parked (pcs ! 0)"
    using P by (auto simp: unparked_def s)
  have own: "is_owner (pcs ! t) \<longleftrightarrow> t = 0" using I(1) t by (simp add: park_inv_def)
  have I': "park_inv p' (pcs[t := pc'])" "park_wake_inv F p' (pcs[t := pc'])"
    using parker.J_run [OF I(1) t r] park_wake_run [OF F I t r] by auto
  have k: "park_rank pc' < park_rank (pcs ! t) \<and> (pc' = PK_idle \<or> pa_state p' = 1 \<and> (parked pc' \<longleftrightarrow> parked (pcs ! t)))"
    using park_run_rank [OF r st(1)] own st(2) by auto
  have "is_owner (pcs[t := pc'] ! t) \<longleftrightarrow> t = 0" using I'(1) t unfolding park_inv_def length_list_update by blast
  then have "pc' = PK_idle \<Longrightarrow> t = 0" using t by simp
  then have "park_returned s' \<or> pa_state p' = 1 \<and> parked (pcs[t := pc'] ! 0)"
    using k st(2) t by (cases "t = 0") (auto simp: park_returned_def s)
  moreover have "thread_sum park_rank (pcs[t := pc']) < thread_sum park_rank pcs"
    using thread_sum_update [OF t, of park_rank pc'] k by linarith
  ultimately show ?thesis using F I' by (auto simp: unparked_def s)
qed

lemma unparked_moves:
  assumes "unparked F s"
  shows "\<exists>t. run_thread (park_run F) t s \<noteq> None"
proof -
  obtain p pcs where s: "s = (p, pcs)" by (cases s)
  have W: "park_wake_inv F p pcs" and n: "pcs \<noteq> []" and st: "pa_state p = 1" "parked (pcs ! 0)"
    using assms by (auto simp: unparked_def park_inv_def s)
  show ?thesis
  proof (cases "0 \<in> fx_sleeping F (pa_kernel p) 0")
    case True
    then obtain u where u: "u < length pcs" "park_waking (pcs ! u)" using W st(1) by (auto simp: park_wake_inv_def list_ex_length)
    then obtain own where "pcs ! u = UP_wake own" by (cases "pcs ! u") simp_all
    then show ?thesis using u by (intro exI [of _ u]) (simp add: run_thread_def s park_run_defs)
  next
    case False
    then show ?thesis using st(2) n
      by (intro exI [of _ 0]; cases "pcs ! 0") (auto simp: run_thread_def s park_run_defs split: futex_pc.splits)
  qed
qed

interpretation parker_moves: conc_progress "park_run F" "unparked F" park_returned "\<lambda>s. thread_sum park_rank (snd s)"
  for F :: "'q futex"
proof unfold_locales
  fix s s' :: "('q parker, park_pc) conc" and t
  assume "unparked F s" "run_thread (park_run F) t s = Some s'"
  then show "park_returned s' \<or> unparked F s' \<and> thread_sum park_rank (snd s') < thread_sum park_rank (snd s)"
    by (rule unparked_step)
qed (rule unparked_moves)

section \<open>Properties\<close>

text \<open>C14: \<open>park\<close> never returns without an unpark of its own (the returns are at most as many as the unparks), and an
unpark is never lost: with a token there, the owner inside \<open>park\<close> returns within a bounded number of steps, however the
threads are scheduled, whether it sleeps or not.\<close>

theorem park_token:
  assumes "futex_contract F" "fx_sleeping F q 0 = {}" "park_reach F (park_new q) (p, pcs)"
  shows "pa_parks p \<le> pa_unparks p \<and>
     (pa_state p = 1 \<and> parked (pcs ! 0) \<longrightarrow> progresses (park_run F) park_returned (3 * length pcs) (p, pcs))"
proof (intro conjI impI)
  have I: "park_inv p pcs" "park_wake_inv F p pcs"
    using parker.reach_inv [OF assms(3)] parker_wakes.reach_inv [OF assms(3)] assms(1,2) by auto
  show "pa_parks p \<le> pa_unparks p" using I(1) by (simp add: park_inv_def)
  assume "pa_state p = 1 \<and> parked (pcs ! 0)"
  then have "unparked F (p, pcs)" using assms(1) I by (simp add: unparked_def)
  then have "progresses (park_run F) park_returned (thread_sum park_rank pcs) (p, pcs)"
    using parker_moves.progress by fastforce
  moreover have "thread_sum park_rank pcs \<le> 3 * length pcs"
  proof (rule thread_sum_le)
    show "park_rank pc \<le> 3" for pc by (cases pc rule: park_rank.cases) simp_all
  qed
  ultimately show "progresses (park_run F) park_returned (3 * length pcs) (p, pcs)" by (rule progresses_mono)
qed

text \<open>The owner falls asleep and another thread leaves a token, without having woken it yet.\<close>

definition park_sleeps :: "park_pc action list" where
  "park_sleeps = [Spawn 0 PK_idle UP_idle, Call 0 PK_swap, Run 0, Run 0, Run 0, Call 1 (UP_swap False), Run 1]"

theorem park_token_witness:
  "\<exists>p. park_reach (fifo_futex Linux_x86_64) (park_new []) (p, [PK_wait FW_blocked, UP_wake False]) \<and>
     progresses (park_run (fifo_futex Linux_x86_64)) park_returned 6 (p, [PK_wait FW_blocked, UP_wake False])"
proof -
  let ?p = "\<lparr> pa_state = 1, pa_kernel = [(0, 0)], pa_unparks = 1, pa_taken = 0, pa_parks = 0 \<rparr> :: (nat \<times> nat) list parker"
  have r: "park_reach (fifo_futex Linux_x86_64) (park_new []) (?p, [PK_wait FW_blocked, UP_wake False])"
    by (rule conc_exec_reach [of _ _ _ park_sleeps])
      (simp add: park_sleeps_def park_new_def parker_new_def park_call_def park_spawn_def park_run_defs run_thread_def fifo_futex_def)
  have e: "fx_sleeping (fifo_futex Linux_x86_64) [] 0 = {}" by (simp add: fifo_futex_def)
  show ?thesis using park_token [OF fifo_futex_contract e r] r by (intro exI [of _ ?p]) simp
qed

end
