(* ===== verification/Env.thy ===== *)
theory Env
  imports Os_Strings Hash_Map_Spec "HOL-Library.List_Lexorder" "HOL-Library.Char_ord"
begin

text \<open>
  \<open>src/env.rs\<close>: the arguments and the environment the loader hands over, and the
  process-wide environment map seeded from it. A C string is its bytes without the
  terminating NUL, a \<open>char**\<close> array the list of its entries up to the terminating null.
  \<open>BTreeMap\<close> belongs to the language's library: it is a list of pairs with increasing
  keys, so that iteration has the order of the keys.
\<close>

section \<open>Ordered maps\<close>

type_synonym ('k, 'v) btree = "('k \<times> 'v) list"

fun bt_insert :: "'k::linorder \<Rightarrow> 'v \<Rightarrow> ('k, 'v) btree \<Rightarrow> ('k, 'v) btree" where
  "bt_insert k v [] = [(k, v)]"
| "bt_insert k v ((k', v') # m) =
     (if k < k' then (k, v) # (k', v') # m
      else if k = k' then (k, v) # m
      else (k', v') # bt_insert k v m)"

definition bt_get :: "('k, 'v) btree \<Rightarrow> 'k \<Rightarrow> 'v option" where
  "bt_get m k = map_of m k"

definition bt_remove :: "'k \<Rightarrow> ('k, 'v) btree \<Rightarrow> ('k, 'v) btree" where
  "bt_remove k m = filter (\<lambda>(k', _). k' \<noteq> k) m"

definition bt_inv :: "('k::linorder, 'v) btree \<Rightarrow> bool" where
  "bt_inv m \<longleftrightarrow> sorted_wrt (<) (map fst m)"

lemma bt_insert_keys: "set (map fst (bt_insert k v m)) = insert k (set (map fst m))"
  by (induction k v m rule: bt_insert.induct) force+

lemma bt_insert_inv: "bt_inv m \<Longrightarrow> bt_inv (bt_insert k v m)"
proof (induction m)
  case (Cons p m)
  obtain k' v' where p: "p = (k', v')" by force
  show ?case
    using Cons bt_insert_keys [of k v m] by (fastforce simp: p bt_inv_def)
qed (simp add: bt_inv_def)

lemma map_of_bt_insert: "bt_inv m \<Longrightarrow> map_of (bt_insert k v m) = (map_of m)(k \<mapsto> v)"
proof (induction m)
  case (Cons p m)
  obtain k' v' where p: "p = (k', v')" by force
  have "k \<notin> set (map fst m)" if "k < k'" using Cons.prems that by (auto simp: p bt_inv_def)
  then show ?case using Cons by (auto simp: p bt_inv_def map_of_eq_None_iff fun_eq_iff)
qed simp

lemma bt_remove_inv: "bt_inv m \<Longrightarrow> bt_inv (bt_remove k m)"
  unfolding bt_inv_def bt_remove_def by (induction m) auto

lemma map_of_bt_remove: "map_of (bt_remove k m) = (map_of m)(k := None)"
  unfolding bt_remove_def by (induction m) auto

section \<open>Arguments\<close>

record env_vectors =
  e_argc :: nat
  e_argv :: "byte list option list option"
  e_envp :: "byte list option list option"

definition env_init :: "nat \<Rightarrow> byte list option list option \<Rightarrow> byte list option list option \<Rightarrow> env_vectors" where
  "env_init argc argv envp = \<lparr> e_argc = argc, e_argv = argv, e_envp = envp \<rparr>"

definition cstr_to_string :: "byte list \<Rightarrow> string" where
  "cstr_to_string bytes = str_of (utf8_lossy bytes)"

record Args =
  a_idx :: nat
  a_argc :: nat
  a_argv :: "byte list option list option"

definition env_args :: "env_vectors \<Rightarrow> Args" where
  "env_args e = \<lparr> a_idx = 0, a_argc = e_argc e, a_argv = e_argv e \<rparr>"

text \<open>Reading past the array the loader made is outside the model: \<^term>\<open>None\<close>.\<close>

definition args_next :: "Args \<Rightarrow> (Args \<times> string option) option" where
  "args_next self =
     (case a_argv self of
        None \<Rightarrow> Some (self, None)
      | Some argv \<Rightarrow>
          if a_idx self \<ge> a_argc self then Some (self, None)
          else do {
            p \<leftarrow> index_at argv (a_idx self);
            Some (self \<lparr> a_idx := a_idx self + 1 \<rparr>, map_option cstr_to_string p)
          })"

definition args_len :: "Args \<Rightarrow> nat" where
  "args_len self = a_argc self - a_idx self"

section \<open>The environment map\<close>

text \<open>One entry of \<open>envp\<close>: an entry without \<open>=\<close> is skipped.\<close>

definition env_entry :: "byte list \<Rightarrow> (string, string) btree \<Rightarrow> (string, string) btree" where
  "env_entry bytes m =
     (case byte_position 61 bytes of
        None \<Rightarrow> m
      | Some eq \<Rightarrow> bt_insert (str_of (utf8_lossy (take eq bytes))) (str_of (utf8_lossy (drop (eq + 1) bytes))) m)"

text \<open>The loop over the array, up to the null entry.\<close>

fun env_seed_loop :: "byte list option list \<Rightarrow> (string, string) btree \<Rightarrow> (string, string) btree option" where
  "env_seed_loop [] m = None"
| "env_seed_loop (None # ps) m = Some m"
| "env_seed_loop (Some bytes # ps) m = env_seed_loop ps (env_entry bytes m)"

definition env_seed :: "env_vectors \<Rightarrow> (string, string) btree option" where
  "env_seed e = (case e_envp e of None \<Rightarrow> Some [] | Some envp \<Rightarrow> env_seed_loop envp [])"

text \<open>\<open>ENV_MAP\<close>: the vectors, and the map once it has been made.\<close>

record env_state =
  es_vectors :: env_vectors
  es_map :: "(string, string) btree option"

definition env_map :: "env_state \<Rightarrow> (env_state \<times> (string, string) btree) option" where
  "env_map s =
     (case es_map s of
        Some m \<Rightarrow> Some (s, m)
      | None \<Rightarrow> do { m \<leftarrow> env_seed (es_vectors s); Some (s \<lparr> es_map := Some m \<rparr>, m) })"

definition env_vars :: "env_state \<Rightarrow> (env_state \<times> (string \<times> string) list) option" where
  "env_vars s = env_map s"

datatype VarError = NotPresent

definition env_var :: "env_state \<Rightarrow> string \<Rightarrow> (env_state \<times> (VarError + string)) option" where
  "env_var s key = do {
     (s', m) \<leftarrow> env_map s;
     Some (s', case bt_get m key of Some v \<Rightarrow> Inr v | None \<Rightarrow> Inl NotPresent)
   }"

definition env_set_var :: "env_state \<Rightarrow> string \<Rightarrow> string \<Rightarrow> env_state option" where
  "env_set_var s key v = do { (s', m) \<leftarrow> env_map s; Some (s' \<lparr> es_map := Some (bt_insert key v m) \<rparr>) }"

definition env_remove_var :: "env_state \<Rightarrow> string \<Rightarrow> env_state option" where
  "env_remove_var s key = do { (s', m) \<leftarrow> env_map s; Some (s' \<lparr> es_map := Some (bt_remove key m) \<rparr>) }"

section \<open>Directories\<close>

definition current_dir :: "'k platform \<Rightarrow> 'k \<Rightarrow> 'k \<times> (Error + string)" where
  "current_dir P k =
     (case sys_getcwd P k (replicate 4096 0) of
        (k', buf, Inl e) \<Rightarrow> (k', Inl (error_from_errno e))
      | (k', buf, Inr _) \<Rightarrow>
          let e = (case byte_position 0 buf of Some i \<Rightarrow> i | None \<Rightarrow> length buf) in
          (k', Inr (str_of (utf8_lossy (take e buf)))))"

definition set_current_dir :: "'k platform \<Rightarrow> 'k \<Rightarrow> string \<Rightarrow> 'k \<times> (Error + unit)" where
  "set_current_dir P k path =
     (case cstring_new path of
        Inl _ \<Rightarrow> (k, Inl (error_from_kind InvalidInput))
      | Inr c \<Rightarrow> (case sys_chdir P k c of (k', r) \<Rightarrow> (k', io_result r)))"

definition temp_dir :: "env_state \<Rightarrow> (env_state \<times> string) option" where
  "temp_dir s = do {
     (s', r) \<leftarrow> env_var s ''TMPDIR'';
     Some (s', case r of Inr d \<Rightarrow> if d \<noteq> [] then d else ''/tmp'' | Inl _ \<Rightarrow> ''/tmp'')
   }"

section \<open>The environment as a map\<close>

text \<open>The entries of \<open>envp\<close> up to the null, decoded; those without \<open>=\<close> are skipped.\<close>

definition env_pair :: "byte list \<Rightarrow> (string \<times> string) option" where
  "env_pair bytes =
     map_option (\<lambda>eq. (str_of (utf8_lossy (take eq bytes)), str_of (utf8_lossy (drop (eq + 1) bytes)))) (byte_position 61 bytes)"

definition env_pairs :: "byte list list \<Rightarrow> (string \<times> string) list" where
  "env_pairs = List.map_filter env_pair"

lemma env_pairs_simps [simp]:
  "env_pairs [] = []"
  "env_pairs (b # bs) = (case env_pair b of None \<Rightarrow> env_pairs bs | Some kv \<Rightarrow> kv # env_pairs bs)"
  by (simp_all add: env_pairs_def List.map_filter_simps split: option.split)

lemma env_entry_spec:
  assumes "bt_inv m"
  shows "bt_inv (env_entry b m) \<and>
     map_of (env_entry b m) = (case env_pair b of None \<Rightarrow> map_of m | Some (k, v) \<Rightarrow> (map_of m)(k \<mapsto> v))"
  using assms bt_insert_inv map_of_bt_insert
  by (fastforce simp: env_entry_def env_pair_def split: option.split)

lemma env_seed_loop_spec:
  "bt_inv m \<Longrightarrow> \<exists>m'. env_seed_loop (map Some es @ None # rest) m = Some m' \<and> bt_inv m' \<and>
     map_of m' = map_of m ++ map_of (rev (env_pairs es))"
proof (induction es arbitrary: m)
  case (Cons e es)
  obtain m' where "env_seed_loop (map Some es @ None # rest) (env_entry e m) = Some m'" "bt_inv m'"
      "map_of m' = map_of (env_entry e m) ++ map_of (rev (env_pairs es))"
    using Cons env_entry_spec by blast
  then show ?case using env_entry_spec [OF Cons.prems, of e]
    by (auto simp: map_add_upd map_add_assoc split: option.splits)
qed simp

text \<open>The loader's contract: \<open>envp\<close> is null or ends with a null entry.\<close>

definition loader_env :: "env_vectors \<Rightarrow> byte list list \<Rightarrow> bool" where
  "loader_env e es \<longleftrightarrow> (e_envp e = None \<and> es = []) \<or> (\<exists>rest. e_envp e = Some (map Some es @ None # rest))"

definition env_inv :: "env_state \<Rightarrow> bool" where
  "env_inv s \<longleftrightarrow> (case es_map s of Some m \<Rightarrow> bt_inv m | None \<Rightarrow> \<exists>es. loader_env (es_vectors s) es)"

definition env_look :: "env_state \<Rightarrow> string \<rightharpoonup> string" where
  "env_look s = (case env_map s of Some (_, m) \<Rightarrow> map_of m | None \<Rightarrow> Map.empty)"

lemma env_seed_spec:
  assumes "loader_env e es"
  shows "\<exists>m. env_seed e = Some m \<and> bt_inv m \<and> map_of m = map_of (rev (env_pairs es))"
  using assms env_seed_loop_spec [of "[]"] by (auto simp: loader_env_def env_seed_def bt_inv_def)

lemma env_map_spec:
  assumes "env_inv s"
  shows "\<exists>s' m. env_map s = Some (s', m) \<and> bt_inv m \<and> es_map s' = Some m \<and> env_look s = map_of m"
proof (cases "es_map s")
  case None
  then obtain es where "loader_env (es_vectors s) es" using assms by (auto simp: env_inv_def)
  then obtain m where "env_seed (es_vectors s) = Some m" "bt_inv m" using env_seed_spec by blast
  then show ?thesis using None by (simp add: env_map_def env_look_def)
qed (use assms in \<open>simp add: env_map_def env_look_def env_inv_def\<close>)

lemma env_look_made: "es_map s = Some m \<Longrightarrow> env_look s = map_of m"
  by (simp add: env_look_def env_map_def)

datatype env_op = SetVar string string | RemoveVar string | GetVar string

fun env_call :: "env_state \<Rightarrow> env_op \<Rightarrow> (env_state \<times> string option) option" where
  "env_call s (SetVar k v) = do { s' \<leftarrow> env_set_var s k v; Some (s', None) }"
| "env_call s (RemoveVar k) = do { s' \<leftarrow> env_remove_var s k; Some (s', None) }"
| "env_call s (GetVar k) = do { (s', r) \<leftarrow> env_var s k; Some (s', case r of Inr v \<Rightarrow> Some v | Inl _ \<Rightarrow> None) }"

fun env_spec_call :: "(string \<rightharpoonup> string) \<Rightarrow> env_op \<Rightarrow> (string \<rightharpoonup> string) \<times> string option" where
  "env_spec_call M (SetVar k v) = (M(k \<mapsto> v), None)"
| "env_spec_call M (RemoveVar k) = (M(k := None), None)"
| "env_spec_call M (GetVar k) = (M, M k)"

interpretation env_calls: refined_calls env_inv env_look env_call env_spec_call
proof
  fix s x assume "env_inv s"
  then obtain s' m where m: "env_map s = Some (s', m)" "bt_inv m" "es_map s' = Some m" "env_look s = map_of m"
    using env_map_spec by blast
  show "\<exists>s' r. env_call s x = Some (s', r) \<and> env_inv s' \<and> env_spec_call (env_look s) x = (env_look s', r)"
  proof (cases x)
    case (GetVar k)
    then show ?thesis
      using m by (auto simp: env_var_def env_inv_def env_look_made bt_get_def split: option.split)
  qed (use m in \<open>auto simp: env_set_var_def env_remove_var_def env_inv_def env_look_made map_of_bt_insert
        map_of_bt_remove bt_insert_inv bt_remove_inv\<close>)
qed

section \<open>Properties\<close>

text \<open>C37: Starting from the \<open>envp\<close> of the loader, every sequence of \<open>set_var\<close>, \<open>remove_var\<close> and \<open>var\<close> calls
returns and answers as the same calls on the map of the decoded entries, in which a later entry of a name
wins and an entry without \<open>=\<close> does not count; afterwards \<open>vars()\<close> lists that map in the order of the keys.\<close>

theorem env_refines_map:
  assumes "loader_env e es"
  shows "\<exists>s rs vs. run_ops env_call \<lparr> es_vectors = e, es_map = None \<rparr> ops = Some (s, rs) \<and>
     spec_ops env_spec_call (map_of (rev (env_pairs es))) ops = (map_of vs, rs) \<and>
     sorted_wrt (<) (map fst vs) \<and> (\<exists>s'. env_vars s = Some (s', vs))"
proof -
  let ?s = "\<lparr> es_vectors = e, es_map = None \<rparr>"
  obtain m where m: "env_seed e = Some m" "map_of m = map_of (rev (env_pairs es))" using env_seed_spec [OF assms] by blast
  have "env_inv ?s" using assms by (auto simp: env_inv_def)
  moreover have "env_look ?s = map_of (rev (env_pairs es))" using m by (simp add: env_look_def env_map_def)
  ultimately obtain s rs where r: "run_ops env_call ?s ops = Some (s, rs)" "env_inv s"
      "spec_ops env_spec_call (map_of (rev (env_pairs es))) ops = (env_look s, rs)"
    using env_calls.run_refines [of ?s ops] by auto
  obtain s' vs where "env_map s = Some (s', vs)" "bt_inv vs" "env_look s = map_of vs" using env_map_spec [OF r(2)] by blast
  then show ?thesis using r by (auto simp: env_vars_def bt_inv_def)
qed

theorem env_refines_map_witness:
  "\<exists>s rs. run_ops env_call \<lparr> es_vectors = env_init 0 None (Some [Some [65, 61, 49], Some [66], None]), es_map = None \<rparr>
      [GetVar ''A'', SetVar ''B'' ''2'', GetVar ''B'', RemoveVar ''A'', GetVar ''A''] = Some (s, rs) \<and>
     rs = [Some ''1'', None, Some ''2'', None, None]"
proof -
  have l: "loader_env (env_init 0 None (Some [Some [65, 61, 49], Some [66], None])) [[65, 61, 49], [66]]"
    by (simp add: loader_env_def env_init_def)
  have "env_pair [65, 61, 49] = Some (''A'', ''1'')" "env_pair [66] = None"
    by (simp_all add: env_pair_def byte_position_def str_of_def char_of_def utf8_seq_def bit_Suc_0_iff)
  then have spec: "spec_ops env_spec_call (map_of (rev (env_pairs [[65, 61, 49], [66]])))
      [GetVar ''A'', SetVar ''B'' ''2'', GetVar ''B'', RemoveVar ''A'', GetVar ''A'']
      = (Map.empty(''B'' \<mapsto> ''2''), [Some ''1'', None, Some ''2'', None, None])"
    by (simp add: fun_eq_iff)
  obtain s rs vs where r:
      "run_ops env_call \<lparr> es_vectors = env_init 0 None (Some [Some [65, 61, 49], Some [66], None]), es_map = None \<rparr>
         [GetVar ''A'', SetVar ''B'' ''2'', GetVar ''B'', RemoveVar ''A'', GetVar ''A''] = Some (s, rs)"
      "(Map.empty(''B'' \<mapsto> ''2''), [Some ''1'', None, Some ''2'', None, None]) = (map_of vs, rs)"
    using env_refines_map [OF l, of "[GetVar ''A'', SetVar ''B'' ''2'', GetVar ''B'', RemoveVar ''A'', GetVar ''A'']"]
    unfolding spec by (elim exE conjE)
  from r(2) have "rs = [Some ''1'', None, Some ''2'', None, None]" by (simp only: prod.inject)
  with r(1) show ?thesis by (intro exI conjI)
qed

end
