(* ===== verification/Process.thy ===== *)
theory Process
  imports Env Descriptors Str_Text
begin

text \<open>
  \<open>src/process.rs\<close>: building a \<open>Command\<close>, spawning, waiting and collecting output, with the exit code
  conversions of \<open>src/rt.rs\<close>. The process-wide environment map is the \<open>env_state\<close> of \<open>Env\<close>; the kernel
  is a parameter as everywhere. \<open>fork\<close> returns in both processes: the model follows the process that the
  returned number belongs to, so \<open>spawn\<close> ends either in the parent with a result or in the child, which
  does not return (\<open>Exited\<close>). A child stream that goes out of scope is closed.
\<close>

section \<open>Exit codes\<close>

datatype ExitCode = ExitCode u8

definition exit_SUCCESS :: ExitCode where "exit_SUCCESS = ExitCode 0"
definition exit_FAILURE :: ExitCode where "exit_FAILURE = ExitCode 1"

fun exit_code_report :: "ExitCode \<Rightarrow> i32" where
  "exit_code_report (ExitCode n) = ucast n"

definition rt_exit :: "'k platform \<Rightarrow> 'k \<Rightarrow> i32 \<Rightarrow> 'k" where
  "rt_exit P k code = sys_exit_group P k code"

definition rt_abort :: "'k platform \<Rightarrow> 'k \<Rightarrow> 'k" where
  "rt_abort P k = sys_exit_group P k 134"

definition exit_process :: "'k platform \<Rightarrow> 'k \<Rightarrow> ExitCode \<Rightarrow> 'k" where
  "exit_process P k self = rt_exit P k (exit_code_report self)"

definition process_id :: "'k platform \<Rightarrow> 'k \<Rightarrow> 'k \<times> u32" where
  "process_id P k = sys_getpid P k"

text \<open>\<open>Termination\<close>: what \<open>main\<close> returns; an error carries what \<open>Debug\<close> prints of it.\<close>

datatype main_result = M_Unit | M_Code i32 | M_Exit ExitCode | M_Ok main_result | M_Err string

fun report :: "'k platform \<Rightarrow> 'k \<Rightarrow> main_result \<Rightarrow> ('k \<times> i32) option" where
  "report P k M_Unit = Some (k, 0)"
| "report P k (M_Code n) = Some (k, n)"
| "report P k (M_Exit c) = Some (k, exit_code_report c)"
| "report P k (M_Ok v) = report P k v"
| "report P k (M_Err e) = do {
     k' \<leftarrow> eprint_args P k [Str (bytes_of ''Error: ''), Str (bytes_of e), Str [10]];
     Some (k', 1)
   }"

text \<open>The entry shim: the loader's vectors are recorded, then \<open>main\<close> runs and its result becomes the status.\<close>

definition rt_entry ::
    "'k platform \<Rightarrow> 'k \<Rightarrow> nat \<Rightarrow> byte list option list option \<Rightarrow> byte list option list option \<Rightarrow>
     (env_vectors \<Rightarrow> 'k \<Rightarrow> ('k \<times> main_result) option) \<Rightarrow> ('k \<times> i32) option" where
  "rt_entry P k argc argv envp main = do {
     (k', r) \<leftarrow> main (env_init argc argv envp) k;
     report P k' r
   }"

text \<open>The panic handler; \<open>info\<close> is what \<open>Display\<close> prints of the message and its location.\<close>

definition panic_handler :: "'k platform \<Rightarrow> 'k \<Rightarrow> string \<Rightarrow> 'k option" where
  "panic_handler P k info = do {
     (k', _) \<leftarrow> write_fmt (p_target P) (fd_write P 2) k
        [Str (bytes_of ''thread ''), Str [39], Str (bytes_of ''main''), Str [39], Str (bytes_of '' panicked:''), Str [10],
         Str (bytes_of info), Str [10]];
     Some (rt_exit P k' 101)
   }"

section \<open>Commands\<close>

datatype StdioKind = Inherit | Null | Piped

definition stdio_inherit :: StdioKind where "stdio_inherit = Inherit"
definition stdio_null :: StdioKind where "stdio_null = Null"
definition stdio_piped :: StdioKind where "stdio_piped = Piped"

record Command =
  c_program :: string
  c_args :: "string list"
  c_env_ops :: "(string, string option) btree"
  c_env_clear :: bool
  c_cwd :: "string option"
  c_stdin :: StdioKind
  c_stdout :: StdioKind
  c_stderr :: StdioKind

definition command_new :: "string \<Rightarrow> Command" where
  "command_new program = \<lparr> c_program = program, c_args = [], c_env_ops = [], c_env_clear = False, c_cwd = None,
     c_stdin = Inherit, c_stdout = Inherit, c_stderr = Inherit \<rparr>"

definition command_arg :: "Command \<Rightarrow> string \<Rightarrow> Command" where
  "command_arg self arg = self \<lparr> c_args := c_args self @ [arg] \<rparr>"

fun command_args :: "Command \<Rightarrow> string list \<Rightarrow> Command" where
  "command_args self [] = self"
| "command_args self (a # as) = command_args (self \<lparr> c_args := c_args self @ [a] \<rparr>) as"

definition command_env :: "Command \<Rightarrow> string \<Rightarrow> string \<Rightarrow> Command" where
  "command_env self key val = self \<lparr> c_env_ops := bt_insert key (Some val) (c_env_ops self) \<rparr>"

definition command_env_remove :: "Command \<Rightarrow> string \<Rightarrow> Command" where
  "command_env_remove self key = self \<lparr> c_env_ops := bt_insert key None (c_env_ops self) \<rparr>"

definition command_env_clear :: "Command \<Rightarrow> Command" where
  "command_env_clear self = self \<lparr> c_env_clear := True \<rparr>"

definition command_current_dir :: "Command \<Rightarrow> string \<Rightarrow> Command" where
  "command_current_dir self dir = self \<lparr> c_cwd := Some dir \<rparr>"

definition command_stdin :: "Command \<Rightarrow> StdioKind \<Rightarrow> Command" where
  "command_stdin self cfg = self \<lparr> c_stdin := cfg \<rparr>"

definition command_stdout :: "Command \<Rightarrow> StdioKind \<Rightarrow> Command" where
  "command_stdout self cfg = self \<lparr> c_stdout := cfg \<rparr>"

definition command_stderr :: "Command \<Rightarrow> StdioKind \<Rightarrow> Command" where
  "command_stderr self cfg = self \<lparr> c_stderr := cfg \<rparr>"

fun apply_env_ops :: "(string, string option) btree \<Rightarrow> (string, string) btree \<Rightarrow> (string, string) btree" where
  "apply_env_ops [] m = m"
| "apply_env_ops ((k, v) # ops) m =
     apply_env_ops ops (case v of Some val \<Rightarrow> bt_insert k val m | None \<Rightarrow> bt_remove k m)"

fun bt_collect :: "('k :: linorder \<times> 'v) list \<Rightarrow> ('k, 'v) btree \<Rightarrow> ('k, 'v) btree" where
  "bt_collect [] m = m"
| "bt_collect ((k, v) # kvs) m = bt_collect kvs (bt_insert k v m)"

definition env_string :: "string \<times> string \<Rightarrow> string" where
  "env_string kv = fst kv @ ''='' @ snd kv"

definition build_env :: "env_state \<Rightarrow> Command \<Rightarrow> (env_state \<times> string list) option" where
  "build_env s self = do {
     (s', m) \<leftarrow> (if c_env_clear self then Some (s, [])
                 else do { (s', vars) \<leftarrow> env_vars s; Some (s', bt_collect vars []) });
     Some (s', List.map_filter (\<lambda>kv. case cstring_new (env_string kv) of Inl _ \<Rightarrow> None | Inr c \<Rightarrow> Some c)
                 (apply_env_ops (c_env_ops self) m))
   }"

section \<open>Finding the program\<close>

fun search_path :: "'k platform \<Rightarrow> 'k \<Rightarrow> string \<Rightarrow> string list \<Rightarrow> ('k \<times> string option) option" where
  "search_path P k program [] = Some (k, None)"
| "search_path P k program (dir # dirs) =
     (if dir = [] then search_path P k program dirs
      else
        let candidate = (if last dir = CHR ''/'' then dir @ program else dir @ ''/'' @ program) in
        (case fs_metadata P k candidate of (k', r) \<Rightarrow> do {
           file \<leftarrow> (case r of Inl _ \<Rightarrow> Some False | Inr m \<Rightarrow> metadata_is_file (p_target P) m);
           (if file then Some (k', Some candidate) else search_path P k' program dirs)
         }))"

definition resolve_program :: "'k platform \<Rightarrow> env_state \<Rightarrow> 'k \<Rightarrow> string \<Rightarrow> (env_state \<times> 'k \<times> string option) option" where
  "resolve_program P s k program =
     (if CHR ''/'' \<in> set program then Some (s, k, Some program)
      else do {
        (s', r) \<leftarrow> env_var s ''PATH'';
        (k', res) \<leftarrow> search_path P k program (split_char CHR '':'' (case r of Inr p \<Rightarrow> p | Inl _ \<Rightarrow> ''/usr/bin:/bin''));
        Some (s', k', res)
      })"

section \<open>Pipes\<close>

record PipePair =
  pp_parent :: i32
  pp_child :: i32

definition make_pipe :: "'k platform \<Rightarrow> 'k \<Rightarrow> StdioKind \<Rightarrow> bool \<Rightarrow> 'k \<times> (Error + PipePair option)" where
  "make_pipe P k kind is_stdin =
     (if kind \<noteq> Piped then (k, Inr None)
      else case sys_pipe P k of
             (k', Inl e) \<Rightarrow> (k', Inl (error_from_errno e))
           | (k', Inr (r, w)) \<Rightarrow>
               (k', Inr (Some (if is_stdin then \<lparr> pp_parent = w, pp_child = r \<rparr> else \<lparr> pp_parent = r, pp_child = w \<rparr>))))"

definition open_devnull :: "'k platform \<Rightarrow> 'k \<Rightarrow> 'k \<times> (Errno + i32)" where
  "open_devnull P k = sys_open P k ''/dev/null'' O_RDWR 0"

definition child_setup_fd :: "'k platform \<Rightarrow> 'k \<Rightarrow> i32 \<Rightarrow> StdioKind \<Rightarrow> PipePair option \<Rightarrow> 'k" where
  "child_setup_fd P k tgt kind pipe =
     (case kind of
        Inherit \<Rightarrow> k
      | Null \<Rightarrow>
          (case open_devnull P k of
             (k1, Inl _) \<Rightarrow> k1
           | (k1, Inr devnull) \<Rightarrow> (case sys_dup2 P k1 devnull tgt of (k2, _) \<Rightarrow> fst (sys_close P k2 devnull)))
      | Piped \<Rightarrow>
          (case pipe of
             None \<Rightarrow> k
           | Some p \<Rightarrow>
               (case sys_dup2 P k (pp_child p) tgt of (k1, _) \<Rightarrow>
                  (case sys_close P k1 (pp_child p) of (k2, _) \<Rightarrow> fst (sys_close P k2 (pp_parent p))))))"

definition parent_keep :: "'k platform \<Rightarrow> 'k \<Rightarrow> StdioKind \<Rightarrow> PipePair option \<Rightarrow> 'k \<times> i32 option" where
  "parent_keep P k kind pipe =
     (if kind = Piped
      then case pipe of Some p \<Rightarrow> (fst (sys_close P k (pp_child p)), Some (pp_parent p)) | None \<Rightarrow> (k, None)
      else (k, None))"

section \<open>Spawning\<close>

record Child =
  ch_pid :: i32
  ch_stdin :: "i32 option"
  ch_stdout :: "i32 option"
  ch_stderr :: "i32 option"

datatype 'a spawned = Parent "Error + 'a" | Exited

fun push_args :: "string list \<Rightarrow> string list \<Rightarrow> Error + string list" where
  "push_args argv [] = Inr argv"
| "push_args argv (a # as) =
     (case cstring_new a of
        Inl _ \<Rightarrow> Inl (error_from_kind InvalidInput)
      | Inr c \<Rightarrow> push_args (argv @ [c]) as)"

text \<open>\<open>CString::new(..).unwrap()\<close>.\<close>

definition cstring_unwrap :: "string \<Rightarrow> string option" where
  "cstring_unwrap s = (case cstring_new s of Inl _ \<Rightarrow> None | Inr c \<Rightarrow> Some c)"

definition spawn_pipes ::
    "'k platform \<Rightarrow> 'k \<Rightarrow> Command \<Rightarrow> 'k \<times> (Error + PipePair option \<times> PipePair option \<times> PipePair option)" where
  "spawn_pipes P k self =
     (case make_pipe P k (c_stdin self) True of
        (k1, Inl e) \<Rightarrow> (k1, Inl e)
      | (k1, Inr p0) \<Rightarrow>
          (case make_pipe P k1 (c_stdout self) False of
             (k2, Inl e) \<Rightarrow> (k2, Inl e)
           | (k2, Inr p1) \<Rightarrow>
               (case make_pipe P k2 (c_stderr self) False of
                  (k3, Inl e) \<Rightarrow> (k3, Inl e)
                | (k3, Inr p2) \<Rightarrow> (k3, Inr (p0, p1, p2)))))"

definition child_setup ::
    "'k platform \<Rightarrow> 'k \<Rightarrow> Command \<Rightarrow> string option \<Rightarrow> PipePair option \<Rightarrow> PipePair option \<Rightarrow> PipePair option \<Rightarrow> 'k" where
  "child_setup P k self cwd_c p0 p1 p2 =
     (let k0 = (case cwd_c of Some c \<Rightarrow> fst (sys_chdir P k c) | None \<Rightarrow> k);
          k1 = child_setup_fd P k0 0 (c_stdin self) p0;
          k2 = child_setup_fd P k1 1 (c_stdout self) p1 in
      child_setup_fd P k2 2 (c_stderr self) p2)"

definition child_exec :: "'k platform \<Rightarrow> 'k \<Rightarrow> string \<Rightarrow> string list \<Rightarrow> string list \<Rightarrow> 'k" where
  "child_exec P k prog argv envp = (case sys_execve P k prog argv envp of (k', _) \<Rightarrow> rt_exit P k' 127)"

definition spawn_parent ::
    "'k platform \<Rightarrow> 'k \<Rightarrow> Command \<Rightarrow> i32 \<Rightarrow> PipePair option \<Rightarrow> PipePair option \<Rightarrow> PipePair option \<Rightarrow> 'k \<times> Child" where
  "spawn_parent P k self pid p0 p1 p2 =
     (case parent_keep P k (c_stdin self) p0 of (k1, i) \<Rightarrow>
        (case parent_keep P k1 (c_stdout self) p1 of (k2, o1) \<Rightarrow>
           (case parent_keep P k2 (c_stderr self) p2 of (k3, e) \<Rightarrow>
              (k3, \<lparr> ch_pid = pid, ch_stdin = i, ch_stdout = o1, ch_stderr = e \<rparr>))))"

definition spawn_fork ::
    "'k platform \<Rightarrow> 'k \<Rightarrow> Command \<Rightarrow> string \<Rightarrow> string list \<Rightarrow> string list \<Rightarrow> string option \<Rightarrow> 'k \<times> Child spawned" where
  "spawn_fork P k self prog argv envp cwd_c =
     (case spawn_pipes P k self of
        (k1, Inl e) \<Rightarrow> (k1, Parent (Inl e))
      | (k1, Inr (p0, p1, p2)) \<Rightarrow>
          (case sys_fork P k1 of
             (k2, Inl e) \<Rightarrow> (k2, Parent (Inl (error_from_errno e)))
           | (k2, Inr pid) \<Rightarrow>
               if pid = 0 then (child_exec P (child_setup P k2 self cwd_c p0 p1 p2) prog argv envp, Exited)
               else (case spawn_parent P k2 self pid p0 p1 p2 of (k3, c) \<Rightarrow> (k3, Parent (Inr c)))))"

definition spawn :: "'k platform \<Rightarrow> env_state \<Rightarrow> 'k \<Rightarrow> Command \<Rightarrow> (env_state \<times> 'k \<times> Child spawned) option" where
  "spawn P s k self = do {
     (s1, k1, found) \<leftarrow> resolve_program P s k (c_program self);
     (case found of
        None \<Rightarrow> Some (s1, k1, Parent (Inl (error_new NotFound ''program not found'')))
      | Some prog_path \<Rightarrow>
          (case cstring_new prog_path of
             Inl _ \<Rightarrow> Some (s1, k1, Parent (Inl (error_from_kind InvalidInput)))
           | Inr prog \<Rightarrow> do {
               arg0 \<leftarrow> cstring_unwrap (c_program self);
               (case push_args [arg0] (c_args self) of
                  Inl e \<Rightarrow> Some (s1, k1, Parent (Inl e))
                | Inr argv \<Rightarrow> do {
                    (s2, envp) \<leftarrow> build_env s1 self;
                    cwd_c \<leftarrow> (case c_cwd self of None \<Rightarrow> Some None | Some d \<Rightarrow> map_option Some (cstring_unwrap d));
                    Some (s2, spawn_fork P k1 self prog argv envp cwd_c)
                  })
             }))
   }"

section \<open>Waiting\<close>

datatype ExitStatus = ExitStatus i32

text \<open>\<open>>>\<close> on \<open>i32\<close> shifts arithmetically.\<close>

fun exit_status_code :: "ExitStatus \<Rightarrow> i32 option" where
  "exit_status_code (ExitStatus st) = (if st AND 0x7F = 0 then Some (signed_drop_bit 8 st AND 0xFF) else None)"

definition exit_status_success :: "ExitStatus \<Rightarrow> bool" where
  "exit_status_success self \<longleftrightarrow> exit_status_code self = Some 0"

record Output =
  ou_status :: ExitStatus
  ou_stdout :: "byte list"
  ou_stderr :: "byte list"

definition child_id :: "Child \<Rightarrow> u32" where
  "child_id self = ch_pid self"

text \<open>Dropping a child stream closes it.\<close>

definition stream_drop :: "'k platform \<Rightarrow> 'k \<Rightarrow> i32 option \<Rightarrow> 'k" where
  "stream_drop P k stream = (case stream of Some fd \<Rightarrow> fst (sys_close P k fd) | None \<Rightarrow> k)"

definition child_stdin_write :: "'k platform \<Rightarrow> i32 \<Rightarrow> 'k \<Rightarrow> byte list \<Rightarrow> ('k \<times> (Error + nat)) option" where
  "child_stdin_write P fd k buf = fd_write P fd k buf"

definition child_stdout_read :: "'k platform \<Rightarrow> i32 \<Rightarrow> 'k \<Rightarrow> byte list \<Rightarrow> ('k \<times> byte list \<times> (Error + nat)) option" where
  "child_stdout_read P fd k buf = fd_read P fd k buf"

definition child_stderr_read :: "'k platform \<Rightarrow> i32 \<Rightarrow> 'k \<Rightarrow> byte list \<Rightarrow> ('k \<times> byte list \<times> (Error + nat)) option" where
  "child_stderr_read P fd k buf = fd_read P fd k buf"

partial_function (option) wait_loop :: "'k platform \<Rightarrow> 'k \<Rightarrow> i32 \<Rightarrow> i32 \<Rightarrow> ('k \<times> (Error + ExitStatus)) option" where
  "wait_loop P k pid status =
     (case sys_wait4 P k pid status 0 of
        (k', st, Inr _) \<Rightarrow> Some (k', Inr (ExitStatus st))
      | (k', st, Inl e) \<Rightarrow> (if e = Errno 4 then wait_loop P k' pid st else Some (k', Inl (error_from_errno e))))"

definition child_wait :: "'k platform \<Rightarrow> 'k \<Rightarrow> Child \<Rightarrow> ('k \<times> Child \<times> (Error + ExitStatus)) option" where
  "child_wait P k self = do {
     (k', r) \<leftarrow> wait_loop P (stream_drop P k (ch_stdin self)) (ch_pid self) 0;
     Some (k', self \<lparr> ch_stdin := None \<rparr>, r)
   }"

definition child_drop :: "'k platform \<Rightarrow> 'k \<Rightarrow> Child \<Rightarrow> 'k" where
  "child_drop P k self = stream_drop P (stream_drop P (stream_drop P k (ch_stdin self)) (ch_stdout self)) (ch_stderr self)"

text \<open>A stream taken out of the child, read to its end and dropped.\<close>

definition drain :: "'k platform \<Rightarrow> 'k \<Rightarrow> i32 option \<Rightarrow> ('k \<times> (Error + byte list)) option" where
  "drain P k stream =
     (case stream of
        None \<Rightarrow> Some (k, Inr [])
      | Some fd \<Rightarrow> do {
          (k', buf, r) \<leftarrow> read_to_end (p_target P) (fd_read P fd) k [];
          Some (fst (sys_close P k' fd), map_ok (\<lambda>_. buf) r)
        })"

definition wait_with_output :: "'k platform \<Rightarrow> 'k \<Rightarrow> Child \<Rightarrow> ('k \<times> (Error + Output)) option" where
  "wait_with_output P k self = do {
     (k1, o1) \<leftarrow> drain P k (ch_stdout self);
     (case o1 of
        Inl e \<Rightarrow> Some (child_drop P k1 (self \<lparr> ch_stdout := None \<rparr>), Inl e)
      | Inr out \<Rightarrow> do {
          (k2, o2) \<leftarrow> drain P k1 (ch_stderr self);
          (case o2 of
             Inl e \<Rightarrow> Some (child_drop P k2 (self \<lparr> ch_stdout := None, ch_stderr := None \<rparr>), Inl e)
           | Inr err \<Rightarrow> do {
               (k3, c, st) \<leftarrow> child_wait P k2 (self \<lparr> ch_stdout := None, ch_stderr := None \<rparr>);
               Some (child_drop P k3 c, map_ok (\<lambda>st. \<lparr> ou_status = st, ou_stdout = out, ou_stderr = err \<rparr>) st)
             })
        })
   }"

text \<open>What a caller does with the spawned child, in the parent.\<close>

definition with_child ::
    "(env_state \<times> 'k \<times> Child spawned) option \<Rightarrow> ('k \<Rightarrow> Child \<Rightarrow> ('k \<times> (Error + 'a)) option) \<Rightarrow>
     (env_state \<times> 'k \<times> 'a spawned) option" where
  "with_child spawned f = do {
     (s, k, r) \<leftarrow> spawned;
     (case r of
        Exited \<Rightarrow> Some (s, k, Exited)
      | Parent (Inl e) \<Rightarrow> Some (s, k, Parent (Inl e))
      | Parent (Inr c) \<Rightarrow> do { (k', res) \<leftarrow> f k c; Some (s, k', Parent res) })
   }"

definition command_status :: "'k platform \<Rightarrow> env_state \<Rightarrow> 'k \<Rightarrow> Command \<Rightarrow> (env_state \<times> 'k \<times> ExitStatus spawned) option" where
  "command_status P s k self =
     with_child (spawn P s k self) (\<lambda>k' c. do { (k'', c', r) \<leftarrow> child_wait P k' c; Some (child_drop P k'' c', r) })"

definition command_output :: "'k platform \<Rightarrow> env_state \<Rightarrow> 'k \<Rightarrow> Command \<Rightarrow> (env_state \<times> 'k \<times> Output spawned) option" where
  "command_output P s k self =
     with_child (spawn P s k (command_stderr (command_stdout self Piped) Piped)) (wait_with_output P)"

section \<open>Exit status\<close>

text \<open>The status word of a process that exited with a code, and of one that a signal ended.\<close>

definition exited_status :: "byte \<Rightarrow> i32" where
  "exited_status n = push_bit 8 (ucast n)"

lemma exit_status_roundtrip:
  "exit_status_code (ExitStatus (exited_status n)) = Some (ucast n)"
  "exit_status_success (ExitStatus (exited_status n)) \<longleftrightarrow> n = 0"
proof -
  have m: "(0x7F :: i32) = mask 7" "(0xFF :: i32) = mask 8" by (simp_all add: mask_eq_exp_minus_1)
  have "(push_bit 8 (ucast n) :: i32) AND 0x7F = 0" unfolding m(1) by (simp add: take_bit_push_bit flip: take_bit_eq_mask)
  moreover have "signed_drop_bit 8 (push_bit 8 (ucast n) :: i32) AND 0xFF = ucast n"
    unfolding m(2)
    by (rule bit_word_eqI) (auto simp: bit_and_iff bit_mask_iff bit_signed_drop_bit_iff bit_push_bit_iff bit_unsigned_iff dest: bit_imp_le_length)
  ultimately show c: "exit_status_code (ExitStatus (exited_status n)) = Some (ucast n)" by (simp add: exited_status_def)
  have "(ucast (ucast n :: i32) :: byte) = n" by (auto simp: bit_eq_iff bit_unsigned_iff)
  then have "(ucast n :: i32) = 0 \<longleftrightarrow> n = 0" by (metis unsigned_0)
  then show "exit_status_success (ExitStatus (exited_status n)) \<longleftrightarrow> n = 0" using c by (simp add: exit_status_success_def)
qed

section \<open>The child's descriptors\<close>

definition pipe_fds :: "PipePair option \<Rightarrow> i32 set" where
  "pipe_fds p = (case p of None \<Rightarrow> {} | Some q \<Rightarrow> {pp_parent q, pp_child q})"

text \<open>The table entries of a pipe, apart from every other entry.\<close>

definition pipe_entries :: "('o \<Rightarrow> 'o \<Rightarrow> bool) \<Rightarrow> StdioKind \<Rightarrow> bool \<Rightarrow> PipePair option \<Rightarrow> (i32 \<rightharpoonup> 'o) \<Rightarrow> bool" where
  "pipe_entries ends kind is_stdin p m \<longleftrightarrow>
     (case p of
        None \<Rightarrow> kind \<noteq> Piped \<and> m = Map.empty
      | Some q \<Rightarrow>
          kind = Piped \<and> pp_parent q \<noteq> pp_child q \<and>
          (\<exists>dp dc. m = [pp_parent q \<mapsto> dp, pp_child q \<mapsto> dc] \<and> (if is_stdin then ends dc dp else ends dp dc)))"

lemma pipe_entries_dom: "pipe_entries ends kind is_stdin p m \<Longrightarrow> dom m = pipe_fds p"
  by (auto simp: pipe_entries_def pipe_fds_def split: option.splits if_splits)

lemma make_pipe_fds:
  assumes "fd_contract P tbl ends" "make_pipe P k kind is_stdin = (k', Inr p)"
  obtains m where "tbl k' = tbl k ++ m" "dom m \<inter> dom (tbl k) = {}" "pipe_entries ends kind is_stdin p m"
proof (cases "kind = Piped")
  case True
  obtain k1 res where c: "sys_pipe P k = (k1, res)" by force
  then obtain r w where rw: "res = Inr (r, w)" "k' = k1"
      "p = Some (if is_stdin then \<lparr> pp_parent = w, pp_child = r \<rparr> else \<lparr> pp_parent = r, pp_child = w \<rparr>)"
    using assms(2) True by (auto simp: make_pipe_def split: sum.splits)
  obtain dr dw where d: "r \<noteq> w" "tbl k r = None" "tbl k w = None" "ends dr dw" "tbl k1 = (tbl k)(r \<mapsto> dr, w \<mapsto> dw)"
    using sys_pipe_fds [OF assms(1) c] rw(1) by (auto simp: fd_pipe_def)
  show ?thesis
  proof (rule that)
    show "tbl k' = tbl k ++ [r \<mapsto> dr, w \<mapsto> dw]" using rw(2) d(5) by simp
    show "dom [r \<mapsto> dr, w \<mapsto> dw] \<inter> dom (tbl k) = {}" using d(2,3) by auto
    show "pipe_entries ends kind is_stdin p [r \<mapsto> dr, w \<mapsto> dw]"
      using True rw(3) d(1,4) by (auto simp: pipe_entries_def fun_upd_twist)
  qed
next
  case False
  then show ?thesis using that [of Map.empty] assms(2) by (simp add: make_pipe_def pipe_entries_def)
qed

definition dup2_works :: "'k platform \<Rightarrow> ('k \<Rightarrow> i32 \<rightharpoonup> 'o) \<Rightarrow> bool" where
  "dup2_works P tbl \<longleftrightarrow> (\<forall>k old new. tbl k old \<noteq> None \<longrightarrow> snd (sys_dup2 P k old new) = Inr ())"

definition devnull_opens :: "'k platform \<Rightarrow> bool" where
  "devnull_opens P \<longleftrightarrow> (\<forall>k. \<exists>fd. snd (open_devnull P k) = Inr fd)"

text \<open>What a stream of the child is connected to: the parent's own description, the null device, or the
child's end of the pipe.\<close>

definition child_end :: "StdioKind \<Rightarrow> PipePair option \<Rightarrow> 'o option \<Rightarrow> (i32 \<rightharpoonup> 'o) \<Rightarrow> 'o option \<Rightarrow> bool" where
  "child_end kind p inherited m x \<longleftrightarrow>
     (case kind of Inherit \<Rightarrow> x = inherited | Null \<Rightarrow> x \<noteq> None | Piped \<Rightarrow> x = m (pp_child (the p)))"

text \<open>Replacing one entry and removing the pipe's.\<close>

lemma table_restore:
  assumes "dom m \<inter> dom T = {}" "dom m \<inter> dom m' = {}" "tgt \<in> dom T" "tgt \<notin> dom m'"
  shows "(\<lambda>y. if y \<in> dom m then None else ((T ++ m ++ m')(tgt := x)) y) = T(tgt := x) ++ m'"
proof (rule ext)
  fix y
  have "m tgt = None" "m y \<noteq> None \<Longrightarrow> T y = None \<and> m' y = None" using assms(1,2,3) by (auto simp: dom_def disjoint_iff)
  then show "(if y \<in> dom m then None else ((T ++ m ++ m')(tgt := x)) y) = (T(tgt := x) ++ m') y"
    using assms by (cases "y = tgt"; cases "m y"; cases "m' y") (auto simp: map_add_def dom_def)
qed

lemma child_setup_fd_fds:
  assumes c: "fd_contract P tbl ends" and "dup2_works P tbl" "kind = Null \<longrightarrow> devnull_opens P"
    and t: "tbl k = T ++ m ++ m'" "dom m \<inter> dom T = {}" "dom m \<inter> dom m' = {}" "pipe_entries ends kind is_stdin p m" "tgt \<in> dom T" "tgt \<notin> dom m'"
  shows "\<exists>x. tbl (child_setup_fd P k tgt kind p) = T(tgt := x) ++ m' \<and> child_end kind p (T tgt) m x"
proof (cases kind)
  case Inherit
  then have "m = Map.empty" using t(4) by (auto simp: pipe_entries_def split: option.splits)
  then show ?thesis using Inherit t(1) by (intro exI [of _ "T tgt"]) (simp add: child_setup_fd_def child_end_def)
next
  case Null
  then have m: "m = Map.empty" using t(4) by (auto simp: pipe_entries_def split: option.splits)
  obtain k1 fd where o: "open_devnull P k = (k1, Inr fd)" using assms(3) Null unfolding devnull_opens_def by (metis prod.collapse)
  obtain d where d: "tbl k fd = None" "tbl k1 = (tbl k)(fd \<mapsto> d)"
    using sys_open_fds [OF c, of k] o by (fastforce simp: open_devnull_def fd_fresh_def)
  obtain k2 r where u: "sys_dup2 P k1 fd tgt = (k2, r)" by force
  have "r = Inr ()" using assms(2) u d(2) unfolding dup2_works_def by (metis fun_upd_same option.distinct(1) snd_conv)
  then have "tbl k2 = (tbl k1)(tgt := tbl k1 fd)" using sys_dup2_fds [OF c u] by simp
  moreover obtain k3 r3 where cl: "sys_close P k2 fd = (k3, r3)" by force
  ultimately have "tbl k3 = ((tbl k)(fd \<mapsto> d, tgt \<mapsto> d))(fd := None)" using sys_close_fds [OF c cl] d(2) by simp
  moreover have "fd \<noteq> tgt" using d(1) t(1,5) by (auto simp: m map_add_def split: option.splits)
  ultimately have "tbl k3 = (tbl k)(tgt \<mapsto> d)" using d(1) by (simp add: fun_eq_iff)
  then have "tbl k3 = T(tgt \<mapsto> d) ++ m'" using table_restore [OF t(2,3,5,6), of "Some d"] t(1) m by (simp add: fun_upd_def)
  then show ?thesis using Null o u cl by (intro exI [of _ "Some d"]) (simp add: child_setup_fd_def child_end_def)
next
  case Piped
  then obtain q dp dc where q: "p = Some q" "pp_parent q \<noteq> pp_child q" "m = [pp_parent q \<mapsto> dp, pp_child q \<mapsto> dc]"
    using t(4) by (auto simp: pipe_entries_def split: option.splits)
  obtain k1 r where u: "sys_dup2 P k (pp_child q) tgt = (k1, r)" by force
  have ch: "tbl k (pp_child q) = Some dc" using t(1,3) q(3) by (auto simp: map_add_def split: option.splits)
  then have "r = Inr ()" using assms(2) u unfolding dup2_works_def by (metis option.distinct(1) snd_conv)
  then have 1: "tbl k1 = (tbl k)(tgt \<mapsto> dc)" using sys_dup2_fds [OF c u] ch by simp
  obtain k2 r2 k3 r3 where cl: "sys_close P k1 (pp_child q) = (k2, r2)" "sys_close P k2 (pp_parent q) = (k3, r3)" by force
  have "tbl k3 = ((tbl k)(tgt \<mapsto> dc))(pp_child q := None, pp_parent q := None)"
    using sys_close_fds [OF c cl(1)] sys_close_fds [OF c cl(2)] 1 by simp
  then have "tbl k3 = (\<lambda>y. if y \<in> dom m then None else ((tbl k)(tgt \<mapsto> dc)) y)"
    using pipe_entries_dom [OF t(4)] q(1) by (simp add: fun_eq_iff pipe_fds_def)
  then have "tbl k3 = T(tgt \<mapsto> dc) ++ m'" by (simp only: t(1) table_restore [OF t(2,3,5,6)])
  then show ?thesis using Piped q u cl by (intro exI [of _ "Some dc"]) (simp add: child_setup_fd_def child_end_def)
qed

lemma spawn_pipes_fds:
  assumes "fd_contract P tbl ends" "spawn_pipes P k self = (k', Inr (p0, p1, p2))"
  obtains m0 m1 m2 where "tbl k' = tbl k ++ m0 ++ m1 ++ m2"
    "dom m0 \<inter> dom (tbl k) = {}" "dom m1 \<inter> dom (tbl k) = {}" "dom m2 \<inter> dom (tbl k) = {}"
    "dom m0 \<inter> dom m1 = {}" "dom m0 \<inter> dom m2 = {}" "dom m1 \<inter> dom m2 = {}"
    "pipe_entries ends (c_stdin self) True p0 m0" "pipe_entries ends (c_stdout self) False p1 m1" "pipe_entries ends (c_stderr self) False p2 m2"
proof -
  obtain k1 k2 where k: "make_pipe P k (c_stdin self) True = (k1, Inr p0)" "make_pipe P k1 (c_stdout self) False = (k2, Inr p1)"
      "make_pipe P k2 (c_stderr self) False = (k', Inr p2)"
    using assms(2) by (auto simp: spawn_pipes_def split: prod.splits sum.splits)
  obtain m0 where m0: "tbl k1 = tbl k ++ m0" "dom m0 \<inter> dom (tbl k) = {}" "pipe_entries ends (c_stdin self) True p0 m0"
    using make_pipe_fds [OF assms(1) k(1)] by blast
  obtain m1 where m1: "tbl k2 = tbl k1 ++ m1" "dom m1 \<inter> dom (tbl k1) = {}" "pipe_entries ends (c_stdout self) False p1 m1"
    using make_pipe_fds [OF assms(1) k(2)] by blast
  obtain m2 where m2: "tbl k' = tbl k2 ++ m2" "dom m2 \<inter> dom (tbl k2) = {}" "pipe_entries ends (c_stderr self) False p2 m2"
    using make_pipe_fds [OF assms(1) k(3)] by blast
  show ?thesis by (rule that [of m0 m1 m2]) (use m0 m1 m2 in auto)
qed

lemma parent_keep_fds:
  assumes "fd_contract P tbl ends" "tbl k = T ++ m ++ m'" "dom m \<inter> dom T = {}" "dom m \<inter> dom m' = {}" "pipe_entries ends kind is_stdin p m"
    and "parent_keep P k kind p = (k', fd)"
  shows "fd = map_option pp_parent p" "tbl k' = T ++ m |` (set_option fd) ++ m'"
proof -
  have "fd = map_option pp_parent p \<and> tbl k' = T ++ m |` (set_option fd) ++ m'"
  proof (cases p)
    case None
    then show ?thesis using assms(2,5,6) by (auto simp: parent_keep_def pipe_entries_def)
  next
    case (Some q)
    then obtain dp dc where q: "kind = Piped" "pp_parent q \<noteq> pp_child q" "m = [pp_parent q \<mapsto> dp, pp_child q \<mapsto> dc]"
      using assms(5) by (auto simp: pipe_entries_def)
    obtain k1 r where c: "sys_close P k (pp_child q) = (k1, r)" by force
    have fd: "fd = Some (pp_parent q)" "k' = k1" using assms(6) Some q(1) c by (simp_all add: parent_keep_def)
    have "T (pp_child q) = None" "m' (pp_child q) = None" using assms(3,4) q(3) by (auto simp: dom_def disjoint_iff)
    then have "((tbl k)(pp_child q := None)) y = (T ++ m |` {pp_parent q} ++ m') y" for y
      using q(2) unfolding assms(2) q(3)
      by (cases "y = pp_child q"; cases "y = pp_parent q") (auto simp: map_add_def restrict_map_def split: option.split)
    then have "(tbl k)(pp_child q := None) = T ++ m |` {pp_parent q} ++ m'" by (rule ext)
    then show ?thesis using sys_close_fds [OF assms(1) c] fd Some by simp
  qed
  then show "fd = map_option pp_parent p" "tbl k' = T ++ m |` (set_option fd) ++ m'" by simp_all
qed

text \<open>A stream of the child and the parent's handle for it.\<close>

definition wired :: "('o \<Rightarrow> 'o \<Rightarrow> bool) \<Rightarrow> bool \<Rightarrow> StdioKind \<Rightarrow> 'o option \<Rightarrow> 'o option \<Rightarrow> i32 option \<Rightarrow> (i32 \<rightharpoonup> 'o) \<Rightarrow> bool" where
  "wired ends is_stdin kind inherited x fd T \<longleftrightarrow>
     (case kind of
        Inherit \<Rightarrow> x = inherited \<and> fd = None
      | Null \<Rightarrow> x \<noteq> None \<and> fd = None
      | Piped \<Rightarrow> \<exists>f dp dc. fd = Some f \<and> T f = Some dp \<and> x = Some dc \<and> (if is_stdin then ends dc dp else ends dp dc))"

definition child_fds :: "Child \<Rightarrow> i32 set" where
  "child_fds c = set_option (ch_stdin c) \<union> set_option (ch_stdout c) \<union> set_option (ch_stderr c)"

lemma wiredI:
  assumes "pipe_entries ends kind is_stdin p m" "child_end kind p inherited m x" "fd = map_option pp_parent p"
    and "\<And>f. fd = Some f \<Longrightarrow> T f = m f"
  shows "wired ends is_stdin kind inherited x fd T"
  using assms by (cases kind; cases is_stdin) (auto simp: wired_def pipe_entries_def child_end_def split: option.splits)

text \<open>The three streams of the child in turn, from a table with the entries of all pipes.\<close>

lemma child_setup_fds:
  assumes c: "fd_contract P tbl ends" and d: "dup2_works P tbl"
    and n: "c_stdin self = Null \<or> c_stdout self = Null \<or> c_stderr self = Null \<longrightarrow> devnull_opens P"
    and k: "tbl k = T ++ m0 ++ m1 ++ m2" and std: "{0, 1, 2} \<subseteq> dom T"
    and m: "dom m0 \<inter> dom T = {}" "dom m1 \<inter> dom T = {}" "dom m2 \<inter> dom T = {}"
      "dom m0 \<inter> dom m1 = {}" "dom m0 \<inter> dom m2 = {}" "dom m1 \<inter> dom m2 = {}"
    and e: "pipe_entries ends (c_stdin self) True p0 m0" "pipe_entries ends (c_stdout self) False p1 m1" "pipe_entries ends (c_stderr self) False p2 m2"
  shows "\<exists>x0 x1 x2. tbl (child_setup P k self cwd p0 p1 p2) = T(0 := x0, 1 := x1, 2 := x2) \<and>
     child_end (c_stdin self) p0 (T 0) m0 x0 \<and> child_end (c_stdout self) p1 (T 1) m1 x1 \<and> child_end (c_stderr self) p2 (T 2) m2 x2"
proof -
  define kc where "kc = (case cwd of Some d \<Rightarrow> fst (sys_chdir P k d) | None \<Rightarrow> k)"
  define k0 where "k0 = child_setup_fd P kc 0 (c_stdin self) p0"
  define k1 where "k1 = child_setup_fd P k0 1 (c_stdout self) p1"
  have "tbl (fst (sys_chdir P k d)) = tbl k" for d using neutral_calls_fds(13) [OF c] by (metis prod.collapse)
  then have tc: "tbl kc = T ++ m0 ++ (m1 ++ m2)" using k by (cases cwd) (simp_all add: kc_def map_add_assoc)
  have s: "0 \<in> dom T" "1 \<in> dom T" "2 \<in> dom T" using std by auto
  have o: "0 \<notin> dom (m1 ++ m2)" "1 \<notin> dom m2" "dom m0 \<inter> dom (m1 ++ m2) = {}"
    using s m by (auto simp del: dom_fun_upd)
  obtain x0 where x0: "tbl k0 = T(0 := x0) ++ (m1 ++ m2)" "child_end (c_stdin self) p0 (T 0) m0 x0"
    using child_setup_fd_fds [OF c d _ tc m(1) o(3) e(1) s(1) o(1)] n unfolding k0_def by blast
  have t1: "tbl k0 = T(0 := x0) ++ m1 ++ m2" "dom m1 \<inter> dom (T(0 := x0)) = {}" "1 \<in> dom (T(0 := x0))"
    using x0(1) m(2) s by (auto simp: map_add_assoc split: if_splits)
  obtain x1 where x1: "tbl k1 = T(0 := x0, 1 := x1) ++ m2" "child_end (c_stdout self) p1 ((T(0 := x0)) 1) m1 x1"
    using child_setup_fd_fds [OF c d _ t1(1,2) m(6) e(2) t1(3) o(2)] n unfolding k1_def by blast
  have t2: "tbl k1 = T(0 := x0, 1 := x1) ++ m2 ++ Map.empty" "dom m2 \<inter> dom (T(0 := x0, 1 := x1)) = {}" "2 \<in> dom (T(0 := x0, 1 := x1))"
    using x1(1) m(3) s by (auto split: if_splits)
  obtain x2 where x2: "tbl (child_setup_fd P k1 2 (c_stderr self) p2) = T(0 := x0, 1 := x1, 2 := x2)"
      "child_end (c_stderr self) p2 ((T(0 := x0, 1 := x1)) 2) m2 x2"
    using child_setup_fd_fds [OF c d _ t2(1,2) _ e(3) t2(3)] n by (auto simp del: fun_upd_apply)
  have "child_setup P k self cwd p0 p1 p2 = child_setup_fd P k1 2 (c_stderr self) p2"
    by (simp add: child_setup_def kc_def k0_def k1_def)
  then show ?thesis using x0(2) x1(2) x2 by auto
qed


lemma table_dup2: "dup2_works table_kernel snd"
proof -
  have "snd (sys_dup2 table_kernel (i, T) old new) = Inr ()" if "T old \<noteq> None" for i T old new
    using that by (auto simp: sys_dup2_def table_kernel_def table_call_def from_ret_def)
  then show ?thesis by (auto simp: dup2_works_def)
qed

definition std_table :: "i32 \<rightharpoonup> nat" where
  "std_table = [0 \<mapsto> 0, 1 \<mapsto> 1, 2 \<mapsto> 2]"

definition capture :: Command where
  "capture = command_stderr (command_stdout (command_new ''/bin/ls'') Piped) Piped"


end
