(* ===== verification/Process_Run.thy ===== *)
theory Process_Run
  imports Process
begin

text \<open>
  What a spawned program sees and what its caller gets back: the environment block that \<open>build_env\<close> hands to
  \<open>execve\<close>, and the outputs and the status that \<open>wait_with_output\<close> collects.
\<close>

section \<open>The environment of the child\<close>

text \<open>The calls of the builder that change the environment.\<close>

datatype env_change_call = Set_Env string string | Remove_Env string

fun cmd_env_call :: "Command \<Rightarrow> env_change_call \<Rightarrow> Command" where
  "cmd_env_call self (Set_Env key val) = command_env self key val"
| "cmd_env_call self (Remove_Env key) = command_env_remove self key"

fun env_change :: "(string \<rightharpoonup> string) \<Rightarrow> env_change_call \<Rightarrow> (string \<rightharpoonup> string)" where
  "env_change E (Set_Env key val) = E(key \<mapsto> val)"
| "env_change E (Remove_Env key) = E(key := None)"

text \<open>The map of operations, applied to an environment.\<close>

definition env_override :: "(string \<rightharpoonup> string option) \<Rightarrow> (string \<rightharpoonup> string) \<Rightarrow> (string \<rightharpoonup> string)" where
  "env_override ops E = (\<lambda>key. case ops key of None \<Rightarrow> E key | Some v \<Rightarrow> v)"

lemma apply_env_ops_spec:
  "distinct (map fst ops) \<Longrightarrow> bt_inv m \<Longrightarrow>
     bt_inv (apply_env_ops ops m) \<and> map_of (apply_env_ops ops m) = env_override (map_of ops) (map_of m)"
proof (induction ops m rule: apply_env_ops.induct)
  case (2 k v ops m)
  let ?m = "case v of Some val \<Rightarrow> bt_insert k val m | None \<Rightarrow> bt_remove k m"
  have i: "bt_inv ?m" using 2(3) by (cases v) (simp_all add: bt_insert_inv bt_remove_inv)
  have u: "map_of ?m = (map_of m)(k := v)" using 2(3) by (cases v) (simp_all add: map_of_bt_insert map_of_bt_remove)
  have "map_of ops k = None" using 2(2) by (simp add: map_of_eq_None_iff)
  then have "env_override (map_of ops) ((map_of m)(k := v)) = env_override (map_of ((k, v) # ops)) (map_of m)"
    by (auto simp: env_override_def fun_eq_iff split: option.split)
  moreover have "bt_inv (apply_env_ops ops ?m) \<and> map_of (apply_env_ops ops ?m) = env_override (map_of ops) (map_of ?m)"
    using 2(1) [OF _ i] 2(2) by simp
  ultimately show ?case unfolding u by (simp only: apply_env_ops.simps)
qed (simp add: env_override_def)

lemma bt_collect_spec:
  "distinct (map fst kvs) \<Longrightarrow> bt_inv m \<Longrightarrow> bt_inv (bt_collect kvs m) \<and> map_of (bt_collect kvs m) = map_of m ++ map_of kvs"
proof (induction kvs m rule: bt_collect.induct)
  case (2 k v kvs m)
  have "map_of kvs k = None" using 2(2) by (simp add: map_of_eq_None_iff)
  then have "(map_of m)(k \<mapsto> v) ++ map_of kvs = map_of m ++ map_of ((k, v) # kvs)"
    by (auto simp: fun_eq_iff map_add_def split: option.split)
  moreover have "bt_inv (bt_collect kvs (bt_insert k v m)) \<and> map_of (bt_collect kvs (bt_insert k v m)) = (map_of m)(k \<mapsto> v) ++ map_of kvs"
    using 2(1) [OF _ bt_insert_inv [OF 2(3)]] 2(2) unfolding map_of_bt_insert [OF 2(3)] by (simp only: list.map distinct.simps)
  ultimately show ?case by (simp only: bt_collect.simps)
qed simp

lemma bt_inv_distinct: "bt_inv m \<Longrightarrow> distinct (map fst m)"
  by (simp add: bt_inv_def strict_sorted_iff)

lemma env_calls_ops:
  assumes "bt_inv (c_env_ops self)"
  shows "bt_inv (c_env_ops (foldl cmd_env_call self calls)) \<and> c_env_clear (foldl cmd_env_call self calls) = c_env_clear self \<and>
     env_override (map_of (c_env_ops (foldl cmd_env_call self calls))) E = foldl env_change (env_override (map_of (c_env_ops self)) E) calls"
  using assms
proof (induction calls arbitrary: self)
  case (Cons c calls)
  have "bt_inv (c_env_ops (cmd_env_call self c)) \<and> c_env_clear (cmd_env_call self c) = c_env_clear self \<and>
      env_override (map_of (c_env_ops (cmd_env_call self c))) E = env_change (env_override (map_of (c_env_ops self)) E) c"
    using Cons.prems
    by (cases c) (auto simp: command_env_def command_env_remove_def bt_insert_inv map_of_bt_insert env_override_def fun_eq_iff)
  then show ?case using Cons.IH [of "cmd_env_call self c"] by simp
qed simp

text \<open>C23: The program a \<open>Command\<close> starts gets the caller's environment, or an empty one after \<open>env_clear\<close>, with
every \<open>env\<close> and \<open>env_remove\<close> call applied in the order they were made: its block lists each variable once, in
the order of the names, and leaves out only those that contain a NUL.\<close>

theorem command_environment:
  assumes "env_inv s" "c_env_ops self = []"
  shows "\<exists>s' m. build_env s (foldl cmd_env_call self calls) =
       Some (s', map env_string (filter (\<lambda>kv. char_of (0 :: nat) \<notin> set (env_string kv)) m)) \<and>
     bt_inv m \<and> map_of m = foldl env_change (if c_env_clear self then Map.empty else env_look s) calls \<and>
     env_look s' = env_look s"
proof -
  let ?c = "foldl cmd_env_call self calls"
  have ops: "bt_inv (c_env_ops ?c)" "c_env_clear ?c = c_env_clear self"
      "env_override (map_of (c_env_ops ?c)) E = foldl env_change E calls" for E
    using env_calls_ops [of self calls E] assms(2) by (simp_all add: bt_inv_def env_override_def)
  obtain s' m where m: "env_map s = Some (s', m)" "bt_inv m" "es_map s' = Some m" "env_look s = map_of m"
    using env_map_spec [OF assms(1)] by blast
  define base where "base = (if c_env_clear self then [] else bt_collect m [])"
  define s1 where "s1 = (if c_env_clear self then s else s')"
  have b: "bt_inv base" "map_of base = (if c_env_clear self then Map.empty else env_look s)"
    using bt_collect_spec [OF bt_inv_distinct [OF m(2)], of "[]"] m(4) by (simp_all add: base_def bt_inv_def)
  have l: "env_look s1 = env_look s" using env_look_made [OF m(3)] m(4) by (simp add: s1_def)
  let ?f = "\<lambda>kv. case cstring_new (env_string kv) of Inl _ \<Rightarrow> None | Inr c \<Rightarrow> Some c"
  have f: "List.map_filter ?f xs = map env_string (filter (\<lambda>kv. char_of (0 :: nat) \<notin> set (env_string kv)) xs)" for xs
    by (induction xs) (simp_all add: map_filter_simps cstring_new_def)
  have "build_env s ?c = Some (s1, map env_string (filter (\<lambda>kv. char_of (0 :: nat) \<notin> set (env_string kv)) (apply_env_ops (c_env_ops ?c) base)))"
    using m(1) ops(2) f by (simp add: build_env_def env_vars_def base_def s1_def)
  then show ?thesis
    using apply_env_ops_spec [OF bt_inv_distinct [OF ops(1)] b(1)] b(2) ops(3) l
    by (intro exI [of _ s1] exI [of _ "apply_env_ops (c_env_ops ?c) base"]) simp
qed

text \<open>A caller with two variables; the command replaces one, adds one and removes it again.\<close>

definition caller_env :: env_state where
  "caller_env = \<lparr> es_vectors = env_init 0 None None, es_map = Some [(''HOME'', ''/root''), (''LANG'', ''C'')] \<rparr>"

theorem command_environment_witness:
  "env_inv caller_env \<and>
   (\<exists>s' m. build_env caller_env
        (foldl cmd_env_call (command_new ''ls'') [Set_Env ''LANG'' ''de'', Set_Env ''X'' ''1'', Remove_Env ''X'']) = Some (s', m) \<and>
      set m = {''HOME=/root'', ''LANG=de''})"
proof -
  have i: "env_inv caller_env" by (simp add: env_inv_def caller_env_def bt_inv_def)
  obtain s' m where m: "build_env caller_env
        (foldl cmd_env_call (command_new ''ls'') [Set_Env ''LANG'' ''de'', Set_Env ''X'' ''1'', Remove_Env ''X'']) =
      Some (s', map env_string (filter (\<lambda>kv. char_of (0 :: nat) \<notin> set (env_string kv)) m))"
      "map_of m = foldl env_change (env_look caller_env) [Set_Env ''LANG'' ''de'', Set_Env ''X'' ''1'', Remove_Env ''X'']" "bt_inv m"
    using command_environment [OF i, of "command_new ''ls''" "[Set_Env ''LANG'' ''de'', Set_Env ''X'' ''1'', Remove_Env ''X'']"]
    by (auto simp: command_new_def)
  have "map_of m = [''HOME'' \<mapsto> ''/root'', ''LANG'' \<mapsto> ''de'']"
    using m(2) by (auto simp: env_look_def env_map_def caller_env_def fun_eq_iff)
  then have "set m = {(''HOME'', ''/root''), (''LANG'', ''de'')}"
    using bt_inv_distinct [OF m(3)] by (auto simp: map_of_eq_Some_iff [symmetric] split: if_splits)
  moreover have n: "char_of (0 :: nat) \<notin> set (env_string (''HOME'', ''/root''))" "char_of (0 :: nat) \<notin> set (env_string (''LANG'', ''de''))"
    by code_simp+
  ultimately have "set (map env_string (filter (\<lambda>kv. char_of (0 :: nat) \<notin> set (env_string kv)) m)) = {''HOME=/root'', ''LANG=de''}"
    by (simp add: env_string_def)
  then show ?thesis using i m(1) by blast
qed

section \<open>Collecting the output\<close>

text \<open>\<open>wait4\<close> reports the status of the child, after at most finitely many interruptions.\<close>

definition wait_contract :: "'k platform \<Rightarrow> i32 \<Rightarrow> ('k \<Rightarrow> bool) \<Rightarrow> i32 \<Rightarrow> ('k \<Rightarrow> nat) \<Rightarrow> bool" where
  "wait_contract P pid kinv st sig \<longleftrightarrow>
     (\<forall>k (status :: i32) k' r ws. kinv k \<longrightarrow>
        p_syscall P k WAIT4 [W (i32_usize pid), Out (to_le_bytes 4 status), W (i32_usize 0), W 0] = (k', r, ws) \<longrightarrow>
        kinv k' \<and> ((\<exists>n < 2 ^ 63. r = of_nat n \<and> ws = [to_le_bytes 4 st]) \<or> (r = - of_nat 4 \<and> sig k' < sig k)))"

lemma wait_loop_returns:
  assumes "wait_contract P pid kinv st sig" "kinv k"
  shows "\<exists>k'. wait_loop P k pid status = Some (k', Inr (ExitStatus st)) \<and> kinv k'"
  using assms(2)
proof (induction "sig k" arbitrary: k status rule: less_induct)
  case less
  obtain k' r ws where c: "p_syscall P k WAIT4 [W (i32_usize pid), Out (to_le_bytes 4 status), W (i32_usize 0), W 0] = (k', r, ws)"
    by (metis prod_cases3)
  have k': "kinv k'" and res: "(\<exists>n < 2 ^ 63. r = of_nat n \<and> ws = [to_le_bytes 4 st]) \<or> (r = - of_nat 4 \<and> sig k' < sig k)"
    using assms(1) less.prems c unfolding wait_contract_def by blast+
  let ?w = "from_le_bytes (out_buf (to_le_bytes 4 status) ws 0) :: i32"
  have w: "sys_wait4 P k pid status 0 = (k', ?w, map_ok ucast (from_ret r))" using c by (simp add: sys_wait4_def)
  from res show ?case
  proof
    assume "\<exists>n < 2 ^ 63. r = of_nat n \<and> ws = [to_le_bytes 4 st]"
    then obtain n where n: "n < 2 ^ 63" "r = of_nat n" "ws = [to_le_bytes 4 st]" by blast
    have "?w = st" using n(3) le_bytes4 [of st] by (simp add: out_buf_def overwrite_def)
    then show ?thesis using k' w n(2) from_ret_ok [OF n(1)] by (subst wait_loop.simps) simp
  next
    assume i: "r = - of_nat 4 \<and> sig k' < sig k"
    then have "from_ret r = Inl (Errno 4)" using from_ret_err [of 4] by simp
    then have "wait_loop P k pid status = wait_loop P k' pid ?w" using w by (subst wait_loop.simps) simp
    then show ?thesis using less.hyps [of k'] i k' by simp
  qed
qed

lemma drain_all:
  assumes "read_contract P fd kinv stream eintr" "only_eintr P kinv READ (W (i32_usize fd))" "kinv k"
  shows "\<exists>k'. kinv k' \<and> drain P k (Some fd) = Some (fst (sys_close P k' fd), Inr (stream k))"
proof -
  have "reliable_reader (p_target P) (fd_read P fd) kinv stream (\<lambda>_. 0)"
    using fd_reliable [OF assms(1,2)] by (simp add: reliable_buffered_def)
  then obtain k' where "read_to_end (p_target P) (fd_read P fd) k [] = Some (k', stream k, Inr (length (stream k)))" "kinv k'"
    using reliable_reader.read_to_end_all [of "p_target P" "fd_read P fd" kinv stream "\<lambda>_. 0" k "[]"] assms(3) by auto
  then show ?thesis by (auto simp: drain_def)
qed


text \<open>A kernel that runs one child: descriptor 3 reads its output and every other its errors, a byte at a time,
and the first calls are interrupted. The state is the next descriptor, the two streams and the number of
interruptions left.\<close>

definition run_call :: "nat \<times> byte list \<times> byte list \<times> nat \<Rightarrow> nr \<Rightarrow> arg list \<Rightarrow> (nat \<times> byte list \<times> byte list \<times> nat) reply" where
  "run_call k n args =
     (case k of (i, out, err, sig) \<Rightarrow>
        if n = PIPE2 then ((i + 2, out, err, sig), 0, [to_le_bytes 4 (of_nat i :: i32) @ to_le_bytes 4 (of_nat (i + 1) :: i32)])
        else if n = FORK then (k, 7, [])
        else if n = READ \<or> n = WAIT4
        then (if 0 < sig then ((i, out, err, sig - 1), - 4, [])
              else if n = WAIT4 then (k, 7, [to_le_bytes 4 (exited_status 3)])
              else case args of
                     [W fd, Out buf, _] \<Rightarrow>
                       if buf = [] then (k, 0, [[]])
                       else if fd = 3 then ((i, drop 1 out, err, sig), of_nat (min 1 (length out)), [take 1 out])
                       else ((i, out, drop 1 err, sig), of_nat (min 1 (length err)), [take 1 err])
                   | _ \<Rightarrow> (k, 0, []))
        else (k, 0, []))"

definition run_kernel :: "(nat \<times> byte list \<times> byte list \<times> nat) platform" where
  "run_kernel = \<lparr> p_target = Linux_x86_64, p_syscall = run_call, p_svc2 = (\<lambda>k _. (k, 0, 0, False)) \<rparr>"

definition run_out :: "nat \<times> byte list \<times> byte list \<times> nat \<Rightarrow> byte list" where
  "run_out k = (case k of (_, out, _, _) \<Rightarrow> out)"

definition run_err :: "nat \<times> byte list \<times> byte list \<times> nat \<Rightarrow> byte list" where
  "run_err k = (case k of (_, _, err, _) \<Rightarrow> err)"

definition run_sig :: "nat \<times> byte list \<times> byte list \<times> nat \<Rightarrow> nat" where
  "run_sig k = (case k of (_, _, _, sig) \<Rightarrow> sig)"

definition run_stream :: "u64 \<Rightarrow> nat \<times> byte list \<times> byte list \<times> nat \<Rightarrow> byte list" where
  "run_stream fd k = (if fd = 3 then run_out k else run_err k)"

lemma run_read:
  assumes "run_call k READ [W fd, Out buf, l] = (k', r, ws)"
  shows "((\<exists>n ws'. r = of_nat n \<and> n < 2 ^ 63 \<and> n \<le> length buf \<and>
            (\<exists>w. ws = w # ws' \<and> length w = n \<and> run_stream fd k = w @ run_stream fd k') \<and>
            (n = 0 \<longrightarrow> buf = [] \<or> run_stream fd k = []) \<and> run_sig k' \<le> run_sig k) \<or>
          (r = - of_nat 4 \<and> run_stream fd k' = run_stream fd k \<and> run_sig k' < run_sig k)) \<and>
         (fd = 3 \<longrightarrow> run_err k' = run_err k)"
proof -
  obtain i out err sig where k: "k = (i, out, err, sig)" by (metis prod_cases4)
  show ?thesis
  proof (cases "0 < sig")
    case True
    then show ?thesis using assms k by (auto simp: run_call_def run_stream_def run_out_def run_err_def run_sig_def)
  next
    case False
    then show ?thesis using assms k
      by (cases buf; cases out; cases err) (auto simp: run_call_def run_stream_def run_out_def run_err_def run_sig_def)
  qed
qed

lemma run_read_contract:
  assumes "kinv = (\<lambda>_. True) \<or> fd = 3 \<and> kinv = (\<lambda>k. run_err k = E)"
  shows "read_contract run_kernel fd kinv (run_stream (i32_usize fd)) run_sig"
proof -
  have s3: "i32_usize 3 = 3" by (simp add: i32_usize_def)
  have "kinv k' \<and>
        ((\<exists>n ws'. r = of_nat n \<and> n < 2 ^ 63 \<and> n \<le> length buf \<and>
              (\<exists>w. ws = w # ws' \<and> length w = n \<and> run_stream (i32_usize fd) k = w @ run_stream (i32_usize fd) k') \<and>
              (n = 0 \<longrightarrow> buf = [] \<or> run_stream (i32_usize fd) k = []) \<and> run_sig k' \<le> run_sig k) \<or>
         (\<exists>e. r = - of_nat e \<and> 1 \<le> e \<and> e \<le> 4095 \<and> run_stream (i32_usize fd) k' = run_stream (i32_usize fd) k \<and>
              run_sig k' \<le> run_sig k \<and> (e = 4 \<longrightarrow> run_sig k' < run_sig k)))"
    if k: "kinv k" and c: "run_call k READ [W (i32_usize fd), Out buf, l] = (k', r, ws)" for k buf l k' r ws
  proof -
    have i: "kinv k'" using run_read [OF c] k assms s3 by auto
    from run_read [OF c] show ?thesis
    proof (elim conjE disjE)
      assume "r = - of_nat 4" "run_stream (i32_usize fd) k' = run_stream (i32_usize fd) k" "run_sig k' < run_sig k"
      then show ?thesis using i by (intro conjI disjI2 exI [of _ 4]) simp_all
    qed (use i in blast)
  qed
  then show ?thesis unfolding read_contract_def run_kernel_def by simp
qed

lemma run_read_ret:
  assumes "run_call k READ args = (k', r, ws)"
  shows "from_ret r = Inl (Errno 4) \<or> (\<exists>v. from_ret r = Inr v)"
proof -
  obtain i out err sig where k: "k = (i, out, err, sig)" by (metis prod_cases4)
  have v: "from_ret 0 = Inr 0" "from_ret 1 = Inr 1" "from_ret (- 4) = Inl (Errno 4)" by (simp_all add: from_ret_def)
  show ?thesis
  proof (cases "\<exists>fd buf l. args = [W fd, Out buf, l] \<and> sig = 0")
    case True
    then show ?thesis using assms k v by (cases out; cases err) (auto simp: run_call_def split: if_splits)
  next
    case False
    then have "snd (run_call k READ args) = (- 4, []) \<or> snd (run_call k READ args) = (0, [])"
      using k by (auto simp: run_call_def split: list.split arg.split)
    then show ?thesis using assms v by auto
  qed
qed

lemma run_only_eintr: "only_eintr run_kernel kinv READ (W (i32_usize fd))"
proof -
  have "e = 4" if r: "run_call k READ as = (k', - of_nat e, ws)" and e: "1 \<le> e" "e \<le> 4095" for k as k' ws e
    using run_read_ret [OF r] from_ret_err [OF e] errno_of_nat [OF e] by simp
  then show ?thesis unfolding only_eintr_def run_kernel_def by simp
qed

lemma run_wait: "wait_contract run_kernel 7 (\<lambda>_. True) (exited_status 3) run_sig"
proof -
  have "(\<exists>n < 2 ^ 63. r = of_nat n \<and> ws = [to_le_bytes 4 (exited_status 3)]) \<or> (r = - of_nat 4 \<and> run_sig k' < run_sig k)"
    if "run_call k WAIT4 args = (k', r, ws)" for k args k' r ws
  proof -
    obtain i out err sig where k: "k = (i, out, err, sig)" by (metis prod_cases4)
    show ?thesis
    proof (cases "0 < sig")
      case False
      then have "r = of_nat 7" "ws = [to_le_bytes 4 (exited_status 3)]" using that k by (simp_all add: run_call_def)
      then show ?thesis by (intro disjI1 exI [of _ 7]) simp
    qed (use that k in \<open>auto simp: run_call_def run_sig_def\<close>)
  qed
  then show ?thesis unfolding wait_contract_def run_kernel_def by simp
qed

lemma run_close: "fst (sys_close run_kernel k fd) = k"
  by (cases k) (simp add: sys_close_def run_kernel_def run_call_def)

definition listing :: Command where
  "listing = command_new ''/bin/ls''"


section \<open>Descriptors after a failed spawn\<close>

lemma table_pipe_full:
  assumes "\<not> i + 1 < 2 ^ 31"
  shows "sys_pipe table_kernel (i, T) = ((i, T), Inl (Errno 24))"
  using assms from_ret_err [of 24] by (simp add: sys_pipe_def table_kernel_def table_call_def)


end
