(* ===== verification/Rw_Locks.thy ===== *)
theory Rw_Locks
  imports Futex
begin

text \<open>
  \<open>RwLock\<close> of \<open>src/sync.rs\<close>: one word whose top bit says write-locked and whose low 31 bits
  count the readers. The positions are the accesses to the word inside \<open>read\<close>, \<open>try_read\<close>,
  \<open>write\<close>, \<open>try_write\<close> and the guards' drops. The weak exchange of \<open>read\<close> may fail without
  reason, which is a choice of the caller's side here. Shown are exclusion while there are
  fewer than \<open>2 ^ 31\<close> threads and that a free lock somebody asks for is taken.
\<close>

section \<open>The lock\<close>

definition RW_WRITER :: u32 where
  "RW_WRITER = push_bit 31 1"

datatype rw_pc =
    RW_idle
  | RD_load | RD_cas u32 | RD_wait u32 futex_pc | RD_held | RD_drop
  | TR_load | TR_cas u32
  | WR_cas | WR_load | WR_wait u32 futex_pc | WR_held | WR_store
  | TW_cas
  | RW_wake

type_synonym 'q rw_shared = "u32 \<times> 'q"

definition rw_read :: "'q futex \<Rightarrow> nat \<Rightarrow> ('q rw_shared, rw_pc) runner" where
  "rw_read F a g t pc =
     (case g of (w, q) \<Rightarrow>
        (case pc of
           RD_load \<Rightarrow> Some ((w, q), if w AND RW_WRITER = 0 then RD_cas w else RD_wait w FW_load)
         | RD_cas s \<Rightarrow> Some (if w = s then ((s + 1, q), RD_held) else ((w, q), RD_load))
         | RD_wait s fp \<Rightarrow>
             map_option (\<lambda>(q', r). ((w, q'), case r of Some fp' \<Rightarrow> RD_wait s fp' | None \<Rightarrow> RD_load))
               (futex_wait F a s t w q fp)
         | _ \<Rightarrow> None))"

definition rw_try_read :: "('q rw_shared, rw_pc) runner" where
  "rw_try_read g t pc =
     (case g of (w, q) \<Rightarrow>
        (case pc of
           TR_load \<Rightarrow> Some ((w, q), if w AND RW_WRITER = 0 then TR_cas w else RW_idle)
         | TR_cas s \<Rightarrow> Some (if w = s then ((s + 1, q), RD_held) else ((w, q), RW_idle))
         | _ \<Rightarrow> None))"

definition rw_write :: "'q futex \<Rightarrow> nat \<Rightarrow> ('q rw_shared, rw_pc) runner" where
  "rw_write F a g t pc =
     (case g of (w, q) \<Rightarrow>
        (case pc of
           WR_cas \<Rightarrow> Some (if w = 0 then ((RW_WRITER, q), WR_held) else ((w, q), WR_load))
         | WR_load \<Rightarrow> Some ((w, q), if w \<noteq> 0 then WR_wait w FW_load else WR_cas)
         | WR_wait s fp \<Rightarrow>
             map_option (\<lambda>(q', r). ((w, q'), case r of Some fp' \<Rightarrow> WR_wait s fp' | None \<Rightarrow> WR_cas))
               (futex_wait F a s t w q fp)
         | _ \<Rightarrow> None))"

definition rw_try_write :: "('q rw_shared, rw_pc) runner" where
  "rw_try_write g t pc =
     (case g of (w, q) \<Rightarrow>
        (case pc of
           TW_cas \<Rightarrow> Some (if w = 0 then ((RW_WRITER, q), WR_held) else ((w, q), RW_idle))
         | _ \<Rightarrow> None))"

definition rw_read_drop :: "'q futex \<Rightarrow> nat \<Rightarrow> ('q rw_shared, rw_pc) runner" where
  "rw_read_drop F a g t pc =
     (case g of (w, q) \<Rightarrow>
        (case pc of
           RD_drop \<Rightarrow> Some ((w - 1, q), if w = 1 then RW_wake else RW_idle)
         | RW_wake \<Rightarrow> Some ((w, futex_wake_all F q a), RW_idle)
         | _ \<Rightarrow> None))"

definition rw_write_drop :: "'q futex \<Rightarrow> nat \<Rightarrow> ('q rw_shared, rw_pc) runner" where
  "rw_write_drop F a g t pc =
     (case g of (w, q) \<Rightarrow>
        (case pc of
           WR_store \<Rightarrow> Some ((0, q), RW_wake)
         | RW_wake \<Rightarrow> Some ((w, futex_wake_all F q a), RW_idle)
         | _ \<Rightarrow> None))"

definition rw_run :: "'q futex \<Rightarrow> nat \<Rightarrow> ('q rw_shared, rw_pc) runner" where
  "rw_run F a g t pc =
     (case pc of
        RD_load \<Rightarrow> rw_read F a g t pc | RD_cas _ \<Rightarrow> rw_read F a g t pc | RD_wait _ _ \<Rightarrow> rw_read F a g t pc
      | TR_load \<Rightarrow> rw_try_read g t pc | TR_cas _ \<Rightarrow> rw_try_read g t pc
      | RD_drop \<Rightarrow> rw_read_drop F a g t pc | RW_wake \<Rightarrow> rw_read_drop F a g t pc
      | TW_cas \<Rightarrow> rw_try_write g t pc
      | WR_store \<Rightarrow> rw_write_drop F a g t pc
      | _ \<Rightarrow> rw_write F a g t pc)"

definition rw_call :: "rw_pc \<Rightarrow> rw_pc \<Rightarrow> bool" where
  "rw_call pc pc' \<longleftrightarrow>
     pc = RW_idle \<and> pc' \<in> {RD_load, TR_load, WR_cas, TW_cas} \<or> pc = RD_held \<and> pc' = RD_drop \<or>
     pc = WR_held \<and> pc' = WR_store \<or> pc' = RD_load \<and> (case pc of RD_cas _ \<Rightarrow> True | _ \<Rightarrow> False)"

definition rw_env :: "'q futex \<Rightarrow> nat \<Rightarrow> 'q rw_shared \<Rightarrow> 'q rw_shared \<Rightarrow> bool" where
  "rw_env F a g g' \<longleftrightarrow> fst g' = fst g \<and> fx_sleeping F (snd g') a \<subseteq> fx_sleeping F (snd g) a"

definition rw_spawn :: "rw_pc \<Rightarrow> rw_pc \<times> rw_pc \<Rightarrow> bool" where
  "rw_spawn pc p \<longleftrightarrow> p = (pc, RW_idle)"

definition rw_new :: "'q \<Rightarrow> nat \<Rightarrow> ('q rw_shared, rw_pc) conc" where
  "rw_new q n = ((0, q), replicate n RW_idle)"

abbreviation rw_reach :: "'q futex \<Rightarrow> nat \<Rightarrow> ('q rw_shared, rw_pc) conc \<Rightarrow> ('q rw_shared, rw_pc) conc \<Rightarrow> bool" where
  "rw_reach F a \<equiv> conc_reach (rw_run F a) rw_call (rw_env F a) rw_spawn"

lemmas rw_run_defs = rw_run_def rw_read_def rw_try_read_def rw_write_def rw_try_write_def rw_read_drop_def
  rw_write_drop_def futex_wait_def

text \<open>The steps a thread can take, one by one.\<close>

lemma rw_run_split:
  assumes "rw_run F a (w, q) t pc = Some ((w', q'), pc')"
  shows
    "(pc = RD_cas w \<or> pc = TR_cas w) \<and> w' = w + 1 \<and> q' = q \<and> pc' = RD_held \<or>
     (pc = WR_cas \<or> pc = TW_cas) \<and> w = 0 \<and> w' = RW_WRITER \<and> q' = q \<and> pc' = WR_held \<or>
     pc = RD_drop \<and> w' = w - 1 \<and> q' = q \<and> pc' = (if w = 1 then RW_wake else RW_idle) \<or>
     pc = WR_store \<and> w' = 0 \<and> q' = q \<and> pc' = RW_wake \<or>
     pc = RW_wake \<and> w' = w \<and> q' = futex_wake_all F q a \<and> pc' = RW_idle \<or>
     (\<exists>s. pc = RD_wait s FW_call \<and> w = s \<and> w' = w \<and> q' = fx_wait F q a t \<and> pc' = RD_wait s FW_blocked) \<or>
     (\<exists>s. pc = WR_wait s FW_call \<and> w = s \<and> w' = w \<and> q' = fx_wait F q a t \<and> pc' = WR_wait s FW_blocked) \<or>
     w' = w \<and> q' = q \<and>
      (pc = RD_load \<and> w AND RW_WRITER = 0 \<and> pc' = RD_cas w \<or>
       pc = RD_load \<and> w AND RW_WRITER \<noteq> 0 \<and> pc' = RD_wait w FW_load \<or>
       (\<exists>s. pc = RD_cas s \<and> w \<noteq> s \<and> pc' = RD_load) \<or>
       (\<exists>s. pc = RD_wait s FW_load \<and> w = s \<and> pc' = RD_wait s FW_call) \<or>
       (\<exists>s. pc = RD_wait s FW_load \<and> w \<noteq> s \<and> pc' = RD_load) \<or>
       (\<exists>s. pc = RD_wait s FW_call \<and> w \<noteq> s \<and> pc' = RD_wait s FW_load) \<or>
       (\<exists>s. pc = RD_wait s FW_blocked \<and> t \<notin> fx_sleeping F q a \<and> pc' = RD_wait s FW_load) \<or>
       pc = TR_load \<and> w AND RW_WRITER = 0 \<and> pc' = TR_cas w \<or>
       pc = TR_load \<and> w AND RW_WRITER \<noteq> 0 \<and> pc' = RW_idle \<or>
       (\<exists>s. pc = TR_cas s \<and> w \<noteq> s \<and> pc' = RW_idle) \<or>
       pc = WR_cas \<and> w \<noteq> 0 \<and> pc' = WR_load \<or>
       pc = TW_cas \<and> w \<noteq> 0 \<and> pc' = RW_idle \<or>
       pc = WR_load \<and> w \<noteq> 0 \<and> pc' = WR_wait w FW_load \<or>
       pc = WR_load \<and> w = 0 \<and> pc' = WR_cas \<or>
       (\<exists>s. pc = WR_wait s FW_load \<and> w = s \<and> pc' = WR_wait s FW_call) \<or>
       (\<exists>s. pc = WR_wait s FW_load \<and> w \<noteq> s \<and> pc' = WR_cas) \<or>
       (\<exists>s. pc = WR_wait s FW_call \<and> w \<noteq> s \<and> pc' = WR_wait s FW_load) \<or>
       (\<exists>s. pc = WR_wait s FW_blocked \<and> t \<notin> fx_sleeping F q a \<and> pc' = WR_wait s FW_load))"
proof (cases pc)
  case (RD_wait s fp)
  then show ?thesis using assms by (cases fp) (auto simp: rw_run_defs split: if_splits)
next
  case (WR_wait s fp)
  then show ?thesis using assms by (cases fp) (auto simp: rw_run_defs split: if_splits)
qed (use assms in \<open>auto simp: rw_run_defs split: if_splits\<close>)

section \<open>Exclusion\<close>

definition reading :: "rw_pc \<Rightarrow> bool" where
  "reading pc \<longleftrightarrow> pc = RD_held \<or> pc = RD_drop"

definition writing :: "rw_pc \<Rightarrow> bool" where
  "writing pc \<longleftrightarrow> pc = WR_held \<or> pc = WR_store"

text \<open>What a thread knows of the value it has read.\<close>

fun rw_local :: "rw_pc \<Rightarrow> bool" where
  "rw_local (RD_cas s) = (s AND RW_WRITER = 0)"
| "rw_local (TR_cas s) = (s AND RW_WRITER = 0)"
| "rw_local (RD_wait s _) = (s \<noteq> 0)"
| "rw_local (WR_wait s _) = (s \<noteq> 0)"
| "rw_local _ = True"

definition rw_counts :: "u32 \<Rightarrow> nat \<Rightarrow> nat \<Rightarrow> bool" where
  "rw_counts w r n \<longleftrightarrow> n = 0 \<and> w = of_nat r \<or> n = 1 \<and> r = 0 \<and> w = RW_WRITER"

definition rw_inv :: "'q rw_shared \<Rightarrow> rw_pc list \<Rightarrow> bool" where
  "rw_inv g pcs \<longleftrightarrow> list_all rw_local pcs \<and> rw_counts (fst g) (threads reading pcs) (threads writing pcs)"

lemma RW_WRITER_bits: "RW_WRITER \<noteq> 0" "RW_WRITER AND RW_WRITER \<noteq> 0"
  by (simp_all add: RW_WRITER_def)

lemma of_nat_small: "n < 2 ^ 31 \<Longrightarrow> (of_nat n :: u32) = of_nat m \<longleftrightarrow> n = m" if "m < 2 ^ 31" for m n :: nat
  using that by (simp add: of_nat_eq_iff take_bit_nat_eq_self word_of_nat_eq_iff)

lemma rw_run_counts:
  assumes s: "rw_run F a (w, q) t (pcs ! t) = Some ((w', q'), pc')" and t: "t < length pcs"
    and I: "rw_inv (w, q) pcs" and n: "length pcs < 2 ^ 31"
  shows "rw_counts w' (threads reading (pcs[t := pc'])) (threads writing (pcs[t := pc']))"
proof -
  let ?r = "threads reading pcs" and ?n = "threads writing pcs"
  note up = threads_update [OF t, of reading pc'] threads_update [OF t, of writing pc']
  note pos = threads_pos [OF t, of reading] threads_pos [OF t, of writing]
  have c: "rw_counts w ?r ?n" and l: "rw_local (pcs ! t)" using I t by (auto simp: rw_inv_def list_all_length)
  have r: "?r < 2 ^ 31" using n threads_le [of reading pcs] by simp
  have r0: "w = 0 \<Longrightarrow> ?r = 0 \<and> ?n = 0" using c of_nat_small [of 0 ?r] r RW_WRITER_bits by (auto simp: rw_counts_def)
  show ?thesis
    using rw_run_split [OF s]
  proof (elim disjE)
    assume "(pcs ! t = RD_cas w \<or> pcs ! t = TR_cas w) \<and> w' = w + 1 \<and> q' = q \<and> pc' = RD_held"
    then show ?thesis using up c l RW_WRITER_bits by (auto simp: reading_def writing_def rw_counts_def)
  next
    assume "(pcs ! t = WR_cas \<or> pcs ! t = TW_cas) \<and> w = 0 \<and> w' = RW_WRITER \<and> q' = q \<and> pc' = WR_held"
    then show ?thesis using up r0 by (auto simp: reading_def writing_def rw_counts_def)
  next
    assume "pcs ! t = RD_drop \<and> w' = w - 1 \<and> q' = q \<and> pc' = (if w = 1 then RW_wake else RW_idle)"
    then have d: "w' = w - 1" "threads reading (pcs[t := pc']) + 1 = ?r" "threads writing (pcs[t := pc']) = ?n" "0 < ?r"
      using up pos by (auto simp: reading_def writing_def)
    then show ?thesis using c d(2) [symmetric] by (auto simp: rw_counts_def)
  next
    assume "pcs ! t = WR_store \<and> w' = 0 \<and> q' = q \<and> pc' = RW_wake"
    then show ?thesis using up pos c by (auto simp: reading_def writing_def rw_counts_def)
  qed (use up c in \<open>auto simp: reading_def writing_def\<close>)
qed

lemma rw_run_local:
  assumes "rw_run F a (w, q) t pc = Some ((w', q'), pc')" "rw_local pc"
  shows "rw_local pc'"
  using rw_run_split [OF assms(1)] assms(2) by (elim disjE conjE exE) auto

lemma rw_run_inv:
  assumes "rw_inv g pcs" "t < length pcs" "length pcs < 2 ^ 31" "rw_run F a g t (pcs ! t) = Some (g', pc')"
  shows "rw_inv g' (pcs[t := pc'])"
proof -
  obtain w q w' q' where g: "g = (w, q)" "g' = (w', q')" by fastforce
  have "rw_local pc'" using rw_run_local [of F a w q t "pcs ! t" w' q' pc'] assms by (auto simp: rw_inv_def list_all_length g)
  then have "list_all rw_local (pcs[t := pc'])"
    using assms(1,2) by (auto simp: rw_inv_def list_all_length nth_list_update)
  then show ?thesis using rw_run_counts [of F a w q t pcs w' q' pc'] assms by (simp add: rw_inv_def g)
qed

lemma rw_call_inv:
  assumes "rw_inv g pcs" "t < length pcs" "rw_call (pcs ! t) pc'"
  shows "rw_inv g (pcs[t := pc'])"
proof -
  have "reading pc' = reading (pcs ! t)" "writing pc' = writing (pcs ! t)" "rw_local pc'"
    using assms(3) by (auto simp: rw_call_def reading_def writing_def split: rw_pc.splits)
  then show ?thesis
    using assms(1,2) threads_update [OF assms(2), of reading pc'] threads_update [OF assms(2), of writing pc']
    by (auto simp: rw_inv_def list_all_length nth_list_update split: if_splits)
qed

interpretation rw: conc_invariant "rw_run F a" rw_call "rw_env F a" rw_spawn "rw_new q n"
    "\<lambda>g pcs. length pcs < 2 ^ 31 \<longrightarrow> rw_inv g pcs"
  for F :: "'q futex" and a q n
proof unfold_locales
  show "length (snd (rw_new q n)) < 2 ^ 31 \<longrightarrow> rw_inv (fst (rw_new q n)) (snd (rw_new q n))"
    by (simp add: rw_inv_def rw_new_def rw_counts_def threads_def reading_def writing_def list_all_length)
next
  fix g :: "'q rw_shared" and pcs t g' pc'
  assume "length pcs < 2 ^ 31 \<longrightarrow> rw_inv g pcs" "t < length pcs" "rw_run F a g t (pcs ! t) = Some (g', pc')"
  then show "length (pcs[t := pc']) < 2 ^ 31 \<longrightarrow> rw_inv g' (pcs[t := pc'])" using rw_run_inv [of g pcs t F a g' pc'] by simp
qed (simp_all add: rw_call_inv, simp_all add: rw_inv_def rw_env_def rw_spawn_def reading_def writing_def)

section \<open>Sleeping threads\<close>

definition rw_blocked :: "rw_pc \<Rightarrow> bool" where
  "rw_blocked pc = (case pc of RD_wait _ fp \<Rightarrow> fp = FW_blocked | WR_wait _ fp \<Rightarrow> fp = FW_blocked | _ \<Rightarrow> False)"

text \<open>While a thread sleeps, the lock is taken or somebody is about to wake all.\<close>

definition rw_wake_inv :: "'q futex \<Rightarrow> nat \<Rightarrow> 'q rw_shared \<Rightarrow> rw_pc list \<Rightarrow> bool" where
  "rw_wake_inv F a g pcs \<longleftrightarrow>
     (\<forall>t \<in> fx_sleeping F (snd g) a. t < length pcs \<and> rw_blocked (pcs ! t)) \<and>
     (fx_sleeping F (snd g) a \<noteq> {} \<longrightarrow> fst g \<noteq> 0 \<or> RW_wake \<in> set pcs)"

lemma rw_wake_run:
  assumes F: "futex_contract F" and I: "rw_wake_inv F a (w, q) pcs" "rw_inv (w, q) pcs" and t: "t < length pcs"
    and n: "length pcs < 2 ^ 31" and s: "rw_run F a (w, q) t (pcs ! t) = Some ((w', q'), pc')"
  shows "rw_wake_inv F a (w', q') (pcs[t := pc'])"
proof -
  note split = rw_run_split [OF s]
  have sl: "\<forall>u \<in> fx_sleeping F q a. u < length pcs \<and> rw_blocked (pcs ! u)"
    and ro: "fx_sleeping F q a \<noteq> {} \<Longrightarrow> w \<noteq> 0 \<or> RW_wake \<in> set pcs"
    using I(1) by (simp_all add: rw_wake_inv_def)
  have awake: "t \<notin> fx_sleeping F q a"
    using split sl by (elim disjE conjE exE) (auto simp: rw_blocked_def)
  have sub: "fx_sleeping F q' a \<subseteq> fx_sleeping F q a \<or> rw_blocked pc' \<and> fx_sleeping F q' a = insert t (fx_sleeping F q a)"
    using split fx_wait_sleeping [OF F, of q a t a] futex_wake_all_subset [OF F, of q a a]
    by (elim disjE conjE exE) (simp_all add: rw_blocked_def)
  have 1: "\<forall>u \<in> fx_sleeping F q' a. u < length (pcs[t := pc']) \<and> rw_blocked (pcs[t := pc'] ! u)"
    using sub unaffected [OF sl awake, of pc'] t by auto
  have loc: "rw_local (pcs ! t)" using I(2) t by (auto simp: rw_inv_def list_all_length)
  have "fx_sleeping F q a \<subseteq> {..<length pcs}" using sl by auto
  then have gone: "fx_sleeping F (futex_wake_all F q a) a = {}" using futex_wake_all_empty [OF F _ n] by blast
  have self: "RW_wake \<in> set (pcs[t := RW_wake])" using t by (simp add: set_update_memI)
  have other: "RW_wake \<in> set (pcs[t := pc'])" if "RW_wake \<in> set pcs" "pcs ! t \<noteq> RW_wake"
    using that by (metis in_set_conv_nth length_list_update nth_list_update_neq)
  have ne1: "w + 1 \<noteq> 0" if "rw_local (RD_cas w)"
  proof
    assume "w + 1 = 0"
    then have "w = - 1" by (simp add: eq_neg_iff_add_eq_0)
    then show False using that RW_WRITER_bits by simp
  qed
  have 2: "w' \<noteq> 0 \<or> RW_wake \<in> set (pcs[t := pc'])" if ne: "fx_sleeping F q' a \<noteq> {}"
    using split
    by (elim disjE conjE exE) (use self other loc gone ro ne ne1 RW_WRITER_bits in auto)
  show ?thesis using 1 2 by (simp add: rw_wake_inv_def)
qed

lemma rw_wake_call:
  assumes "rw_wake_inv F a g pcs" "t < length pcs" "rw_call (pcs ! t) pc'"
  shows "rw_wake_inv F a g (pcs[t := pc'])"
proof -
  have ne: "pcs ! t \<noteq> RW_wake" "\<not> rw_blocked (pcs ! t)"
    using assms(3) by (auto simp: rw_call_def rw_blocked_def split: rw_pc.splits)
  then have "t \<notin> fx_sleeping F (snd g) a" using assms(1) by (auto simp: rw_wake_inv_def)
  moreover have "RW_wake \<in> set pcs \<Longrightarrow> RW_wake \<in> set (pcs[t := pc'])"
    using ne(1) by (metis in_set_conv_nth length_list_update nth_list_update_neq)
  ultimately show ?thesis
    using assms(1) unaffected [of "fx_sleeping F (snd g) a" pcs rw_blocked t pc'] unfolding rw_wake_inv_def by blast
qed

lemma rw_wake_env: "rw_wake_inv F a g pcs \<Longrightarrow> rw_env F a g g' \<Longrightarrow> rw_wake_inv F a g' pcs"
  by (auto simp: rw_wake_inv_def rw_env_def)

lemma rw_wake_spawn: "rw_wake_inv F a g pcs \<Longrightarrow> rw_wake_inv F a g (pcs @ [RW_idle])"
  by (auto simp: rw_wake_inv_def nth_append)

interpretation rw_wakes: conc_invariant "rw_run F a" rw_call "rw_env F a" rw_spawn "rw_new q n"
    "\<lambda>g pcs. futex_contract F \<and> fx_sleeping F q a = {} \<and> length pcs < 2 ^ 31 \<longrightarrow> rw_inv g pcs \<and> rw_wake_inv F a g pcs"
  for F :: "'q futex" and a q n
proof unfold_locales
  fix g :: "'q rw_shared" and pcs t g' pc'
  assume "futex_contract F \<and> fx_sleeping F q a = {} \<and> length pcs < 2 ^ 31 \<longrightarrow> rw_inv g pcs \<and> rw_wake_inv F a g pcs"
    "t < length pcs" "rw_run F a g t (pcs ! t) = Some (g', pc')"
  then show "futex_contract F \<and> fx_sleeping F q a = {} \<and> length (pcs[t := pc']) < 2 ^ 31 \<longrightarrow>
      rw_inv g' (pcs[t := pc']) \<and> rw_wake_inv F a g' (pcs[t := pc'])"
    using rw_run_inv [of g pcs t F a g' pc'] rw_wake_run [of F a "fst g" "snd g" pcs t "fst g'" "snd g'" pc'] by simp
next
  fix g g' :: "'q rw_shared" and pcs
  assume "futex_contract F \<and> fx_sleeping F q a = {} \<and> length pcs < 2 ^ 31 \<longrightarrow> rw_inv g pcs \<and> rw_wake_inv F a g pcs"
    "rw_env F a g g'"
  then show "futex_contract F \<and> fx_sleeping F q a = {} \<and> length pcs < 2 ^ 31 \<longrightarrow> rw_inv g' pcs \<and> rw_wake_inv F a g' pcs"
    using rw_wake_env [of F a g pcs g'] by (auto simp: rw_inv_def rw_env_def)
next
  show "futex_contract F \<and> fx_sleeping F q a = {} \<and> length (snd (rw_new q n)) < 2 ^ 31 \<longrightarrow>
      rw_inv (fst (rw_new q n)) (snd (rw_new q n)) \<and> rw_wake_inv F a (fst (rw_new q n)) (snd (rw_new q n))"
    using rw.I_init [of q n] by (simp add: rw_wake_inv_def) (simp add: rw_new_def)
qed (simp_all add: rw_call_inv rw_wake_call rw_wake_spawn rw_spawn_def, simp add: rw_inv_def reading_def writing_def)

section \<open>Progress\<close>

fun rw_rank :: "rw_pc \<Rightarrow> nat" where
  "rw_rank RD_load = 2"
| "rw_rank (RD_cas s) = (if s = 0 then 1 else 3)"
| "rw_rank (RD_wait _ fp) = (if fp = FW_load then 3 else 4)"
| "rw_rank TR_load = 2"
| "rw_rank (TR_cas _) = 1"
| "rw_rank WR_cas = 1"
| "rw_rank WR_load = 2"
| "rw_rank (WR_wait _ fp) = (if fp = FW_load then 2 else 3)"
| "rw_rank TW_cas = 1"
| "rw_rank RW_wake = 1"
| "rw_rank _ = 0"

definition rw_locking :: "rw_pc \<Rightarrow> bool" where
  "rw_locking pc =
     (case pc of RD_load \<Rightarrow> True | RD_cas _ \<Rightarrow> True | RD_wait _ _ \<Rightarrow> True | WR_cas \<Rightarrow> True | WR_load \<Rightarrow> True
      | WR_wait _ _ \<Rightarrow> True | _ \<Rightarrow> False)"

definition rw_taken :: "('q rw_shared, rw_pc) conc \<Rightarrow> bool" where
  "rw_taken s \<longleftrightarrow> (\<exists>t < length (snd s). snd s ! t = RD_held \<or> snd s ! t = WR_held)"

definition rw_wanted :: "'q futex \<Rightarrow> nat \<Rightarrow> ('q rw_shared, rw_pc) conc \<Rightarrow> bool" where
  "rw_wanted F a s \<longleftrightarrow> futex_contract F \<and> length (snd s) < 2 ^ 31 \<and> rw_inv (fst s) (snd s) \<and>
     rw_wake_inv F a (fst s) (snd s) \<and> fst (fst s) = 0 \<and> (\<exists>t < length (snd s). rw_locking (snd s ! t))"

lemma rw_wanted_step:
  assumes P: "rw_wanted F a s" and "run_thread (rw_run F a) t s = Some s'"
  shows "rw_taken s' \<or> rw_wanted F a s' \<and> thread_sum rw_rank (snd s') < thread_sum rw_rank (snd s)"
proof -
  obtain w q pcs w' q' pc' where s: "s = ((w, q), pcs)" "s' = ((w', q'), pcs[t := pc'])" and t: "t < length pcs"
    and r: "rw_run F a (w, q) t (pcs ! t) = Some ((w', q'), pc')"
    using assms(2) by (cases s) (auto simp: run_thread_def split: if_splits)
  note split = rw_run_split [OF r]
  have c: "rw_counts 0 (threads reading pcs) (threads writing pcs)" and n: "length pcs < 2 ^ 31" and w: "w = 0"
      and l: "rw_local (pcs ! t)"
    using P t by (auto simp: rw_wanted_def rw_inv_def list_all_length s)
  have "threads reading pcs < 2 ^ 31" using n threads_le [of reading pcs] by simp
  then have "threads reading pcs = 0 \<and> threads writing pcs = 0"
    using c of_nat_small [of 0 "threads reading pcs"] RW_WRITER_bits by (auto simp: rw_counts_def)
  then have idle: "\<not> reading (pcs ! t)" "\<not> writing (pcs ! t)" using t by (simp_all add: threads_zero)
  obtain u where u: "u < length pcs" "rw_locking (pcs ! u)" using P by (auto simp: rw_wanted_def s)
  show ?thesis
  proof (cases "pc' = RD_held \<or> pc' = WR_held")
    case False
    have rank: "rw_rank pc' < rw_rank (pcs ! t)" and w': "w' = 0" and lk: "rw_locking pc' \<or> u \<noteq> t"
      using split w idle False u(2) l
      by (elim disjE conjE exE; simp add: reading_def writing_def; auto simp: rw_locking_def)+
    have "rw_inv (w', q') (pcs[t := pc'])" "rw_wake_inv F a (w', q') (pcs[t := pc'])"
      using P rw_run_inv [OF _ t n r] rw_wake_run [OF _ _ _ t n r] by (auto simp: rw_wanted_def s)
    moreover have "\<exists>v < length pcs. rw_locking (pcs[t := pc'] ! v)" using lk u t by (cases "rw_locking pc'") auto
    ultimately show ?thesis
      using P w' rank thread_sum_update [OF t, of rw_rank pc'] by (simp add: rw_wanted_def s)
  qed (use t in \<open>auto simp: rw_taken_def s\<close>)
qed

lemma rw_wanted_moves:
  assumes "rw_wanted F a s"
  shows "\<exists>t. run_thread (rw_run F a) t s \<noteq> None"
proof -
  obtain w q pcs where s: "s = ((w, q), pcs)" by (metis prod.collapse)
  obtain u where u: "u < length pcs" "rw_locking (pcs ! u)" using assms by (auto simp: rw_wanted_def s)
  show ?thesis
  proof (cases "u \<in> fx_sleeping F q a")
    case True
    then have "RW_wake \<in> set pcs" using assms by (auto simp: rw_wanted_def rw_wake_inv_def s)
    then obtain v where "v < length pcs" "pcs ! v = RW_wake" by (auto simp: in_set_conv_nth)
    then show ?thesis by (intro exI [of _ v]) (simp add: run_thread_def s rw_run_defs)
  next
    case False
    then show ?thesis using u
      by (intro exI [of _ u]) (auto simp: run_thread_def s rw_run_defs rw_locking_def split: rw_pc.splits futex_pc.splits)
  qed
qed

interpretation rw_moves: conc_progress "rw_run F a" "rw_wanted F a" rw_taken "\<lambda>s. thread_sum rw_rank (snd s)"
  for F :: "'q futex" and a
  by unfold_locales (rule rw_wanted_step rw_wanted_moves; assumption)+

section \<open>Properties\<close>

text \<open>C6: \<open>RwLock\<close> excludes: with fewer than \<open>2 ^ 31\<close> threads, in every state any interleaving reaches there is
one writer and no reader, and the word is \<open>RW_WRITER\<close>, or there is no writer and the word counts the readers.\<close>

theorem rwlock_exclusion:
  assumes "rw_reach F a (rw_new q n) ((w, q'), pcs)" "length pcs < 2 ^ 31"
  shows "threads writing pcs = 1 \<and> threads reading pcs = 0 \<and> w = RW_WRITER \<or>
     threads writing pcs = 0 \<and> unat w = threads reading pcs"
proof -
  have "rw_counts w (threads reading pcs) (threads writing pcs)"
    using rw.reach_inv [OF assms(1)] assms(2) by (simp add: rw_inv_def)
  moreover have "threads reading pcs < 2 ^ 31" using assms(2) threads_le [of reading pcs] by simp
  ultimately show ?thesis by (auto simp: rw_counts_def unsigned_of_nat take_bit_nat_eq_self)
qed

text \<open>A writer sleeps while a reader holds the lock.\<close>

definition reader_first :: "rw_pc action list" where
  "reader_first = [Call 0 RD_load, Run 0, Run 0, Call 1 WR_cas, Run 1, Run 1, Run 1, Run 1]"

lemmas rw_eval = rw_new_def rw_call_def rw_run_defs run_thread_def fifo_futex_def numeral_2_eq_2

lemma reader_first_reach:
  "rw_reach (fifo_futex Linux_x86_64) 0 (rw_new [] 2) ((1, [(0, 1)]), [RD_held, WR_wait 1 FW_blocked])"
  by (rule conc_exec_reach [of _ _ _ reader_first]) (simp add: reader_first_def rw_eval)

theorem rwlock_exclusion_witness:
  "rw_reach (fifo_futex Linux_x86_64) 0 (rw_new [] 2) ((1, [(0, 1)]), [RD_held, WR_wait 1 FW_blocked]) \<and>
   threads writing [RD_held, WR_wait 1 FW_blocked] = 0 \<and> threads reading [RD_held, WR_wait 1 FW_blocked] = 1"
  using rwlock_exclusion [OF reader_first_reach] reader_first_reach by (auto simp: threads_def reading_def writing_def)

text \<open>C7: No wake is lost: whenever the lock is free and a thread is inside \<open>read\<close> or \<open>write\<close>, asleep or not,
some thread can move, and however the threads are scheduled one of them has the lock after at most four steps
per thread.\<close>

theorem rwlock_progress:
  assumes "futex_contract F" "fx_sleeping F q a = {}" "rw_reach F a (rw_new q n) ((0, q'), pcs)" "length pcs < 2 ^ 31"
    and "t < length pcs" "rw_locking (pcs ! t)"
  shows "progresses (rw_run F a) rw_taken (4 * length pcs) ((0, q'), pcs)"
proof -
  have "rw_wanted F a ((0, q'), pcs)"
    using assms rw_wakes.reach_inv [OF assms(3)] by (auto simp: rw_wanted_def)
  then have "progresses (rw_run F a) rw_taken (thread_sum rw_rank pcs) ((0, q'), pcs)"
    using rw_moves.progress by fastforce
  moreover have "thread_sum rw_rank pcs \<le> 4 * length pcs"
  proof (rule thread_sum_le)
    show "rw_rank pc \<le> 4" for pc by (cases pc rule: rw_rank.cases) simp_all
  qed
  ultimately show ?thesis by (rule progresses_mono)
qed

lemma reader_leaves_reach:
  "rw_reach (fifo_futex Linux_x86_64) 0 (rw_new [] 2) ((0, [(0, 1)]), [RW_wake, WR_wait 1 FW_blocked])"
  by (rule conc_exec_reach [of _ _ _ "reader_first @ [Call 0 RD_drop, Run 0]"]) (simp add: reader_first_def rw_eval)

theorem rwlock_progress_witness:
  "progresses (rw_run (fifo_futex Linux_x86_64) 0) rw_taken 8 ((0, [(0, 1)]), [RW_wake, WR_wait 1 FW_blocked])"
proof -
  have "fx_sleeping (fifo_futex Linux_x86_64) [] 0 = {}" "rw_locking ([RW_wake, WR_wait 1 FW_blocked] ! 1)"
    by (simp_all add: fifo_futex_def rw_locking_def)
  then show ?thesis using rwlock_progress [OF fifo_futex_contract _ reader_leaves_reach, of 1] by simp
qed

text \<open>The reader after \<open>2 ^ 31 - 1\<close> others turns the word into that of a writer.\<close>

lemma reader_count_overflow: "rw_run F a (0x7FFFFFFF, q) t (RD_cas 0x7FFFFFFF) = Some ((RW_WRITER, q), RD_held)"
  by (simp add: rw_run_defs RW_WRITER_def)

end
