(* ===== verification/Scoped_Threads.thy ===== *)
theory Scoped_Threads
  imports Futex
begin

text \<open>
  \<open>scope\<close>, \<open>Scope::spawn\<close> and \<open>ScopedJoinHandle::join\<close> of \<open>src/thread.rs\<close>. The caller of
  \<open>scope\<close> is the thread at index 0: it runs its body, in which it spawns and joins, and then
  waits until the count of running threads is 0. The scoped threads, which may spawn more,
  store the result of the closure (known by its value) in their slot, count themselves down,
  and the last one stores the wake word and wakes. The join of the packet is one step that
  waits for the thread to finish. \<open>sd_joined\<close> holds the handles that are used up.
\<close>

section \<open>The scope\<close>

record ('q, 'v) scope_data =
  sd_running :: u64
  sd_wake :: u32
  sd_kernel :: 'q
  sd_slots :: "nat \<Rightarrow> 'v option"
  sd_finished :: "nat set"
  sd_joined :: "nat set"

datatype 'v scope_pc =
    SC_body
  | SC_add 'v
  | SC_clone 'v
  | SC_handle nat
  | SC_join nat
  | SC_take nat
  | SC_joined 'v
  | SC_panic
  | SC_load
  | SC_wait futex_pc
  | SC_store
  | SC_returned
  | ST_run 'v
  | ST_add 'v 'v
  | ST_clone 'v 'v
  | ST_slot 'v
  | ST_sub
  | ST_store
  | ST_wake
  | ST_finish
  | ST_done

text \<open>The first half of \<open>Scope::spawn\<close>; the thread itself starts with \<open>scope_spawn\<close> below.\<close>

definition scope_spawn_add :: "(('q, 'v) scope_data, 'v scope_pc) runner" where
  "scope_spawn_add d t pc =
     (case pc of
        SC_add v \<Rightarrow> Some (d \<lparr> sd_running := sd_running d + 1 \<rparr>, SC_clone v)
      | ST_add own v \<Rightarrow> Some (d \<lparr> sd_running := sd_running d + 1 \<rparr>, ST_clone own v)
      | _ \<Rightarrow> None)"

text \<open>The closure that \<open>Scope::spawn\<close> hands to the new thread, and the thread's end.\<close>

definition scope_wrapped :: "'q futex \<Rightarrow> (('q, 'v) scope_data, 'v scope_pc) runner" where
  "scope_wrapped F d t pc =
     (case pc of
        ST_run v \<Rightarrow> Some (d, ST_slot v)
      | ST_slot v \<Rightarrow> Some (d \<lparr> sd_slots := (sd_slots d)(t := Some v) \<rparr>, ST_sub)
      | ST_sub \<Rightarrow>
          Some (d \<lparr> sd_running := sd_running d - 1 \<rparr>, if sd_running d = 1 then ST_store else ST_finish)
      | ST_store \<Rightarrow> Some (d \<lparr> sd_wake := 1 \<rparr>, ST_wake)
      | ST_wake \<Rightarrow> Some (d \<lparr> sd_kernel := futex_wake F (sd_kernel d) 0 \<rparr>, ST_finish)
      | ST_finish \<Rightarrow> Some (d \<lparr> sd_finished := insert t (sd_finished d) \<rparr>, ST_done)
      | _ \<Rightarrow> None)"

definition scoped_join :: "(('q, 'v) scope_data, 'v scope_pc) runner" where
  "scoped_join d t pc =
     (case pc of
        SC_handle u \<Rightarrow>
          if u \<in> sd_joined d then None else Some (d \<lparr> sd_joined := insert u (sd_joined d) \<rparr>, SC_join u)
      | SC_join u \<Rightarrow> if u \<in> sd_finished d then Some (d, SC_take u) else None
      | SC_take u \<Rightarrow>
          Some (d \<lparr> sd_slots := (sd_slots d)(u := None) \<rparr>,
                case sd_slots d u of Some v \<Rightarrow> SC_joined v | None \<Rightarrow> SC_panic)
      | _ \<Rightarrow> None)"

text \<open>The loop at the end of \<open>scope\<close>.\<close>

definition scope_end :: "'q futex \<Rightarrow> (('q, 'v) scope_data, 'v scope_pc) runner" where
  "scope_end F d t pc =
     (case pc of
        SC_load \<Rightarrow> Some (d, if sd_running d \<noteq> 0 then SC_wait FW_load else SC_returned)
      | SC_wait fp \<Rightarrow>
          map_option (\<lambda>(q, r). (d \<lparr> sd_kernel := q \<rparr>, case r of Some fp' \<Rightarrow> SC_wait fp' | None \<Rightarrow> SC_store))
            (futex_wait F 0 0 t (sd_wake d) (sd_kernel d) fp)
      | SC_store \<Rightarrow> Some (d \<lparr> sd_wake := 0 \<rparr>, SC_load)
      | _ \<Rightarrow> None)"

definition scope_run :: "'q futex \<Rightarrow> (('q, 'v) scope_data, 'v scope_pc) runner" where
  "scope_run F d t pc =
     (case pc of
        SC_add _ \<Rightarrow> scope_spawn_add d t pc
      | ST_add _ _ \<Rightarrow> scope_spawn_add d t pc
      | SC_handle _ \<Rightarrow> scoped_join d t pc
      | SC_join _ \<Rightarrow> scoped_join d t pc
      | SC_take _ \<Rightarrow> scoped_join d t pc
      | SC_load \<Rightarrow> scope_end F d t pc
      | SC_wait _ \<Rightarrow> scope_end F d t pc
      | SC_store \<Rightarrow> scope_end F d t pc
      | _ \<Rightarrow> scope_wrapped F d t pc)"

text \<open>What the body of the scope and the closures choose: to spawn, to join, to go on after a join, to end the body.\<close>

definition scope_call :: "'v scope_pc \<Rightarrow> 'v scope_pc \<Rightarrow> bool" where
  "scope_call pc pc' \<longleftrightarrow>
     pc = SC_body \<and> ((\<exists>v. pc' = SC_add v) \<or> (\<exists>u. 0 < u \<and> pc' = SC_handle u) \<or> pc' = SC_load) \<or>
     (\<exists>v. pc = SC_joined v) \<and> pc' = SC_body \<or>
     (\<exists>own v. pc = ST_run own \<and> pc' = ST_add own v)"

definition scope_env :: "'q futex \<Rightarrow> ('q, 'v) scope_data \<Rightarrow> ('q, 'v) scope_data \<Rightarrow> bool" where
  "scope_env F d d' \<longleftrightarrow> (\<exists>q. d' = d \<lparr> sd_kernel := q \<rparr> \<and> kernel_returns F (sd_kernel d) q)"

text \<open>The second half of \<open>Scope::spawn\<close>: the new thread.\<close>

definition scope_spawn :: "'v scope_pc \<Rightarrow> 'v scope_pc \<times> 'v scope_pc \<Rightarrow> bool" where
  "scope_spawn pc p \<longleftrightarrow>
     (\<exists>v. pc = SC_clone v \<and> p = (SC_body, ST_run v)) \<or>
     (\<exists>own v. pc = ST_clone own v \<and> p = (ST_run own, ST_run v))"

definition scope_new :: "'q \<Rightarrow> (('q, 'v) scope_data, 'v scope_pc) conc" where
  "scope_new q =
     (\<lparr> sd_running = 0, sd_wake = 0, sd_kernel = q, sd_slots = (\<lambda>_. None), sd_finished = {}, sd_joined = {} \<rparr>, [SC_body])"

abbreviation scope_reach ::
    "'q futex \<Rightarrow> (('q, 'v) scope_data, 'v scope_pc) conc \<Rightarrow> (('q, 'v) scope_data, 'v scope_pc) conc \<Rightarrow> bool" where
  "scope_reach F \<equiv> conc_reach (scope_run F) scope_call (scope_env F) scope_spawn"

lemmas scope_run_defs = scope_run_def scope_spawn_add_def scope_wrapped_def scoped_join_def scope_end_def futex_wait_def

section \<open>Counting\<close>

text \<open>What a position contributes to the count of running threads.\<close>

fun scope_weight :: "'v scope_pc \<Rightarrow> nat" where
  "scope_weight (SC_clone v) = 1"
| "scope_weight (ST_run v) = 1"
| "scope_weight (ST_add u v) = 1"
| "scope_weight (ST_clone u v) = 2"
| "scope_weight (ST_slot v) = 1"
| "scope_weight ST_sub = 1"
| "scope_weight _ = 0"

fun is_parent :: "'v scope_pc \<Rightarrow> bool" where
  "is_parent (ST_run v) = False"
| "is_parent (ST_add u v) = False"
| "is_parent (ST_clone u v) = False"
| "is_parent (ST_slot v) = False"
| "is_parent ST_sub = False"
| "is_parent ST_store = False"
| "is_parent ST_wake = False"
| "is_parent ST_finish = False"
| "is_parent ST_done = False"
| "is_parent _ = True"

text \<open>The thread has stored its result.\<close>

fun has_stored :: "'v scope_pc \<Rightarrow> bool" where
  "has_stored ST_sub = True"
| "has_stored ST_store = True"
| "has_stored ST_wake = True"
| "has_stored ST_finish = True"
| "has_stored ST_done = True"
| "has_stored _ = False"

definition scope_inv :: "('q, 'v) scope_data \<Rightarrow> 'v scope_pc list \<Rightarrow> bool" where
  "scope_inv d pcs \<longleftrightarrow>
     sd_running d = of_nat (thread_sum scope_weight pcs) \<and>
     pcs \<noteq> [] \<and> (\<forall>t < length pcs. is_parent (pcs ! t) \<longleftrightarrow> t = 0) \<and>
     (length pcs < 2 ^ 62 \<longrightarrow> pcs ! 0 = SC_returned \<longrightarrow> thread_sum scope_weight pcs = 0)"

lemma scope_weight_bound: "thread_sum scope_weight pcs \<le> 2 * length pcs"
proof (rule thread_sum_le)
  show "scope_weight pc \<le> 2" for pc :: "'a scope_pc" by (cases pc rule: scope_weight.cases) simp_all
qed

lemma scope_running_zero:
  assumes "sd_running d = of_nat (thread_sum scope_weight pcs)" "length pcs < 2 ^ 62"
  shows "sd_running d = 0 \<longleftrightarrow> thread_sum scope_weight pcs = 0"
proof -
  have "thread_sum scope_weight pcs < 2 ^ 64" using scope_weight_bound [of pcs] assms(2) by simp
  then show ?thesis using assms(1) nat_dvd_not_less [of "thread_sum scope_weight pcs" "2 ^ 64"]
    by (auto simp: word_of_nat_eq_0_iff)
qed

text \<open>A step changes the count as its thread's contribution changes.\<close>

lemma scope_run_count:
  assumes "scope_run F d t pc = Some (d', pc')"
  shows "sd_running d' + of_nat (scope_weight pc) = sd_running d + of_nat (scope_weight pc') \<and>
     (is_parent pc' \<longleftrightarrow> is_parent pc)"
proof (cases pc)
  case (SC_wait fp)
  then show ?thesis using assms by (cases fp) (auto simp: scope_run_defs split: if_splits)
qed (use assms in \<open>auto simp: scope_run_defs split: if_splits option.splits\<close>)

lemma scope_run_returned:
  "scope_run F d t pc = Some (d', SC_returned) \<Longrightarrow> sd_running d = 0 \<and> pc = SC_load"
  by (cases pc) (auto simp: scope_run_defs split: if_splits option.splits)

lemma scope_run_zero:
  assumes "scope_run F d t pc = Some (d', pc')" "scope_weight pc = 0" "\<not> is_parent pc"
  shows "scope_weight pc' = 0"
  using assms by (cases pc) (auto simp: scope_run_defs split: if_splits option.splits)

lemma scope_run_inv:
  assumes I: "scope_inv d pcs" and t: "t < length pcs" and r: "scope_run F d t (pcs ! t) = Some (d', pc')"
  shows "scope_inv d' (pcs[t := pc'])"
proof -
  have R: "sd_running d = of_nat (thread_sum scope_weight pcs)" and own: "\<forall>t < length pcs. is_parent (pcs ! t) \<longleftrightarrow> t = 0"
    and n: "pcs \<noteq> []" using I by (simp_all add: scope_inv_def)
  note c = scope_run_count [OF r]
  have sum: "thread_sum scope_weight (pcs[t := pc']) + scope_weight (pcs ! t) = thread_sum scope_weight pcs + scope_weight pc'"
    by (rule thread_sum_update [OF t])
  have "of_nat (thread_sum scope_weight (pcs[t := pc']) + scope_weight (pcs ! t)) =
      (of_nat (thread_sum scope_weight pcs + scope_weight pc') :: u64)" by (simp only: sum)
  then have 1: "sd_running d' = of_nat (thread_sum scope_weight (pcs[t := pc']))"
    using c R by (simp add: algebra_simps) (metis add_right_cancel add.commute)
  have 2: "\<forall>u < length (pcs[t := pc']). is_parent (pcs[t := pc'] ! u) \<longleftrightarrow> u = 0"
    using own c t by (auto simp: nth_list_update)
  have 3: "thread_sum scope_weight (pcs[t := pc']) = 0" if l: "length pcs < 2 ^ 62" "pcs[t := pc'] ! 0 = SC_returned"
  proof (cases "t = 0")
    case True
    then have "sd_running d = 0" "pcs ! t = SC_load" "pc' = SC_returned" using l(2) t r scope_run_returned [of F d t "pcs ! t" d'] by auto
    then show ?thesis using sum scope_running_zero [OF R l(1)] by simp
  next
    case False
    then have z: "thread_sum scope_weight pcs = 0" using I l by (simp add: scope_inv_def)
    then have "scope_weight (pcs ! t) = 0" using thread_sum_ge [OF t, of scope_weight] by simp
    then have "scope_weight pc' = 0" using scope_run_zero [OF r] own t False by simp
    then show ?thesis using sum z by simp
  qed
  show ?thesis using 1 2 3 n by (simp add: scope_inv_def)
qed

interpretation scope: conc_invariant "scope_run F" scope_call "scope_env F" scope_spawn "scope_new q" scope_inv
  for F :: "'q futex" and q
proof unfold_locales
  fix d d' :: "('q, 'v) scope_data" and pcs t pc'
  assume "scope_inv d pcs" "t < length pcs" "scope_run F d t (pcs ! t) = Some (d', pc')"
  then show "scope_inv d' (pcs[t := pc'])" by (rule scope_run_inv)
next
  fix d :: "('q, 'v) scope_data" and pcs t pc'
  assume a: "scope_inv d pcs" "t < length pcs" "scope_call (pcs ! t) pc'"
  have c: "scope_weight pc' = scope_weight (pcs ! t)" "is_parent pc' \<longleftrightarrow> is_parent (pcs ! t)" "pc' \<noteq> SC_returned"
    using a(3) by (auto simp: scope_call_def)
  have s: "thread_sum scope_weight (pcs[t := pc']) = thread_sum scope_weight pcs"
    using thread_sum_update [OF a(2), of scope_weight pc'] c(1) by simp
  show "scope_inv d (pcs[t := pc'])" using a(1,2) c(2,3) by (auto simp: scope_inv_def s nth_list_update)
next
  fix d :: "('q, 'v) scope_data" and pcs t pc' new
  assume a: "scope_inv d pcs" "t < length pcs" "scope_spawn (pcs ! t) (pc', new)"
  have c: "scope_weight pc' + scope_weight new = scope_weight (pcs ! t)" "is_parent pc' \<longleftrightarrow> is_parent (pcs ! t)"
      "\<not> is_parent new" "pc' \<noteq> SC_returned" "scope_weight (pcs ! t) \<noteq> 0"
    using a(3) by (auto simp: scope_spawn_def)
  have s: "thread_sum scope_weight (pcs[t := pc'] @ [new]) = thread_sum scope_weight pcs"
    using thread_sum_update [OF a(2), of scope_weight pc'] c(1) by (simp add: thread_sum_def)
  have 0: "thread_sum scope_weight pcs \<noteq> 0" using thread_sum_ge [OF a(2), of scope_weight] c(5) by simp
  have "\<forall>u < length (pcs[t := pc'] @ [new]). is_parent ((pcs[t := pc'] @ [new]) ! u) \<longleftrightarrow> u = 0"
    using a(1,2) c(2,3) by (auto simp: scope_inv_def nth_append nth_list_update less_Suc_eq)
  moreover have "pcs[t := pc'] ! 0 \<noteq> SC_returned" if "length pcs < 2 ^ 62"
    using a(1,2) c(4) 0 that by (cases "t = 0") (auto simp: scope_inv_def)
  ultimately show "scope_inv d (pcs[t := pc'] @ [new])" using a(1) by (simp add: scope_inv_def s nth_append)
qed (auto simp: scope_inv_def scope_env_def scope_new_def thread_sum_def)

section \<open>Slots\<close>

text \<open>A thread's result stays in its slot until the handle is used; the parent takes out what is there.\<close>

definition slot_kept :: "('q, 'v) scope_data \<Rightarrow> 'v scope_pc \<Rightarrow> nat \<Rightarrow> 'v scope_pc \<Rightarrow> bool" where
  "slot_kept d parent t pc \<longleftrightarrow>
     (has_stored pc \<longrightarrow> sd_slots d t \<noteq> None \<or> t \<in> sd_joined d \<and> parent \<noteq> SC_join t \<and> parent \<noteq> SC_take t)"

fun parent_local :: "('q, 'v) scope_data \<Rightarrow> 'v scope_pc \<Rightarrow> bool" where
  "parent_local d (SC_join u) = (u \<in> sd_joined d \<and> 0 < u)"
| "parent_local d (SC_take u) = (u \<in> sd_joined d \<and> u \<in> sd_finished d \<and> 0 < u)"
| "parent_local d (SC_handle u) = (0 < u)"
| "parent_local d SC_panic = False"
| "parent_local d _ = True"

definition scope_slots :: "('q, 'v) scope_data \<Rightarrow> 'v scope_pc list \<Rightarrow> bool" where
  "scope_slots d pcs \<longleftrightarrow>
     (\<forall>t < length pcs. slot_kept d (pcs ! 0) t (pcs ! t)) \<and> parent_local d (pcs ! 0) \<and>
     (\<forall>t \<in> sd_finished d. t < length pcs \<and> pcs ! t = ST_done)"

lemma scope_thread_slots:
  assumes "scope_run F d t pc = Some (d', pc')" "\<not> is_parent pc" "slot_kept d x t pc"
  shows "slot_kept d' x t pc' \<and> sd_joined d' = sd_joined d \<and> (\<forall>u. u \<noteq> t \<longrightarrow> sd_slots d' u = sd_slots d u) \<and>
     (sd_finished d' = sd_finished d \<or> sd_finished d' = insert t (sd_finished d) \<and> pc' = ST_done) \<and> pc \<noteq> ST_done"
  using assms by (cases pc) (auto simp: scope_run_defs slot_kept_def split: if_splits)

lemma scope_parent_slots:
  assumes "scope_run F d t pc = Some (d', pc')" "is_parent pc" "parent_local d pc"
    and "\<forall>u \<in> sd_finished d. \<exists>x. has_stored x \<and> slot_kept d pc u x"
  shows "parent_local d' pc' \<and> sd_finished d' = sd_finished d \<and> (\<forall>u x. slot_kept d pc u x \<longrightarrow> slot_kept d' pc' u x)"
proof (cases pc)
  case (SC_wait fp)
  then show ?thesis using assms by (cases fp) (auto simp: scope_run_defs slot_kept_def split: if_splits)
next
  case (SC_take u)
  then obtain v where "sd_slots d u = Some v" using assms(3,4) by (auto simp: slot_kept_def)
  then show ?thesis using SC_take assms by (auto simp: scope_run_defs slot_kept_def)
qed (use assms in \<open>auto simp: scope_run_defs slot_kept_def split: if_splits\<close>)

lemma scope_slots_run:
  assumes I: "scope_inv d pcs" "scope_slots d pcs" and t: "t < length pcs"
    and r: "scope_run F d t (pcs ! t) = Some (d', pc')"
  shows "scope_slots d' (pcs[t := pc'])"
proof (cases "t = 0")
  case True
  have own: "is_parent (pcs ! 0)" "\<forall>u < length pcs. u \<noteq> 0 \<longrightarrow> \<not> is_parent (pcs ! u)" using I(1) by (auto simp: scope_inv_def)
  have fin: "\<forall>u \<in> sd_finished d. u < length pcs \<and> pcs ! u = ST_done" using I(2) by (simp add: scope_slots_def)
  have "\<forall>u \<in> sd_finished d. \<exists>x. has_stored x \<and> slot_kept d (pcs ! 0) u x"
    using fin I(2) by (intro ballI exI [of _ ST_done]) (auto simp: scope_slots_def slot_kept_def)
  then have p: "parent_local d' pc' \<and> sd_finished d' = sd_finished d \<and> (\<forall>u x. slot_kept d (pcs ! 0) u x \<longrightarrow> slot_kept d' pc' u x)"
    using scope_parent_slots [OF r] own True I(2) by (simp add: scope_slots_def)
  have "is_parent pc'" using scope_run_count [OF r] own True by simp
  then have "slot_kept d' pc' 0 pc'" by (cases pc') (simp_all add: slot_kept_def)
  moreover have "0 \<notin> sd_finished d" using fin own(1) by auto
  ultimately show ?thesis using p True I(2) t fin by (auto simp: scope_slots_def nth_list_update)
next
  case False
  have own: "\<not> is_parent (pcs ! t)" using I(1) t False by (auto simp: scope_inv_def)
  have k: "slot_kept d (pcs ! 0) t (pcs ! t)" using I(2) t by (simp add: scope_slots_def)
  note s = scope_thread_slots [OF r own k]
  have "slot_kept d' (pcs ! 0) u (pcs ! u)" if "u < length pcs" "u \<noteq> t" for u
    using that I(2) s by (simp add: scope_slots_def slot_kept_def)
  then have 1: "\<forall>u < length pcs. slot_kept d' (pcs ! 0) u (pcs[t := pc'] ! u)" using s t by (simp add: nth_list_update)
  have "parent_local d (pcs ! 0)" using I(2) by (simp add: scope_slots_def)
  then have 2: "parent_local d' (pcs ! 0)" using s by (cases "pcs ! 0") auto
  have 3: "\<forall>u \<in> sd_finished d'. u < length pcs \<and> pcs[t := pc'] ! u = ST_done"
    using s I(2) t by (auto simp: scope_slots_def nth_list_update)
  show ?thesis using 1 2 3 False by (simp add: scope_slots_def)
qed

interpretation scope_keeps: conc_invariant_given "scope_run F" scope_call "scope_env F" scope_spawn "scope_new q" scope_inv scope_slots
  for F :: "'q futex" and q
proof unfold_locales
  fix s :: "(('q, 'v) scope_data, 'v scope_pc) conc"
  assume "scope_reach F (scope_new q) s"
  then show "scope_inv (fst s) (snd s)" by (rule scope.reach_inv)
next
  fix d d' :: "('q, 'v) scope_data" and pcs t pc'
  assume "scope_inv d pcs" "scope_slots d pcs" "t < length pcs" "scope_run F d t (pcs ! t) = Some (d', pc')"
  then show "scope_slots d' (pcs[t := pc'])" by (rule scope_slots_run)
next
  fix d :: "('q, 'v) scope_data" and pcs t pc'
  assume a: "scope_inv d pcs" "scope_slots d pcs" "t < length pcs" "scope_call (pcs ! t) pc'"
  have c: "\<not> has_stored pc'" "pcs ! t \<noteq> ST_done" using a(4) by (auto simp: scope_call_def)
  have p: "parent_local d pc' \<and> (\<forall>u. pc' \<noteq> SC_join u \<and> pc' \<noteq> SC_take u)" using a(4) by (auto simp: scope_call_def)
  show "scope_slots d (pcs[t := pc'])"
    using a(2,3) c p by (cases "t = 0") (auto simp: scope_slots_def slot_kept_def nth_list_update)
next
  fix d d' :: "('q, 'v) scope_data" and pcs
  assume a: "scope_slots d pcs" "scope_env F d d'"
  then obtain q' where d': "d' = d \<lparr> sd_kernel := q' \<rparr>" by (auto simp: scope_env_def)
  have "parent_local d' (pcs ! 0) = parent_local d (pcs ! 0)" by (cases "pcs ! 0") (simp_all add: d')
  then show "scope_slots d' pcs" using a(1) by (simp add: scope_slots_def slot_kept_def d')
next
  fix d :: "('q, 'v) scope_data" and pcs t pc' new
  assume a: "scope_inv d pcs" "scope_slots d pcs" "t < length pcs" "scope_spawn (pcs ! t) (pc', new)"
  have c: "\<not> has_stored pc'" "\<not> has_stored new" "pcs ! t \<noteq> ST_done" "parent_local d pc'"
      "\<And>u. pc' \<noteq> SC_join u \<and> pc' \<noteq> SC_take u" using a(4) by (auto simp: scope_spawn_def)
  have n: "pcs \<noteq> []" using a(1) by (simp add: scope_inv_def)
  have 1: "\<forall>u < length pcs. slot_kept d ((pcs[t := pc'] @ [new]) ! 0) u (pcs[t := pc'] ! u)"
    using a(2,3) c n by (cases "t = 0") (auto simp: scope_slots_def slot_kept_def nth_list_update nth_append)
  have 2: "parent_local d ((pcs[t := pc'] @ [new]) ! 0)"
    using a(2,3) c n by (cases "t = 0") (auto simp: scope_slots_def nth_append)
  have 3: "\<forall>u \<in> sd_finished d. u < length pcs \<and> pcs[t := pc'] ! u = ST_done"
    using a(2,3) c by (auto simp: scope_slots_def nth_list_update)
  show "scope_slots d (pcs[t := pc'] @ [new])"
    using 1 2 3 c(2) unfolding scope_slots_def by (auto simp: nth_append less_Suc_eq slot_kept_def)
qed (auto simp: scope_slots_def scope_new_def slot_kept_def)

section \<open>Sleeping\<close>

text \<open>While the parent waits, the count is not 0, or the wake word is set or about to be. While it sleeps and the word
is set, a wake call is to come.\<close>

fun waiting :: "'v scope_pc \<Rightarrow> bool" where
  "waiting (SC_wait fp) = True"
| "waiting _ = False"

definition scope_wake_inv :: "'q futex \<Rightarrow> ('q, 'v) scope_data \<Rightarrow> 'v scope_pc list \<Rightarrow> bool" where
  "scope_wake_inv F d pcs \<longleftrightarrow>
     (waiting (pcs ! 0) \<longrightarrow> sd_running d \<noteq> 0 \<or> sd_wake d \<noteq> 0 \<or> ST_store \<in> set pcs) \<and>
     fx_sleeping F (sd_kernel d) 0 \<subseteq> {0} \<and>
     (fx_sleeping F (sd_kernel d) 0 \<noteq> {} \<longrightarrow> pcs ! 0 = SC_wait FW_blocked \<and> (sd_wake d = 0 \<or> ST_wake \<in> set pcs))"

lemma mem_update_other: "x \<in> set pcs \<Longrightarrow> pcs ! t \<noteq> x \<Longrightarrow> x \<in> set (pcs[t := pc'])"
  by (metis in_set_conv_nth length_list_update nth_list_update_neq)

lemma mem_update_self: "t < length pcs \<Longrightarrow> pc' \<in> set (pcs[t := pc'])"
  by (rule set_update_memI)

text \<open>Steps of the scoped threads.\<close>

lemma scope_thread_wake:
  assumes "scope_run F d t pc = Some (d', pc')" "\<not> is_parent pc"
  shows "(sd_running d' = sd_running d \<or> 0 < scope_weight pc' \<or> (sd_running d' = 0 \<longrightarrow> pc' = ST_store)) \<and>
     (pc = ST_store \<longrightarrow> sd_wake d' \<noteq> 0 \<and> pc' = ST_wake) \<and> (pc \<noteq> ST_store \<longrightarrow> sd_wake d' = sd_wake d) \<and>
     (if pc = ST_wake then sd_kernel d' = futex_wake F (sd_kernel d) 0 else sd_kernel d' = sd_kernel d)"
  using assms by (cases pc) (auto simp: scope_run_defs split: if_splits)

lemma scope_wake_thread:
  assumes F: "futex_contract F" and I: "scope_inv d pcs" "scope_wake_inv F d pcs" and t: "t < length pcs" "t \<noteq> 0"
    and r: "scope_run F d t (pcs ! t) = Some (d', pc')" and l: "length pcs < 2 ^ 62"
  shows "scope_wake_inv F d' (pcs[t := pc'])"
proof -
  have own: "\<not> is_parent (pcs ! t)" using I(1) t by (auto simp: scope_inv_def)
  note w = scope_thread_wake [OF r own]
  have I': "scope_inv d' (pcs[t := pc'])" by (rule scope_run_inv [OF I(1) t(1) r])
  have pos: "sd_running d' \<noteq> 0" if "0 < scope_weight pc'"
    using that thread_sum_ge [of t "pcs[t := pc']" scope_weight] t(1) l I' scope_running_zero [of d' "pcs[t := pc']"]
    by (simp add: scope_inv_def)
  have 1: "sd_running d' \<noteq> 0 \<or> sd_wake d' \<noteq> 0 \<or> ST_store \<in> set (pcs[t := pc'])" if "waiting (pcs ! 0)"
  proof -
    have "sd_running d \<noteq> 0 \<or> sd_wake d \<noteq> 0 \<or> ST_store \<in> set pcs" using I(2) that by (simp add: scope_wake_inv_def)
    then show ?thesis
      using w pos mem_update_self [OF t(1), of pc'] mem_update_other [of ST_store pcs t pc'] by metis
  qed
  have 2: "fx_sleeping F (sd_kernel d') 0 = {} \<or> sd_kernel d' = sd_kernel d \<and> pcs ! t \<noteq> ST_wake"
    using w futex_wake_single [OF F, of "sd_kernel d" 0 0] I(2) by (auto simp: scope_wake_inv_def split: if_splits)
  have 3: "sd_wake d' = 0 \<or> ST_wake \<in> set (pcs[t := pc'])" if "sd_wake d = 0 \<or> ST_wake \<in> set pcs" "pcs ! t \<noteq> ST_wake"
    using that w mem_update_self [OF t(1), of pc'] mem_update_other [of ST_wake pcs t pc'] by metis
  show ?thesis using 1 2 3 I(2) t(2) by (auto simp: scope_wake_inv_def)
qed

text \<open>Steps of the parent.\<close>

lemma scope_wake_parent:
  assumes F: "futex_contract F" and I: "scope_inv d pcs" "scope_wake_inv F d pcs"
    and r: "scope_run F d 0 (pcs ! 0) = Some (d', pc')"
  shows "scope_wake_inv F d' (pcs[0 := pc'])"
proof -
  have own: "is_parent (pcs ! 0)" and n: "pcs \<noteq> []" using I(1) by (auto simp: scope_inv_def)
  have st: "ST_store \<in> set (pcs[0 := pc'])" if "ST_store \<in> set pcs" using that own by (intro mem_update_other) auto
  have sl: "fx_sleeping F (sd_kernel d) 0 = {}"
  proof (rule ccontr)
    assume "fx_sleeping F (sd_kernel d) 0 \<noteq> {}"
    then have "pcs ! 0 = SC_wait FW_blocked" "0 \<in> fx_sleeping F (sd_kernel d) 0" using I(2) by (auto simp: scope_wake_inv_def)
    then show False using r by (simp add: scope_run_defs)
  qed
  have w: "waiting (pcs ! 0) \<longrightarrow> sd_running d \<noteq> 0 \<or> sd_wake d \<noteq> 0 \<or> ST_store \<in> set pcs" using I(2) by (simp add: scope_wake_inv_def)
  have "(waiting pc' \<longrightarrow> sd_running d' \<noteq> 0 \<or> sd_wake d' \<noteq> 0 \<or> ST_store \<in> set pcs) \<and>
      (sd_kernel d' = sd_kernel d \<or> sd_kernel d' = fx_wait F (sd_kernel d) 0 0 \<and> pc' = SC_wait FW_blocked \<and> sd_wake d' = 0)"
  proof (cases "pcs ! 0")
    case (SC_wait fp)
    then show ?thesis using r w by (cases fp) (auto simp: scope_run_defs split: if_splits)
  qed (use r own in \<open>auto simp: scope_run_defs split: if_splits option.splits\<close>)
  then show ?thesis using sl st n fx_wait_sleeping [OF F, of "sd_kernel d" 0 0 0] by (auto simp: scope_wake_inv_def)
qed

abbreviation scope_wakes :: "'q futex \<Rightarrow> 'q \<Rightarrow> ('q, 'v) scope_data \<Rightarrow> 'v scope_pc list \<Rightarrow> bool" where
  "scope_wakes F q d pcs \<equiv>
     futex_contract F \<and> fx_sleeping F q 0 = {} \<and> length pcs < 2 ^ 62 \<longrightarrow> scope_wake_inv F d pcs"

interpretation scope_rouses: conc_invariant_given "scope_run F" scope_call "scope_env F" scope_spawn "scope_new q" scope_inv
    "scope_wakes F q"
  for F :: "'q futex" and q
proof unfold_locales
  fix s :: "(('q, 'v) scope_data, 'v scope_pc) conc"
  assume "scope_reach F (scope_new q) s"
  then show "scope_inv (fst s) (snd s)" by (rule scope.reach_inv)
next
  fix d d' :: "('q, 'v) scope_data" and pcs t pc'
  assume "scope_inv d pcs" "scope_wakes F q d pcs" "t < length pcs" "scope_run F d t (pcs ! t) = Some (d', pc')"
  then show "scope_wakes F q d' (pcs[t := pc'])"
    using scope_wake_thread [of F d pcs t d' pc'] scope_wake_parent [of F d pcs d' pc'] by (cases "t = 0") simp_all
next
  fix d :: "('q, 'v) scope_data" and pcs t pc'
  assume a: "scope_wakes F q d pcs" "t < length pcs" "scope_call (pcs ! t) pc'"
  have c: "\<not> waiting pc'" "pcs ! t \<noteq> ST_store" "pcs ! t \<noteq> ST_wake" "pcs ! t \<noteq> SC_wait FW_blocked"
    using a(3) by (auto simp: scope_call_def)
  have "scope_wake_inv F d (pcs[t := pc'])" if "scope_wake_inv F d pcs"
    using that a(2) c mem_update_other [of ST_store pcs t pc'] mem_update_other [of ST_wake pcs t pc']
    by (cases "t = 0") (auto simp: scope_wake_inv_def)
  then show "scope_wakes F q d (pcs[t := pc'])" using a(1) by simp
next
  fix d d' :: "('q, 'v) scope_data" and pcs
  assume a: "scope_wakes F q d pcs" "scope_env F d d'"
  obtain q' where q': "d' = d \<lparr> sd_kernel := q' \<rparr>" "kernel_returns F (sd_kernel d) q'" using a(2) unfolding scope_env_def by blast
  then have "fx_sleeping F q' 0 \<subseteq> fx_sleeping F (sd_kernel d) 0" by (simp add: kernel_returns_def)
  then have "scope_wake_inv F d' pcs" if "scope_wake_inv F d pcs" using that q'(1) by (auto simp: scope_wake_inv_def)
  then show "scope_wakes F q d' pcs" using a(1) by simp
next
  fix d :: "('q, 'v) scope_data" and pcs t pc' new
  assume a: "scope_inv d pcs" "scope_wakes F q d pcs" "t < length pcs" "scope_spawn (pcs ! t) (pc', new)"
  have c: "\<not> waiting pc'" "pcs ! t \<noteq> ST_store" "pcs ! t \<noteq> ST_wake" "pcs ! t \<noteq> SC_wait FW_blocked"
    using a(4) by (auto simp: scope_spawn_def)
  have n: "pcs \<noteq> []" using a(1) by (simp add: scope_inv_def)
  have "scope_wake_inv F d (pcs[t := pc'] @ [new])" if "scope_wake_inv F d pcs"
    using that a(3) c n mem_update_other [of ST_store pcs t pc'] mem_update_other [of ST_wake pcs t pc']
    by (cases "t = 0") (auto simp: scope_wake_inv_def nth_append)
  then show "scope_wakes F q d (pcs[t := pc'] @ [new])" using a(2) by simp
qed (auto simp: scope_wake_inv_def scope_new_def)

section \<open>Progress\<close>

fun scoped_rank :: "'v scope_pc \<Rightarrow> nat" where
  "scoped_rank (ST_run v) = 6"
| "scoped_rank (ST_slot v) = 5"
| "scoped_rank ST_sub = 4"
| "scoped_rank ST_store = 3"
| "scoped_rank ST_wake = 2"
| "scoped_rank ST_finish = 1"
| "scoped_rank _ = 0"

fun parent_rank :: "bool \<Rightarrow> bool \<Rightarrow> 'v scope_pc \<Rightarrow> nat" where
  "parent_rank woken asleep SC_load = (if woken then 7 else 4)"
| "parent_rank woken asleep (SC_wait FW_load) = (if woken then 6 else 3)"
| "parent_rank woken asleep (SC_wait FW_call) = (if woken then 7 else 2)"
| "parent_rank woken asleep (SC_wait FW_blocked) = (if woken then 7 else if asleep then 1 else 4)"
| "parent_rank woken asleep SC_store = 5"
| "parent_rank woken asleep _ = 0"

definition scope_rank :: "'q futex \<Rightarrow> (('q, 'v) scope_data, 'v scope_pc) conc \<Rightarrow> nat" where
  "scope_rank F s = 10 * thread_sum scoped_rank (snd s) +
     parent_rank (sd_wake (fst s) \<noteq> 0) (0 \<in> fx_sleeping F (sd_kernel (fst s)) 0) (snd s ! 0)"

text \<open>The body of the scope is over, and no thread is in the middle of a spawn.\<close>

fun spawning :: "'v scope_pc \<Rightarrow> bool" where
  "spawning (ST_add u v) = True"
| "spawning (ST_clone u v) = True"
| "spawning _ = False"

fun ending :: "'v scope_pc \<Rightarrow> bool" where
  "ending SC_load = True"
| "ending (SC_wait fp) = True"
| "ending SC_store = True"
| "ending _ = False"

definition scope_ending :: "'q futex \<Rightarrow> (('q, 'v) scope_data, 'v scope_pc) conc \<Rightarrow> bool" where
  "scope_ending F s \<longleftrightarrow> futex_contract F \<and> length (snd s) < 2 ^ 62 \<and> scope_inv (fst s) (snd s) \<and>
     scope_wake_inv F (fst s) (snd s) \<and> ending (snd s ! 0) \<and> (\<forall>pc \<in> set (snd s). \<not> spawning pc)"

definition scope_over :: "(('q, 'v) scope_data, 'v scope_pc) conc \<Rightarrow> bool" where
  "scope_over s \<longleftrightarrow> snd s ! 0 = SC_returned"

lemma parent_rank_le: "parent_rank w z pc \<le> 7"
  by (cases "(w, z, pc)" rule: parent_rank.cases) simp_all

lemma scoped_rank_step:
  assumes "scope_run F d t pc = Some (d', pc')" "\<not> is_parent pc" "\<not> spawning pc"
  shows "scoped_rank pc' < scoped_rank pc \<and> \<not> spawning pc'"
  using assms by (cases pc) (auto simp: scope_run_defs split: if_splits)

lemma parent_rank_step:
  assumes F: "futex_contract F" and "scope_run F d 0 pc = Some (d', pc')" "ending pc"
  shows "pc' = SC_returned \<or> ending pc' \<and> scoped_rank pc' = scoped_rank pc \<and>
     parent_rank (sd_wake d' \<noteq> 0) (0 \<in> fx_sleeping F (sd_kernel d') 0) pc' <
     parent_rank (sd_wake d \<noteq> 0) (0 \<in> fx_sleeping F (sd_kernel d) 0) pc"
proof (cases pc)
  case (SC_wait fp)
  then show ?thesis using assms(2,3) fx_wait_sleeping [OF F, of "sd_kernel d" 0 0 0]
    by (cases fp) (auto simp: scope_run_defs split: if_splits)
qed (use assms(2,3) in \<open>auto simp: scope_run_defs split: if_splits\<close>)

lemma scope_ending_step:
  assumes P: "scope_ending F s" and s: "run_thread (scope_run F) t s = Some s'"
  shows "scope_over s' \<or> scope_ending F s' \<and> scope_rank F s' < scope_rank F s"
proof -
  obtain d pcs d' pc' where s: "s = (d, pcs)" "s' = (d', pcs[t := pc'])" and t: "t < length pcs"
    and r: "scope_run F d t (pcs ! t) = Some (d', pc')"
    using s by (cases s) (auto simp: run_thread_def split: if_splits)
  have F: "futex_contract F" and l: "length pcs < 2 ^ 62" and I: "scope_inv d pcs" "scope_wake_inv F d pcs"
    and e: "ending (pcs ! 0)" "\<forall>pc \<in> set pcs. \<not> spawning pc" using P by (auto simp: scope_ending_def s)
  have I': "scope_inv d' (pcs[t := pc'])" by (rule scope_run_inv [OF I(1) t r])
  have W': "scope_wake_inv F d' (pcs[t := pc'])"
    using scope_wake_thread [OF F I t _ r l] scope_wake_parent [OF F I, of d' pc'] r by (cases "t = 0") simp_all
  have sum: "thread_sum scoped_rank (pcs[t := pc']) + scoped_rank (pcs ! t) = thread_sum scoped_rank pcs + scoped_rank pc'"
    by (rule thread_sum_update [OF t])
  show ?thesis
  proof (cases "t = 0")
    case True
    then have r0: "scope_run F d 0 (pcs ! 0) = Some (d', pc')" using r by simp
    note k = parent_rank_step [OF F r0 e(1)]
    have "pc' \<noteq> SC_returned \<Longrightarrow> \<not> spawning pc'" using k by (cases pc') auto
    then have "\<forall>pc \<in> set (pcs[t := pc']). \<not> spawning pc" if "pc' \<noteq> SC_returned"
      using that e(2) set_update_subset_insert [of pcs t pc'] by blast
    then show ?thesis using k F I' W' True t l sum by (auto simp: scope_over_def scope_ending_def scope_rank_def s)
  next
    case False
    have own: "\<not> is_parent (pcs ! t)" using I(1) t False by (auto simp: scope_inv_def)
    have k: "scoped_rank pc' < scoped_rank (pcs ! t)" "\<not> spawning pc'"
      using scoped_rank_step [OF r own] e(2) t by auto
    have "\<forall>pc \<in> set (pcs[t := pc']). \<not> spawning pc" using k(2) e(2) set_update_subset_insert [of pcs t pc'] by blast
    moreover have "scope_rank F s' < scope_rank F s"
      using sum k(1) parent_rank_le [of "sd_wake d' \<noteq> 0" "0 \<in> fx_sleeping F (sd_kernel d') 0" "pcs ! 0"] False
      by (simp add: scope_rank_def s)
    ultimately show ?thesis using F I' W' l e(1) False by (simp add: scope_ending_def s)
  qed
qed

lemma scope_ending_moves:
  assumes "scope_ending F s"
  shows "\<exists>t. run_thread (scope_run F) t s \<noteq> None"
proof -
  obtain d pcs where s: "s = (d, pcs)" by (cases s)
  have l: "length pcs < 2 ^ 62" and I: "scope_inv d pcs" "scope_wake_inv F d pcs" and n: "pcs \<noteq> []"
    and e: "ending (pcs ! 0)" "\<forall>pc \<in> set pcs. \<not> spawning pc"
    using assms by (auto simp: scope_ending_def scope_inv_def s)
  have moves: ?thesis if "u < length pcs" "pcs ! u \<in> {ST_store, ST_wake, ST_sub} \<or> (\<exists>v. pcs ! u = ST_run v \<or> pcs ! u = ST_slot v)" for u
    using that by (intro exI [of _ u]) (auto simp: run_thread_def s scope_run_defs)
  show ?thesis
  proof (cases "0 \<in> fx_sleeping F (sd_kernel d) 0")
    case True
    then have b: "pcs ! 0 = SC_wait FW_blocked" "sd_wake d = 0 \<or> ST_wake \<in> set pcs" using I(2) by (auto simp: scope_wake_inv_def)
    then consider "ST_wake \<in> set pcs" | "ST_store \<in> set pcs" | "sd_running d \<noteq> 0" using I(2) by (auto simp: scope_wake_inv_def)
    then show ?thesis
    proof cases
      case 3
      then have "thread_sum scope_weight pcs \<noteq> 0" using scope_running_zero [OF _ l, of d] I(1) by (simp add: scope_inv_def)
      then obtain pc where "pc \<in> set pcs" "scope_weight pc \<noteq> 0" by (auto simp: thread_sum_def)
      then obtain u where u: "u < length pcs" "scope_weight (pcs ! u) \<noteq> 0" by (metis in_set_conv_nth)
      moreover have "\<not> spawning (pcs ! u)" using e(2) u(1) by simp
      moreover have "\<not> is_parent (pcs ! u)" using u I(1) b(1) by (cases "u = 0") (auto simp: scope_inv_def)
      ultimately show ?thesis using moves [OF u(1)] by (cases "pcs ! u") auto
    qed (use moves in \<open>auto simp: in_set_conv_nth\<close>)
  next
    case False
    then show ?thesis using e(1) n
      by (intro exI [of _ 0]; cases "pcs ! 0") (auto simp: run_thread_def s scope_run_defs split: futex_pc.splits)
  qed
qed

interpretation scope_moves: conc_progress "scope_run F" "scope_ending F" scope_over "scope_rank F"
  for F :: "'q futex"
proof unfold_locales
  fix s s' :: "(('q, 'v) scope_data, 'v scope_pc) conc" and t
  assume "scope_ending F s" "run_thread (scope_run F) t s = Some s'"
  then show "scope_over s' \<or> scope_ending F s' \<and> scope_rank F s' < scope_rank F s" by (rule scope_ending_step)
qed (rule scope_ending_moves)

section \<open>Properties\<close>

text \<open>C11: When \<open>scope\<close> returns, every scoped thread has run its closure and stored the result (still in its slot unless its
handle was joined), however the threads and the scope spawned; a join never finds its slot empty; and once the body is
over and no closure is in the middle of a spawn, \<open>scope\<close> returns within a bounded number of steps.\<close>

theorem scope_waits_for_all:
  assumes "futex_contract F" "fx_sleeping F q 0 = {}" "scope_reach F (scope_new q) (d, pcs)" "length pcs < 2 ^ 62"
  shows "(pcs ! 0 = SC_returned \<longrightarrow>
       (\<forall>t. 0 < t \<and> t < length pcs \<longrightarrow> has_stored (pcs ! t) \<and> (sd_slots d t = None \<longrightarrow> t \<in> sd_joined d))) \<and>
     SC_panic \<notin> set pcs \<and>
     (ending (pcs ! 0) \<and> (\<forall>pc \<in> set pcs. \<not> spawning pc) \<longrightarrow>
        progresses (scope_run F) scope_over (67 * length pcs) (d, pcs))"
proof (intro conjI impI)
  have I: "scope_inv d pcs" "scope_slots d pcs" "scope_wake_inv F d pcs"
    using scope.reach_inv [OF assms(3)] scope_keeps.reach_inv [OF assms(3)] scope_rouses.reach_inv [OF assms(3)] assms(1,2,4) by auto
  show "SC_panic \<notin> set pcs"
  proof
    assume "SC_panic \<in> set pcs"
    then obtain t where "t < length pcs" "pcs ! t = SC_panic" by (metis in_set_conv_nth)
    moreover then have "t = 0" using I(1) by (auto simp: scope_inv_def)
    ultimately show False using I(2) by (simp add: scope_slots_def)
  qed
  show "\<forall>t. 0 < t \<and> t < length pcs \<longrightarrow> has_stored (pcs ! t) \<and> (sd_slots d t = None \<longrightarrow> t \<in> sd_joined d)"
    if "pcs ! 0 = SC_returned"
  proof (intro allI impI)
    fix t assume t: "0 < t \<and> t < length pcs"
    have "thread_sum scope_weight pcs = 0" using I(1) that assms(4) by (simp add: scope_inv_def)
    then have "scope_weight (pcs ! t) = 0" using t thread_sum_ge [of t pcs scope_weight] by simp
    moreover have "\<not> is_parent (pcs ! t)" using I(1) t by (simp add: scope_inv_def)
    ultimately have "has_stored (pcs ! t)" by (cases "pcs ! t") simp_all
    moreover have "slot_kept d (pcs ! 0) t (pcs ! t)" using I(2) t by (simp add: scope_slots_def)
    ultimately show "has_stored (pcs ! t) \<and> (sd_slots d t = None \<longrightarrow> t \<in> sd_joined d)" by (auto simp: slot_kept_def)
  qed
  assume "ending (pcs ! 0) \<and> (\<forall>pc \<in> set pcs. \<not> spawning pc)"
  then have "scope_ending F (d, pcs)" using assms(1,4) I by (simp add: scope_ending_def)
  then have "progresses (scope_run F) scope_over (scope_rank F (d, pcs)) (d, pcs)" by (rule scope_moves.progress)
  moreover have "scope_rank F (d, pcs) \<le> 67 * length pcs"
  proof -
    have "thread_sum scoped_rank pcs \<le> 6 * length pcs"
    proof (rule thread_sum_le)
      show "scoped_rank pc \<le> 6" for pc :: "'b scope_pc" by (cases pc rule: scoped_rank.cases) simp_all
    qed
    moreover have "1 \<le> length pcs" using I(1) by (simp add: scope_inv_def Suc_le_eq)
    ultimately show ?thesis
      using parent_rank_le [of "sd_wake d \<noteq> 0" "0 \<in> fx_sleeping F (sd_kernel d) 0" "pcs ! 0"] by (simp add: scope_rank_def)
  qed
  ultimately show "progresses (scope_run F) scope_over (67 * length pcs) (d, pcs)" by (rule progresses_mono)
qed

text \<open>The body spawns one thread and ends; the thread has counted itself down, the scope waits.\<close>

definition scope_waits :: "nat scope_pc action list" where
  "scope_waits = [Call 0 (SC_add 7), Run 0, Spawn 0 SC_body (ST_run 7), Call 0 SC_load, Run 0, Run 1, Run 1, Run 1]"

lemmas scope_eval = scope_new_def scope_call_def scope_spawn_def scope_run_defs run_thread_def fifo_futex_def

theorem scope_waits_for_all_witness:
  "\<exists>d. scope_reach (fifo_futex Linux_x86_64) (scope_new []) (d, [SC_wait FW_load, ST_store :: nat scope_pc]) \<and>
     progresses (scope_run (fifo_futex Linux_x86_64)) scope_over 134 (d, [SC_wait FW_load, ST_store :: nat scope_pc])"
proof -
  let ?d = "\<lparr> sd_running = 0, sd_wake = 0, sd_kernel = [], sd_slots = (\<lambda>_. None)(1 := Some 7), sd_finished = {}, sd_joined = {} \<rparr>
      :: ((nat \<times> nat) list, nat) scope_data"
  have r: "scope_reach (fifo_futex Linux_x86_64) (scope_new []) (?d, [SC_wait FW_load, ST_store])"
    by (rule conc_exec_reach [of _ _ _ scope_waits]) (simp add: scope_waits_def scope_eval)
  have e: "fx_sleeping (fifo_futex Linux_x86_64) [] 0 = {}" by (simp add: fifo_futex_def)
  show ?thesis using scope_waits_for_all [OF fifo_futex_contract e r] r by (intro exI [of _ ?d]) simp
qed

definition scope_race :: "nat scope_pc action list" where
  "scope_race = [Call 0 (SC_add 7), Run 0, Spawn 0 SC_body (ST_run 7), Run 1, Run 1, Run 1, Call 0 SC_load, Run 0]"

text \<open>C34: The last thread writes to the scope's data after it has counted itself down: the caller of \<open>scope\<close> can see the
count 0, return, and leave the frame that \<open>data.wake\<close> lies in, before the write.\<close>

theorem scope_return_race:
  "\<exists>d d'. scope_reach (fifo_futex Linux_x86_64) (scope_new []) (d, [SC_returned, ST_store :: nat scope_pc]) \<and>
     scope_run (fifo_futex Linux_x86_64) d 1 ST_store = Some (d', ST_wake) \<and> sd_wake d' \<noteq> sd_wake d"
proof -
  let ?d = "\<lparr> sd_running = 0, sd_wake = 0, sd_kernel = [], sd_slots = (\<lambda>_. None)(1 := Some 7), sd_finished = {}, sd_joined = {} \<rparr>
      :: ((nat \<times> nat) list, nat) scope_data"
  have "scope_reach (fifo_futex Linux_x86_64) (scope_new []) (?d, [SC_returned, ST_store])"
    by (rule conc_exec_reach [of _ _ _ scope_race]) (simp add: scope_race_def scope_eval)
  then show ?thesis by (intro exI [of _ ?d] exI [of _ "?d \<lparr> sd_wake := 1 \<rparr>"]) (simp add: scope_run_defs)
qed

end
