(* ===== verification/Net_Addr.thy ===== *)
theory Net_Addr
  imports Os_Strings
begin

text \<open>
  The addresses of \<open>src/net.rs\<close>: the socket address structures handed to the kernel, and
  the textual addresses. \<open>IpAddr\<close>, \<open>SocketAddr\<close>, their parsers and the string functions
  used here belong to the language's library; they are written out on the UTF-8 bytes.
\<close>

section \<open>Addresses\<close>

datatype IpAddr = IpV4 "byte list" | IpV6 "byte list"

datatype SocketAddr =
    V4 "byte list" u16
  | V6 (v6_ip: "byte list") (v6_port: u16) (v6_flowinfo: u32) (v6_scope: u32)

fun ip_ok :: "IpAddr \<Rightarrow> bool" where
  "ip_ok (IpV4 b) = (length b = 4)"
| "ip_ok (IpV6 b) = (length b = 16)"

fun addr_ok :: "SocketAddr \<Rightarrow> bool" where
  "addr_ok (V4 ip port) = (length ip = 4)"
| "addr_ok (V6 ip port flow scope) = (length ip = 16)"

fun socket_addr_new :: "IpAddr \<Rightarrow> u16 \<Rightarrow> SocketAddr" where
  "socket_addr_new (IpV4 b) port = V4 b port"
| "socket_addr_new (IpV6 b) port = V6 b port 0 0"

section \<open>The kernel's address structures\<close>

definition AF_INET :: i32 where "AF_INET = 2"

definition AF_INET6 :: "target \<Rightarrow> i32" where
  "AF_INET6 t = (if is_macos t then 30 else 10)"

fun write_sockaddr :: "target \<Rightarrow> SocketAddr \<Rightarrow> byte list \<times> u32" where
  "write_sockaddr t (V4 ip port) =
     ((if is_macos t then [16, ucast AF_INET] else to_le_bytes 2 (ucast AF_INET :: u16))
        @ to_be_bytes 2 port @ ip @ replicate 20 0, 16)"
| "write_sockaddr t (V6 ip port flow scope) =
     ((if is_macos t then [28, ucast (AF_INET6 t)] else to_le_bytes 2 (ucast (AF_INET6 t) :: u16))
        @ to_be_bytes 2 port @ replicate 4 0 @ ip @ to_le_bytes 4 scope, 28)"

definition sockaddr_fam :: "target \<Rightarrow> byte list \<Rightarrow> i32" where
  "sockaddr_fam t b = (if is_macos t then ucast (b ! 1) else ucast (from_le_bytes [b ! 0, b ! 1] :: u16))"

definition read_sockaddr :: "target \<Rightarrow> byte list \<Rightarrow> SocketAddr option" where
  "read_sockaddr t b =
     (if length b < 8 then None
      else
        let fam = sockaddr_fam t b;
            port = from_be_bytes [b ! 2, b ! 3]
        in if fam = AF_INET then Some (V4 [b ! 4, b ! 5, b ! 6, b ! 7] port)
           else if fam = AF_INET6 t \<and> length b \<ge> 28
           then Some (V6 (take 16 (drop 8 b)) port 0 (from_le_bytes [b ! 24, b ! 25, b ! 26, b ! 27]))
           else None)"

fun family_of :: "target \<Rightarrow> SocketAddr \<Rightarrow> i32" where
  "family_of t (V4 _ _) = AF_INET"
| "family_of t (V6 _ _ _ _) = AF_INET6 t"

section \<open>Numbers and addresses in text\<close>

definition digit_of :: "nat \<Rightarrow> char \<Rightarrow> nat option" where
  "digit_of radix c =
     (let n = of_char c :: nat;
          d = (if 48 \<le> n \<and> n \<le> 57 then Some (n - 48)
               else if 97 \<le> n \<and> n \<le> 122 then Some (n - 87)
               else if 65 \<le> n \<and> n \<le> 90 then Some (n - 55) else None)
      in case d of Some v \<Rightarrow> if v < radix then Some v else None | None \<Rightarrow> None)"

definition is_digit :: "nat \<Rightarrow> char \<Rightarrow> bool" where
  "is_digit radix c \<longleftrightarrow> digit_of radix c \<noteq> None"

definition digits_value :: "nat \<Rightarrow> string \<Rightarrow> nat" where
  "digits_value radix ds = foldl (\<lambda>v c. v * radix + the (digit_of radix c)) 0 ds"

text \<open>The number parser of \<open>core::net\<close>: the value stays below \<open>lim\<close>, at most \<open>maxd\<close> digits, and a leading
zero only where allowed.\<close>

definition read_number :: "nat \<Rightarrow> nat \<Rightarrow> bool \<Rightarrow> nat \<Rightarrow> string \<Rightarrow> (nat \<times> string) option" where
  "read_number radix maxd zero_prefix lim s =
     (let ds = takeWhile (is_digit radix) s; v = digits_value radix ds in
      if ds = [] \<or> length ds > maxd \<or> v \<ge> lim \<or> (\<not> zero_prefix \<and> hd ds = CHR ''0'' \<and> length ds > 1)
      then None else Some (v, drop (length ds) s))"

fun read_given_char :: "char \<Rightarrow> string \<Rightarrow> string option" where
  "read_given_char c [] = None"
| "read_given_char c (x # xs) = (if x = c then Some xs else None)"

definition read_separator :: "char \<Rightarrow> nat \<Rightarrow> (string \<Rightarrow> ('a \<times> string) option) \<Rightarrow> string \<Rightarrow> ('a \<times> string) option" where
  "read_separator sep i inner s = (if i > 0 then do { s' \<leftarrow> read_given_char sep s; inner s' } else inner s)"

definition read_octet :: "nat \<Rightarrow> string \<Rightarrow> (nat \<times> string) option" where
  "read_octet i s = read_separator CHR ''.'' i (read_number 10 3 False 256) s"

definition read_ipv4_addr :: "string \<Rightarrow> (byte list \<times> string) option" where
  "read_ipv4_addr s0 = do {
     (a, s1) \<leftarrow> read_octet 0 s0; (b, s2) \<leftarrow> read_octet 1 s1;
     (c, s3) \<leftarrow> read_octet 2 s2; (d, s4) \<leftarrow> read_octet 3 s3;
     Some ([of_nat a, of_nat b, of_nat c, of_nat d], s4)
   }"

text \<open>\<open>read_groups\<close>: the groups read, whether they ended in an IPv4 address, and the rest; \<open>left\<close> is the
number of slots that remain and \<open>i\<close> the number filled.\<close>

fun read_groups :: "nat \<Rightarrow> nat \<Rightarrow> string \<Rightarrow> byte list \<times> bool \<times> string" where
  "read_groups 0 i s = ([], False, s)"
| "read_groups (Suc left) i s =
     (case (if left > 0 then read_separator CHR '':'' i read_ipv4_addr s else None) of
        Some (v4, s') \<Rightarrow> (v4, True, s')
      | None \<Rightarrow>
          (case read_separator CHR '':'' i (read_number 16 4 True 65536) s of
             Some (g, s') \<Rightarrow>
               (case read_groups left (Suc i) s' of
                  (gs, v4, s'') \<Rightarrow> (to_be_bytes 2 (of_nat g :: u16) @ gs, v4, s''))
           | None \<Rightarrow> ([], False, s)))"

definition read_ipv6_addr :: "string \<Rightarrow> (byte list \<times> string) option" where
  "read_ipv6_addr s =
     (case read_groups 8 0 s of (head, head_v4, s1) \<Rightarrow>
        if length head = 16 then Some (head, s1)
        else if head_v4 then None
        else do {
          s2 \<leftarrow> read_given_char CHR '':'' s1;
          s3 \<leftarrow> read_given_char CHR '':'' s2;
          (case read_groups (8 - (length head div 2 + 1)) 0 s3 of (tail, _, s4) \<Rightarrow>
             Some (head @ replicate (16 - length head - length tail) 0 @ tail, s4))
        })"

definition parse_ip :: "string \<Rightarrow> IpAddr option" where
  "parse_ip s =
     (case read_ipv4_addr s of
        Some (b, r) \<Rightarrow> if r = [] then Some (IpV4 b) else None
      | None \<Rightarrow>
          (case read_ipv6_addr s of
             Some (b, r) \<Rightarrow> if r = [] then Some (IpV6 b) else None
           | None \<Rightarrow> None))"

text \<open>\<open>str::parse::<u16>\<close>: an optional plus sign, then decimal digits.\<close>

definition parse_u16 :: "string \<Rightarrow> u16 option" where
  "parse_u16 s =
     (let ds = (case s of c # r \<Rightarrow> if c = CHR ''+'' \<and> r \<noteq> [] then r else s | [] \<Rightarrow> []) in
      if ds \<noteq> [] \<and> list_all (is_digit 10) ds \<and> digits_value 10 ds < 65536 then Some (of_nat (digits_value 10 ds)) else None)"

lemma read_groups_numeral:
  "read_groups (numeral n) i s =
     (case (if pred_numeral n > 0 then read_separator CHR '':'' i read_ipv4_addr s else None) of
        Some (v4, s') \<Rightarrow> (v4, True, s')
      | None \<Rightarrow>
          (case read_separator CHR '':'' i (read_number 16 4 True 65536) s of
             Some (g, s') \<Rightarrow>
               (case read_groups (pred_numeral n) (Suc i) s' of
                  (gs, v4, s'') \<Rightarrow> (to_be_bytes 2 (of_nat g :: u16) @ gs, v4, s''))
           | None \<Rightarrow> ([], False, s)))"
  by (simp add: numeral_eq_Suc)

lemmas parse_simps = parse_ip_def read_ipv4_addr_def read_octet_def read_separator_def read_number_def is_digit_def
  digit_of_def digits_value_def read_ipv6_addr_def read_groups_numeral

lemma parse_ip_any: "parse_ip ''0.0.0.0'' = Some (IpV4 [0, 0, 0, 0])"
  by (simp add: parse_simps)

lemma parse_ip_any6: "parse_ip ''::'' = Some (IpV6 (replicate 16 0))"
  by (simp add: parse_simps del: read_groups.simps)

lemma length_read_ipv4: "read_ipv4_addr s = Some (b, r) \<Longrightarrow> length b = 4"
  by (auto simp: read_ipv4_addr_def split: bind_splits)

lemma length_read_groups: "read_groups n i s = (gs, v4, r) \<Longrightarrow> length gs \<le> 2 * n \<and> even (length gs)"
proof (induction n i s arbitrary: gs v4 r rule: read_groups.induct)
  case (2 left i s)
  show ?case
  proof (cases "if left > 0 then read_separator CHR '':'' i read_ipv4_addr s else None")
    case (Some p)
    then have "length (fst p) = 4" "left > 0"
      by (cases p, auto simp: read_separator_def dest: length_read_ipv4 split: if_splits bind_splits)+
    then show ?thesis using "2.prems" Some by (cases p) auto
  next
    case None
    then show ?thesis using 2 by (fastforce split: option.splits prod.splits)
  qed
qed simp

text \<open>What the parser accepts has four or sixteen bytes.\<close>

lemma parse_ip_ok: "parse_ip s = Some ip \<Longrightarrow> ip_ok ip"
proof -
  assume p: "parse_ip s = Some ip"
  show "ip_ok ip"
  proof (cases "read_ipv4_addr s")
    case (Some x)
    then show ?thesis using p length_read_ipv4 by (cases x) (auto simp: parse_ip_def split: if_splits)
  next
    case None
    then obtain b where b: "read_ipv6_addr s = Some (b, [])" "ip = IpV6 b"
      using p by (auto simp: parse_ip_def split: option.splits if_splits)
    obtain h v s1 where h: "read_groups 8 0 s = (h, v, s1)" by (metis prod_cases3)
    have hl: "length h \<le> 16" "even (length h)" using length_read_groups [OF h] by auto
    have "length b = 16"
    proof (cases "length h = 16")
      case False
      then obtain s3 tail w s4 where t: "read_groups (8 - (length h div 2 + 1)) 0 s3 = (tail, w, s4)"
          "b = h @ replicate (16 - length h - length tail) 0 @ tail"
        using b(1) h by (auto simp: read_ipv6_addr_def split: if_splits bind_splits prod.splits)
      have "length tail \<le> 2 * (8 - (length h div 2 + 1))" using length_read_groups [OF t(1)] by simp
      then show ?thesis using t(2) hl False by (auto elim!: evenE)
    qed (use b h in \<open>auto simp: read_ipv6_addr_def\<close>)
    then show ?thesis using b by simp
  qed
qed

section \<open>Properties\<close>

lemma two_bytes: "to_le_bytes 2 w = [to_le_bytes 2 w ! 0, to_le_bytes 2 w ! 1]"
  by (simp add: numeral_2_eq_2)

lemma list_4: "length xs = 4 \<Longrightarrow> [xs ! 0, xs ! 1, xs ! 2, xs ! 3] = xs"
  by (auto simp: numeral_eq_Suc length_Suc_conv)

lemma list_2: "length xs = 2 \<Longrightarrow> [xs ! 0, xs ! 1] = xs"
  by (auto simp: numeral_eq_Suc length_Suc_conv)

text \<open>The bytes of two consecutive fields, read back by position.\<close>

lemma nth_fields2: "length xs = 2 \<Longrightarrow> length ys = 2 \<Longrightarrow>
    [(xs @ ys @ zs) ! 0, (xs @ ys @ zs) ! 1] = xs \<and> [(xs @ ys @ zs) ! 2, (xs @ ys @ zs) ! 3] = ys"
  by (auto simp: numeral_eq_Suc length_Suc_conv)

lemma nth_skip: "length xs = n \<Longrightarrow> (xs @ ys) ! (n + i) = ys ! i"
  by (simp add: nth_append)

lemma sockaddr_family:
  assumes "is_macos t \<longrightarrow> hdr = [l, ucast f]" "\<not> is_macos t \<longrightarrow> hdr = to_le_bytes 2 (ucast f :: u16)"
    and "f = 2 \<or> f = 10 \<or> f = (30 :: i32)"
  shows "sockaddr_fam t (hdr @ rest) = f" "length hdr = 2"
proof -
  have "ucast (ucast f :: byte) = f" "ucast (ucast f :: u16) = f" using assms(3) by auto
  moreover have "from_le_bytes (to_le_bytes 2 (ucast f :: u16)) = (ucast f :: u16)" by (intro from_to_le_bytes) simp
  moreover show len: "length hdr = 2" using assms(1,2) by (cases "is_macos t") auto
  ultimately show "sockaddr_fam t (hdr @ rest) = f"
    using assms(1,2) two_bytes [of "ucast f :: u16"] by (cases "is_macos t") (simp_all add: sockaddr_fam_def nth_append)
qed

lemma be_port: "from_be_bytes (to_be_bytes 2 (port :: u16)) = port"
  by (intro from_to_be_bytes) simp

lemma le_scope: "from_le_bytes (to_le_bytes 4 (scope :: u32)) = scope"
  by (intro from_to_le_bytes) simp

text \<open>The address structure written for the kernel has 28 bytes on every target and reads back as the
address, IPv4 and IPv6 alike, with the port in network byte order and the scope kept; only the flow label of
an IPv6 address is not carried over and reads back as 0.\<close>

theorem sockaddr_roundtrip:
  assumes "addr_ok a"
  shows "length (fst (write_sockaddr t a)) = 28 \<and>
     read_sockaddr t (fst (write_sockaddr t a)) =
       Some (case a of V4 ip port \<Rightarrow> V4 ip port | V6 ip port flow scope \<Rightarrow> V6 ip port 0 scope)"
proof (cases a)
  case (V4 ip port)
  define hdr where "hdr = (if is_macos t then [16, ucast AF_INET] else to_le_bytes 2 (ucast AF_INET :: u16))"
  let ?b = "hdr @ to_be_bytes 2 port @ ip @ replicate 20 0"
  have ip: "length ip = 4" using assms V4 by simp
  have f: "sockaddr_fam t ?b = 2" "length hdr = 2"
    by (rule sockaddr_family [of t hdr 16 2], auto simp: hdr_def AF_INET_def)+
  note flds = nth_fields2 [OF f(2) length_to_be_bytes [of 2 port], of "ip @ replicate 20 0"]
  have b: "?b ! 4 = ip ! 0" "?b ! 5 = ip ! 1" "?b ! 6 = ip ! 2" "?b ! 7 = ip ! 3" using f(2) ip by (simp_all add: nth_append)
  have "read_sockaddr t ?b = Some (V4 ip port)"
    using f flds b list_4 [OF ip] ip be_port by (simp add: read_sockaddr_def Let_def AF_INET_def)
  then show ?thesis using V4 ip f(2) by (simp add: hdr_def [symmetric])
next
  case (V6 ip port flow scope)
  define hdr where "hdr = (if is_macos t then [28, ucast (AF_INET6 t)] else to_le_bytes 2 (ucast (AF_INET6 t) :: u16))"
  let ?b = "hdr @ to_be_bytes 2 port @ replicate 4 0 @ ip @ to_le_bytes 4 scope"
  have ip: "length ip = 16" using assms V6 by simp
  have f: "sockaddr_fam t ?b = AF_INET6 t" "length hdr = 2"
    by (rule sockaddr_family [of t hdr 28 "AF_INET6 t"], auto simp: hdr_def AF_INET6_def)+
  note flds = nth_fields2 [OF f(2) length_to_be_bytes [of 2 port], of "replicate 4 0 @ ip @ to_le_bytes 4 scope"]
  have b: "?b ! 24 = to_le_bytes 4 scope ! 0" "?b ! 25 = to_le_bytes 4 scope ! 1" "?b ! 26 = to_le_bytes 4 scope ! 2"
      "?b ! 27 = to_le_bytes 4 scope ! 3" "take 16 (drop 8 ?b) = ip"
    using f(2) ip by (simp_all add: nth_append)
  have ne: "AF_INET6 t \<noteq> AF_INET" by (simp add: AF_INET6_def AF_INET_def)
  have "read_sockaddr t ?b = Some (V6 ip port 0 scope)"
    using f flds b list_4 [of "to_le_bytes 4 scope"] ip be_port le_scope ne by (simp add: read_sockaddr_def Let_def)
  then show ?thesis using V6 ip f(2) by (simp add: hdr_def [symmetric])
qed

theorem sockaddr_roundtrip_witness:
  "addr_ok (V4 [127, 0, 0, 1] 8080) \<and>
   read_sockaddr Macos_aarch64 (fst (write_sockaddr Macos_aarch64 (V4 [127, 0, 0, 1] 8080))) = Some (V4 [127, 0, 0, 1] 8080)"
  using sockaddr_roundtrip [of "V4 [127, 0, 0, 1] 8080" Macos_aarch64] by simp

end
