(* ===== verification/Dns.thy ===== *)
theory Dns
  imports Net_Addr Str_Text
begin

text \<open>
  The DNS messages of \<open>src/net.rs\<close>: the query \<open>dns_query\<close> sends, and \<open>parse_dns_answers\<close> with
  \<open>skip_name\<close>, which read whatever datagram comes back. Offsets are natural numbers: they never exceed
  the length of the message by more than a record header, far below the range of \<open>usize\<close>. In
  \<open>parse_dns_answers\<close> the outer \<^term>\<open>None\<close> is an index out of range, the inner one the \<open>None\<close> of the
  source.
\<close>

section \<open>The query\<close>

fun push_labels :: "byte list \<Rightarrow> string list \<Rightarrow> Error + byte list" where
  "push_labels q [] = Inr q"
| "push_labels q (label # ls) =
     (if label = [] \<or> length label > 63 then Inl (error_from_kind InvalidInput)
      else push_labels (q @ [of_nat (length label)] @ bytes_of label) ls)"

definition dns_build :: "byte list \<Rightarrow> string \<Rightarrow> u16 \<Rightarrow> Error + byte list" where
  "dns_build ident host qtype =
     (case push_labels (ident @ [1, 0] @ [0, 1] @ [0, 0, 0, 0, 0, 0]) (split_char CHR ''.'' host) of
        Inl e \<Rightarrow> Inl e
      | Inr q \<Rightarrow> Inr (q @ [0] @ to_be_bytes 2 qtype @ to_be_bytes 2 (1 :: u16)))"

section \<open>The answer\<close>

function skip_name :: "byte list \<Rightarrow> nat \<Rightarrow> nat option" where
  "skip_name msg p =
     (case index_at msg p of
        None \<Rightarrow> None
      | Some len \<Rightarrow>
          if len AND 0xC0 = 0xC0 then Some (p + 2)
          else if len = 0 then Some (p + 1)
          else skip_name msg (p + (1 + unat len)))"
  by pat_completeness auto
termination
  by (relation "measure (\<lambda>(msg, p). length msg - p)") (auto simp: index_at_def split: if_splits)

declare skip_name.simps [simp del]

definition be16_at :: "byte list \<Rightarrow> nat \<Rightarrow> u16 option" where
  "be16_at msg p = do { a \<leftarrow> index_at msg p; b \<leftarrow> index_at msg (p + 1); Some (from_be_bytes [a, b]) }"

fun skip_questions :: "byte list \<Rightarrow> nat \<Rightarrow> nat \<Rightarrow> nat option" where
  "skip_questions msg 0 p = Some p"
| "skip_questions msg (Suc qd) p =
     (case skip_name msg p of None \<Rightarrow> None | Some p' \<Rightarrow> skip_questions msg qd (p' + 4))"

definition push_answer :: "byte list \<Rightarrow> u16 \<Rightarrow> u16 \<Rightarrow> nat \<Rightarrow> nat \<Rightarrow> IpAddr list \<Rightarrow> IpAddr list option" where
  "push_answer msg qtype rtype rdlen p out =
     (if rtype = qtype then
        if qtype = 1 \<and> rdlen = 4 then do {
          a \<leftarrow> index_at msg p; b \<leftarrow> index_at msg (p + 1);
          c \<leftarrow> index_at msg (p + 2); d \<leftarrow> index_at msg (p + 3);
          Some (out @ [IpV4 [a, b, c, d]])
        }
        else if qtype = 28 \<and> rdlen = 16 then do {
          b \<leftarrow> slice_range msg p (p + 16);
          Some (out @ [IpV6 b])
        }
        else Some out
      else Some out)"

fun answer_loop :: "byte list \<Rightarrow> u16 \<Rightarrow> nat \<Rightarrow> nat \<Rightarrow> IpAddr list \<Rightarrow> IpAddr list option option" where
  "answer_loop msg qtype 0 p out = Some (Some out)"
| "answer_loop msg qtype (Suc an) p0 out =
     (case skip_name msg p0 of
        None \<Rightarrow> Some None
      | Some p \<Rightarrow>
          if p + 10 > length msg then Some (Some out)
          else do {
            rtype \<leftarrow> be16_at msg p;
            rdlen \<leftarrow> be16_at msg (p + 8);
            (if p + 10 + unat rdlen > length msg then Some (Some out)
             else do {
               out' \<leftarrow> push_answer msg qtype rtype (unat rdlen) (p + 10) out;
               answer_loop msg qtype an (p + 10 + unat rdlen) out'
             })
          })"

definition parse_dns_answers :: "byte list \<Rightarrow> u16 \<Rightarrow> IpAddr list option option" where
  "parse_dns_answers msg qtype =
     (if length msg < 12 then Some None
      else do {
        qd \<leftarrow> be16_at msg 4;
        an \<leftarrow> be16_at msg 6;
        (case skip_questions msg (unat qd) 12 of
           None \<Rightarrow> Some None
         | Some p \<Rightarrow> answer_loop msg qtype (unat an) p [])
      })"

section \<open>No datagram makes the parser panic\<close>

lemma be16_at_Some: "p + 2 \<le> length msg \<Longrightarrow> be16_at msg p = Some (from_be_bytes [msg ! p, msg ! (p + 1)])"
  by (simp add: be16_at_def index_at_def)

text \<open>The addresses a query type can give.\<close>

definition answer_type :: "u16 \<Rightarrow> IpAddr \<Rightarrow> bool" where
  "answer_type qtype ip \<longleftrightarrow> ip_ok ip \<and> (case ip of IpV4 _ \<Rightarrow> qtype = 1 | IpV6 _ \<Rightarrow> qtype = 28)"

lemma push_answer_total:
  assumes "p + rdlen \<le> length msg"
  shows "\<exists>new. push_answer msg qtype rtype rdlen p out = Some (out @ new) \<and> length new \<le> 1 \<and> list_all (answer_type qtype) new"
  using assms by (auto simp: push_answer_def index_at_def slice_range_def answer_type_def)

lemma answer_loop_total:
  "\<exists>r. answer_loop msg qtype an p out = Some r \<and>
     (case r of None \<Rightarrow> True
      | Some ips \<Rightarrow> \<exists>new. ips = out @ new \<and> length new \<le> an \<and> list_all (answer_type qtype) new)"
proof (induction msg qtype an p out rule: answer_loop.induct)
  case (2 msg qtype an p0 out)
  show ?case
  proof (cases "skip_name msg p0")
    case (Some p)
    show ?thesis
    proof (cases "p + 10 > length msg")
      case False
      let ?rt = "from_be_bytes [msg ! p, msg ! (p + 1)] :: u16" and ?rl = "from_be_bytes [msg ! (p + 8), msg ! (p + 8 + 1)] :: u16"
      have hd: "be16_at msg p = Some ?rt" "be16_at msg (p + 8) = Some ?rl" using False by (intro be16_at_Some; simp)+
      show ?thesis
      proof (cases "p + 10 + unat ?rl > length msg")
        case False': False
        then obtain new where new: "push_answer msg qtype ?rt (unat ?rl) (p + 10) out = Some (out @ new)"
            "length new \<le> 1" "list_all (answer_type qtype) new"
          using push_answer_total [of "p + 10" "unat ?rl" msg qtype ?rt out] by auto
        then obtain r where r: "answer_loop msg qtype an (p + 10 + unat ?rl) (out @ new) = Some r"
            "case r of None \<Rightarrow> True
             | Some ips \<Rightarrow> \<exists>n'. ips = (out @ new) @ n' \<and> length n' \<le> an \<and> list_all (answer_type qtype) n'"
          using "2.IH" [OF Some False hd False'] by blast
        have "answer_loop msg qtype (Suc an) p0 out = Some r" using Some False hd False' new r by simp
        moreover have "case r of None \<Rightarrow> True
             | Some ips \<Rightarrow> \<exists>n'. ips = out @ n' \<and> length n' \<le> Suc an \<and> list_all (answer_type qtype) n'"
          using r(2) new(2,3) by (auto split: option.splits intro: exI [of _ "new @ n'" for n'])
        ultimately show ?thesis by blast
      qed (use Some False hd in simp)
    qed (use Some in simp)
  qed simp
qed simp

text \<open>C24: Whatever bytes a datagram holds, \<open>parse_dns_answers\<close> ends without an index out of range; what it
returns are well-formed addresses of the family asked for, no more than the answer count of the header.\<close>

theorem dns_parse_total:
  "case parse_dns_answers msg qtype of
     None \<Rightarrow> False
   | Some None \<Rightarrow> True
   | Some (Some ips) \<Rightarrow>
       list_all (answer_type qtype) ips \<and> length ips \<le> unat (from_be_bytes [msg ! 6, msg ! 7] :: u16)"
proof (cases "length msg < 12")
  case False
  let ?an = "from_be_bytes [msg ! 6, msg ! 7] :: u16"
  have hd: "be16_at msg 4 = Some (from_be_bytes [msg ! 4, msg ! 5])" "be16_at msg 6 = Some ?an"
    using False be16_at_Some [of 4 msg] be16_at_Some [of 6 msg] by simp_all
  show ?thesis
  proof (cases "skip_questions msg (unat (from_be_bytes [msg ! 4, msg ! 5] :: u16)) 12")
    case (Some p)
    then show ?thesis
      using hd False answer_loop_total [of msg qtype "unat ?an" p "[]"] by (auto simp: parse_dns_answers_def split: option.splits)
  qed (use hd False in \<open>simp add: parse_dns_answers_def\<close>)
qed (simp add: parse_dns_answers_def)

section \<open>Well-formed responses\<close>

text \<open>A name is a sequence of labels closed by the root or by a compression pointer.\<close>

record dns_name =
  n_labels :: "byte list list"
  n_pointer :: "(byte \<times> byte) option"

definition label_ok :: "byte list \<Rightarrow> bool" where
  "label_ok l \<longleftrightarrow> l \<noteq> [] \<and> length l \<le> 63"

definition encode_labels :: "byte list list \<Rightarrow> byte list" where
  "encode_labels ls = concat (map (\<lambda>l. of_nat (length l) # l) ls)"

definition encode_name :: "dns_name \<Rightarrow> byte list" where
  "encode_name n = encode_labels (n_labels n) @ (case n_pointer n of None \<Rightarrow> [0] | Some (hi, lo) \<Rightarrow> [0xC0 OR hi, lo])"

record dns_record =
  rr_name :: dns_name
  rr_type :: u16
  rr_class :: u16
  rr_ttl :: u32
  rr_data :: "byte list"

definition encode_record :: "dns_record \<Rightarrow> byte list" where
  "encode_record r = encode_name (rr_name r) @ to_be_bytes 2 (rr_type r) @ to_be_bytes 2 (rr_class r) @ to_be_bytes 4 (rr_ttl r)
     @ to_be_bytes 2 (of_nat (length (rr_data r)) :: u16) @ rr_data r"

definition encode_question :: "dns_name \<times> u16 \<times> u16 \<Rightarrow> byte list" where
  "encode_question q = (case q of (n, t, c) \<Rightarrow> encode_name n @ to_be_bytes 2 t @ to_be_bytes 2 c)"

definition name_ok :: "dns_name \<Rightarrow> bool" where
  "name_ok n \<longleftrightarrow> list_all label_ok (n_labels n)"

definition record_ok :: "dns_record \<Rightarrow> bool" where
  "record_ok r \<longleftrightarrow> name_ok (rr_name r) \<and> length (rr_data r) < 65536"

definition encode_response :: "byte list \<Rightarrow> byte list \<Rightarrow> (dns_name \<times> u16 \<times> u16) list \<Rightarrow> dns_record list \<Rightarrow> byte list \<Rightarrow> byte list" where
  "encode_response hdr counts qs rs rest =
     hdr @ to_be_bytes 2 (of_nat (length qs) :: u16) @ to_be_bytes 2 (of_nat (length rs) :: u16) @ counts
       @ concat (map encode_question qs) @ concat (map encode_record rs) @ rest"

definition record_addr :: "u16 \<Rightarrow> dns_record \<Rightarrow> IpAddr list" where
  "record_addr qtype r =
     (if rr_type r \<noteq> qtype then []
      else if qtype = 1 \<and> length (rr_data r) = 4 then [IpV4 (rr_data r)]
      else if qtype = 28 \<and> length (rr_data r) = 16 then [IpV6 (rr_data r)] else [])"

lemma label_byte:
  assumes "label_ok l"
  shows "unat (of_nat (length l) :: byte) = length l" "(of_nat (length l) :: byte) \<noteq> 0"
    "(of_nat (length l) :: byte) AND 0xC0 \<noteq> 0xC0"
proof -
  have n: "0 < length l" "length l < 64" using assms by (auto simp: label_ok_def)
  show u: "unat (of_nat (length l) :: byte) = length l" using n(2) by (simp add: unsigned_of_nat take_bit_nat_eq_self)
  then show "(of_nat (length l) :: byte) \<noteq> 0" using n(1) by (metis unat_0 less_irrefl)
  have "\<not> bit (unat (of_nat (length l) :: byte)) 7" unfolding u using n(2) by (simp add: bit_iff_odd)
  then have w: "\<not> bit (of_nat (length l) :: byte) 7" by (simp add: bit_unsigned_iff)
  have "bit (0xC0 :: byte) 7" by simp
  then show "(of_nat (length l) :: byte) AND 0xC0 \<noteq> 0xC0" using w by (metis bit_and_iff)
qed

lemma index_at_middle: "i = length pre \<Longrightarrow> index_at (pre @ x # post) i = Some x"
  by (simp add: index_at_def)

lemma skip_labels:
  assumes "list_all label_ok ls"
  shows "skip_name (pre @ encode_labels ls @ post) (length pre) =
     skip_name (pre @ encode_labels ls @ post) (length pre + length (encode_labels ls))"
  using assms
proof (induction ls arbitrary: pre)
  case (Cons l ls)
  let ?m = "pre @ encode_labels (l # ls) @ post" and ?pre = "pre @ of_nat (length l) # l"
  have l: "label_ok l" "list_all label_ok ls" using Cons.prems by auto
  have m: "?m = pre @ of_nat (length l) # (l @ encode_labels ls @ post)" "?m = ?pre @ encode_labels ls @ post"
    by (simp_all add: encode_labels_def)
  have "index_at ?m (length pre) = Some (of_nat (length l))" unfolding m(1) by (rule index_at_middle) simp
  then have "skip_name ?m (length pre) = skip_name ?m (length ?pre)"
    using label_byte [OF l(1)] by (subst skip_name.simps) (simp add: add.assoc)
  also have "\<dots> = skip_name ?m (length ?pre + length (encode_labels ls))" unfolding m(2) by (rule Cons.IH [OF l(2)])
  also have "length ?pre + length (encode_labels ls) = length pre + length (encode_labels (l # ls))"
    by (simp add: encode_labels_def)
  finally show ?case .
qed (simp add: encode_labels_def)

lemma pointer_byte: "(0xC0 OR hi :: byte) AND 0xC0 = 0xC0"
  by (simp add: and.commute bit.conj_disj_distrib bit_eq_iff bit_and_iff bit_or_iff)

text \<open>A name is skipped exactly, wherever it stands in the message.\<close>

lemma skip_name_encoded:
  assumes "name_ok n"
  shows "skip_name (pre @ encode_name n @ post) (length pre) = Some (length pre + length (encode_name n))"
proof -
  define tl where "tl = (case n_pointer n of None \<Rightarrow> [0] | Some (hi, lo) \<Rightarrow> [0xC0 OR hi, lo])"
  let ?ls = "encode_labels (n_labels n)"
  let ?m = "pre @ ?ls @ tl @ post"
  have "skip_name ?m (length pre) = skip_name ?m (length pre + length ?ls)"
    using skip_labels [of "n_labels n" pre "tl @ post"] assms by (simp add: name_ok_def)
  also have "\<dots> = Some (length pre + length ?ls + length tl)"
  proof (cases "n_pointer n")
    case None
    then have "index_at ?m (length pre + length ?ls) = Some 0"
      using index_at_middle [of "length pre + length ?ls" "pre @ ?ls" 0 post] by (simp add: tl_def)
    then show ?thesis using None by (subst skip_name.simps) (simp add: tl_def)
  next
    case (Some p)
    obtain hi lo where p: "p = (hi, lo)" by (cases p)
    then have "index_at ?m (length pre + length ?ls) = Some (0xC0 OR hi)"
      using Some index_at_middle [of "length pre + length ?ls" "pre @ ?ls" "0xC0 OR hi" "lo # post"] by (simp add: tl_def)
    then show ?thesis using Some p pointer_byte [of hi] by (subst skip_name.simps) (simp add: tl_def)
  qed
  finally show ?thesis by (simp add: encode_name_def tl_def)
qed

lemma be16_at_encoded: "i = length pre \<Longrightarrow> be16_at (pre @ to_be_bytes 2 (w :: u16) @ post) i = Some w"
proof -
  assume i: "i = length pre"
  obtain a b where ab: "to_be_bytes 2 w = [a, b]"
    using list_2 [OF length_to_be_bytes [of 2 w]] by metis
  have "from_be_bytes [a, b] = w" using be_port [of w] ab by simp
  then show ?thesis using ab i by (simp add: be16_at_def index_at_def nth_append)
qed

lemma push_answer_encoded:
  assumes "p = length pre"
  shows "push_answer (pre @ rr_data r @ post) qtype (rr_type r) (length (rr_data r)) p out = Some (out @ record_addr qtype r)"
proof -
  let ?d = "rr_data r"
  have "[(pre @ ?d @ post) ! p, (pre @ ?d @ post) ! (p + 1), (pre @ ?d @ post) ! (p + 2), (pre @ ?d @ post) ! (p + 3)] = ?d"
    if "length ?d = 4" using that list_4 [OF that] assms by (simp add: nth_append)
  then show ?thesis using assms by (auto simp: push_answer_def record_addr_def index_at_def slice_range_def)
qed

text \<open>One record: the loop passes over it and takes its address when it has the type asked for.\<close>

lemma answer_loop_record:
  assumes "record_ok r"
  shows "answer_loop (pre @ encode_record r @ post) qtype (Suc an) (length pre) out =
     answer_loop (pre @ encode_record r @ post) qtype an (length pre + length (encode_record r)) (out @ record_addr qtype r)"
proof -
  let ?n = "encode_name (rr_name r)" and ?t = "to_be_bytes 2 (rr_type r)" and ?l = "to_be_bytes 2 (of_nat (length (rr_data r)) :: u16)"
  let ?mid = "to_be_bytes 2 (rr_class r) @ to_be_bytes 4 (rr_ttl r)"
  let ?m = "pre @ encode_record r @ post" and ?p = "length pre + length ?n"
  have m: "?m = pre @ ?n @ (?t @ ?mid @ ?l @ rr_data r @ post)" "?m = (pre @ ?n) @ ?t @ (?mid @ ?l @ rr_data r @ post)"
      "?m = (pre @ ?n @ ?t @ ?mid) @ ?l @ (rr_data r @ post)" "?m = (pre @ ?n @ ?t @ ?mid @ ?l) @ rr_data r @ post"
    by (simp_all add: encode_record_def)
  have len: "length (rr_data r) < 65536" and n: "name_ok (rr_name r)" using assms by (auto simp: record_ok_def)
  have u: "unat (of_nat (length (rr_data r)) :: u16) = length (rr_data r)"
    using len by (simp add: unsigned_of_nat take_bit_nat_eq_self)
  have s: "skip_name ?m (length pre) = Some ?p" unfolding m(1) by (rule skip_name_encoded [OF n])
  have t: "be16_at ?m ?p = Some (rr_type r)" unfolding m(2) by (rule be16_at_encoded) simp
  have l: "be16_at ?m (?p + 8) = Some (of_nat (length (rr_data r)))" unfolding m(3) by (rule be16_at_encoded) simp
  have a: "push_answer ?m qtype (rr_type r) (length (rr_data r)) (?p + 10) out = Some (out @ record_addr qtype r)"
    unfolding m(4) by (rule push_answer_encoded) simp
  have e: "length (encode_record r) = length ?n + 10 + length (rr_data r)" by (simp add: encode_record_def)
  show ?thesis using s t l a e u by (simp add: add.assoc)
qed

lemma answer_loop_records:
  assumes "list_all record_ok rs"
  shows "answer_loop (pre @ concat (map encode_record rs) @ post) qtype (length rs) (length pre) out =
     Some (Some (out @ concat (map (record_addr qtype) rs)))"
  using assms
proof (induction rs arbitrary: pre out)
  case (Cons r rs)
  let ?m = "pre @ concat (map encode_record (r # rs)) @ post"
  have m: "?m = pre @ encode_record r @ (concat (map encode_record rs) @ post)"
      "?m = (pre @ encode_record r) @ concat (map encode_record rs) @ post" by simp_all
  have r: "record_ok r" "list_all record_ok rs" using Cons.prems by auto
  have "answer_loop ?m qtype (Suc (length rs)) (length pre) out =
      answer_loop ?m qtype (length rs) (length (pre @ encode_record r)) (out @ record_addr qtype r)"
    unfolding m(1) using answer_loop_record [OF r(1)] by simp
  also have "\<dots> = Some (Some ((out @ record_addr qtype r) @ concat (map (record_addr qtype) rs)))"
    unfolding m(2) by (rule Cons.IH [OF r(2)])
  finally show ?case by simp
qed simp

lemma skip_questions_encoded:
  assumes "list_all (\<lambda>(n, _). name_ok n) qs"
  shows "skip_questions (pre @ concat (map encode_question qs) @ post) (length qs) (length pre) =
     Some (length pre + length (concat (map encode_question qs)))"
  using assms
proof (induction qs arbitrary: pre)
  case (Cons q qs)
  obtain n t c where q: "q = (n, t, c)" by (cases q)
  let ?m = "pre @ concat (map encode_question (q # qs)) @ post"
  have m: "?m = pre @ encode_name n @ (to_be_bytes 2 t @ to_be_bytes 2 c @ concat (map encode_question qs) @ post)"
      "?m = (pre @ encode_question q) @ concat (map encode_question qs) @ post"
    using q by (simp_all add: encode_question_def)
  have s: "skip_name ?m (length pre) = Some (length pre + length (encode_name n))"
    unfolding m(1) by (rule skip_name_encoded) (use Cons.prems q in simp)
  have p: "length pre + length (encode_name n) + 4 = length (pre @ encode_question q)"
    using q by (simp add: encode_question_def)
  have "skip_questions ?m (Suc (length qs)) (length pre) = skip_questions ?m (length qs) (length (pre @ encode_question q))"
    using s p by (simp del: length_append)
  also have "\<dots> = Some (length (pre @ encode_question q) + length (concat (map encode_question qs)))"
    unfolding m(2) by (rule Cons.IH) (use Cons.prems in simp)
  finally show ?case by (simp add: add.assoc)
qed simp

text \<open>Every well-formed response is read completely: the addresses of its answers of the type asked for, in
order, whatever other records it carries.\<close>

lemma dns_parse_response:
  assumes "length hdr = 4" "length counts = 4" "length qs < 65536" "length rs < 65536"
    and "list_all (\<lambda>(n, _). name_ok n) qs" "list_all record_ok rs"
  shows "parse_dns_answers (encode_response hdr counts qs rs rest) qtype = Some (Some (concat (map (record_addr qtype) rs)))"
proof -
  let ?q = "to_be_bytes 2 (of_nat (length qs) :: u16)" and ?r = "to_be_bytes 2 (of_nat (length rs) :: u16)"
  let ?qs = "concat (map encode_question qs)" and ?rs = "concat (map encode_record rs)"
  let ?m = "encode_response hdr counts qs rs rest"
  have m: "?m = hdr @ ?q @ (?r @ counts @ ?qs @ ?rs @ rest)" "?m = (hdr @ ?q) @ ?r @ (counts @ ?qs @ ?rs @ rest)"
      "?m = (hdr @ ?q @ ?r @ counts) @ ?qs @ (?rs @ rest)" "?m = (hdr @ ?q @ ?r @ counts @ ?qs) @ ?rs @ rest"
    by (simp_all add: encode_response_def)
  have pre: "length (hdr @ ?q @ ?r @ counts) = 12" using assms(1,2) by simp
  have u: "unat (of_nat (length qs) :: u16) = length qs" "unat (of_nat (length rs) :: u16) = length rs"
    using assms(3,4) by (simp_all add: unsigned_of_nat take_bit_nat_eq_self)
  have c: "be16_at ?m 4 = Some (of_nat (length qs))" unfolding m(1) by (rule be16_at_encoded) (simp add: assms)
  have d: "be16_at ?m 6 = Some (of_nat (length rs))" unfolding m(2) by (rule be16_at_encoded) (simp add: assms)
  have s: "skip_questions ?m (length qs) 12 = Some (12 + length ?qs)"
    using skip_questions_encoded [OF assms(5), of "hdr @ ?q @ ?r @ counts" "?rs @ rest"] pre by (metis m(3))
  have "length (hdr @ ?q @ ?r @ counts @ ?qs) = 12 + length ?qs" using pre by simp
  then have a: "answer_loop ?m qtype (length rs) (12 + length ?qs) [] = Some (Some (concat (map (record_addr qtype) rs)))"
    using answer_loop_records [OF assms(6), of "hdr @ ?q @ ?r @ counts @ ?qs" rest qtype "[]"] m(4) by (metis append_Nil)
  have "\<not> length ?m < 12" unfolding m(3) using pre by simp
  then show ?thesis using c d s a u by (simp add: parse_dns_answers_def)
qed

section \<open>Query and response\<close>

definition host_label_ok :: "string \<Rightarrow> bool" where
  "host_label_ok l \<longleftrightarrow> l \<noteq> [] \<and> length l \<le> 63"

lemma push_labels_eq:
  "push_labels q ls =
     (if list_all host_label_ok ls then Inr (q @ encode_labels (map bytes_of ls)) else Inl (error_from_kind InvalidInput))"
  by (induction q ls rule: push_labels.induct) (auto simp: host_label_ok_def encode_labels_def length_bytes_of)

definition host_name :: "string \<Rightarrow> dns_name" where
  "host_name host = \<lparr> n_labels = map bytes_of (split_char CHR ''.'' host), n_pointer = None \<rparr>"

lemma host_name_ok: "list_all host_label_ok (split_char CHR ''.'' host) \<Longrightarrow> name_ok (host_name host)"
  by (auto simp: name_ok_def host_name_def label_ok_def host_label_ok_def list_all_iff length_bytes_of)
    (metis length_bytes_of length_0_conv)

lemma dns_build_eq:
  "dns_build ident host qtype =
     (if list_all host_label_ok (split_char CHR ''.'' host)
      then Inr (encode_response (ident @ [1, 0]) [0, 0, 0, 0] [(host_name host, qtype, 1)] [] [])
      else Inl (error_from_kind InvalidInput))"
proof -
  have "to_be_bytes 2 (1 :: u16) = [0, 1]" "to_be_bytes 2 (0 :: u16) = [0, 0]" by (simp_all add: to_be_bytes_def numeral_2_eq_2)
  then show ?thesis
    by (simp add: dns_build_def push_labels_eq encode_response_def encode_question_def encode_name_def host_name_def)
qed


text \<open>An alias followed by an address, both names compressed.\<close>

definition cname_answer :: "dns_record list" where
  "cname_answer =
     [\<lparr> rr_name = \<lparr> n_labels = [], n_pointer = Some (0, 12) \<rparr>, rr_type = 5, rr_class = 1, rr_ttl = 300, rr_data = [3, 119, 119, 119, 192, 12] \<rparr>,
      \<lparr> rr_name = \<lparr> n_labels = [[119, 119, 119]], n_pointer = Some (0, 12) \<rparr>, rr_type = 1, rr_class = 1, rr_ttl = 60, rr_data = [93, 184, 216, 34] \<rparr>]"


end
