(* ===== verification/Sockets.thy ===== *)
theory Sockets
  imports Descriptors Dns
begin

text \<open>
  \<open>src/net.rs\<close>: sockets, listeners, datagrams, name resolution and socket options. A socket is its
  descriptor; where the source drops one the model closes it. Operations take the kernel's state and return
  the new one; the outer \<^term>\<open>None\<close> is a panic or a loop that does not end.

  \<open>resolve\<close> calls \<open>dns_query\<close>, which binds a datagram socket to an address given as text and so calls
  \<open>resolve\<close> again. The recursion is unrolled: the functions between the two calls take the resolver as
  an argument, \<open>resolve_depth\<close> iterates, and \<open>resolve_depth_stable\<close> shows that two levels are all that
  is ever used.
\<close>

section \<open>Constants\<close>

definition SOCK_STREAM :: i32 where "SOCK_STREAM = 1"
definition SOCK_DGRAM :: i32 where "SOCK_DGRAM = 2"
definition SHUT_RD :: i32 where "SHUT_RD = 0"
definition SHUT_WR :: i32 where "SHUT_WR = 1"
definition SHUT_RDWR :: i32 where "SHUT_RDWR = 2"

definition SOL_SOCKET :: "target \<Rightarrow> i32" where "SOL_SOCKET t = (if is_macos t then 0xFFFF else 1)"
definition SO_REUSEADDR :: "target \<Rightarrow> i32" where "SO_REUSEADDR t = (if is_macos t then 4 else 2)"

section \<open>Sockets\<close>

type_synonym socket = i32

definition socket_drop :: "'k platform \<Rightarrow> 'k \<Rightarrow> socket \<Rightarrow> 'k" where
  "socket_drop P k s = fst (sys_close P k s)"

definition socket_new :: "'k platform \<Rightarrow> 'k \<Rightarrow> i32 \<Rightarrow> i32 \<Rightarrow> 'k \<times> (Error + socket)" where
  "socket_new P k family ty = (case sys_socket P k family ty 0 of (k', r) \<Rightarrow> (k', io_result r))"

text \<open>\<open>getsockname\<close> and \<open>getpeername\<close> into a buffer of 28 zero bytes.\<close>

definition socket_name ::
    "('k platform \<Rightarrow> 'k \<Rightarrow> i32 \<Rightarrow> byte list \<Rightarrow> u32 \<Rightarrow> 'k \<times> byte list \<times> u32 \<times> (Errno + unit)) \<Rightarrow>
     'k platform \<Rightarrow> 'k \<Rightarrow> socket \<Rightarrow> 'k \<times> (Error + SocketAddr)" where
  "socket_name call P k s =
     (case call P k s (replicate 28 0) 28 of
        (k', _, _, Inl e) \<Rightarrow> (k', Inl (error_from_errno e))
      | (k', b, _, Inr _) \<Rightarrow>
          (k', case read_sockaddr (p_target P) b of
                 Some a \<Rightarrow> Inr a | None \<Rightarrow> Inl (error_from_kind InvalidData)))"

definition socket_local_addr :: "'k platform \<Rightarrow> 'k \<Rightarrow> socket \<Rightarrow> 'k \<times> (Error + SocketAddr)" where
  "socket_local_addr = socket_name sys_getsockname"

section \<open>TCP streams\<close>

definition connect_one :: "'k platform \<Rightarrow> 'k \<Rightarrow> SocketAddr \<Rightarrow> 'k \<times> (Error + socket)" where
  "connect_one P k addr =
     (case socket_new P k (family_of (p_target P) addr) SOCK_STREAM of
        (k1, Inl e) \<Rightarrow> (k1, Inl e)
      | (k1, Inr sock) \<Rightarrow>
          (case write_sockaddr (p_target P) addr of (sa, len) \<Rightarrow>
             (case sys_connect P k1 sock sa len of
                (k2, Inl e) \<Rightarrow> (socket_drop P k2 sock, Inl (error_from_errno e))
              | (k2, Inr _) \<Rightarrow> (k2, Inr sock))))"

text \<open>The loops of \<open>connect\<close> and \<open>bind\<close>: the first address that works, else the last error.\<close>

fun first_addr :: "('k \<Rightarrow> SocketAddr \<Rightarrow> 'k \<times> (Error + socket)) \<Rightarrow> 'k \<Rightarrow> Error \<Rightarrow> SocketAddr list \<Rightarrow> 'k \<times> (Error + socket)" where
  "first_addr try k err [] = (k, Inl err)"
| "first_addr try k err (addr # addrs) =
     (case try k addr of
        (k', Inr s) \<Rightarrow> (k', Inr s)
      | (k', Inl e) \<Rightarrow> first_addr try k' e addrs)"

definition tcp_peer_addr :: "'k platform \<Rightarrow> 'k \<Rightarrow> socket \<Rightarrow> 'k \<times> (Error + SocketAddr)" where
  "tcp_peer_addr = socket_name sys_getpeername"

datatype Shutdown = Shut_Read | Shut_Write | Shut_Both

definition tcp_shutdown :: "'k platform \<Rightarrow> 'k \<Rightarrow> socket \<Rightarrow> Shutdown \<Rightarrow> 'k \<times> (Error + unit)" where
  "tcp_shutdown P k s how =
     (let h = (case how of Shut_Read \<Rightarrow> SHUT_RD | Shut_Write \<Rightarrow> SHUT_WR | Shut_Both \<Rightarrow> SHUT_RDWR) in
      case sys_shutdown P k s h of (k', r) \<Rightarrow> (k', io_result r))"

definition tcp_read :: "'k platform \<Rightarrow> socket \<Rightarrow> 'k \<Rightarrow> byte list \<Rightarrow> ('k \<times> byte list \<times> (Error + nat)) option" where
  "tcp_read P s k buf = fd_read P s k buf"

definition tcp_write :: "'k platform \<Rightarrow> socket \<Rightarrow> 'k \<Rightarrow> byte list \<Rightarrow> ('k \<times> (Error + nat)) option" where
  "tcp_write P s k buf = fd_write P s k buf"

section \<open>TCP listeners\<close>

definition bind_one :: "'k platform \<Rightarrow> 'k \<Rightarrow> SocketAddr \<Rightarrow> 'k \<times> (Error + socket)" where
  "bind_one P k addr =
     (case socket_new P k (family_of (p_target P) addr) SOCK_STREAM of
        (k1, Inl e) \<Rightarrow> (k1, Inl e)
      | (k1, Inr sock) \<Rightarrow>
          (case sys_setsockopt P k1 sock (SOL_SOCKET (p_target P)) (SO_REUSEADDR (p_target P)) (to_le_bytes 4 (1 :: i32)) 4 of
             (k2, _) \<Rightarrow>
               (case write_sockaddr (p_target P) addr of (sa, len) \<Rightarrow>
                  (case sys_bind P k2 sock sa len of
                     (k3, Inl e) \<Rightarrow> (socket_drop P k3 sock, Inl (error_from_errno e))
                   | (k3, Inr _) \<Rightarrow>
                       (case sys_listen P k3 sock 128 of
                          (k4, Inl e) \<Rightarrow> (socket_drop P k4 sock, Inl (error_from_errno e))
                        | (k4, Inr _) \<Rightarrow> (k4, Inr sock))))))"

definition unspecified :: SocketAddr where
  "unspecified = V4 [0, 0, 0, 0] 0"

partial_function (option) accept_loop ::
    "'k platform \<Rightarrow> 'k \<Rightarrow> socket \<Rightarrow> byte list \<Rightarrow> u32 \<Rightarrow> ('k \<times> byte list \<times> (Error + socket)) option" where
  "accept_loop P k s b len =
     (case sys_accept P k s b len of
        (k', b', len', Inl e) \<Rightarrow>
          (if e = Errno 4 then accept_loop P k' s b' len' else Some (k', b', Inl (error_from_errno e)))
      | (k', b', len', Inr fd) \<Rightarrow> Some (k', b', Inr fd))"

definition tcp_accept :: "'k platform \<Rightarrow> 'k \<Rightarrow> socket \<Rightarrow> ('k \<times> (Error + socket \<times> SocketAddr)) option" where
  "tcp_accept P k s = do {
     (k', b, r) \<leftarrow> accept_loop P k s (replicate 28 0) 28;
     Some (k', map_ok (\<lambda>fd. (fd, case read_sockaddr (p_target P) b of Some a \<Rightarrow> a | None \<Rightarrow> unspecified)) r)
   }"

definition incoming_next :: "'k platform \<Rightarrow> 'k \<Rightarrow> socket \<Rightarrow> ('k \<times> (Error + socket)) option" where
  "incoming_next P k s = do { (k', r) \<leftarrow> tcp_accept P k s; Some (k', map_ok fst r) }"

section \<open>Datagrams\<close>

definition udp_bind_one :: "'k platform \<Rightarrow> 'k \<Rightarrow> SocketAddr \<Rightarrow> 'k \<times> (Error + socket)" where
  "udp_bind_one P k addr =
     (case socket_new P k (family_of (p_target P) addr) SOCK_DGRAM of
        (k1, Inl e) \<Rightarrow> (k1, Inl e)
      | (k1, Inr sock) \<Rightarrow>
          (case write_sockaddr (p_target P) addr of (sa, len) \<Rightarrow>
             (case sys_bind P k1 sock sa len of
                (k2, Inl e) \<Rightarrow> (socket_drop P k2 sock, Inl (error_from_errno e))
              | (k2, Inr _) \<Rightarrow> (k2, Inr sock))))"

definition udp_connect_addr :: "'k platform \<Rightarrow> 'k \<Rightarrow> socket \<Rightarrow> SocketAddr list \<Rightarrow> 'k \<times> (Error + unit)" where
  "udp_connect_addr P k s addrs =
     (case addrs of
        [] \<Rightarrow> (k, Inl (error_from_kind InvalidInput))
      | addr # _ \<Rightarrow>
          (case write_sockaddr (p_target P) addr of (sa, len) \<Rightarrow>
             (case sys_connect P k s sa len of (k', r) \<Rightarrow> (k', io_result r))))"

definition udp_send :: "'k platform \<Rightarrow> 'k \<Rightarrow> socket \<Rightarrow> byte list \<Rightarrow> 'k \<times> (Error + nat)" where
  "udp_send P k s buf = (case sys_sendto P k s buf 0 None 0 of (k', r) \<Rightarrow> (k', map_ok unat (io_result r)))"

definition udp_recv :: "'k platform \<Rightarrow> 'k \<Rightarrow> socket \<Rightarrow> byte list \<Rightarrow> 'k \<times> byte list \<times> (Error + nat)" where
  "udp_recv P k s buf =
     (case sys_recvfrom P k s buf 0 None of (k', buf', _, r) \<Rightarrow> (k', buf', map_ok unat (io_result r)))"

definition udp_send_addr :: "'k platform \<Rightarrow> 'k \<Rightarrow> socket \<Rightarrow> byte list \<Rightarrow> SocketAddr list \<Rightarrow> 'k \<times> (Error + nat)" where
  "udp_send_addr P k s buf addrs =
     (case addrs of
        [] \<Rightarrow> (k, Inl (error_from_kind InvalidInput))
      | addr # _ \<Rightarrow>
          (case write_sockaddr (p_target P) addr of (sa, len) \<Rightarrow>
             (case sys_sendto P k s buf 0 (Some sa) len of (k', r) \<Rightarrow> (k', map_ok unat (io_result r)))))"

definition udp_recv_from :: "'k platform \<Rightarrow> 'k \<Rightarrow> socket \<Rightarrow> byte list \<Rightarrow> 'k \<times> byte list \<times> (Error + nat \<times> SocketAddr)" where
  "udp_recv_from P k s buf =
     (case sys_recvfrom P k s buf 0 (Some (replicate 28 0, 28)) of
        (k', buf', _, Inl e) \<Rightarrow> (k', buf', Inl (error_from_errno e))
      | (k', buf', from, Inr n) \<Rightarrow>
          (k', buf', Inr (unat n,
             case read_sockaddr (p_target P) (case from of Some (b, _) \<Rightarrow> b | None \<Rightarrow> []) of
               Some a \<Rightarrow> a | None \<Rightarrow> unspecified)))"

section \<open>Name resolution\<close>

text \<open>The lines of \<open>/etc/hosts\<close>: an address, then the names it stands for, up to a comment.\<close>

definition hosts_line :: "string \<Rightarrow> string \<Rightarrow> IpAddr option" where
  "hosts_line host line =
     (case split_whitespace (hd (split_char CHR ''#'' line)) of
        [] \<Rightarrow> None
      | ip # names \<Rightarrow> if list_ex (\<lambda>name. eq_ignore_ascii_case name host) names then parse_ip ip else None)"

fun hosts_search :: "string \<Rightarrow> string list \<Rightarrow> IpAddr option" where
  "hosts_search host [] = None"
| "hosts_search host (line # lines) =
     (case hosts_line host line of Some ip \<Rightarrow> Some ip | None \<Rightarrow> hosts_search host lines)"

definition hosts_lookup :: "'k platform \<Rightarrow> 'k \<Rightarrow> string \<Rightarrow> ('k \<times> IpAddr option) option" where
  "hosts_lookup P k host = do {
     (k', r) \<leftarrow> fs_read_to_string P k ''/etc/hosts'';
     Some (k', case r of Inl _ \<Rightarrow> None | Inr text \<Rightarrow> hosts_search host (str_lines (str_of text)))
   }"

definition resolv_line :: "string \<Rightarrow> IpAddr option" where
  "resolv_line line =
     (case str_strip_prefix ''nameserver'' (str_trim line) of
        None \<Rightarrow> None | Some rest \<Rightarrow> parse_ip (str_trim rest))"

fun resolv_search :: "string list \<Rightarrow> IpAddr option" where
  "resolv_search [] = None"
| "resolv_search (line # lines) = (case resolv_line line of Some ip \<Rightarrow> Some ip | None \<Rightarrow> resolv_search lines)"

definition nameserver :: "'k platform \<Rightarrow> 'k \<Rightarrow> ('k \<times> IpAddr option) option" where
  "nameserver P k = do {
     (k', r) \<leftarrow> fs_read_to_string P k ''/etc/resolv.conf'';
     Some (k', case r of Inl _ \<Rightarrow> None | Inr text \<Rightarrow> resolv_search (str_lines (str_of text)))
   }"

type_synonym 'k resolver = "'k \<Rightarrow> string \<Rightarrow> u16 \<Rightarrow> ('k \<times> (Error + SocketAddr list)) option"

definition str_to_socket_addrs :: "'k resolver \<Rightarrow> 'k \<Rightarrow> string \<Rightarrow> ('k \<times> (Error + SocketAddr list)) option" where
  "str_to_socket_addrs rs k self =
     (case rsplit_once CHR '':'' self of
        None \<Rightarrow> Some (k, Inl (error_new InvalidInput ''missing port in address''))
      | Some (host, port) \<Rightarrow>
          (case parse_u16 port of
             None \<Rightarrow> Some (k, Inl (error_new InvalidInput ''invalid port''))
           | Some port \<Rightarrow> rs k (trim_end_char CHR '']'' (trim_start_char CHR ''['' host)) port))"

text \<open>What can be turned into addresses, one constructor per implementation of \<open>ToSocketAddrs\<close>.\<close>

datatype addr_arg =
    A_Addr SocketAddr
  | A_V4 "byte list" u16
  | A_V6 "byte list" u16 u32 u32
  | A_Ip IpAddr u16
  | A_Ip4 "byte list" u16
  | A_Str string
  | A_Host string u16

fun to_socket_addrs_with :: "'k resolver \<Rightarrow> 'k \<Rightarrow> addr_arg \<Rightarrow> ('k \<times> (Error + SocketAddr list)) option" where
  "to_socket_addrs_with rs k (A_Addr a) = Some (k, Inr [a])"
| "to_socket_addrs_with rs k (A_V4 ip port) = Some (k, Inr [V4 ip port])"
| "to_socket_addrs_with rs k (A_V6 ip port flow scope) = Some (k, Inr [V6 ip port flow scope])"
| "to_socket_addrs_with rs k (A_Ip ip port) = Some (k, Inr [socket_addr_new ip port])"
| "to_socket_addrs_with rs k (A_Ip4 ip port) = Some (k, Inr [V4 ip port])"
| "to_socket_addrs_with rs k (A_Str s) = str_to_socket_addrs rs k s"
| "to_socket_addrs_with rs k (A_Host host port) = rs k host port"

text \<open>An operation on the addresses of an argument, for the callers of \<open>to_socket_addrs\<close>.\<close>

definition on_addrs ::
    "'k resolver \<Rightarrow> 'k \<Rightarrow> addr_arg \<Rightarrow> ('k \<Rightarrow> SocketAddr list \<Rightarrow> 'k \<times> (Error + 'a)) \<Rightarrow> ('k \<times> (Error + 'a)) option" where
  "on_addrs rs k arg f = do {
     (k', r) \<leftarrow> to_socket_addrs_with rs k arg;
     Some (case r of Inl e \<Rightarrow> (k', Inl e) | Inr addrs \<Rightarrow> f k' addrs)
   }"

definition udp_bind_with :: "'k platform \<Rightarrow> 'k resolver \<Rightarrow> 'k \<Rightarrow> addr_arg \<Rightarrow> ('k \<times> (Error + socket)) option" where
  "udp_bind_with P rs k arg = on_addrs rs k arg (\<lambda>k'. first_addr (udp_bind_one P) k' (error_from_kind InvalidInput))"

definition udp_send_to_with :: "'k platform \<Rightarrow> 'k resolver \<Rightarrow> 'k \<Rightarrow> socket \<Rightarrow> byte list \<Rightarrow> addr_arg \<Rightarrow> ('k \<times> (Error + nat)) option" where
  "udp_send_to_with P rs k s buf arg = on_addrs rs k arg (\<lambda>k'. udp_send_addr P k' s buf)"

text \<open>The exchange of \<open>dns_query\<close> on a bound socket: send, receive, parse.\<close>

definition dns_talk :: "'k platform \<Rightarrow> 'k resolver \<Rightarrow> 'k \<Rightarrow> socket \<Rightarrow> IpAddr \<Rightarrow> byte list \<Rightarrow> u16 \<Rightarrow> ('k \<times> (Error + IpAddr list)) option" where
  "dns_talk P rs k sock ns q qtype = do {
     (k1, sent) \<leftarrow> udp_send_to_with P rs k sock q (A_Addr (socket_addr_new ns 53));
     (case sent of
        Inl e \<Rightarrow> Some (k1, Inl e)
      | Inr _ \<Rightarrow>
          (case udp_recv P k1 sock (replicate 1500 0) of
             (k2, _, Inl e) \<Rightarrow> Some (k2, Inl e)
           | (k2, buf, Inr n) \<Rightarrow> do {
               msg \<leftarrow> slice_range buf 0 n;
               r \<leftarrow> parse_dns_answers msg qtype;
               Some (k2, case r of Some ips \<Rightarrow> Inr ips | None \<Rightarrow> Inl (error_from_kind InvalidData))
             }))
   }"

definition dns_query :: "'k platform \<Rightarrow> 'k resolver \<Rightarrow> 'k \<Rightarrow> IpAddr \<Rightarrow> string \<Rightarrow> u16 \<Rightarrow> ('k \<times> (Error + IpAddr list)) option" where
  "dns_query P rs k ns host qtype = do {
     (k1, ident, _) \<leftarrow> sys_getrandom P k [0, 0];
     (case dns_build ident host qtype of
        Inl e \<Rightarrow> Some (k1, Inl e)
      | Inr q \<Rightarrow> do {
          (k2, b) \<leftarrow> udp_bind_with P rs k1 (A_Str (case ns of IpV4 _ \<Rightarrow> ''0.0.0.0:0'' | IpV6 _ \<Rightarrow> ''[::]:0''));
          (case b of
             Inl e \<Rightarrow> Some (k2, Inl e)
           | Inr sock \<Rightarrow> do { (k3, r) \<leftarrow> dns_talk P rs k2 sock ns q qtype; Some (socket_drop P k3 sock, r) })
        })
   }"

definition vec_one :: "SocketAddr \<Rightarrow> SocketAddr list" where
  "vec_one a = [] @ [a]"

text \<open>The addresses of one query, none when it failed.\<close>

definition query_addrs :: "Error + IpAddr list \<Rightarrow> u16 \<Rightarrow> SocketAddr list" where
  "query_addrs r port = (case r of Inl _ \<Rightarrow> [] | Inr ips \<Rightarrow> map (\<lambda>ip. socket_addr_new ip port) ips)"

definition dns_lookup :: "'k platform \<Rightarrow> 'k resolver \<Rightarrow> 'k \<Rightarrow> IpAddr \<Rightarrow> string \<Rightarrow> u16 \<Rightarrow> ('k \<times> SocketAddr list) option" where
  "dns_lookup P rs k ns host port = do {
     (k1, v4) \<leftarrow> dns_query P rs k ns host 1;
     (if query_addrs v4 port = [] then do {
        (k2, v6) \<leftarrow> dns_query P rs k1 ns host 28;
        Some (k2, query_addrs v6 port)
      }
      else Some (k1, query_addrs v4 port))
   }"

definition resolve_with :: "'k platform \<Rightarrow> 'k resolver \<Rightarrow> 'k \<Rightarrow> string \<Rightarrow> u16 \<Rightarrow> ('k \<times> (Error + SocketAddr list)) option" where
  "resolve_with P rs k host port =
     (case parse_ip host of
        Some ip \<Rightarrow> Some (k, Inr (vec_one (socket_addr_new ip port)))
      | None \<Rightarrow> do {
          (k1, h) \<leftarrow> hosts_lookup P k host;
          (case h of
             Some ip \<Rightarrow> Some (k1, Inr (vec_one (socket_addr_new ip port)))
           | None \<Rightarrow> do {
               (k2, ns) \<leftarrow> nameserver P k1;
               (k3, out) \<leftarrow> (case ns of None \<Rightarrow> Some (k2, []) | Some ip \<Rightarrow> dns_lookup P rs k2 ip host port);
               Some (k3, if out = [] then Inl (error_new NotFound ''failed to resolve host'') else Inr out)
             })
        })"

fun resolve_depth :: "nat \<Rightarrow> 'k platform \<Rightarrow> 'k resolver" where
  "resolve_depth 0 P k host port = None"
| "resolve_depth (Suc n) P k host port = resolve_with P (resolve_depth n P) k host port"

definition resolve :: "'k platform \<Rightarrow> 'k resolver" where
  "resolve P = resolve_depth 2 P"

section \<open>The public operations\<close>

definition to_socket_addrs :: "'k platform \<Rightarrow> 'k \<Rightarrow> addr_arg \<Rightarrow> ('k \<times> (Error + SocketAddr list)) option" where
  "to_socket_addrs P = to_socket_addrs_with (resolve P)"

definition tcp_connect :: "'k platform \<Rightarrow> 'k \<Rightarrow> addr_arg \<Rightarrow> ('k \<times> (Error + socket)) option" where
  "tcp_connect P k arg = on_addrs (resolve P) k arg (\<lambda>k'. first_addr (connect_one P) k' (error_from_kind InvalidInput))"

definition tcp_bind :: "'k platform \<Rightarrow> 'k \<Rightarrow> addr_arg \<Rightarrow> ('k \<times> (Error + socket)) option" where
  "tcp_bind P k arg = on_addrs (resolve P) k arg (\<lambda>k'. first_addr (bind_one P) k' (error_from_kind InvalidInput))"

definition udp_bind :: "'k platform \<Rightarrow> 'k \<Rightarrow> addr_arg \<Rightarrow> ('k \<times> (Error + socket)) option" where
  "udp_bind P = udp_bind_with P (resolve P)"

definition udp_connect :: "'k platform \<Rightarrow> 'k \<Rightarrow> socket \<Rightarrow> addr_arg \<Rightarrow> ('k \<times> (Error + unit)) option" where
  "udp_connect P k s arg = on_addrs (resolve P) k arg (\<lambda>k'. udp_connect_addr P k' s)"

definition udp_send_to :: "'k platform \<Rightarrow> 'k \<Rightarrow> socket \<Rightarrow> byte list \<Rightarrow> addr_arg \<Rightarrow> ('k \<times> (Error + nat)) option" where
  "udp_send_to P = udp_send_to_with P (resolve P)"

section \<open>The resolver satisfies its equation\<close>

lemma numeric_any:
  "rsplit_once CHR '':'' ''0.0.0.0:0'' = Some (''0.0.0.0'', ''0'')" "rsplit_once CHR '':'' ''[::]:0'' = Some (''[::]'', ''0'')"
  "trim_end_char CHR '']'' (trim_start_char CHR ''['' ''0.0.0.0'') = ''0.0.0.0''"
  "trim_end_char CHR '']'' (trim_start_char CHR ''['' ''[::]'') = ''::''" "parse_u16 ''0'' = Some 0"
  by (simp_all add: Let_def rsplit_once_def trim_end_char_def trim_start_char_def parse_u16_def is_digit_def digit_of_def digits_value_def)

lemma resolve_depth_numeric:
  "parse_ip host = Some ip \<Longrightarrow> resolve_depth (Suc n) P k host port = Some (k, Inr [socket_addr_new ip port])"
  by (simp add: resolve_with_def vec_one_def)

text \<open>The text \<open>dns_query\<close> binds to is a numeric address, which every level resolves alike.\<close>

lemma bind_any_depth: "udp_bind_with P (resolve_depth (Suc n) P) k (A_Str (case ns of IpV4 _ \<Rightarrow> ''0.0.0.0:0'' | IpV6 _ \<Rightarrow> ''[::]:0'')) =
    Some (first_addr (udp_bind_one P) k (error_from_kind InvalidInput) [case ns of IpV4 _ \<Rightarrow> V4 [0, 0, 0, 0] 0 | IpV6 _ \<Rightarrow> V6 (replicate 16 0) 0 0 0])"
  by (cases ns)
    (simp_all del: resolve_depth.simps first_addr.simps
      add: udp_bind_with_def on_addrs_def str_to_socket_addrs_def numeric_any resolve_depth_numeric [OF parse_ip_any] resolve_depth_numeric [OF parse_ip_any6])

lemma dns_query_depth: "dns_query P (resolve_depth (Suc n) P) k ns host qtype = dns_query P (resolve_depth 1 P) k ns host qtype"
  unfolding dns_query_def dns_talk_def udp_send_to_with_def on_addrs_def to_socket_addrs_with.simps One_nat_def bind_any_depth ..

lemma resolve_depth_stable: "resolve_depth (Suc (Suc n)) P k host port = resolve P k host port"
  unfolding resolve_def numeral_2_eq_2 resolve_depth.simps(2) [of "Suc _"] resolve_with_def dns_lookup_def
    dns_query_depth [of P n] One_nat_def ..

text \<open>\<open>resolve\<close> is the recursive function of the source.\<close>

lemma resolve_rec: "resolve P k host port = resolve_with P (resolve P) k host port"
proof -
  have "resolve P = resolve_depth (Suc (Suc 0)) P" by (simp add: resolve_def numeral_2_eq_2)
  then have "resolve_with P (resolve P) k host port = resolve_depth (Suc (Suc (Suc 0))) P k host port" by simp
  also have "\<dots> = resolve P k host port" by (rule resolve_depth_stable)
  finally show ?thesis ..
qed

section \<open>No operation leaks a descriptor\<close>

lemma getrandom_fds:
  assumes "fd_contract P tbl ends" "sys_getrandom P k buf = Some (k', buf', r)"
  shows "tbl k' = tbl k"
proof -
  define J where "J = (\<lambda>x :: ((_ \<times> _) \<times> byte list) \<times> nat. \<lambda>y :: _ \<times> byte list \<times> (Errno + unit).
    fd_contract (fst (fst (fst x))) tbl ends \<longrightarrow> tbl (fst y) = tbl (snd (fst (fst x))))"
  have "J (((P, k), buf), off) y" if "getrandom_linux P k buf off = Some y" for P k buf off y
    by (rule getrandom_linux.raw_induct [of J, OF _ that])
      (fastforce simp: J_def Let_def fd_neutral_def split: prod.splits sum.splits if_splits dest: fd_call_neutral)
  moreover have "J (((P, k), buf), off) y" if "getrandom_macos P k buf off = Some y" for P k buf off y
    by (rule getrandom_macos.raw_induct [of J, OF _ that])
      (fastforce simp: J_def Let_def fd_neutral_def split: prod.splits sum.splits if_splits dest: fd_call_neutral)
  ultimately show ?thesis using assms by (fastforce simp: J_def sys_getrandom_def split: if_splits)
qed

lemma socket_drop_fds: "fd_contract P tbl ends \<Longrightarrow> tbl (socket_drop P k s) = (tbl k)(s := None)"
  unfolding socket_drop_def using sys_close_fds prod.collapse by metis

lemma socket_new_fds: "fd_contract P tbl ends \<Longrightarrow> socket_new P k f t = (k', r) \<Longrightarrow> fd_gain (tbl k) (tbl k') r"
  by (auto simp: socket_new_def dest!: sys_socket_fds split: prod.splits)

text \<open>A socket made and dropped leaves the table as it was.\<close>

lemma dropped_fds:
  "fd_contract P tbl ends \<Longrightarrow> fd_fresh T (tbl k1) s \<Longrightarrow> tbl k2 = tbl k1 \<Longrightarrow> tbl (socket_drop P k2 s) = T"
  using socket_drop_fds [of P tbl ends k2 s] fd_fresh_close [of T "tbl k1" s] by simp

lemma connect_one_fds:
  assumes "fd_contract P tbl ends" "connect_one P k addr = (k', r)"
  shows "fd_gain (tbl k) (tbl k') r"
proof -
  obtain k1 r1 where s: "socket_new P k (family_of (p_target P) addr) SOCK_STREAM = (k1, r1)" by force
  note g = socket_new_fds [OF assms(1) s]
  show ?thesis
  proof (cases r1)
    case (Inr sock)
    obtain sa len where w: "write_sockaddr (p_target P) addr = (sa, len)" by force
    obtain k2 r2 where c: "sys_connect P k1 sock sa len = (k2, r2)" by force
    have t: "tbl k2 = tbl k1" by (rule neutral_calls_fds(5) [OF assms(1) c])
    show ?thesis using assms(2) s Inr w c t g dropped_fds [OF assms(1), of "tbl k" k1 sock k2] by (cases r2) (auto simp: connect_one_def)
  qed (use assms(2) s g in \<open>auto simp: connect_one_def\<close>)
qed

lemma udp_bind_one_fds:
  assumes "fd_contract P tbl ends" "udp_bind_one P k addr = (k', r)"
  shows "fd_gain (tbl k) (tbl k') r"
proof -
  obtain k1 r1 where s: "socket_new P k (family_of (p_target P) addr) SOCK_DGRAM = (k1, r1)" by force
  note g = socket_new_fds [OF assms(1) s]
  show ?thesis
  proof (cases r1)
    case (Inr sock)
    obtain sa len where w: "write_sockaddr (p_target P) addr = (sa, len)" by force
    obtain k2 r2 where c: "sys_bind P k1 sock sa len = (k2, r2)" by force
    have t: "tbl k2 = tbl k1" by (rule neutral_calls_fds(6) [OF assms(1) c])
    show ?thesis using assms(2) s Inr w c t g dropped_fds [OF assms(1), of "tbl k" k1 sock k2] by (cases r2) (auto simp: udp_bind_one_def)
  qed (use assms(2) s g in \<open>auto simp: udp_bind_one_def\<close>)
qed

lemma bind_one_fds:
  assumes "fd_contract P tbl ends" "bind_one P k addr = (k', r)"
  shows "fd_gain (tbl k) (tbl k') r"
proof -
  obtain k1 r1 where s: "socket_new P k (family_of (p_target P) addr) SOCK_STREAM = (k1, r1)" by force
  note g = socket_new_fds [OF assms(1) s]
  show ?thesis
  proof (cases r1)
    case (Inr sock)
    obtain sa len where w: "write_sockaddr (p_target P) addr = (sa, len)" by force
    obtain k2 r2 where o: "sys_setsockopt P k1 sock (SOL_SOCKET (p_target P)) (SO_REUSEADDR (p_target P)) (to_le_bytes 4 (1 :: i32)) 4 = (k2, r2)" by force
    obtain k3 r3 where b: "sys_bind P k2 sock sa len = (k3, r3)" by force
    obtain k4 r4 where l: "sys_listen P k3 sock 128 = (k4, r4)" by force
    have t: "tbl k3 = tbl k1" "tbl k4 = tbl k1"
      using neutral_calls_fds(8) [OF assms(1) o] neutral_calls_fds(6) [OF assms(1) b] neutral_calls_fds(7) [OF assms(1) l] by simp_all
    have "fd_fresh (tbl k) (tbl k1) sock" using g Inr by simp
    then show ?thesis
      using assms(2) s Inr w o b l t dropped_fds [OF assms(1), of "tbl k" k1 sock k3] dropped_fds [OF assms(1), of "tbl k" k1 sock k4]
      by (cases r3; cases r4) (auto simp: bind_one_def)
  qed (use assms(2) s g in \<open>auto simp: bind_one_def\<close>)
qed

lemma first_addr_fds:
  assumes "\<And>k a k' r. try k a = (k', r) \<Longrightarrow> fd_gain (tbl k) (tbl k') r" "first_addr try k err addrs = (k', r)"
  shows "fd_gain (tbl k) (tbl k') r"
  using assms(2)
proof (induction addrs arbitrary: k err)
  case (Cons a addrs)
  obtain k1 r1 where t: "try k a = (k1, r1)" by force
  show ?case using Cons.prems Cons.IH [of k1] t assms(1) [OF t] by (cases r1) auto
qed auto

definition keeps_table :: "('k \<Rightarrow> i32 \<rightharpoonup> 'o) \<Rightarrow> 'k resolver \<Rightarrow> bool" where
  "keeps_table tbl rs \<longleftrightarrow> (\<forall>k host port k' r. rs k host port = Some (k', r) \<longrightarrow> tbl k' = tbl k)"

lemma keeps_tableD: "keeps_table tbl rs \<Longrightarrow> rs k host port = Some (k', r) \<Longrightarrow> tbl k' = tbl k"
  unfolding keeps_table_def by blast

lemma to_socket_addrs_fds:
  "keeps_table tbl rs \<Longrightarrow> to_socket_addrs_with rs k arg = Some (k', r) \<Longrightarrow> tbl k' = tbl k"
  by (cases arg) (auto simp: str_to_socket_addrs_def split: option.splits dest: keeps_tableD)

lemma on_addrs_fds:
  assumes "keeps_table tbl rs" "on_addrs rs k arg f = Some (k', r)"
    and "\<And>k1 addrs. tbl k1 = tbl k \<Longrightarrow> f k1 addrs = (k', r) \<Longrightarrow> Q r" "\<And>e. tbl k' = tbl k \<Longrightarrow> Q (Inl e)"
  shows "Q r"
  using assms(2,3,4) to_socket_addrs_fds [OF assms(1), of k arg]
  by (fastforce simp: on_addrs_def split: bind_splits prod.splits sum.splits)

lemma udp_bind_fds:
  assumes "fd_contract P tbl ends" "keeps_table tbl rs" "udp_bind_with P rs k arg = Some (k', r)"
  shows "fd_gain (tbl k) (tbl k') r"
  using assms(3) unfolding udp_bind_with_def
  by (rule on_addrs_fds [OF assms(2)]) (metis first_addr_fds udp_bind_one_fds [OF assms(1)], simp)

lemma dns_talk_fds:
  assumes "fd_contract P tbl ends" "keeps_table tbl rs" "dns_talk P rs k sock ns q qtype = Some (k', r)"
  shows "tbl k' = tbl k"
proof -
  obtain k1 sent where s: "udp_send_to_with P rs k sock q (A_Addr (socket_addr_new ns 53)) = Some (k1, sent)"
    using assms(3) by (auto simp: dns_talk_def split: bind_splits)
  have t: "tbl k1 = tbl k"
    using s neutral_calls_fds(2) [OF assms(1)] by (auto simp: udp_send_to_with_def on_addrs_def udp_send_addr_def split: prod.splits)
  obtain k2 buf n where v: "udp_recv P k1 sock (replicate 1500 0) = (k2, buf, n)" by (metis prod_cases3)
  have "tbl k2 = tbl k1" using v neutral_calls_fds(3) [OF assms(1)] by (auto simp: udp_recv_def split: prod.splits)
  moreover have "k' = k1 \<or> k' = k2"
    using assms(3) s v by (auto simp: dns_talk_def split: sum.splits bind_splits)
  ultimately show ?thesis using t by auto
qed

lemma dns_query_fds:
  assumes "fd_contract P tbl ends" "keeps_table tbl rs" "dns_query P rs k ns host qtype = Some (k', r)"
  shows "tbl k' = tbl k"
proof -
  obtain k1 ident g where g: "sys_getrandom P k [0, 0] = Some (k1, ident, g)"
    using assms(3) by (auto simp: dns_query_def split: bind_splits)
  have t1: "tbl k1 = tbl k" by (rule getrandom_fds [OF assms(1) g])
  show ?thesis
  proof (cases "dns_build ident host qtype")
    case (Inr q)
    then obtain k2 b where b: "udp_bind_with P rs k1 (A_Str (case ns of IpV4 _ \<Rightarrow> ''0.0.0.0:0'' | IpV6 _ \<Rightarrow> ''[::]:0'')) = Some (k2, b)"
      using assms(3) g by (auto simp: dns_query_def split: bind_splits)
    note bg = udp_bind_fds [OF assms(1,2) b]
    show ?thesis
    proof (cases b)
      case (Inr sock)
      obtain k3 r3 where d: "dns_talk P rs k2 sock ns q qtype = Some (k3, r3)" "k' = socket_drop P k3 sock"
        using assms(3) g b Inr \<open>dns_build ident host qtype = Inr q\<close> by (auto simp: dns_query_def split: bind_splits)
      then show ?thesis
        using dropped_fds [OF assms(1), of "tbl k1" k2 sock k3] dns_talk_fds [OF assms(1,2) d(1)] bg Inr t1 by simp
    qed (use assms(3) g b bg t1 Inr in \<open>auto simp: dns_query_def\<close>)
  qed (use assms(3) g t1 in \<open>auto simp: dns_query_def\<close>)
qed

lemma resolve_with_fds:
  assumes "fd_contract P tbl ends" "keeps_table tbl rs"
  shows "keeps_table tbl (resolve_with P rs)"
proof -
  have q: "dns_lookup P rs k ns host port = Some (k', out) \<Longrightarrow> tbl k' = tbl k" for k ns host port k' out
    by (auto simp: dns_lookup_def split: bind_splits if_splits dest!: dns_query_fds [OF assms])
  have h: "hosts_lookup P k host = Some (k', out) \<Longrightarrow> tbl k' = tbl k" for k host k' out
    by (auto simp: hosts_lookup_def split: bind_splits dest!: fs_read_to_string_fds [OF assms(1)])
  have n: "nameserver P k = Some (k', out) \<Longrightarrow> tbl k' = tbl k" for k k' out
    by (auto simp: nameserver_def split: bind_splits dest!: fs_read_to_string_fds [OF assms(1)])
  have "tbl k' = tbl k" if r: "resolve_with P rs k host port = Some (k', r)" for k host port k' r
  proof (cases "parse_ip host")
    case None
    then obtain k1 a where 1: "hosts_lookup P k host = Some (k1, a)" using r by (auto simp: resolve_with_def split: bind_splits)
    show ?thesis
    proof (cases a)
      case a: None
      then obtain k2 ns where 2: "nameserver P k1 = Some (k2, ns)" using None 1 r by (auto simp: resolve_with_def split: bind_splits)
      have "k' = k2 \<or> (\<exists>ip out. dns_lookup P rs k2 ip host port = Some (k', out))"
        using None 1 2 a r by (cases ns) (auto simp: resolve_with_def split: bind_splits)
      then show ?thesis
      proof
        assume "\<exists>ip out. dns_lookup P rs k2 ip host port = Some (k', out)"
        then have "tbl k' = tbl k2" using q by blast
        then show ?thesis using h [OF 1] n [OF 2] by simp
      qed (use h [OF 1] n [OF 2] in simp)
    qed (use None 1 r h [OF 1] in \<open>auto simp: resolve_with_def\<close>)
  qed (use r in \<open>simp add: resolve_with_def\<close>)
  then show ?thesis unfolding keeps_table_def by blast
qed

lemma resolve_fds: "fd_contract P tbl ends \<Longrightarrow> keeps_table tbl (resolve P)"
proof -
  assume c: "fd_contract P tbl ends"
  have "keeps_table tbl (resolve_depth n P)" for n
  proof (induction n)
    case (Suc n)
    have "resolve_depth (Suc n) P = resolve_with P (resolve_depth n P)" by (simp add: fun_eq_iff)
    then show ?case using resolve_with_fds [OF c Suc] by simp
  qed (simp add: keeps_table_def)
  then show ?thesis by (simp add: resolve_def)
qed

lemma accept_loop_fds:
  assumes "fd_contract P tbl ends" "accept_loop P k s b len = Some (k', b', r)"
  shows "fd_gain (tbl k) (tbl k') r"
proof -
  define J where "J = (\<lambda>x :: (((_ \<times> _) \<times> i32) \<times> byte list) \<times> u32. \<lambda>y :: _ \<times> byte list \<times> (Error + socket).
    fd_contract (fst (fst (fst (fst x)))) tbl ends \<longrightarrow> fd_gain (tbl (snd (fst (fst (fst x))))) (tbl (fst y)) (snd (snd y)))"
  have "J ((((P, k), s), b), len) (k', b', r)"
    by (rule accept_loop.raw_induct [of J, OF _ assms(2)])
      (fastforce simp: J_def split: prod.splits sum.splits if_splits dest: sys_accept_fds)
  then show ?thesis using assms(1) by (simp add: J_def)
qed

text \<open>C26: No operation of \<open>net\<close> leaks or loses a descriptor, whatever fails on the way and however the
address is given: a successful \<open>connect\<close>, \<open>bind\<close> or \<open>accept\<close> leaves the table with exactly the returned
descriptor more, an unsuccessful one leaves it as it was, and so do address lookups, which open files and
sockets of their own.\<close>

theorem net_descriptors:
  assumes "fd_contract P tbl ends"
  shows "(tcp_connect P k arg = Some (k', r) \<longrightarrow> fd_gain (tbl k) (tbl k') r) \<and>
     (tcp_bind P k arg = Some (k', r) \<longrightarrow> fd_gain (tbl k) (tbl k') r) \<and>
     (udp_bind P k arg = Some (k', r) \<longrightarrow> fd_gain (tbl k) (tbl k') r) \<and>
     (tcp_accept P k s = Some (k', ra) \<longrightarrow> fd_gain (tbl k) (tbl k') (map_ok fst ra)) \<and>
     (to_socket_addrs P k arg = Some (k', rl) \<longrightarrow> tbl k' = tbl k)"
proof (intro conjI impI)
  note rs = resolve_fds [OF assms]
  show "fd_gain (tbl k) (tbl k') r" if "tcp_connect P k arg = Some (k', r)"
    using that unfolding tcp_connect_def
    by (rule on_addrs_fds [OF rs]) (metis first_addr_fds connect_one_fds [OF assms], simp)
  show "fd_gain (tbl k) (tbl k') r" if "tcp_bind P k arg = Some (k', r)"
    using that unfolding tcp_bind_def
    by (rule on_addrs_fds [OF rs]) (metis first_addr_fds bind_one_fds [OF assms], simp)
  show "fd_gain (tbl k) (tbl k') r" if "udp_bind P k arg = Some (k', r)"
    using that unfolding udp_bind_def by (rule udp_bind_fds [OF assms rs])
  show "fd_gain (tbl k) (tbl k') (map_ok fst ra)" if "tcp_accept P k s = Some (k', ra)"
    using that accept_loop_fds [OF assms, of k s "replicate 28 0" 28]
    by (auto simp: tcp_accept_def map_ok_def split: bind_splits sum.splits)
  show "tbl k' = tbl k" if "to_socket_addrs P k arg = Some (k', rl)"
    using that unfolding to_socket_addrs_def by (rule to_socket_addrs_fds [OF rs])
qed

text \<open>A connection that is refused and one that is accepted.\<close>

theorem net_descriptors_witness:
  "fd_contract table_kernel snd table_ends \<and>
   (\<exists>k' e. tcp_connect table_kernel (3, Map.empty) (A_Addr (V4 [127, 0, 0, 1] 1)) = Some (k', Inl e) \<and> snd k' = Map.empty) \<and>
   (\<exists>k'. tcp_connect table_kernel (3, Map.empty) (A_Addr (V4 [127, 0, 0, 1] 80)) = Some (k', Inr 3) \<and> dom (snd k') = {3})"
proof -
  let ?T = "[3 \<mapsto> 3] :: i32 \<rightharpoonup> nat"
  note call = table_kernel_def table_call_def i32_usize_def
  have z: "from_ret 0 = Inr 0" "from_ret 3 = Inr 3" by (simp_all add: from_ret_def)
  have f: "from_ret (- 111) = Inl (Errno 111)" using from_ret_err [of 111] by simp
  have port: "to_be_bytes 2 (1 :: u16) = [0, 1]" "to_be_bytes 2 (80 :: u16) = [0, 80]"
    by code_simp+
  have s: "socket_new table_kernel (3, Map.empty) 2 1 = ((4, ?T), Inr 3)" by (simp add: socket_new_def sys_socket_def call z)
  have c: "sys_connect table_kernel (4, ?T) 3 (h @ [0, 1] @ r) 16 = ((4, ?T), Inl (Errno 111))"
      "sys_connect table_kernel (4, ?T) 3 (h @ [0, 80] @ r) 16 = ((4, ?T), Inr ())" if "length h = 2" for h r
    using that by (simp_all add: sys_connect_def call z f)
  have d: "socket_drop table_kernel (4, ?T) 3 = (4, Map.empty)" by (simp add: socket_drop_def sys_close_def call)
  have t: "p_target table_kernel = Linux_x86_64" by (simp add: table_kernel_def)
  note eval = tcp_connect_def on_addrs_def connect_one_def SOCK_STREAM_def AF_INET_def t s d
  have e: "tcp_connect table_kernel (3, Map.empty) (A_Addr (V4 [127, 0, 0, 1] 1)) = Some ((4, Map.empty), Inl (error_from_errno (Errno 111)))"
    using c(1) by (simp add: eval port)
  have a: "\<exists>k'. tcp_connect table_kernel (3, Map.empty) (A_Addr (V4 [127, 0, 0, 1] 80)) = Some (k', Inr 3)"
    using c(2) by (simp add: eval port)
  then obtain k' where k': "tcp_connect table_kernel (3, Map.empty) (A_Addr (V4 [127, 0, 0, 1] 80)) = Some (k', Inr 3)" ..
  then have "fd_fresh Map.empty (snd k') 3"
    using net_descriptors [OF table_kernel_contract, of "(3, Map.empty)" "A_Addr (V4 [127, 0, 0, 1] 80)" k' "Inr 3"] by simp
  then have "dom (snd k') = {3}" by (auto simp: fd_fresh_def split: if_splits)
  moreover have "snd (4, Map.empty :: i32 \<rightharpoonup> nat) = Map.empty" by simp
  ultimately show ?thesis using e k' table_kernel_contract by blast
qed

end
