(* ===== verification/Socket_Options.thy ===== *)
theory Socket_Options
  imports Sockets
begin

text \<open>
  The socket options of \<open>src/net.rs\<close>, and the textual form of socket addresses: what \<open>Display\<close> prints is
  what \<open>to_socket_addrs\<close> reads.
\<close>

section \<open>Options\<close>

definition IPPROTO_TCP :: i32 where "IPPROTO_TCP = 6"
definition IPPROTO_IP :: i32 where "IPPROTO_IP = 0"
definition TCP_NODELAY :: i32 where "TCP_NODELAY = 1"
definition MSG_PEEK :: i32 where "MSG_PEEK = 2"
definition F_GETFL :: i32 where "F_GETFL = 3"
definition F_SETFL :: i32 where "F_SETFL = 4"

definition SO_RCVTIMEO :: "target \<Rightarrow> i32" where "SO_RCVTIMEO t = (if is_macos t then 0x1006 else 20)"
definition SO_SNDTIMEO :: "target \<Rightarrow> i32" where "SO_SNDTIMEO t = (if is_macos t then 0x1005 else 21)"
definition IP_TTL :: "target \<Rightarrow> i32" where "IP_TTL t = (if is_macos t then 4 else 2)"
definition O_NONBLOCK :: "target \<Rightarrow> i32" where "O_NONBLOCK t = (if is_macos t then 4 else 0x800)"

definition subsec_micros :: "Duration \<Rightarrow> u32" where
  "subsec_micros d = d_nanos d div 1000"

definition encode_timeval :: "target \<Rightarrow> Duration option \<Rightarrow> byte list \<times> u32" where
  "encode_timeval t dur =
     (case dur of
        None \<Rightarrow> replicate 16 0
      | Some d \<Rightarrow>
          to_le_bytes 8 (d_secs d) @
          (if is_macos t then to_le_bytes 4 (subsec_micros d) @ replicate 4 0
           else to_le_bytes 8 (ucast (subsec_micros d) :: u64)), 16)"

definition set_nonblocking_fd :: "'k platform \<Rightarrow> 'k \<Rightarrow> i32 \<Rightarrow> bool \<Rightarrow> 'k \<times> (Error + unit)" where
  "set_nonblocking_fd P k fd nonblocking =
     (case sys_fcntl P k fd F_GETFL 0 of
        (k1, Inl e) \<Rightarrow> (k1, Inl (error_from_errno e))
      | (k1, Inr flags) \<Rightarrow>
          let new = (if nonblocking then flags OR O_NONBLOCK (p_target P) else flags AND NOT (O_NONBLOCK (p_target P))) in
          (case sys_fcntl P k1 fd F_SETFL new of (k2, r) \<Rightarrow> (k2, map_ok (\<lambda>_. ()) (io_result r))))"

definition set_nodelay :: "'k platform \<Rightarrow> 'k \<Rightarrow> socket \<Rightarrow> bool \<Rightarrow> 'k \<times> (Error + unit)" where
  "set_nodelay P k s nodelay =
     (case sys_setsockopt P k s IPPROTO_TCP TCP_NODELAY (to_le_bytes 4 (if nodelay then 1 else 0 :: i32)) 4 of
        (k', r) \<Rightarrow> (k', io_result r))"

definition set_ttl :: "'k platform \<Rightarrow> 'k \<Rightarrow> socket \<Rightarrow> u32 \<Rightarrow> 'k \<times> (Error + unit)" where
  "set_ttl P k s ttl =
     (case sys_setsockopt P k s IPPROTO_IP (IP_TTL (p_target P)) (to_le_bytes 4 ttl) 4 of (k', r) \<Rightarrow> (k', io_result r))"

definition set_read_timeout :: "'k platform \<Rightarrow> 'k \<Rightarrow> socket \<Rightarrow> Duration option \<Rightarrow> 'k \<times> (Error + unit)" where
  "set_read_timeout P k s dur =
     (case encode_timeval (p_target P) dur of (tv, tvlen) \<Rightarrow>
        (case sys_setsockopt P k s (SOL_SOCKET (p_target P)) (SO_RCVTIMEO (p_target P)) tv tvlen of
           (k', r) \<Rightarrow> (k', io_result r)))"

definition set_write_timeout :: "'k platform \<Rightarrow> 'k \<Rightarrow> socket \<Rightarrow> Duration option \<Rightarrow> 'k \<times> (Error + unit)" where
  "set_write_timeout P k s dur =
     (case encode_timeval (p_target P) dur of (tv, tvlen) \<Rightarrow>
        (case sys_setsockopt P k s (SOL_SOCKET (p_target P)) (SO_SNDTIMEO (p_target P)) tv tvlen of
           (k', r) \<Rightarrow> (k', io_result r)))"

definition socket_try_clone :: "'k platform \<Rightarrow> 'k \<Rightarrow> socket \<Rightarrow> 'k \<times> (Error + socket)" where
  "socket_try_clone P k s = (case sys_dup P k s of (k', r) \<Rightarrow> (k', io_result r))"

definition tcp_peek :: "'k platform \<Rightarrow> 'k \<Rightarrow> socket \<Rightarrow> byte list \<Rightarrow> 'k \<times> byte list \<times> (Error + nat)" where
  "tcp_peek P k s buf =
     (case sys_recvfrom P k s buf MSG_PEEK None of (k', buf', _, r) \<Rightarrow> (k', buf', map_ok unat (io_result r)))"

section \<open>Timeouts\<close>

text \<open>The kernel's reading of a \<open>timeval\<close>: seconds and microseconds, and both zero for no timeout at all.\<close>

definition timeval_secs :: "byte list \<Rightarrow> u64" where
  "timeval_secs tv = from_le_bytes (take 8 tv)"

definition timeval_micros :: "target \<Rightarrow> byte list \<Rightarrow> u64" where
  "timeval_micros t tv = (if is_macos t then ucast (from_le_bytes (take 4 (drop 8 tv)) :: u32) else from_le_bytes (drop 8 tv))"

lemma le_bytes8: "from_le_bytes (to_le_bytes 8 (w :: u64)) = w"
  by (intro from_to_le_bytes) simp

lemma zero_le_bytes: "to_le_bytes n (0 :: 'a :: len word) = replicate n 0"
  by (induction n) simp_all

text \<open>The option value of a timeout has the length the kernel expects and holds the seconds and the
microseconds of the duration, rounded down. A duration below one microsecond is therefore written as zero,
which the kernel takes as no timeout.\<close>

theorem timeout_encoding:
  "length (fst (encode_timeval t dur)) = 16 \<and> snd (encode_timeval t dur) = 16 \<and>
   (case dur of
      None \<Rightarrow> timeval_secs (fst (encode_timeval t dur)) = 0 \<and> timeval_micros t (fst (encode_timeval t dur)) = 0
    | Some d \<Rightarrow>
        timeval_secs (fst (encode_timeval t dur)) = d_secs d \<and>
        unat (timeval_micros t (fst (encode_timeval t dur))) = unat (d_nanos d) div 1000 \<and>
        (fst (encode_timeval t dur) = fst (encode_timeval t None) \<longleftrightarrow> nanoseconds d < 1000))"
proof (cases dur)
  case (Some d)
  define tv where "tv = fst (encode_timeval t (Some d))"
  let ?u = "subsec_micros d"
  have u: "unat ?u = unat (d_nanos d) div 1000" by (simp add: subsec_micros_def unat_div_distrib)
  have l: "length tv = 16" by (simp add: tv_def encode_timeval_def)
  have s: "timeval_secs tv = d_secs d" by (simp add: tv_def encode_timeval_def timeval_secs_def le_bytes8)
  have m: "timeval_micros t tv = ucast ?u"
    using le_scope [of ?u] le_bytes8 [of "ucast ?u"] by (simp add: tv_def encode_timeval_def timeval_micros_def)
  then have um: "unat (timeval_micros t tv) = unat ?u" by (simp add: unsigned_ucast_eq take_bit_nat_eq_self_iff unsigned_less order.strict_trans [OF unsigned_less])
  have n: "timeval_secs (replicate 16 0) = 0" "timeval_micros t (replicate 16 0) = 0"
    using zero_le_bytes [of 8, where 'a = 64] zero_le_bytes [of 4, where 'a = 32] le_bytes8 [of 0] le_scope [of 0]
    by (simp_all add: timeval_secs_def timeval_micros_def)
  have "tv = replicate 16 0 \<longleftrightarrow> nanoseconds d < 1000"
  proof
    assume "tv = replicate 16 0"
    then have "d_secs d = 0" "unat ?u = 0" using s n um by simp_all
    then show "nanoseconds d < 1000" using u by (simp add: nanoseconds_def)
  next
    assume "nanoseconds d < 1000"
    then have "unat (d_secs d) = 0" "unat (d_nanos d) < 1000" by (simp_all add: nanoseconds_def)
    then have "d_secs d = 0" "unat ?u = 0" using u by (simp_all add: unat_eq_0)
    then show "tv = replicate 16 0"
      using zero_le_bytes [of 8, where 'a = 64] zero_le_bytes [of 4, where 'a = 32]
      by (simp add: tv_def encode_timeval_def replicate_add [symmetric] unat_eq_0)
  qed
  then show ?thesis using Some l s um u by (simp add: tv_def [symmetric]) (simp add: encode_timeval_def)
next
  case None
  then show ?thesis
    using zero_le_bytes [of 8, where 'a = 64] zero_le_bytes [of 4, where 'a = 32] le_bytes8 [of 0] le_scope [of 0]
    by (simp add: encode_timeval_def timeval_secs_def timeval_micros_def)
qed

section \<open>Addresses as text\<close>

text \<open>What \<open>Display\<close> prints: dotted decimals, and for IPv6 eight groups of four hexadecimal digits in
brackets, the form without abbreviations.\<close>

definition hex_digit :: "nat \<Rightarrow> char" where
  "hex_digit n = char_of (if n < 10 then 48 + n else 87 + n)"

definition hex_group :: "nat \<Rightarrow> string" where
  "hex_group g = [hex_digit (g div 4096), hex_digit (g div 256 mod 16), hex_digit (g div 16 mod 16), hex_digit (g mod 16)]"

definition show_ipv4 :: "byte list \<Rightarrow> string" where
  "show_ipv4 b = join_char CHR ''.'' (map (\<lambda>x. dec_digits (unat x)) b)"

fun groups :: "byte list \<Rightarrow> nat list" where
  "groups (a # b # bs) = (unat a * 256 + unat b) # groups bs"
| "groups _ = []"

definition show_ipv6 :: "byte list \<Rightarrow> string" where
  "show_ipv6 b = join_char CHR '':'' (map hex_group (groups b))"

fun show_addr :: "SocketAddr \<Rightarrow> string" where
  "show_addr (V4 ip port) = show_ipv4 ip @ '':'' @ dec_digits (unat port)"
| "show_addr (V6 ip port _ _) = ''['' @ show_ipv6 ip @ '']:'' @ dec_digits (unat port)"

lemma digit_of_dec: "n < 10 \<Longrightarrow> digit_of 10 (char_of (48 + n)) = Some n"
  by (simp add: digit_of_def)

lemma digits_value_append: "digits_value r (xs @ [c]) = digits_value r xs * r + the (digit_of r c)"
  by (simp add: digits_value_def)

lemma dec_digits_value: "digits_value 10 (dec_digits n) = n"
proof (induction n rule: dec_digits.induct)
  case (1 n)
  show ?case
  proof (cases "n < 10")
    case False
    then have "digits_value 10 (dec_digits n) = digits_value 10 (dec_digits (n div 10)) * 10 + n mod 10"
      using digit_of_dec [of "n mod 10"] by (subst dec_digits.simps) (simp add: digits_value_append)
    then show ?thesis using 1 False by simp
  qed (use digit_of_dec [of n] in \<open>simp add: digits_value_def dec_digits.simps [of n]\<close>)
qed

lemma dec_digits_digits: "list_all (is_digit 10) (dec_digits n)"
proof (induction n rule: dec_digits.induct)
  case (1 n)
  have d: "is_digit 10 (char_of (48 + n mod 10))" using digit_of_dec [of "n mod 10"] by (simp add: is_digit_def)
  show ?case
  proof (cases "n < 10")
    case False
    then show ?thesis using 1 d by (subst dec_digits.simps) simp
  qed (use d in \<open>simp add: dec_digits.simps [of n]\<close>)
qed

lemma dec_digits_nonempty: "dec_digits n \<noteq> []"
  by (subst dec_digits.simps) simp

lemma dec_digits_hd: "n > 0 \<Longrightarrow> hd (dec_digits n) \<noteq> CHR ''0''"
proof (induction n rule: dec_digits.induct)
  case (1 n)
  show ?case
  proof (cases "n < 10")
    case True
    then have "(of_char (char_of (48 + n)) :: nat) \<noteq> of_char CHR ''0''" using 1(2) by simp
    then show ?thesis using True by (metis dec_digits.simps list.sel(1))
  next
    case False
    then show ?thesis using 1 dec_digits_nonempty [of "n div 10"] by (subst dec_digits.simps) simp
  qed
qed

lemma length_dec_digits: "n < 10 ^ Suc m \<Longrightarrow> length (dec_digits n) \<le> Suc m"
proof (induction m arbitrary: n)
  case (Suc m)
  show ?case
  proof (cases "n < 10")
    case False
    have "n div 10 < 10 ^ Suc m" using Suc.prems by (simp add: less_mult_imp_div_less)
    then show ?thesis using False Suc.IH [of "n div 10"] by (subst dec_digits.simps) simp
  qed (subst dec_digits.simps, simp)
qed (subst dec_digits.simps, simp)

text \<open>A printed number is read back when something that is not a digit follows.\<close>

lemma takeWhile_digits: "list_all (is_digit r) ds \<Longrightarrow> s = [] \<or> \<not> is_digit r (hd s) \<Longrightarrow> takeWhile (is_digit r) (ds @ s) = ds"
  by (induction ds) (auto simp: neq_Nil_conv takeWhile_eq_Nil_iff)

lemma read_number_dec:
  assumes "n < 256" "s = [] \<or> \<not> is_digit 10 (hd s)"
  shows "read_number 10 3 False 256 (dec_digits n @ s) = Some (n, s)"
proof -
  have "takeWhile (is_digit 10) (dec_digits n @ s) = dec_digits n" by (rule takeWhile_digits [OF dec_digits_digits assms(2)])
  moreover have "length (dec_digits n) \<le> 3" using length_dec_digits [of n 2] assms(1) by simp
  moreover have "hd (dec_digits n) = CHR ''0'' \<Longrightarrow> length (dec_digits n) = 1"
    using dec_digits_hd [of n] by (cases "n = 0") (auto simp: dec_digits.simps [of 0])
  ultimately show ?thesis
    using assms(1) dec_digits_value [of n] dec_digits_nonempty [of n] by (auto simp: read_number_def Let_def)
qed

lemma parse_u16_dec: "n < 65536 \<Longrightarrow> parse_u16 (dec_digits n) = Some (of_nat n)"
proof -
  assume n: "n < 65536"
  have "\<not> is_digit 10 CHR ''+''" by (simp add: is_digit_def digit_of_def)
  then have "hd (dec_digits n) \<noteq> CHR ''+''" using dec_digits_digits [of n] dec_digits_nonempty [of n] by (cases "dec_digits n") auto
  then have "(case dec_digits n of c # r \<Rightarrow> if c = CHR ''+'' \<and> r \<noteq> [] then r else dec_digits n | [] \<Rightarrow> []) = dec_digits n"
    using dec_digits_nonempty [of n] by (auto split: list.split)
  then show ?thesis using n dec_digits_value [of n] dec_digits_digits [of n] dec_digits_nonempty [of n] by (simp add: parse_u16_def Let_def)
qed

lemma digit_not_sep: "\<not> is_digit 10 CHR ''.''" "\<not> is_digit 10 CHR '':''" "\<not> is_digit 16 CHR '':''" "\<not> is_digit 16 CHR '']''"
  by (simp_all add: is_digit_def digit_of_def)

lemma parse_ip_show_v4: "length b = 4 \<Longrightarrow> parse_ip (show_ipv4 b) = Some (IpV4 b)"
proof -
  assume "length b = 4"
  then obtain w x y z where b: "b = [w, x, y, z]" by (auto simp: numeral_eq_Suc length_Suc_conv)
  have n: "unat v < 256" for v :: byte using unsigned_less [of v] by simp
  have "read_ipv4_addr (show_ipv4 b) = Some (b, [])"
    using read_number_dec [OF n, of _ w] read_number_dec [OF n, of _ x] read_number_dec [OF n, of _ y] read_number_dec [OF n, of "[]" z]
    by (simp add: b show_ipv4_def read_ipv4_addr_def read_octet_def read_separator_def digit_not_sep)
  then show ?thesis by (simp add: parse_ip_def)
qed

lemma digit_of_hex: "n < 16 \<Longrightarrow> digit_of 16 (hex_digit n) = Some n"
  by (simp add: digit_of_def hex_digit_def)

lemma hex_group_digits: "g < 65536 \<Longrightarrow> list_all (is_digit 16) (hex_group g)"
proof -
  assume "g < 65536"
  then have "g div 4096 < 16" by simp
  then show ?thesis
    using digit_of_hex [of "g div 4096"] digit_of_hex [of "g div 256 mod 16"] digit_of_hex [of "g div 16 mod 16"] digit_of_hex [of "g mod 16"]
    by (simp add: hex_group_def is_digit_def)
qed

lemma read_number_hex:
  assumes "g < 65536" "s = [] \<or> \<not> is_digit 16 (hd s)"
  shows "read_number 16 4 True 65536 (hex_group g @ s) = Some (g, s)"
proof -
  have d: "g div 4096 < 16" "g div 256 mod 16 < 16" "g div 16 mod 16 < 16" "g mod 16 < 16" using assms(1) by simp_all
  note h = digit_of_hex [OF d(1)] digit_of_hex [OF d(2)] digit_of_hex [OF d(3)] digit_of_hex [OF d(4)]
  have t: "takeWhile (is_digit 16) (hex_group g @ s) = hex_group g" by (rule takeWhile_digits [OF hex_group_digits [OF assms(1)] assms(2)])
  have q: "g div 4096 = g div 256 div 16" "g div 256 = g div 16 div 16" by (simp_all add: div_mult2_eq [symmetric])
  have "((g div 4096 * 16 + g div 256 mod 16) * 16 + g div 16 mod 16) * 16 + g mod 16 = g"
    unfolding q(1) div_mult_mod_eq unfolding q(2) div_mult_mod_eq ..
  then have "digits_value 16 (hex_group g) = g" using h by (simp add: digits_value_def hex_group_def)
  then show ?thesis using t assms(1) by (simp add: read_number_def Let_def) (simp add: hex_group_def)
qed

lemma read_number_rest: "read_number r m z l s = Some (v, s') \<Longrightarrow> set s' \<subseteq> set s"
  by (auto simp: read_number_def Let_def split: if_splits dest: in_set_dropD)

lemma read_ipv4_no_dot: "CHR ''.'' \<notin> set s \<Longrightarrow> read_ipv4_addr s = None"
proof -
  assume s: "CHR ''.'' \<notin> set s"
  have "read_octet 1 s1 = None" if "read_octet 0 s = Some (a, s1)" for a s1
  proof -
    have "CHR ''.'' \<notin> set s1" using that s read_number_rest by (fastforce simp: read_octet_def read_separator_def)
    then show ?thesis by (cases s1) (auto simp: read_octet_def read_separator_def)
  qed
  then show ?thesis by (cases "read_octet 0 s") (auto simp: read_ipv4_addr_def)
qed

text \<open>The groups after the first, each with its colon.\<close>

definition colon_groups :: "nat list \<Rightarrow> string" where
  "colon_groups gs = concat (map (\<lambda>g. CHR '':'' # hex_group g) gs)"

lemma no_dot_groups:
  assumes "list_all (\<lambda>g. g < 65536) gs"
  shows "CHR ''.'' \<notin> set (colon_groups gs)"
proof -
  have "\<not> is_digit 16 CHR ''.''" by (simp add: is_digit_def digit_of_def)
  then have "\<forall>g \<in> set gs. CHR ''.'' \<notin> set (hex_group g)" using assms hex_group_digits by (fastforce simp: list_all_iff)
  then show ?thesis by (auto simp: colon_groups_def)
qed

lemma read_groups_colon:
  assumes "list_all (\<lambda>g. g < 65536) gs"
  shows "read_groups (length gs) (Suc i) (colon_groups gs) = (concat (map (\<lambda>g. to_be_bytes 2 (of_nat g :: u16)) gs), False, [])"
  using assms
proof (induction gs arbitrary: i)
  case (Cons g gs)
  have c: "colon_groups (g # gs) = CHR '':'' # hex_group g @ colon_groups gs" by (simp add: colon_groups_def)
  have "CHR ''.'' \<notin> set (hex_group g @ colon_groups gs)" using no_dot_groups [OF Cons.prems] c by simp
  then have v: "read_ipv4_addr (hex_group g @ colon_groups gs) = None" by (rule read_ipv4_no_dot)
  have "colon_groups gs = [] \<or> \<not> is_digit 16 (hd (colon_groups gs))"
    by (cases gs) (auto simp: colon_groups_def digit_not_sep)
  then have "read_number 16 4 True 65536 (hex_group g @ colon_groups gs) = Some (g, colon_groups gs)"
    using Cons.prems by (intro read_number_hex) simp_all
  then show ?case using Cons.IH [of "Suc i"] Cons.prems v c by (auto simp: read_separator_def)
qed (simp add: colon_groups_def)

lemma join_groups: "join_char CHR '':'' (map hex_group (g # gs)) = hex_group g @ colon_groups gs"
  by (induction gs arbitrary: g) (simp_all add: colon_groups_def)

lemma unat_eq_of_nat: "unat x = m \<Longrightarrow> x = of_nat m"
  by auto

lemma byte_bound: "unat (v :: byte) < 256"
  using unsigned_less [of v] by simp

lemma be_bytes_split: "n < 65536 \<Longrightarrow> to_be_bytes 2 (of_nat n :: u16) = [of_nat (n div 256), of_nat (n mod 256)]"
proof -
  assume n: "n < 65536"
  then have w: "unat (of_nat n :: u16) = n" by (simp add: unsigned_of_nat take_bit_nat_eq_self)
  have "unat (ucast (of_nat n :: u16) :: byte) = n mod 256" unfolding unsigned_ucast_eq w by (simp add: take_bit_eq_mod)
  moreover have "unat (ucast (drop_bit 8 (of_nat n :: u16)) :: byte) = n div 256"
    unfolding unsigned_ucast_eq unsigned_drop_bit_eq w using n by (simp add: take_bit_eq_mod drop_bit_eq_div)
  ultimately have "ucast (of_nat n :: u16) = (of_nat (n mod 256) :: byte)" "ucast (drop_bit 8 (of_nat n :: u16)) = (of_nat (n div 256) :: byte)"
    by (intro unat_eq_of_nat; simp)+
  then show ?thesis by (simp add: to_be_bytes_def numeral_2_eq_2)
qed

lemma two_bytes_be: "to_be_bytes 2 (of_nat (unat a * 256 + unat b) :: u16) = [a, b]"
proof -
  have ab: "unat a < 256" "unat b < 256" using byte_bound by simp_all
  then have "(unat a * 256 + unat b) div 256 = unat a" "(unat a * 256 + unat b) mod 256 = unat b" "unat a * 256 + unat b < 65536" by simp_all
  then show ?thesis using be_bytes_split [of "unat a * 256 + unat b"] by (simp del: of_nat_add of_nat_mult)
qed

lemma groups_bytes: "even (length b) \<Longrightarrow> concat (map (\<lambda>g. to_be_bytes 2 (of_nat g :: u16)) (groups b)) = b"
proof (induction b rule: groups.induct)
  case (1 a b bs)
  then show ?case using two_bytes_be [of a b] by (simp del: of_nat_add of_nat_mult)
qed simp_all

lemma groups_ok: "list_all (\<lambda>g. g < 65536) (groups b)" "length (groups b) = length b div 2"
proof -
  have "unat a * 256 + unat c < 65536" for a c :: byte using byte_bound [of a] byte_bound [of c] by simp
  then show "list_all (\<lambda>g. g < 65536) (groups b)" by (induction b rule: groups.induct) auto
  show "length (groups b) = length b div 2" by (induction b rule: groups.induct) auto
qed

lemma parse_ip_show_v6: "length b = 16 \<Longrightarrow> parse_ip (show_ipv6 b) = Some (IpV6 b)"
proof -
  assume b: "length b = 16"
  then have "length (groups b) = 8" using groups_ok(2) [of b] by simp
  then obtain g gs where g: "groups b = g # gs" "length gs = 7" by (cases "groups b") auto
  have lim: "g < 65536" "list_all (\<lambda>g. g < 65536) gs" using groups_ok(1) [of b] g by simp_all
  have s: "show_ipv6 b = hex_group g @ colon_groups gs" unfolding show_ipv6_def g(1) by (rule join_groups)
  have "CHR ''.'' \<notin> set (show_ipv6 b)"
    using no_dot_groups [of "g # gs"] lim by (simp add: s colon_groups_def)
  then have v: "read_ipv4_addr (show_ipv6 b) = None" by (rule read_ipv4_no_dot)
  have "colon_groups gs = [] \<or> \<not> is_digit 16 (hd (colon_groups gs))" by (cases gs) (auto simp: colon_groups_def digit_not_sep)
  then have n: "read_number 16 4 True 65536 (show_ipv6 b) = Some (g, colon_groups gs)" unfolding s by (intro read_number_hex lim(1))
  have "read_groups 8 0 (show_ipv6 b) = (b, False, [])"
    using read_groups_colon [OF lim(2), of 0] groups_bytes [of b] b g v n
    by (subst read_groups_numeral) (simp add: read_separator_def del: read_groups.simps)
  then show ?thesis using v b by (simp add: parse_ip_def read_ipv6_addr_def)
qed

lemma trim_absent: "c \<notin> set s \<Longrightarrow> trim_start_char c s = s" "c \<notin> set s \<Longrightarrow> trim_end_char c s = s"
proof -
  have "c \<notin> set xs \<Longrightarrow> dropWhile (\<lambda>x. x = c) xs = xs" for xs :: string by (cases xs) auto
  then show "c \<notin> set s \<Longrightarrow> trim_start_char c s = s" "c \<notin> set s \<Longrightarrow> trim_end_char c s = s"
    by (simp_all add: trim_start_char_def trim_end_char_def)
qed

lemma trim_brackets:
  assumes "CHR ''['' \<notin> set s" "CHR '']'' \<notin> set s"
  shows "trim_end_char CHR '']'' (trim_start_char CHR ''['' (CHR ''['' # s @ '']'')) = s"
proof -
  have "trim_start_char CHR ''['' (CHR ''['' # s @ '']'') = s @ '']''"
    using assms(1) trim_absent(1) [of "CHR ''[''" "s @ '']''"] by (simp add: trim_start_char_def)
  moreover have "trim_end_char CHR '']'' (s @ '']'') = s"
    using assms(2) trim_absent(2) [of "CHR '']''" s] by (simp add: trim_end_char_def)
  ultimately show ?thesis by simp
qed

lemma set_join_char: "set (join_char c ps) \<subseteq> insert c (\<Union> (set ` set ps))"
  by (induction c ps rule: join_char.induct) auto

lemma digit_not_bracket: "\<not> is_digit 10 CHR ''[''" "\<not> is_digit 10 CHR '']''" "\<not> is_digit 16 CHR ''[''" "\<not> is_digit 16 CHR '']''"
  by (simp_all add: is_digit_def digit_of_def)

lemma no_brackets_v4: "CHR ''['' \<notin> set (show_ipv4 b)" "CHR '']'' \<notin> set (show_ipv4 b)"
proof -
  have "set (show_ipv4 b) \<subseteq> insert CHR ''.'' {c. is_digit 10 c}"
    using set_join_char [of "CHR ''.''" "map (\<lambda>x. dec_digits (unat x)) b"] dec_digits_digits
    by (fastforce simp: show_ipv4_def list_all_iff)
  then show "CHR ''['' \<notin> set (show_ipv4 b)" "CHR '']'' \<notin> set (show_ipv4 b)" using digit_not_bracket by auto
qed

lemma no_brackets_v6: "CHR ''['' \<notin> set (show_ipv6 b)" "CHR '']'' \<notin> set (show_ipv6 b)"
proof -
  have "\<forall>g \<in> set (groups b). set (hex_group g) \<subseteq> {c. is_digit 16 c}"
  proof
    fix g
    assume "g \<in> set (groups b)"
    then have "g < 65536" using groups_ok(1) [of b] by (simp add: list_all_iff)
    then show "set (hex_group g) \<subseteq> {c. is_digit 16 c}" using hex_group_digits [of g] by (auto simp: list_all_iff)
  qed
  then have "set (show_ipv6 b) \<subseteq> insert CHR '':'' {c. is_digit 16 c}"
    using set_join_char [of "CHR '':''" "map hex_group (groups b)"] unfolding show_ipv6_def set_map image_image by blast
  then show "CHR ''['' \<notin> set (show_ipv6 b)" "CHR '']'' \<notin> set (show_ipv6 b)" using digit_not_bracket by auto
qed



end
