(* ===== verification/Thread_Joins.thy ===== *)
theory Thread_Joins
  imports Futex
begin

text \<open>
  Joining a thread, \<open>src/thread.rs\<close>: the packet that the new thread and its \<open>JoinHandle\<close>
  share. The new thread (at index 0) runs its closure, known here by the value it
  computes, stores the result, publishes it through the state word and wakes the joiner
  (at index 1), which takes the result out.
\<close>

section \<open>The packet\<close>

record ('q, 'v) packet =
  pk_state :: u32
  pk_result :: "'v option"
  pk_kernel :: 'q

datatype 'v join_pc =
    TS_run 'v
  | TS_result 'v
  | TS_store
  | TS_wake
  | TS_exit
  | JH_idle
  | JH_wait futex_pc
  | JH_take
  | JH_joined 'v
  | JH_panic

definition thread_start :: "'q futex \<Rightarrow> (('q, 'v) packet, 'v join_pc) runner" where
  "thread_start F p t pc =
     (case pc of
        TS_run v \<Rightarrow> Some (p, TS_result v)
      | TS_result v \<Rightarrow> Some (p \<lparr> pk_result := Some v \<rparr>, TS_store)
      | TS_store \<Rightarrow> Some (p \<lparr> pk_state := 1 \<rparr>, TS_wake)
      | TS_wake \<Rightarrow> Some (p \<lparr> pk_kernel := futex_wake F (pk_kernel p) 0 \<rparr>, TS_exit)
      | _ \<Rightarrow> None)"

definition join :: "'q futex \<Rightarrow> (('q, 'v) packet, 'v join_pc) runner" where
  "join F p t pc =
     (case pc of
        JH_wait fp \<Rightarrow>
          map_option (\<lambda>(q, r). (p \<lparr> pk_kernel := q \<rparr>, case r of Some fp' \<Rightarrow> JH_wait fp' | None \<Rightarrow> JH_take))
            (futex_wait F 0 0 t (pk_state p) (pk_kernel p) fp)
      | JH_take \<Rightarrow>
          Some (p \<lparr> pk_result := None \<rparr>, case pk_result p of Some v \<Rightarrow> JH_joined v | None \<Rightarrow> JH_panic)
      | _ \<Rightarrow> None)"

definition is_finished :: "('q, 'v) packet \<Rightarrow> bool" where
  "is_finished p \<longleftrightarrow> pk_state p = 1"

definition join_run :: "'q futex \<Rightarrow> (('q, 'v) packet, 'v join_pc) runner" where
  "join_run F p t pc = (case pc of JH_wait _ \<Rightarrow> join F p t pc | JH_take \<Rightarrow> join F p t pc | _ \<Rightarrow> thread_start F p t pc)"

definition join_call :: "'v join_pc \<Rightarrow> 'v join_pc \<Rightarrow> bool" where
  "join_call pc pc' \<longleftrightarrow> pc = JH_idle \<and> pc' = JH_wait FW_load"

definition join_env :: "'q futex \<Rightarrow> ('q, 'v) packet \<Rightarrow> ('q, 'v) packet \<Rightarrow> bool" where
  "join_env F p p' \<longleftrightarrow> (\<exists>q. p' = p \<lparr> pk_kernel := q \<rparr> \<and> kernel_returns F (pk_kernel p) q)"

definition join_spawn :: "'v join_pc \<Rightarrow> 'v join_pc \<times> 'v join_pc \<Rightarrow> bool" where
  "join_spawn pc p \<longleftrightarrow> False"

definition join_new :: "'q \<Rightarrow> 'v \<Rightarrow> (('q, 'v) packet, 'v join_pc) conc" where
  "join_new q v = (\<lparr> pk_state = 0, pk_result = None, pk_kernel = q \<rparr>, [TS_run v, JH_idle])"

abbreviation join_reach :: "'q futex \<Rightarrow> (('q, 'v) packet, 'v join_pc) conc \<Rightarrow> (('q, 'v) packet, 'v join_pc) conc \<Rightarrow> bool" where
  "join_reach F \<equiv> conc_reach (join_run F) join_call (join_env F) join_spawn"

lemmas join_run_defs = join_run_def join_def thread_start_def futex_wait_def

section \<open>Invariant\<close>

text \<open>What the two threads' positions say of the packet.\<close>

fun start_local :: "'v \<Rightarrow> ('q, 'v) packet \<Rightarrow> 'v join_pc \<Rightarrow> bool" where
  "start_local v p (TS_run u) = (u = v \<and> pk_state p = 0)"
| "start_local v p (TS_result u) = (u = v \<and> pk_state p = 0)"
| "start_local v p TS_store = (pk_state p = 0 \<and> pk_result p = Some v)"
| "start_local v p TS_wake = (pk_state p = 1)"
| "start_local v p TS_exit = (pk_state p = 1)"
| "start_local v p _ = False"

fun join_local :: "'v \<Rightarrow> ('q, 'v) packet \<Rightarrow> 'v join_pc \<Rightarrow> bool" where
  "join_local v p JH_idle = (pk_state p = 1 \<longrightarrow> pk_result p = Some v)"
| "join_local v p (JH_wait fp) = (pk_state p = 1 \<longrightarrow> pk_result p = Some v)"
| "join_local v p JH_take = (pk_state p = 1 \<and> pk_result p = Some v)"
| "join_local v p (JH_joined u) = (u = v \<and> pk_state p = 1)"
| "join_local v p _ = False"

definition join_inv :: "'v \<Rightarrow> ('q, 'v) packet \<Rightarrow> 'v join_pc list \<Rightarrow> bool" where
  "join_inv v p pcs \<longleftrightarrow> (\<exists>a b. pcs = [a, b] \<and> start_local v p a \<and> join_local v p b)"

lemma join_run_inv:
  assumes "join_inv v p pcs" "t < length pcs" "join_run F p t (pcs ! t) = Some (p', pc')"
  shows "join_inv v p' (pcs[t := pc'])"
proof -
  obtain a b where pcs: "pcs = [a, b]" and l: "start_local v p a" "join_local v p b" using assms(1) by (auto simp: join_inv_def)
  consider "t = 0" | "t = 1" using assms(2) pcs by force
  then show ?thesis
  proof cases
    case 1
    then show ?thesis using assms(3) l pcs by (cases a; cases b) (auto simp: join_run_defs join_inv_def)
  next
    case 2
    then show ?thesis using assms(3) l pcs
      by (cases b; cases a) (auto simp: join_run_defs join_inv_def split: futex_pc.splits if_splits)
  qed
qed

interpretation join: conc_invariant "join_run F" join_call "join_env F" join_spawn "join_new q v" "join_inv v"
  for F :: "'q futex" and q and v :: 'v
proof unfold_locales
  fix p p' :: "('q, 'v) packet" and pcs t pc'
  assume "join_inv v p pcs" "t < length pcs" "join_run F p t (pcs ! t) = Some (p', pc')"
  then show "join_inv v p' (pcs[t := pc'])" by (rule join_run_inv)
next
  fix p :: "('q, 'v) packet" and pcs t pc'
  assume a: "join_inv v p pcs" "t < length pcs" "join_call (pcs ! t) pc'"
  then obtain x y where p: "pcs = [x, y]" "start_local v p x" "join_local v p y" by (auto simp: join_inv_def)
  then have "t = 1" using a(2,3) by (cases t) (auto simp: join_call_def)
  then show "join_inv v p (pcs[t := pc'])" using p a(3) by (auto simp: join_inv_def join_call_def)
next
  fix p p' :: "('q, 'v) packet" and pcs
  assume a: "join_inv v p pcs" "join_env F p p'"
  then obtain q' where "p' = p \<lparr> pk_kernel := q' \<rparr>" by (auto simp: join_env_def)
  moreover have "start_local v (p \<lparr> pk_kernel := q' \<rparr>) x = start_local v p x" "join_local v (p \<lparr> pk_kernel := q' \<rparr>) x = join_local v p x" for x
    by (cases x; simp)+
  ultimately show "join_inv v p' pcs" using a(1) by (simp add: join_inv_def)
qed (simp_all add: join_spawn_def join_inv_def join_new_def)

section \<open>Progress\<close>

text \<open>A sleeping joiner: the thread has not published its result, or is about to wake it.\<close>

definition join_wake_inv :: "'q futex \<Rightarrow> ('q, 'v) packet \<Rightarrow> 'v join_pc list \<Rightarrow> bool" where
  "join_wake_inv F p pcs \<longleftrightarrow>
     fx_sleeping F (pk_kernel p) 0 \<subseteq> {1} \<and>
     (fx_sleeping F (pk_kernel p) 0 \<noteq> {} \<longrightarrow> pcs ! 1 = JH_wait FW_blocked \<and> (pk_state p = 0 \<or> pcs ! 0 = TS_wake))"

lemma join_wake_run:
  assumes F: "futex_contract F" and I: "join_inv v p pcs" "join_wake_inv F p pcs" and t: "t < length pcs"
    and r: "join_run F p t (pcs ! t) = Some (p', pc')"
  shows "join_wake_inv F p' (pcs[t := pc'])"
proof -
  obtain a b where pcs: "pcs = [a, b]" and l: "start_local v p a" "join_local v p b" using I(1) by (auto simp: join_inv_def)
  have sl: "fx_sleeping F (pk_kernel p) 0 \<subseteq> {1}" "fx_sleeping F (pk_kernel p) 0 \<noteq> {} \<longrightarrow> b = JH_wait FW_blocked"
    using I(2) pcs by (simp_all add: join_wake_inv_def)
  consider "t = 0" | "t = 1" using t pcs by force
  then show ?thesis
  proof cases
    case 1
    then have r': "join_run F p 0 a = Some (p', pc')" using r pcs by simp
    have "fx_sleeping F (futex_wake F (pk_kernel p) 0) 0 = {}" using futex_wake_single [OF F sl(1)] .
    then have "fx_sleeping F (pk_kernel p') 0 = {} \<or>
        pk_kernel p' = pk_kernel p \<and> (pk_state p' = 0 \<or> pc' = TS_wake)"
      using r' l(1) by (cases a) (auto simp: join_run_defs)
    then show ?thesis using sl pcs 1 by (auto simp: join_wake_inv_def)
  next
    case 2
    then have r': "join_run F p 1 b = Some (p', pc')" using r pcs by simp
    have "pk_state p' = pk_state p \<and>
        (pk_kernel p' = pk_kernel p \<and> fx_sleeping F (pk_kernel p) 0 = {} \<or>
         pc' = JH_wait FW_blocked \<and> pk_state p = 0 \<and> fx_sleeping F (pk_kernel p') 0 = insert 1 (fx_sleeping F (pk_kernel p) 0))"
    proof (cases b)
      case (JH_wait fp)
      then show ?thesis using r' sl fx_wait_sleeping [OF F, of "pk_kernel p" 0 1 0]
        by (cases fp) (auto simp: join_run_defs split: if_splits)
    qed (use r' sl l(2) in \<open>auto simp: join_run_defs split: option.splits\<close>)
    then show ?thesis using sl pcs 2 by (auto simp: join_wake_inv_def)
  qed
qed

interpretation join_wakes: conc_invariant_given "join_run F" join_call "join_env F" join_spawn "join_new q v" "join_inv v"
    "\<lambda>p pcs. futex_contract F \<and> fx_sleeping F q 0 = {} \<longrightarrow> join_wake_inv F p pcs"
  for F :: "'q futex" and q and v :: 'v
proof unfold_locales
  fix s :: "(('q, 'v) packet, 'v join_pc) conc"
  assume "join_reach F (join_new q v) s"
  then show "join_inv v (fst s) (snd s)" by (rule join.reach_inv)
next
  fix p p' :: "('q, 'v) packet" and pcs t pc'
  assume "join_inv v p pcs" "futex_contract F \<and> fx_sleeping F q 0 = {} \<longrightarrow> join_wake_inv F p pcs" "t < length pcs"
    "join_run F p t (pcs ! t) = Some (p', pc')"
  then show "futex_contract F \<and> fx_sleeping F q 0 = {} \<longrightarrow> join_wake_inv F p' (pcs[t := pc'])"
    using join_wake_run [of F v p pcs t p' pc'] by blast
next
  fix p :: "('q, 'v) packet" and pcs t pc'
  assume a: "join_inv v p pcs" "futex_contract F \<and> fx_sleeping F q 0 = {} \<longrightarrow> join_wake_inv F p pcs" "t < length pcs"
    "join_call (pcs ! t) pc'"
  then obtain x y where p: "pcs = [x, y]" "start_local v p x" "join_local v p y" by (auto simp: join_inv_def)
  then have "t = 1" using a(3,4) by (cases t) (auto simp: join_call_def)
  then show "futex_contract F \<and> fx_sleeping F q 0 = {} \<longrightarrow> join_wake_inv F p (pcs[t := pc'])"
    using p a(2,4) by (auto simp: join_wake_inv_def join_call_def)
next
  fix p p' :: "('q, 'v) packet" and pcs
  assume a: "futex_contract F \<and> fx_sleeping F q 0 = {} \<longrightarrow> join_wake_inv F p pcs" "join_env F p p'"
  obtain q' where "p' = p \<lparr> pk_kernel := q' \<rparr>" "kernel_returns F (pk_kernel p) q'" using a(2) unfolding join_env_def by blast
  then have "pk_state p' = pk_state p" "fx_sleeping F (pk_kernel p') 0 \<subseteq> fx_sleeping F (pk_kernel p) 0"
    by (simp_all add: kernel_returns_def)
  then show "futex_contract F \<and> fx_sleeping F q 0 = {} \<longrightarrow> join_wake_inv F p' pcs"
    using a(1) unfolding join_wake_inv_def by auto
qed (auto simp: join_spawn_def join_wake_inv_def join_new_def)

fun start_rank :: "'v join_pc \<Rightarrow> nat" where
  "start_rank (TS_run _) = 4"
| "start_rank (TS_result _) = 3"
| "start_rank TS_store = 2"
| "start_rank TS_wake = 1"
| "start_rank _ = 0"

fun wait_rank :: "u32 \<Rightarrow> bool \<Rightarrow> 'v join_pc \<Rightarrow> nat" where
  "wait_rank w asleep (JH_wait FW_load) = (if w = 0 then 6 else 2)"
| "wait_rank w asleep (JH_wait FW_call) = (if w = 0 then 5 else 3)"
| "wait_rank w asleep (JH_wait FW_blocked) = (if w = 0 then if asleep then 4 else 7 else 3)"
| "wait_rank w asleep JH_take = 1"
| "wait_rank w asleep _ = 0"

definition join_rank :: "'q futex \<Rightarrow> (('q, 'v) packet, 'v join_pc) conc \<Rightarrow> nat" where
  "join_rank F s = 10 * start_rank (snd s ! 0) +
     wait_rank (pk_state (fst s)) (1 \<in> fx_sleeping F (pk_kernel (fst s)) 0) (snd s ! 1)"

definition joining :: "'q futex \<Rightarrow> 'v \<Rightarrow> (('q, 'v) packet, 'v join_pc) conc \<Rightarrow> bool" where
  "joining F v s \<longleftrightarrow> futex_contract F \<and> join_inv v (fst s) (snd s) \<and> join_wake_inv F (fst s) (snd s) \<and> snd s ! 1 \<noteq> JH_idle"

definition joined :: "'v \<Rightarrow> (('q, 'v) packet, 'v join_pc) conc \<Rightarrow> bool" where
  "joined v s \<longleftrightarrow> snd s ! 1 = JH_joined v"

lemma wait_rank_le: "wait_rank w z pc \<le> 7"
  by (cases "(w, z, pc)" rule: wait_rank.cases) simp_all

lemma joining_step:
  assumes P: "joining F v s" and "run_thread (join_run F) t s = Some s'"
  shows "joining F v s' \<and> join_rank F s' < join_rank F s"
proof -
  obtain p pcs p' pc' where s: "s = (p, pcs)" "s' = (p', pcs[t := pc'])" and t: "t < length pcs"
    and r: "join_run F p t (pcs ! t) = Some (p', pc')"
    using assms(2) by (cases s) (auto simp: run_thread_def split: if_splits)
  have F: "futex_contract F" and I: "join_inv v p pcs" "join_wake_inv F p pcs" and n: "pcs ! 1 \<noteq> JH_idle"
    using P by (auto simp: joining_def s)
  obtain a b where pcs: "pcs = [a, b]" and l: "start_local v p a" "join_local v p b" using I(1) by (auto simp: join_inv_def)
  have I': "join_inv v p' (pcs[t := pc'])" "join_wake_inv F p' (pcs[t := pc'])"
    using join_run_inv [OF I(1) t r] join_wake_run [OF F I t r] by auto
  consider "t = 0" | "t = 1" using t pcs by force
  then have "join_rank F s' < join_rank F s \<and> pcs[t := pc'] ! 1 \<noteq> JH_idle"
  proof cases
    case 1
    then have "start_rank pc' < start_rank a" using r pcs l by (cases a) (auto simp: join_run_defs)
    then show ?thesis using wait_rank_le [of "pk_state p'" "1 \<in> fx_sleeping F (pk_kernel p') 0" b] 1 pcs n
      by (simp add: join_rank_def s)
  next
    case 2
    then have r': "join_run F p 1 b = Some (p', pc')" using r pcs by simp
    have "wait_rank (pk_state p') (1 \<in> fx_sleeping F (pk_kernel p') 0) pc' < wait_rank (pk_state p) (1 \<in> fx_sleeping F (pk_kernel p) 0) b"
    proof (cases b)
      case (JH_wait fp)
      then show ?thesis using r' fx_wait_sleeping [OF F, of "pk_kernel p" 0 1 0]
        by (cases fp) (auto simp: join_run_defs split: if_splits)
    qed (use r' l in \<open>auto simp: join_run_defs split: option.splits\<close>)
    moreover have "pc' \<noteq> JH_idle"
      using r' l by (cases b) (auto simp: join_run_defs split: option.splits futex_pc.splits if_splits)
    ultimately show ?thesis using 2 pcs by (simp add: join_rank_def s)
  qed
  then show ?thesis using F I' by (simp add: joining_def s)
qed

lemma joining_moves:
  assumes "joining F v s" "\<not> joined v s"
  shows "\<exists>t. run_thread (join_run F) t s \<noteq> None"
proof -
  obtain p pcs where s: "s = (p, pcs)" by (cases s)
  obtain a b where pcs: "pcs = [a, b]" and l: "start_local v p a" "join_local v p b"
    using assms(1) by (auto simp: joining_def join_inv_def s)
  have b: "b \<noteq> JH_idle" "b \<noteq> JH_joined v" using assms pcs by (auto simp: joining_def joined_def s)
  show ?thesis
  proof (cases "1 \<in> fx_sleeping F (pk_kernel p) 0")
    case True
    then have "pk_state p = 0 \<or> a = TS_wake" using assms(1) pcs by (auto simp: joining_def join_wake_inv_def s)
    then show ?thesis using l(1) by (intro exI [of _ 0]; cases a) (auto simp: run_thread_def s pcs join_run_defs)
  next
    case False
    then show ?thesis using l(2) b
      by (intro exI [of _ 1]; cases b) (auto simp: run_thread_def s pcs join_run_defs split: futex_pc.splits)
  qed
qed

interpretation join_moves: conc_progress "join_run F" "joining F v" "joined v" "join_rank F"
  for F :: "'q futex" and v :: 'v
proof unfold_locales
  fix s s' :: "(('q, 'v) packet, 'v join_pc) conc" and t
  assume "joining F v s" "run_thread (join_run F) t s = Some s'"
  from joining_step [OF this] show "joined v s' \<or> joining F v s' \<and> join_rank F s' < join_rank F s" ..
qed (rule joining_moves)

section \<open>Properties\<close>

text \<open>C10: \<open>join\<close> gives the value of the thread's closure: it never finds the packet empty, and once it is called it returns within
fifty steps of the two threads, however they are scheduled and whether or not it went to sleep.\<close>

theorem join_returns_value:
  assumes "futex_contract F" "fx_sleeping F q 0 = {}" "join_reach F (join_new q v) (p, pcs)"
  shows "JH_panic \<notin> set pcs \<and> (\<forall>u. JH_joined u \<in> set pcs \<longrightarrow> u = v) \<and>
     (pcs ! 1 \<noteq> JH_idle \<longrightarrow> progresses (join_run F) (joined v) 50 (p, pcs))"
proof (intro conjI impI)
  have I: "join_inv v p pcs" "join_wake_inv F p pcs"
    using join.reach_inv [OF assms(3)] join_wakes.reach_inv [OF assms(3)] assms(1,2) by auto
  show "JH_panic \<notin> set pcs" "\<forall>u. JH_joined u \<in> set pcs \<longrightarrow> u = v" using I(1) by (auto simp: join_inv_def)
  assume "pcs ! 1 \<noteq> JH_idle"
  then have "joining F v (p, pcs)" using assms(1) I by (simp add: joining_def)
  then have "progresses (join_run F) (joined v) (join_rank F (p, pcs)) (p, pcs)" by (rule join_moves.progress)
  moreover have "join_rank F (p, pcs) \<le> 50"
  proof -
    have "start_rank (pcs ! 0) \<le> 4" by (cases "pcs ! 0" rule: start_rank.cases) simp_all
    then show ?thesis using wait_rank_le [of "pk_state p" "1 \<in> fx_sleeping F (pk_kernel p) 0" "pcs ! 1"] by (simp add: join_rank_def)
  qed
  ultimately show "progresses (join_run F) (joined v) 50 (p, pcs)" by (rule progresses_mono)
qed

definition join_sleeps :: "nat join_pc action list" where
  "join_sleeps = [Call 1 (JH_wait FW_load), Run 1, Run 1, Run 0, Run 0]"

theorem join_returns_value_witness:
  "\<exists>p. join_reach (fifo_futex Linux_x86_64) (join_new [] 7) (p, [TS_store, JH_wait FW_blocked]) \<and>
     progresses (join_run (fifo_futex Linux_x86_64)) (joined (7 :: nat)) 50 (p, [TS_store, JH_wait FW_blocked])"
proof -
  let ?p = "\<lparr> pk_state = 0, pk_result = Some (7 :: nat), pk_kernel = [(0, 1)] \<rparr>"
  have r: "join_reach (fifo_futex Linux_x86_64) (join_new [] 7) (?p, [TS_store, JH_wait FW_blocked])"
    by (rule conc_exec_reach [of _ _ _ join_sleeps])
      (simp add: join_sleeps_def join_new_def join_call_def join_run_defs run_thread_def fifo_futex_def)
  have e: "fx_sleeping (fifo_futex Linux_x86_64) [] 0 = {}" by (simp add: fifo_futex_def)
  have "[TS_store, JH_wait FW_blocked :: nat join_pc] ! 1 \<noteq> JH_idle" by simp
  then show ?thesis using join_returns_value [OF fifo_futex_contract e r] r by blast
qed

end
