(* ===== verification/Thread_Locals.thy ===== *)
theory Thread_Locals
  imports Interleaving_Steps
begin

text \<open>
  Thread-local storage, \<open>src/tls.rs\<close>: a registry, under a lock, from the kernel's thread
  identifier and the address of the \<open>LocalKey\<close> to the address of the boxed value. Looking a
  value up, boxing the first value, entering it in the registry and running the closure on it
  are separate steps. The thread at index \<open>t\<close> has the identifier \<open>tid t\<close>; the allocator
  gives a box a new address. \<open>tl_calls\<close> records the finished calls of every thread with their
  results; no step reads it.
\<close>

section \<open>The registry\<close>

record ('v, 'r) tls =
  tl_registry :: "u64 \<times> u64 \<Rightarrow> nat option"
  tl_boxes :: "nat \<Rightarrow> 'v option"
  tl_next :: nat
  tl_calls :: "nat \<Rightarrow> (u64 \<times> ('v \<Rightarrow> 'v \<times> 'r) \<times> 'r) list"

datatype ('v, 'r) tls_pc =
    TL_idle
  | TL_get u64 "'v \<Rightarrow> 'v \<times> 'r"
  | TL_init u64 "'v \<Rightarrow> 'v \<times> 'r"
  | TL_insert u64 "'v \<Rightarrow> 'v \<times> 'r" nat
  | TL_use u64 "'v \<Rightarrow> 'v \<times> 'r" nat
  | TL_dead

text \<open>\<open>LocalKey::with\<close>. The closure may change the value (through a \<open>Cell\<close>) and gives a result.\<close>

definition local_with :: "(nat \<Rightarrow> u64) \<Rightarrow> (u64 \<Rightarrow> 'v) \<Rightarrow> (('v, 'r) tls, ('v, 'r) tls_pc) runner" where
  "local_with tid init g t pc =
     (case pc of
        TL_get key f \<Rightarrow>
          Some (g, case tl_registry g (tid t, key) of Some p \<Rightarrow> TL_use key f p | None \<Rightarrow> TL_init key f)
      | TL_init key f \<Rightarrow>
          Some (g \<lparr> tl_boxes := (tl_boxes g)(tl_next g \<mapsto> init key), tl_next := tl_next g + 1 \<rparr>, TL_insert key f (tl_next g))
      | TL_insert key f p \<Rightarrow>
          Some (g \<lparr> tl_registry := (tl_registry g)((tid t, key) \<mapsto> p) \<rparr>, TL_use key f p)
      | TL_use key f p \<Rightarrow>
          (case tl_boxes g p of
             None \<Rightarrow> None
           | Some v \<Rightarrow>
               (case f v of (v', r) \<Rightarrow>
                  Some (g \<lparr> tl_boxes := (tl_boxes g)(p \<mapsto> v'), tl_calls := (tl_calls g)(t := tl_calls g t @ [(key, f, r)]) \<rparr>, TL_idle)))
      | _ \<Rightarrow> None)"

text \<open>A thread uses its keys and at some point ends; its values stay where they are.\<close>

definition tls_call :: "('v, 'r) tls_pc \<Rightarrow> ('v, 'r) tls_pc \<Rightarrow> bool" where
  "tls_call pc pc' \<longleftrightarrow> pc = TL_idle \<and> (pc' = TL_dead \<or> (\<exists>key f. pc' = TL_get key f))"

definition tls_spawn :: "('v, 'r) tls_pc \<Rightarrow> ('v, 'r) tls_pc \<times> ('v, 'r) tls_pc \<Rightarrow> bool" where
  "tls_spawn pc p \<longleftrightarrow> pc = TL_idle \<and> p = (TL_idle, TL_idle)"

definition tls_new :: "(('v, 'r) tls, ('v, 'r) tls_pc) conc" where
  "tls_new = (\<lparr> tl_registry = (\<lambda>_. None), tl_boxes = (\<lambda>_. None), tl_next = 0, tl_calls = (\<lambda>_. []) \<rparr>, [TL_idle])"

abbreviation tls_reach ::
    "(nat \<Rightarrow> u64) \<Rightarrow> (u64 \<Rightarrow> 'v) \<Rightarrow> (('v, 'r) tls, ('v, 'r) tls_pc) conc \<Rightarrow> (('v, 'r) tls, ('v, 'r) tls_pc) conc \<Rightarrow> bool" where
  "tls_reach tid init \<equiv> conc_reach (local_with tid init) tls_call (\<lambda>_ _. False) tls_spawn"

section \<open>Private values\<close>

text \<open>What a thread would see if it were alone: one value per key, that starts as \<open>init\<close> makes it.\<close>

fun private_store :: "(u64 \<Rightarrow> 'v) \<Rightarrow> (u64 \<times> ('v \<Rightarrow> 'v \<times> 'r) \<times> 'r) list \<Rightarrow> u64 \<Rightarrow> 'v" where
  "private_store s [] = s"
| "private_store s ((key, f, r) # cs) = private_store (s(key := fst (f (s key)))) cs"

fun private_calls :: "(u64 \<Rightarrow> 'v) \<Rightarrow> (u64 \<times> ('v \<Rightarrow> 'v \<times> 'r) \<times> 'r) list \<Rightarrow> bool" where
  "private_calls s [] = True"
| "private_calls s ((key, f, r) # cs) = (r = snd (f (s key)) \<and> private_calls (s(key := fst (f (s key)))) cs)"

lemma private_store_snoc:
  "private_store s (cs @ [(key, f, r)]) = (private_store s cs)(key := fst (f (private_store s cs key)))"
proof (induction cs arbitrary: s)
  case (Cons c cs)
  obtain key' f' r' where "c = (key', f', r')" by (metis prod_cases3)
  then show ?case using Cons [of "s(key' := fst (f' (s key')))"] by (simp only: append_Cons private_store.simps)
qed simp

lemma private_calls_snoc:
  "private_calls s (cs @ [(key, f, r)]) \<longleftrightarrow> private_calls s cs \<and> r = snd (f (private_store s cs key))"
proof (induction cs arbitrary: s)
  case (Cons c cs)
  obtain key' f' r' where "c = (key', f', r')" by (metis prod_cases3)
  then show ?case using Cons [of "s(key' := fst (f' (s key')))"]
    by (simp only: append_Cons private_store.simps private_calls.simps conj_assoc)
qed simp

text \<open>What the registry says of a thread, and what the thread's position says.\<close>

definition own_values :: "(nat \<Rightarrow> u64) \<Rightarrow> (u64 \<Rightarrow> 'v) \<Rightarrow> ('v, 'r) tls \<Rightarrow> nat \<Rightarrow> bool" where
  "own_values tid init g t \<longleftrightarrow>
     private_calls init (tl_calls g t) \<and>
     (\<forall>key. tl_registry g (tid t, key) = None \<longrightarrow> private_store init (tl_calls g t) key = init key) \<and>
     (\<forall>key p. tl_registry g (tid t, key) = Some p \<longrightarrow> tl_boxes g p = Some (private_store init (tl_calls g t) key))"

fun tls_local :: "(nat \<Rightarrow> u64) \<Rightarrow> (u64 \<Rightarrow> 'v) \<Rightarrow> ('v, 'r) tls \<Rightarrow> nat \<Rightarrow> ('v, 'r) tls_pc \<Rightarrow> bool" where
  "tls_local tid init g t (TL_init key f) = (tl_registry g (tid t, key) = None)"
| "tls_local tid init g t (TL_insert key f p) =
     (tl_registry g (tid t, key) = None \<and> p < tl_next g \<and> tl_boxes g p = Some (init key) \<and> (\<forall>a. tl_registry g a \<noteq> Some p))"
| "tls_local tid init g t (TL_use key f p) = (tl_registry g (tid t, key) = Some p)"
| "tls_local tid init g t _ = True"

fun new_box :: "('v, 'r) tls_pc \<Rightarrow> nat option" where
  "new_box (TL_insert key f p) = Some p"
| "new_box _ = None"

definition tls_inv :: "(nat \<Rightarrow> u64) \<Rightarrow> (u64 \<Rightarrow> 'v) \<Rightarrow> ('v, 'r) tls \<Rightarrow> ('v, 'r) tls_pc list \<Rightarrow> bool" where
  "tls_inv tid init g pcs \<longleftrightarrow>
     (\<forall>t < length pcs. own_values tid init g t) \<and> (\<forall>t < length pcs. tls_local tid init g t (pcs ! t)) \<and>
     (\<forall>t < length pcs. \<forall>u < length pcs. \<forall>p. new_box (pcs ! t) = Some p \<longrightarrow> new_box (pcs ! u) = Some p \<longrightarrow> t = u) \<and>
     (\<forall>a p. tl_registry g a = Some p \<longrightarrow> p < tl_next g) \<and>
     (\<forall>a b p. tl_registry g a = Some p \<longrightarrow> tl_registry g b = Some p \<longrightarrow> a = b) \<and>
     (\<forall>a p. tl_registry g a = Some p \<longrightarrow> fst a \<in> tid ` {..<length pcs}) \<and> (\<forall>t \<ge> length pcs. tl_calls g t = [])"

lemma own_valuesD:
  assumes "own_values tid init g t"
  shows "private_calls init (tl_calls g t)"
    and "tl_registry g (tid t, key) = None \<Longrightarrow> private_store init (tl_calls g t) key = init key"
    and "tl_registry g (tid t, key) = Some p \<Longrightarrow> tl_boxes g p = Some (private_store init (tl_calls g t) key)"
  using assms by (simp_all add: own_values_def)

lemma own_values_init:
  assumes "own_values tid init g u" "\<forall>a p. tl_registry g a = Some p \<longrightarrow> p < tl_next g"
  shows "own_values tid init (g \<lparr> tl_boxes := (tl_boxes g)(tl_next g \<mapsto> v), tl_next := tl_next g + 1 \<rparr>) u"
proof -
  have "p \<noteq> tl_next g" if "tl_registry g (tid u, key) = Some p" for key p using assms(2) [rule_format, OF that] by simp
  then show ?thesis using own_valuesD [OF assms(1)] by (auto simp: own_values_def)
qed

lemma own_values_insert:
  assumes "own_values tid init g u" "tid u = tid t \<longleftrightarrow> u = t" "tl_boxes g p = Some (init key)" "tl_registry g (tid t, key) = None"
  shows "own_values tid init (g \<lparr> tl_registry := (tl_registry g)((tid t, key) \<mapsto> p) \<rparr>) u"
  using own_valuesD [OF assms(1)] assms(2-4) by (auto simp: own_values_def)

lemma own_values_use:
  assumes "own_values tid init g u" "own_values tid init g t" "tid u = tid t \<longleftrightarrow> u = t" "tl_registry g (tid t, key) = Some p"
    and "\<forall>a b p. tl_registry g a = Some p \<longrightarrow> tl_registry g b = Some p \<longrightarrow> a = b" "tl_boxes g p = Some v" "f v = (v', r)"
  shows "own_values tid init
     (g \<lparr> tl_boxes := (tl_boxes g)(p \<mapsto> v'), tl_calls := (tl_calls g)(t := tl_calls g t @ [(key, f, r)]) \<rparr>) u"
proof (cases "u = t")
  case True
  have v: "private_store init (tl_calls g t) key = v" using own_valuesD(3) [OF assms(2,4)] assms(6) by simp
  have apart: "p' = p \<longleftrightarrow> k = key" if "tl_registry g (tid t, k) = Some p'" for k p' using that assms(4,5) by auto
  have none: "k \<noteq> key" if "tl_registry g (tid t, k) = None" for k using that assms(4) by auto
  show ?thesis unfolding own_values_def
    using True v assms(7) own_valuesD [OF assms(2)] apart none
    by (auto simp: private_calls_snoc private_store_snoc)
next
  case False
  have "p' \<noteq> p" if "tl_registry g (tid u, k) = Some p'" for k p'
    using that assms(3,4,5) False by (metis prod.inject)
  then show ?thesis using own_valuesD [OF assms(1)] False by (auto simp: own_values_def)
qed

lemma tls_invD:
  assumes "tls_inv tid init g pcs"
  shows "u < length pcs \<Longrightarrow> own_values tid init g u" and "u < length pcs \<Longrightarrow> tls_local tid init g u (pcs ! u)"
    and "u < length pcs \<Longrightarrow> w < length pcs \<Longrightarrow> new_box (pcs ! u) = Some p \<Longrightarrow> new_box (pcs ! w) = Some p \<Longrightarrow> u = w"
    and "\<forall>a p. tl_registry g a = Some p \<longrightarrow> p < tl_next g"
    and "\<forall>a b p. tl_registry g a = Some p \<longrightarrow> tl_registry g b = Some p \<longrightarrow> a = b"
    and "\<forall>a p. tl_registry g a = Some p \<longrightarrow> fst a \<in> tid ` {..<length pcs}" and "\<forall>t \<ge> length pcs. tl_calls g t = []"
  using assms unfolding tls_inv_def by blast+

lemma tls_inv_update:
  assumes I: "tls_inv tid init g pcs" and t: "t < length pcs" and own: "\<And>u. u < length pcs \<Longrightarrow> own_values tid init g' u"
    and others: "\<And>u. u < length pcs \<Longrightarrow> u \<noteq> t \<Longrightarrow> tls_local tid init g' u (pcs ! u)" and self: "tls_local tid init g' t pc'"
    and new: "\<And>u p. u < length pcs \<Longrightarrow> u \<noteq> t \<Longrightarrow> new_box pc' = Some p \<Longrightarrow> new_box (pcs ! u) \<noteq> Some p"
    and reg: "\<forall>a p. tl_registry g' a = Some p \<longrightarrow> p < tl_next g'"
      "\<forall>a b p. tl_registry g' a = Some p \<longrightarrow> tl_registry g' b = Some p \<longrightarrow> a = b"
      "\<forall>a p. tl_registry g' a = Some p \<longrightarrow> fst a \<in> tid ` {..<length pcs}" and calls: "\<forall>t \<ge> length pcs. tl_calls g' t = []"
  shows "tls_inv tid init g' (pcs[t := pc'])"
proof -
  have "\<forall>u < length pcs. tls_local tid init g' u (pcs[t := pc'] ! u)" using others self t by (simp add: nth_list_update)
  moreover have "u = w" if "u < length pcs" "w < length pcs" "new_box (pcs[t := pc'] ! u) = Some p" "new_box (pcs[t := pc'] ! w) = Some p"
    for u w p
  proof (cases "u = t \<or> w = t")
    case True
    then show ?thesis using that t new by (metis nth_list_update_eq nth_list_update_neq)
  next
    case False
    then show ?thesis using that tls_invD(3) [OF I, of u w p] by simp
  qed
  ultimately show ?thesis using own reg calls unfolding tls_inv_def length_list_update by blast
qed

lemma tls_init_inv:
  assumes I: "tls_inv tid init g pcs" and t: "t < length pcs" "pcs ! t = TL_init key f"
  shows "tls_inv tid init (g \<lparr> tl_boxes := (tl_boxes g)(tl_next g \<mapsto> init key), tl_next := tl_next g + 1 \<rparr>)
     (pcs[t := TL_insert key f (tl_next g)])"
proof (rule tls_inv_update [OF I t(1)])
  note l = tls_invD(2) [OF I] and lt = tls_invD(4) [OF I]
  have none: "tl_registry g a \<noteq> Some (tl_next g)" for a using lt by (metis less_irrefl)
  let ?g = "g \<lparr> tl_boxes := (tl_boxes g)(tl_next g \<mapsto> init key), tl_next := tl_next g + 1 \<rparr>"
  show "own_values tid init ?g u" if "u < length pcs" for u by (rule own_values_init [OF tls_invD(1) [OF I that] lt])
  show "tls_local tid init ?g u (pcs ! u)" if "u < length pcs" for u using l [OF that] by (cases "pcs ! u") auto
  show "tls_local tid init ?g t (TL_insert key f (tl_next g))" using l [OF t(1)] none t(2) by simp
  show "new_box (pcs ! u) \<noteq> Some p" if "u < length pcs" "new_box (TL_insert key f (tl_next g)) = Some p" for u p
    using l [OF that(1)] that(2) by (cases "pcs ! u") auto
  show "\<forall>a p. tl_registry ?g a = Some p \<longrightarrow> p < tl_next ?g" using lt by (simp add: less_SucI)
  show "\<forall>a b p. tl_registry ?g a = Some p \<longrightarrow> tl_registry ?g b = Some p \<longrightarrow> a = b" using tls_invD(5) [OF I] by simp
qed (use tls_invD(6,7) [OF I] in simp_all)

lemma tls_insert_inv:
  assumes T: "inj_on tid {..<length pcs}" and I: "tls_inv tid init g pcs" and t: "t < length pcs" "pcs ! t = TL_insert key f p"
  shows "tls_inv tid init (g \<lparr> tl_registry := (tl_registry g)((tid t, key) \<mapsto> p) \<rparr>) (pcs[t := TL_use key f p])"
proof (rule tls_inv_update [OF I t(1)])
  note l = tls_invD(2) [OF I] and lt = tls_invD(4) [OF I] and one = tls_invD(5) [OF I]
  let ?g = "g \<lparr> tl_registry := (tl_registry g)((tid t, key) \<mapsto> p) \<rparr>"
  have p: "tl_registry g (tid t, key) = None" "p < tl_next g" "tl_boxes g p = Some (init key)" "\<forall>a. tl_registry g a \<noteq> Some p"
    using l [OF t(1)] t(2) by auto
  have ids: "tid u = tid t \<longleftrightarrow> u = t" if "u < length pcs" for u using T t(1) that by (auto dest: inj_onD)
  show "own_values tid init ?g u" if "u < length pcs" for u by (rule own_values_insert [OF tls_invD(1) [OF I that] ids [OF that] p(3,1)])
  show "tls_local tid init ?g u (pcs ! u)" if u: "u < length pcs" "u \<noteq> t" for u
  proof -
    have "tid u \<noteq> tid t" using ids u by simp
    moreover have "new_box (pcs ! u) \<noteq> Some p" using tls_invD(3) [OF I u(1) t(1)] u(2) t(2) by auto
    ultimately show ?thesis using l [OF u(1)] by (cases "pcs ! u") auto
  qed
  show "tls_local tid init ?g t (TL_use key f p)" by simp
  show "\<forall>a p. tl_registry ?g a = Some p \<longrightarrow> p < tl_next ?g" using lt p(2) by simp
  show "\<forall>a b x. tl_registry ?g a = Some x \<longrightarrow> tl_registry ?g b = Some x \<longrightarrow> a = b" using one p(4) by simp
  show "\<forall>a p. tl_registry ?g a = Some p \<longrightarrow> fst a \<in> tid ` {..<length pcs}" using tls_invD(6) [OF I] t(1) by auto
qed (use tls_invD(7) [OF I] in simp_all)

lemma tls_use_inv:
  assumes T: "inj_on tid {..<length pcs}" and I: "tls_inv tid init g pcs" and t: "t < length pcs" "pcs ! t = TL_use key f p"
    and v: "tl_boxes g p = Some v" "f v = (v', r)"
  shows "tls_inv tid init (g \<lparr> tl_boxes := (tl_boxes g)(p \<mapsto> v'), tl_calls := (tl_calls g)(t := tl_calls g t @ [(key, f, r)]) \<rparr>)
     (pcs[t := TL_idle])"
proof (rule tls_inv_update [OF I t(1)])
  note l = tls_invD(2) [OF I] and one = tls_invD(5) [OF I]
  let ?g = "g \<lparr> tl_boxes := (tl_boxes g)(p \<mapsto> v'), tl_calls := (tl_calls g)(t := tl_calls g t @ [(key, f, r)]) \<rparr>"
  have p: "tl_registry g (tid t, key) = Some p" using l [OF t(1)] t(2) by simp
  have ids: "tid u = tid t \<longleftrightarrow> u = t" if "u < length pcs" for u using T t(1) that by (auto dest: inj_onD)
  show "own_values tid init ?g u" if "u < length pcs" for u
    by (rule own_values_use [where f = f, OF tls_invD(1) [OF I that] tls_invD(1) [OF I t(1)] ids [OF that] p one v])
  show "tls_local tid init ?g u (pcs ! u)" if "u < length pcs" for u using l [OF that] p by (cases "pcs ! u") auto
  show "\<forall>a p. tl_registry ?g a = Some p \<longrightarrow> p < tl_next ?g" using tls_invD(4) [OF I] by simp
  show "\<forall>a b x. tl_registry ?g a = Some x \<longrightarrow> tl_registry ?g b = Some x \<longrightarrow> a = b" using one by simp
qed (use tls_invD(6,7) [OF I] t(1) in auto)

lemma tls_run_inv:
  assumes T: "inj_on tid {..<length pcs}" and I: "tls_inv tid init g pcs" and t: "t < length pcs"
    and r: "local_with tid init g t (pcs ! t) = Some (g', pc')"
  shows "tls_inv tid init g' (pcs[t := pc'])"
proof (cases "pcs ! t")
  case (TL_get key f)
  then have g': "g' = g" "new_box pc' = None" "tls_local tid init g t pc'"
    using r by (auto simp: local_with_def split: option.splits)
  show ?thesis by (rule tls_inv_update [OF I t]) (use tls_invD [OF I] g' in simp_all)
next
  case (TL_init key f)
  then show ?thesis using tls_init_inv [OF I t] r by (auto simp: local_with_def)
next
  case (TL_insert key f p)
  then show ?thesis using tls_insert_inv [OF T I t] r by (auto simp: local_with_def)
next
  case (TL_use key f p)
  then show ?thesis using tls_use_inv [OF T I t] r by (auto simp: local_with_def split: option.splits prod.splits)
qed (use r in \<open>simp_all add: local_with_def\<close>)

lemma tls_spawn_inv:
  assumes I: "tls_inv tid init g pcs" and t: "t < length pcs" "tls_spawn (pcs ! t) (pc', new)"
    and T: "inj_on tid {..<Suc (length pcs)}"
  shows "tls_inv tid init g (pcs[t := pc'] @ [new])"
proof -
  have p: "pcs[t := pc'] @ [new] = pcs @ [TL_idle]" using t(2) by (auto simp: tls_spawn_def) (metis list_update_id)
  have "tid (length pcs) \<noteq> tid x" if "x < length pcs" for x using inj_onD [OF T, of "length pcs" x] that by auto
  then have "tid (length pcs) \<notin> tid ` {..<length pcs}" by auto
  then have "tl_registry g (tid (length pcs), key) = None" for key using tls_invD(6) [OF I] by (cases "tl_registry g (tid (length pcs), key)") fastforce+
  then have "own_values tid init g (length pcs)" using tls_invD(7) [OF I] by (simp add: own_values_def)
  moreover have "tid ` {..<length pcs} \<subseteq> tid ` {..<Suc (length pcs)}" by auto
  ultimately show ?thesis using I unfolding p tls_inv_def by (simp add: nth_append less_Suc_eq) blast
qed

interpretation tls: conc_invariant "local_with tid init" tls_call "\<lambda>_ _. False" tls_spawn tls_new
    "\<lambda>g pcs. inj_on tid {..<length pcs} \<longrightarrow> tls_inv tid init g pcs"
  for tid :: "nat \<Rightarrow> u64" and init :: "u64 \<Rightarrow> 'v"
proof unfold_locales
  show "inj_on tid {..<length (snd tls_new)} \<longrightarrow> tls_inv tid init (fst tls_new) (snd tls_new)"
    by (simp add: tls_new_def tls_inv_def own_values_def)
next
  fix g g' :: "('v, 'r) tls" and pcs t pc'
  assume "inj_on tid {..<length pcs} \<longrightarrow> tls_inv tid init g pcs" "t < length pcs" "local_with tid init g t (pcs ! t) = Some (g', pc')"
  then show "inj_on tid {..<length (pcs[t := pc'])} \<longrightarrow> tls_inv tid init g' (pcs[t := pc'])"
    unfolding length_list_update using tls_run_inv by blast
next
  fix g :: "('v, 'r) tls" and pcs t pc'
  assume "inj_on tid {..<length pcs} \<longrightarrow> tls_inv tid init g pcs" "t < length pcs" "tls_call (pcs ! t) pc'"
  then show "inj_on tid {..<length (pcs[t := pc'])} \<longrightarrow> tls_inv tid init g (pcs[t := pc'])"
    by (auto simp: tls_inv_def tls_call_def nth_list_update)
next
  fix g :: "('v, 'r) tls" and pcs t pc' new
  assume a: "inj_on tid {..<length pcs} \<longrightarrow> tls_inv tid init g pcs" "t < length pcs" "tls_spawn (pcs ! t) (pc', new)"
  have "inj_on tid {..<length pcs}" if "inj_on tid {..<Suc (length pcs)}" using that by (rule inj_on_subset) auto
  then show "inj_on tid {..<length (pcs[t := pc'] @ [new])} \<longrightarrow> tls_inv tid init g (pcs[t := pc'] @ [new])"
    using a tls_spawn_inv [OF _ a(2,3)] by simp
qed simp

section \<open>Properties\<close>

text \<open>C16: While the threads have different identifiers, thread-local values are private: whatever the interleaving, every call
of \<open>with\<close> gives its thread the result it would get with one store of its own, in which each key starts with its initial
value.\<close>

theorem tls_private:
  assumes "tls_reach tid init tls_new (g, pcs)" "inj_on tid {..<length pcs}" "t < length pcs"
  shows "private_calls init (tl_calls g t)"
proof -
  have "tls_inv tid init g pcs" using tls.reach_inv [OF assms(1)] assms(2) by simp
  then show ?thesis using own_valuesD(1) [OF tls_invD(1)] assms(3) by blast
qed

text \<open>Two threads count with the same key; each sees its own counter.\<close>

definition count_up :: "nat \<Rightarrow> nat \<times> nat" where
  "count_up n = (n + 1, n)"

definition tls_counters :: "(nat, nat) tls_pc action list" where
  "tls_counters = [Spawn 0 TL_idle TL_idle, Call 0 (TL_get 8 count_up), Run 0, Run 0, Call 1 (TL_get 8 count_up), Run 1,
     Run 0, Run 1, Run 0, Run 1, Run 1, Call 1 (TL_get 8 count_up), Run 1, Run 1]"

lemmas tls_eval = tls_new_def tls_call_def tls_spawn_def local_with_def run_thread_def count_up_def

definition counted :: "(nat, nat) tls" where
  "counted = \<lparr> tl_registry = (\<lambda>_. None)((0, 8) \<mapsto> 0, (1, 8) \<mapsto> 1), tl_boxes = (\<lambda>_. None)(0 \<mapsto> 6, 1 \<mapsto> 7), tl_next = 2,
     tl_calls = (\<lambda>_. [])(0 := [(8, count_up, 5)], 1 := [(8, count_up, 5), (8, count_up, 6)]) \<rparr>"

theorem tls_private_witness:
  "\<exists>g. tls_reach of_nat (\<lambda>_. 5) tls_new (g, [TL_idle, TL_idle]) \<and>
     tl_calls g 1 = [(8, count_up, 5), (8, count_up, 6)] \<and> private_calls (\<lambda>_. 5) (tl_calls g 1)"
proof -
  have r: "tls_reach of_nat (\<lambda>_. 5) tls_new (counted, [TL_idle, TL_idle])"
    by (rule conc_exec_reach [of _ _ _ tls_counters]) (simp add: tls_counters_def tls_eval counted_def fun_upd_twist)
  have "inj_on (of_nat :: nat \<Rightarrow> u64) {..<length [TL_idle, TL_idle :: (nat, nat) tls_pc]}" by (auto simp: inj_on_def less_Suc_eq numeral_2_eq_2)
  then have "private_calls (\<lambda>_. 5) (tl_calls counted 1)" by (intro tls_private [OF r]) simp_all
  then show ?thesis using r by (intro exI [of _ counted]) (simp add: counted_def)
qed

definition tls_reuse :: "(nat, nat) tls_pc action list" where
  "tls_reuse = [Spawn 0 TL_idle TL_idle, Call 1 (TL_get 8 count_up), Run 1, Run 1, Run 1, Run 1, Call 1 TL_dead,
     Spawn 0 TL_idle TL_idle, Call 2 (TL_get 8 count_up), Run 2, Run 2]"

definition reused :: "(nat, nat) tls" where
  "reused = \<lparr> tl_registry = (\<lambda>_. None)((1, 8) \<mapsto> 0), tl_boxes = (\<lambda>_. None)(0 \<mapsto> 7), tl_next = 1,
     tl_calls = (\<lambda>_. [])(1 := [(8, count_up, 5)], 2 := [(8, count_up, 6)]) \<rparr>"


end
