(* ===== verification/Thread_Spawn.thy ===== *)
theory Thread_Spawn
  imports Allocator Io_Error Times
begin

text \<open>
  Creating threads: \<open>Builder\<close>, \<open>Thread\<close>, \<open>current\<close>, \<open>sleep\<close> and \<open>yield_now\<close> of \<open>src/thread.rs\<close> and
  the 64-bit implementations below them in \<open>src/sys_thread.rs\<close>. The memory that the clone
  wrapper writes is a function from addresses to 64-bit words; the machine code the child
  starts with reads the entry point and the argument back from its stack. The Mach message
  of macOS goes to a parameter, as the system calls do.
\<close>

section \<open>Handles\<close>

text \<open>\<open>Inner\<close>: \<open>th_parker\<close> is the word of the \<open>Parker\<close> when the handle is made.\<close>

record Thread =
  th_id :: u64
  th_name :: "string option"
  th_parker :: u32

text \<open>\<open>ThreadId::next\<close> on the counter \<open>NEXT\<close>, which starts at 1.\<close>

definition thread_id_next :: "u64 \<Rightarrow> u64 \<times> u64" where
  "thread_id_next counter = (counter + 1, counter)"

definition thread_new :: "u64 \<Rightarrow> string option \<Rightarrow> u64 \<times> Thread" where
  "thread_new counter name =
     (case thread_id_next counter of (counter', i) \<Rightarrow> (counter', \<lparr> th_id = i, th_name = name, th_parker = 0 \<rparr>))"

text \<open>\<open>current\<close> on the thread's own \<open>CURRENT\<close> cell.\<close>

definition current :: "u64 \<Rightarrow> Thread option \<Rightarrow> u64 \<times> Thread option \<times> Thread" where
  "current counter cell =
     (case cell of
        Some t \<Rightarrow> (counter, cell, t)
      | None \<Rightarrow> (case thread_new counter None of (counter', t) \<Rightarrow> (counter', Some t, t)))"

section \<open>The operating system's thread\<close>

definition CLONE_THREAD_FLAGS :: u64 where
  "CLONE_THREAD_FLAGS = 0x100 OR 0x200 OR 0x400 OR 0x800 OR 0x10000 OR 0x40000"

type_synonym memory = "u64 \<Rightarrow> u64"

text \<open>\<open>__purestd_clone\<close>, the same on x86_64, aarch64 and riscv64: entry point and argument go on the child's stack.\<close>

definition purestd_clone :: "'k platform \<Rightarrow> 'k \<Rightarrow> memory \<Rightarrow> u64 \<Rightarrow> u64 \<Rightarrow> u64 \<Rightarrow> u64 \<Rightarrow> 'k \<times> memory \<times> u64" where
  "purestd_clone P k mem entry stack_top flags arg =
     (let sp = (stack_top AND NOT 15) - 16; mem' = mem(sp := entry, sp + 8 := arg) in
      case p_syscall P k CLONE [W flags, W sp, W 0, W 0, W 0] of (k', r, _) \<Rightarrow> (k', mem', r))"

text \<open>What the child takes from its stack: the address it calls and the argument.\<close>

definition clone_child :: "memory \<Rightarrow> u64 \<Rightarrow> u64 \<times> u64" where
  "clone_child mem sp = (mem sp, mem (sp + 8))"

text \<open>The \<open>mach_msg2\<close> arguments and the message of \<open>thread_create_running\<close> on macOS/arm64.\<close>

record mach_create =
  mc_options :: u64
  mc_bits_size :: u64
  mc_ports :: u64
  mc_voucher_id :: u64
  mc_desc_rcv :: u64
  mc_rcv_size :: u64
  mc_flavor :: u32
  mc_count :: u32
  mc_state :: "u64 list"

definition mach_request :: "u32 \<Rightarrow> u32 \<Rightarrow> u64 \<Rightarrow> u64 \<Rightarrow> u64 \<Rightarrow> mach_create" where
  "mach_request task reply entry arg stack_top =
     \<lparr> mc_options = 1 OR 2 OR 0x800000000,
       mc_bits_size = 0x1513 OR push_bit 32 (24 + 8 + 4 + 4 + 68 * 4),
       mc_ports = ucast task OR push_bit 32 (ucast reply),
       mc_voucher_id = push_bit 32 3412,
       mc_desc_rcv = push_bit 32 (ucast reply),
       mc_rcv_size = 24 + 8 + 4 + 4 + 34 * 8,
       mc_flavor = 6,
       mc_count = 68,
       mc_state = (replicate 34 0)[0 := arg, 31 := stack_top, 32 := entry] \<rparr>"

text \<open>The Mach side of the kernel: the task and the reply port, which \<open>ports\<close> asks for once, and the traps. The spin lock
around the message only keeps two creations apart, which are single steps here.\<close>

record 'k mach =
  ma_ports :: "u32 \<times> u32"
  ma_create :: "'k \<Rightarrow> mach_create \<Rightarrow> 'k \<times> u64"
  ma_switch :: "'k \<Rightarrow> u64 \<Rightarrow> u64 \<Rightarrow> u64 \<Rightarrow> 'k"
  ma_thread_self :: "'k \<Rightarrow> 'k \<times> u64"
  ma_terminate :: "'k \<Rightarrow> u64 \<Rightarrow> u64 \<Rightarrow> u64 \<Rightarrow> u64 \<Rightarrow> 'k"

definition spawn_os :: "'k platform \<Rightarrow> 'k mach \<Rightarrow> 'k \<Rightarrow> memory \<Rightarrow> u64 \<Rightarrow> u64 \<Rightarrow> u64 \<Rightarrow> 'k \<times> memory \<times> bool" where
  "spawn_os P M k mem entry arg stack_top =
     (case p_target P of
        Macos_x86_64 \<Rightarrow> (k, mem, False)
      | Macos_aarch64 \<Rightarrow>
          (case ma_create M k (mach_request (fst (ma_ports M)) (snd (ma_ports M)) entry arg stack_top) of
             (k', kr) \<Rightarrow> (k', mem, kr = 0))
      | _ \<Rightarrow>
          (case purestd_clone P k mem entry stack_top CLONE_THREAD_FLAGS arg of
             (k', mem', r) \<Rightarrow> (k', mem', 0 < sint r)))"

text \<open>\<open>thread_exit\<close> does not return; this is the kernel's state after its calls, where a thread that still runs spins.\<close>

definition thread_exit :: "'k platform \<Rightarrow> 'k mach \<Rightarrow> 'k \<Rightarrow> u64 \<Rightarrow> u64 \<Rightarrow> 'k" where
  "thread_exit P M k stack_base stack_size =
     (case p_target P of
        Macos_aarch64 \<Rightarrow>
          (case ma_thread_self M k of (k', self_port) \<Rightarrow> ma_terminate M k' stack_base stack_size self_port 0)
      | _ \<Rightarrow> fst (p_syscall P k EXIT [W 0]))"

section \<open>Builder\<close>

record Builder =
  bu_stack_size :: "u64 option"
  bu_name :: "string option"

definition DEFAULT_STACK :: u64 where
  "DEFAULT_STACK = 2 * 1024 * 1024"

definition builder_new :: Builder where
  "builder_new = \<lparr> bu_stack_size = None, bu_name = None \<rparr>"

definition builder_stack_size :: "Builder \<Rightarrow> u64 \<Rightarrow> Builder" where
  "builder_stack_size b sz = b \<lparr> bu_stack_size := Some sz \<rparr>"

definition builder_name :: "Builder \<Rightarrow> string \<Rightarrow> Builder" where
  "builder_name b name = b \<lparr> bu_name := Some name \<rparr>"

definition stack_request :: "Builder \<Rightarrow> u64" where
  "stack_request b = (case bu_stack_size b of Some sz \<Rightarrow> sz | None \<Rightarrow> DEFAULT_STACK)"

text \<open>The request rounded up to 16 KiB; the sum wraps around, as in a release build.\<close>

definition stack_word :: "Builder \<Rightarrow> u64" where
  "stack_word b = (stack_request b + 0x3fff) AND NOT 0x3fff"

text \<open>\<open>entry\<close> and \<open>arg\<close> are the addresses of \<open>thread_start\<close> and of the payload.\<close>

definition builder_spawn ::
    "'k platform \<Rightarrow> 'k mach \<Rightarrow> 'k \<Rightarrow> memory \<Rightarrow> u64 \<Rightarrow> Builder \<Rightarrow> u64 \<Rightarrow> u64 \<Rightarrow> 'k \<times> memory \<times> u64 \<times> (Error + Thread)" where
  "builder_spawn P M k mem counter b entry arg =
     (let stack_size = stack_word b in
      case mmap_anon P k stack_size 3 of
        (k1, Inl e) \<Rightarrow> (k1, mem, counter, Inl (error_from_errno e))
      | (k1, Inr base) \<Rightarrow>
          (let stack_top = (base + stack_size) AND NOT 15 in
           case thread_new counter (bu_name b) of
             (counter', thread) \<Rightarrow>
               (case spawn_os P M k1 mem entry arg stack_top of
                  (k2, mem', True) \<Rightarrow> (k2, mem', counter', Inr thread)
                | (k2, mem', False) \<Rightarrow>
                    (case sys_munmap P k2 base stack_size of
                       (k3, _) \<Rightarrow> (k3, mem', counter', Inl (error_new Other ''failed to spawn OS thread''))))))"

text \<open>\<open>spawn\<close>, where a failure panics.\<close>

definition thread_spawn ::
    "'k platform \<Rightarrow> 'k mach \<Rightarrow> 'k \<Rightarrow> memory \<Rightarrow> u64 \<Rightarrow> u64 \<Rightarrow> u64 \<Rightarrow> ('k \<times> memory \<times> u64 \<times> Thread) option" where
  "thread_spawn P M k mem counter entry arg =
     (case builder_spawn P M k mem counter builder_new entry arg of
        (k', mem', counter', Inr t) \<Rightarrow> Some (k', mem', counter', t)
      | _ \<Rightarrow> None)"

definition available_parallelism :: "'k platform \<Rightarrow> 'k \<Rightarrow> 'k \<times> (Error + nat)" where
  "available_parallelism P k =
     (case sys_num_cpus P k of (k', n) \<Rightarrow> (k', if n = 0 then Inl (error_from_kind Other) else Inr n))"

section \<open>Sleeping\<close>

definition timespec_bytes :: "Duration \<Rightarrow> byte list" where
  "timespec_bytes d = to_le_bytes 8 (d_secs d) @ to_le_bytes 8 (ucast (d_nanos d) :: u64)"

definition as_micros :: "Duration \<Rightarrow> nat" where
  "as_micros d = unat (d_secs d) * 1000000 + unat (d_nanos d) div 1000"

text \<open>The macOS loop: the kernel's limit is a 32-bit number of microseconds.\<close>

function sleep_chunks :: "'k platform \<Rightarrow> 'k \<Rightarrow> nat \<Rightarrow> 'k" where
  "sleep_chunks P k us =
     (if us > 0 then
        let chunk = min us 0xFFFFFFFF in
        (case p_syscall P k ULOCK_WAIT
                [W (if p_target P = Macos_aarch64 then 1 OR 0x1000000 else 1), In (to_le_bytes 4 (0 :: u32)), W 0, W (of_nat chunk)] of
           (k', _, _) \<Rightarrow> sleep_chunks P k' (us - chunk))
      else k)"
  by pat_completeness auto
termination
  by (relation "measure (\<lambda>(P, k, us). us)") auto

declare sleep_chunks.simps [simp del]

definition sleep :: "'k platform \<Rightarrow> 'k \<Rightarrow> Duration \<Rightarrow> 'k" where
  "sleep P k dur =
     (if is_macos (p_target P) then sleep_chunks P k (as_micros dur)
      else fst (p_syscall P k NANOSLEEP [In (timespec_bytes dur), W 0]))"

definition yield_now :: "'k platform \<Rightarrow> 'k mach \<Rightarrow> 'k \<Rightarrow> 'k" where
  "yield_now P M k =
     (case p_target P of
        Macos_aarch64 \<Rightarrow> ma_switch M k 0 0 0
      | Macos_x86_64 \<Rightarrow> k
      | _ \<Rightarrow> fst (p_syscall P k SCHED_YIELD []))"

text \<open>The first \<open>current\<close> of a foreign thread mints a handle; every later one returns it.\<close>

lemma current_again:
  "current counter cell = (counter', cell', t) \<Longrightarrow> cell' = Some t \<and> current counter' cell' = (counter', cell', t)"
  by (auto simp: current_def split: option.splits prod.splits)

text \<open>When every wait lasts as long as it was asked to, the chunks of the macOS loop add up to the whole duration.\<close>

lemma sleep_chunks_total:
  assumes "\<And>k op c. c < 2 ^ 32 \<Longrightarrow>
      clock k + c \<le> clock (fst (p_syscall P k ULOCK_WAIT [W op, In (to_le_bytes 4 (0 :: u32)), W 0, W (of_nat c)]))"
  shows "clock k + us \<le> clock (sleep_chunks P k us)"
proof (induction us arbitrary: k rule: less_induct)
  case (less us)
  show ?case
  proof (cases "us > 0")
    case True
    let ?op = "if p_target P = Macos_aarch64 then 1 OR 0x1000000 else 1 :: u64"
    let ?c = "min us 0xFFFFFFFF"
    let ?k = "fst (p_syscall P k ULOCK_WAIT [W ?op, In (to_le_bytes 4 (0 :: u32)), W 0, W (of_nat ?c)])"
    have step: "sleep_chunks P k us = sleep_chunks P ?k (us - ?c)"
      using True by (subst sleep_chunks.simps) (simp only: if_True Let_def split_beta)
    have "clock ?k + (us - ?c) \<le> clock (sleep_chunks P ?k (us - ?c))" using True by (intro less) simp
    moreover have "clock k + ?c \<le> clock ?k" by (rule assms) simp
    moreover have "?c \<le> us" by (rule min.cobounded1)
    ultimately show ?thesis unfolding step by linarith
  qed (simp add: sleep_chunks.simps)
qed

text \<open>Below a microsecond the macOS loop makes no call at all.\<close>

lemma sleep_submicrosecond:
  "is_macos (p_target P) \<Longrightarrow> d_secs dur = 0 \<Longrightarrow> d_nanos dur < 1000 \<Longrightarrow> sleep P k dur = k"
  by (simp add: sleep_def as_micros_def sleep_chunks.simps word_less_nat_alt)

section \<open>The stack of a new thread\<close>

lemma stack_rounding:
  assumes "unat v + 16383 < 2 ^ 64"
  shows "unat ((v + 0x3fff) AND NOT 0x3fff :: u64) = (unat v + 16383) div 16384 * 16384"
  using round_up_spec [OF assms] by (simp add: round_up_def GRAN_def add.commute [of v])

lemma aligned_and_not_15:
  assumes "16 dvd n"
  shows "(of_nat n :: u64) AND NOT 15 = of_nat n"
proof (rule word_unat_eq_iff [THEN iffD2])
  have "16 dvd n mod 2 ^ 64" using assms by (simp add: dvd_mod)
  moreover have "unat (of_nat n :: u64) = n mod 2 ^ 64" by (simp add: unsigned_of_nat take_bit_eq_mod)
  ultimately have "unat (of_nat n :: u64) div 2 ^ 4 * 2 ^ 4 = unat (of_nat n :: u64)" by simp
  then show "unat ((of_nat n :: u64) AND NOT 15) = unat (of_nat n :: u64)"
    using unat_and_not_mask [of "of_nat n :: u64" 4] by (simp add: mask_eq_exp_minus_1)
qed

lemma child_stack_pointer:
  assumes "16 dvd n" "16 \<le> n" "n \<le> 2 ^ 64"
  shows "unat ((((of_nat n :: u64) AND NOT 15) AND NOT 15) - 16) = n - 16"
    "unat ((((of_nat n :: u64) AND NOT 15) AND NOT 15) - 16 + 8) = n - 8"
proof -
  obtain m where n: "n = m + 16" using assms(2) by (metis add.commute le_Suc_ex)
  have top: "((of_nat n :: u64) AND NOT 15) AND NOT 15 = of_nat n" by (simp only: aligned_and_not_15 [OF assms(1)])
  have sp: "(of_nat n :: u64) - 16 = of_nat m" "(of_nat n :: u64) - 16 + 8 = of_nat (m + 8)" by (simp_all add: n)
  show "unat ((((of_nat n :: u64) AND NOT 15) AND NOT 15) - 16) = n - 16"
    unfolding top sp using assms(3) by (subst unat_of_nat_u64) (simp_all add: n)
  show "unat ((((of_nat n :: u64) AND NOT 15) AND NOT 15) - 16 + 8) = n - 8"
    unfolding top sp(2) using assms(3) by (subst unat_of_nat_u64) (simp_all add: n)
qed

text \<open>
  What thread creation relies on besides \<^const>\<open>mmap_contract\<close>: a region that \<open>mmap\<close> returned is unmapped by
  \<open>munmap\<close> of the same range, and creating a thread maps and unmaps nothing.
\<close>

definition thread_contract :: "'k platform \<Rightarrow> 'k mach \<Rightarrow> ('k \<Rightarrow> nat set) \<Rightarrow> bool" where
  "thread_contract P M mapped \<longleftrightarrow>
     mmap_contract P mapped \<and>
     (\<forall>k len prot k1 p k2. mmap_anon P k len prot = (k1, Inr p) \<longrightarrow> mapped k2 = mapped k1 \<longrightarrow>
        mapped (fst (sys_munmap P k2 p len)) = mapped k2 - span (unat p) (unat len)) \<and>
     (\<forall>k args. mapped (fst (p_syscall P k CLONE args)) = mapped k) \<and>
     (\<forall>k req. mapped (fst (ma_create M k req)) = mapped k)"

text \<open>The child was started by a \<open>clone\<close> on a stack pointer 16 bytes below \<open>stack_end\<close>, where it finds its entry point and argument.\<close>

definition clone_started :: "'k platform \<Rightarrow> 'k \<Rightarrow> 'k \<Rightarrow> memory \<Rightarrow> nat \<Rightarrow> u64 \<Rightarrow> u64 \<Rightarrow> bool" where
  "clone_started P k k' mem stack_end entry arg \<longleftrightarrow>
     (\<exists>sp r ws. p_syscall P k CLONE [W CLONE_THREAD_FLAGS, W sp, W 0, W 0, W 0] = (k', r, ws) \<and> 0 < sint r \<and>
        unat sp + 16 = stack_end \<and> clone_child mem sp = (entry, arg))"

lemma purestd_clone_spec:
  assumes "16 dvd n" "16 \<le> n" "n \<le> 2 ^ 64"
    and "purestd_clone P k mem entry (of_nat n AND NOT 15) CLONE_THREAD_FLAGS arg = (k', mem', r)"
  shows "k' = fst (p_syscall P k CLONE
           [W CLONE_THREAD_FLAGS, W (((of_nat n AND NOT 15) AND NOT 15) - 16), W 0, W 0, W 0])"
    "unat a \<notin> span (n - 16) 16 \<Longrightarrow> mem' a = mem a"
    "0 < sint r \<Longrightarrow> clone_started P k k' mem' n entry arg"
proof -
  let ?sp = "((of_nat n AND NOT 15) AND NOT 15) - 16 :: u64"
  obtain ws where call: "p_syscall P k CLONE [W CLONE_THREAD_FLAGS, W ?sp, W 0, W 0, W 0] = (k', r, ws)"
    and mem': "mem' = mem(?sp := entry, ?sp + 8 := arg)"
    using assms(4) by (auto simp: purestd_clone_def Let_def split: prod.splits)
  note sp = child_stack_pointer [OF assms(1-3)]
  have ne: "?sp \<noteq> ?sp + 8" by simp
  show "k' = fst (p_syscall P k CLONE [W CLONE_THREAD_FLAGS, W ?sp, W 0, W 0, W 0])" by (simp only: call fst_conv)
  show "mem' a = mem a" if "unat a \<notin> span (n - 16) 16"
    using that sp assms(2) unfolding mem' by auto
  show "clone_started P k k' mem' n entry arg" if "0 < sint r"
    unfolding clone_started_def
  proof (intro exI conjI)
    show "p_syscall P k CLONE [W CLONE_THREAD_FLAGS, W ?sp, W 0, W 0, W 0] = (k', r, ws)" by (rule call)
    show "clone_child mem' ?sp = (entry, arg)" using ne by (simp add: clone_child_def mem')
  qed (use that sp(1) assms(2) in simp_all)
qed

lemma spawn_os_spec:
  assumes "thread_contract P M mapped" "16 dvd n" "16 \<le> n" "n \<le> 2 ^ 64"
    and run: "spawn_os P M k mem entry arg (of_nat n AND NOT 15) = (k', mem', ok)"
  shows "mapped k' = mapped k" "unat a \<notin> span (n - 16) 16 \<Longrightarrow> mem' a = mem a"
    "ok \<Longrightarrow> \<not> is_macos (p_target P) \<Longrightarrow> clone_started P k k' mem' n entry arg"
proof -
  have keeps: "mapped (fst (p_syscall P k CLONE args)) = mapped k" "mapped (fst (ma_create M k req)) = mapped k" for args req
    using assms(1) unfolding thread_contract_def by blast+
  consider (linux) r where "\<not> is_macos (p_target P)" "ok = (0 < sint r)"
      "purestd_clone P k mem entry (of_nat n AND NOT 15) CLONE_THREAD_FLAGS arg = (k', mem', r)"
    | (macos) req where "is_macos (p_target P)" "mem' = mem" "k' = k \<or> k' = fst (ma_create M k req)"
    using run by (cases "p_target P") (auto simp: spawn_os_def split: prod.splits, (metis fst_conv)+)
  then have "mapped k' = mapped k \<and> (unat a \<notin> span (n - 16) 16 \<longrightarrow> mem' a = mem a) \<and>
      (ok \<longrightarrow> \<not> is_macos (p_target P) \<longrightarrow> clone_started P k k' mem' n entry arg)"
  proof cases
    case linux
    note c = purestd_clone_spec [OF assms(2-4) linux(3)]
    show ?thesis using c(2,3) linux(2) keeps(1) unfolding c(1) [symmetric] by (metis c(1))
  next
    case macos
    then show ?thesis using keeps(2) by auto
  qed
  then show "mapped k' = mapped k" "unat a \<notin> span (n - 16) 16 \<Longrightarrow> mem' a = mem a"
    "ok \<Longrightarrow> \<not> is_macos (p_target P) \<Longrightarrow> clone_started P k k' mem' n entry arg" by blast+
qed

text \<open>The size of the stack: the request rounded up to whole granules of 16 KiB.\<close>

definition stack_bytes :: "Builder \<Rightarrow> nat" where
  "stack_bytes b = (unat (stack_request b) + 16383) div 16384 * 16384"

lemma stack_bytes_bounds:
  assumes "0 < stack_request b"
  shows "unat (stack_request b) \<le> stack_bytes b" "stack_bytes b < unat (stack_request b) + 16384"
    "16384 dvd stack_bytes b" "16384 \<le> stack_bytes b"
proof -
  show d: "16384 dvd stack_bytes b" by (simp add: stack_bytes_def)
  have m: "stack_bytes b + (unat (stack_request b) + 16383) mod 16384 = unat (stack_request b) + 16383"
    "(unat (stack_request b) + 16383) mod 16384 < 16384" by (simp_all only: stack_bytes_def div_mult_mod_eq mod_less_divisor zero_less_numeral)
  show le: "unat (stack_request b) \<le> stack_bytes b" using m by linarith
  show "stack_bytes b < unat (stack_request b) + 16384" using m by linarith
  have "0 < unat (stack_request b)" using assms by (simp add: unat_gt_0 word_neq_0_conv)
  then show "16384 \<le> stack_bytes b" using d le by (meson dvd_imp_le less_le_trans)
qed

lemma mmap_contract_err:
  assumes "mmap_contract P mapped" "mmap_anon P k len prot = (k', Inl e)"
  shows "mapped k' = mapped k"
  using conjunct1 [OF assms(1) [unfolded mmap_contract_def], rule_format, OF assms(2)] by (simp only: sum.case)

lemma mmap_contract_ok:
  assumes "mmap_contract P mapped" "mmap_anon P k len prot = (k', Inr p)"
  shows "4096 dvd unat p" "unat p + unat len \<le> 2 ^ 64" "span (unat p) (unat len) \<inter> mapped k = {}"
    "mapped k' = mapped k \<union> span (unat p) (unat len)"
  using conjunct1 [OF assms(1) [unfolded mmap_contract_def], rule_format, OF assms(2), unfolded sum.case] by blast+

lemma builder_spawn_err:
  "mmap_anon P k (stack_word b) 3 = (k1, Inl e) \<Longrightarrow>
   builder_spawn P M k mem counter b entry arg = (k1, mem, counter, Inl (error_from_errno e))"
  by (simp add: builder_spawn_def)

lemma builder_spawn_ok:
  assumes "mmap_anon P k (stack_word b) 3 = (k1, Inr p)"
    and "spawn_os P M k1 mem entry arg ((p + stack_word b) AND NOT 15) = (k2, mem2, ok)"
  shows "builder_spawn P M k mem counter b entry arg =
    (if ok then (k2, mem2, counter + 1, Inr \<lparr> th_id = counter, th_name = bu_name b, th_parker = 0 \<rparr>)
     else (fst (sys_munmap P k2 p (stack_word b)), mem2, counter + 1, Inl (error_new Other ''failed to spawn OS thread'')))"
proof -
  obtain k3 u where "sys_munmap P k2 p (stack_word b) = (k3, u)" by fastforce
  then show ?thesis
    unfolding builder_spawn_def Let_def assms(1) thread_new_def thread_id_next_def
    by (cases ok) (simp_all only: prod.case sum.case assms(2) bool.case fst_conv if_True if_False)
qed

text \<open>The stack and the child's first words, once the region is mapped.\<close>

lemma spawn_on_stack:
  assumes C: "thread_contract P M mapped"
    and req: "0 < stack_request b" "unat (stack_request b) + 16383 < 2 ^ 64"
    and mmap: "mmap_anon P k (stack_word b) 3 = (k1, Inr p)"
    and os: "spawn_os P M k1 mem entry arg ((p + stack_word b) AND NOT 15) = (k2, mem2, ok)"
  shows "span (unat p) (stack_bytes b) \<inter> mapped k = {}" "mapped k2 = mapped k \<union> span (unat p) (stack_bytes b)"
    "unat a \<in> mapped k \<Longrightarrow> mem2 a = mem a" "mapped (fst (sys_munmap P k2 p (stack_word b))) = mapped k"
    "ok \<Longrightarrow> \<not> is_macos (p_target P) \<Longrightarrow> clone_started P k1 k2 mem2 (unat p + stack_bytes b) entry arg"
proof -
  let ?n = "unat p + stack_bytes b"
  have size: "unat (stack_word b) = stack_bytes b" using stack_rounding [OF req(2)] by (simp only: stack_word_def stack_bytes_def)
  note bytes = stack_bytes_bounds [OF req(1)]
  have mm: "mmap_contract P mapped" using C by (simp add: thread_contract_def)
  note map1 = mmap_contract_ok [OF mm mmap, unfolded size]
  have "16 dvd unat p" by (rule dvd_trans [OF _ map1(1)]) simp
  moreover have "16 dvd stack_bytes b" by (rule dvd_trans [OF _ bytes(3)]) simp
  ultimately have n: "16 dvd ?n" "16 \<le> ?n" "?n \<le> 2 ^ 64" using bytes(4) map1(2) by simp_all
  have "p + stack_word b = of_nat ?n" by (simp add: size [symmetric])
  note sp = spawn_os_spec [OF C n os [unfolded this]]
  show fresh: "span (unat p) (stack_bytes b) \<inter> mapped k = {}" by (rule map1(3))
  show k2: "mapped k2 = mapped k \<union> span (unat p) (stack_bytes b)" using sp(1) map1(4) by simp
  have "span (?n - 16) 16 \<subseteq> span (unat p) (stack_bytes b)" using bytes(4) by auto
  then show "mem2 a = mem a" if "unat a \<in> mapped k" using that sp(2) fresh by blast
  have "mapped (fst (sys_munmap P k2 p (stack_word b))) = mapped k2 - span (unat p) (unat (stack_word b))"
    using C mmap sp(1) unfolding thread_contract_def by metis
  then show "mapped (fst (sys_munmap P k2 p (stack_word b))) = mapped k" using k2 fresh size by auto
  show "clone_started P k1 k2 mem2 ?n entry arg" if "ok" "\<not> is_macos (p_target P)" by (rule sp(3) [OF that])
qed


text \<open>A kernel that maps regions one after the other and gives the first thread the number 7.\<close>

definition stack_kernel :: "(nat \<times> nat set) platform" where
  "stack_kernel =
     \<lparr> p_target = Linux_x86_64,
       p_syscall = (\<lambda>(page, ms) n args.
         case n of
           MMAP \<Rightarrow>
             (case args of
                W _ # W len # _ \<Rightarrow>
                  if Suc page \<le> 2 ^ 28 \<and> len \<le> 2 ^ 40 \<and> (\<forall>x\<in>ms. x < 4096 * Suc page)
                  then ((page + unat len div 4096 + 1, ms \<union> span (4096 * Suc page) (unat len)), of_nat (4096 * Suc page), [])
                  else ((page, ms), - of_nat 12, [])
              | _ \<Rightarrow> ((page, ms), - of_nat 12, []))
         | MUNMAP \<Rightarrow>
             (case args of
                [W p, W len] \<Rightarrow> ((page, ms - span (unat p) (unat len)), 0, [])
              | _ \<Rightarrow> ((page, ms), - of_nat 12, []))
         | _ \<Rightarrow> ((page, ms), 7, [])),
       p_svc2 = (\<lambda>k n. (k, 0, 0, True)) \<rparr>"

definition no_mach :: "'k mach" where
  "no_mach = \<lparr> ma_ports = (0, 0), ma_create = (\<lambda>k _. (k, 1)), ma_switch = (\<lambda>k _ _ _. k),
     ma_thread_self = (\<lambda>k. (k, 0)), ma_terminate = (\<lambda>k _ _ _ _. k) \<rparr>"

lemma stack_kernel_mmap:
  "mmap_anon stack_kernel (page, ms) len prot =
    (if Suc page \<le> 2 ^ 28 \<and> len \<le> 2 ^ 40 \<and> (\<forall>x\<in>ms. x < 4096 * Suc page)
     then ((page + unat len div 4096 + 1, ms \<union> span (4096 * Suc page) (unat len)), Inr (of_nat (4096 * Suc page)))
     else ((page, ms), Inl (Errno 12)))"
proof -
  have "from_ret (- 12) = Inl (Errno 12)" using from_ret_err [of 12] by simp
  moreover have "from_ret (of_nat (4096 * Suc page)) = Inr (of_nat (4096 * Suc page))" if "Suc page \<le> 2 ^ 28"
    using that by (intro from_ret_small) simp
  ultimately show ?thesis by (simp add: mmap_anon_def stack_kernel_def del: of_nat_mult of_nat_Suc)
qed

lemma stack_kernel_munmap: "sys_munmap stack_kernel (page, ms) p len = ((page, ms - span (unat p) (unat len)), Inr ())"
  by (simp add: sys_munmap_def stack_kernel_def from_ret_def map_ok_def)

lemma stack_kernel_contract: "thread_contract stack_kernel no_mach snd"
proof -
  have mmap: "case r of
      Inl _ \<Rightarrow> snd k' = snd k
    | Inr p \<Rightarrow> p \<noteq> 0 \<and> 4096 dvd unat p \<and> unat p + unat len \<le> 2 ^ 64 \<and>
        span (unat p) (unat len) \<inter> snd k = {} \<and> snd k' = snd k \<union> span (unat p) (unat len)"
    if call: "mmap_anon stack_kernel k len prot = (k', r)" for k len prot k' r
  proof -
    obtain page ms where k: "k = (page, ms)" by fastforce
    show ?thesis
    proof (cases "Suc page \<le> 2 ^ 28 \<and> len \<le> 2 ^ 40 \<and> (\<forall>x\<in>ms. x < 4096 * Suc page)")
      case True
      then have u: "unat (of_nat (4096 * Suc page) :: u64) = 4096 * Suc page" by (intro unat_of_nat_u64) simp
      moreover from u have "(of_nat (4096 * Suc page) :: u64) \<noteq> 0" by (metis mult_eq_0_iff nat.distinct(1) unsigned_0 zero_neq_numeral)
      moreover have "unat len \<le> 2 ^ 40" using True by (simp add: word_le_nat_alt)
      moreover have "span (4096 * Suc page) (unat len) \<inter> ms = {}" using True by fastforce
      moreover have "k' = (page + unat len div 4096 + 1, ms \<union> span (4096 * Suc page) (unat len))"
        "r = Inr (of_nat (4096 * Suc page))"
        using call [unfolded k stack_kernel_mmap if_P [OF True]] by simp_all
      ultimately show ?thesis using True by (simp only: k sum.case snd_conv) simp
    next
      case False
      show ?thesis using call [unfolded k stack_kernel_mmap if_not_P [OF False]] by (auto simp: k)
    qed
  qed
  have munmap: "snd (fst (sys_munmap stack_kernel k p len)) = snd k - span (unat p) (unat len)" for k p len
    by (cases k) (simp add: stack_kernel_munmap)
  have "snd k - span (unat p) (unat len) \<subseteq> snd k' \<and> snd k' \<subseteq> snd k"
    if "sys_munmap stack_kernel k p len = (k', r)" for k p len k' r
    using munmap [of k p len] that by auto
  then have "mmap_contract stack_kernel snd" unfolding mmap_contract_def using mmap by blast
  moreover have "snd (fst (p_syscall stack_kernel k CLONE args)) = snd k" for k args
    by (cases k) (simp add: stack_kernel_def)
  ultimately show ?thesis unfolding thread_contract_def using munmap by (simp add: no_mach_def)
qed

definition spawn_example :: Builder where
  "spawn_example = builder_name (builder_stack_size builder_new 20000) ''worker''"


end
