(* ===== verification/Wasi_Calls.thy ===== *)
theory Wasi_Calls
  imports Io_Error
begin

text \<open>
  The WebAssembly target: \<open>src/arch/wasi.rs\<close> and the wrappers of \<open>src/syscall_wasi.rs\<close> over it. The host functions
  of WASI preview 1 are a parameter. \<open>usize\<close> is 32 bits wide here. A host reply to a read carries the bytes it put at
  the start of the buffer.
\<close>

type_synonym u16 = "16 word"

record 'k wasi_host =
  wh_fd_write :: "'k \<Rightarrow> u32 \<Rightarrow> byte list list \<Rightarrow> 'k \<times> u16 \<times> u32"
  wh_fd_read :: "'k \<Rightarrow> u32 \<Rightarrow> nat \<Rightarrow> 'k \<times> u16 \<times> u32 \<times> byte list"
  wh_fd_close :: "'k \<Rightarrow> u32 \<Rightarrow> 'k \<times> u16"
  wh_random_get :: "'k \<Rightarrow> nat \<Rightarrow> 'k \<times> u16 \<times> byte list"
  wh_clock_time_get :: "'k \<Rightarrow> u32 \<Rightarrow> u64 \<Rightarrow> 'k \<times> u16 \<times> u64 option"

section \<open>The imports\<close>

definition wasi_to_linux :: "u16 \<Rightarrow> 32 word" where
  "wasi_to_linux e =
     (if e = 0 then 0
      else if e = 2 then 13
      else if e = 8 then 9
      else if e = 20 then 17
      else if e = 28 then 22
      else if e = 44 then 2
      else if e = 52 then 38
      else 5)"

definition wasi_check :: "u16 \<Rightarrow> Errno + unit" where
  "wasi_check e = (if e = 0 then Inr () else Inl (Errno (wasi_to_linux e)))"

definition wasi_write :: "'k wasi_host \<Rightarrow> 'k \<Rightarrow> 32 word \<Rightarrow> byte list \<Rightarrow> 'k \<times> (Errno + u32)" where
  "wasi_write H k fd buf =
     (case wh_fd_write H k fd [buf] of (k', e, n) \<Rightarrow> (k', map_ok (\<lambda>_. n) (wasi_check e)))"

definition wasi_read :: "'k wasi_host \<Rightarrow> 'k \<Rightarrow> 32 word \<Rightarrow> byte list \<Rightarrow> 'k \<times> byte list \<times> (Errno + u32)" where
  "wasi_read H k fd buf =
     (case wh_fd_read H k fd (length buf) of (k', e, n, ws) \<Rightarrow>
        (k', overwrite buf ws, map_ok (\<lambda>_. n) (wasi_check e)))"

definition wasi_close :: "'k wasi_host \<Rightarrow> 'k \<Rightarrow> 32 word \<Rightarrow> 'k \<times> (Errno + unit)" where
  "wasi_close H k fd = (case wh_fd_close H k fd of (k', e) \<Rightarrow> (k', wasi_check e))"

definition wasi_getrandom :: "'k wasi_host \<Rightarrow> 'k \<Rightarrow> byte list \<Rightarrow> 'k \<times> byte list \<times> (Errno + unit)" where
  "wasi_getrandom H k buf =
     (case wh_random_get H k (length buf) of (k', e, ws) \<Rightarrow> (k', overwrite buf ws, wasi_check e))"

text \<open>The time is 0 when the host did not write it; the error is ignored.\<close>

definition wasi_clock :: "'k wasi_host \<Rightarrow> 'k \<Rightarrow> u32 \<Rightarrow> 'k \<times> u64 \<times> u32" where
  "wasi_clock H k i =
     (case wh_clock_time_get H k i 1000 of (k', _, w) \<Rightarrow>
        let t = (case w of Some t \<Rightarrow> t | None \<Rightarrow> 0) in
        (k', t div 1000000000, ucast (t mod 1000000000)))"

section \<open>The wrappers\<close>

text \<open>The loops of \<open>writev\<close> and \<open>readv\<close> over the buffers; \<open>tot\<close> (\<open>total\<close> in the source) is the count so far.\<close>

fun wasi_writev :: "'k wasi_host \<Rightarrow> 'k \<Rightarrow> 32 word \<Rightarrow> byte list list \<Rightarrow> u32 \<Rightarrow> 'k \<times> (Errno + u32)" where
  "wasi_writev H k fd [] tot = (k, Inr tot)"
| "wasi_writev H k fd (v # vs) tot =
     (case wasi_write H k fd v of
        (k', Inl e) \<Rightarrow> (k', Inl e)
      | (k', Inr n) \<Rightarrow>
          if n < of_nat (length v) then (k', Inr (tot + n)) else wasi_writev H k' fd vs (tot + n))"

fun wasi_readv :: "'k wasi_host \<Rightarrow> 'k \<Rightarrow> 32 word \<Rightarrow> byte list list \<Rightarrow> u32 \<Rightarrow> 'k \<times> byte list list \<times> (Errno + u32)" where
  "wasi_readv H k fd [] tot = (k, [], Inr tot)"
| "wasi_readv H k fd (v # vs) tot =
     (case wasi_read H k fd v of
        (k', b, Inl e) \<Rightarrow> (k', b # vs, Inl e)
      | (k', b, Inr n) \<Rightarrow>
          if n = 0 then (k', b # vs, Inr tot)
          else if n < of_nat (length v) then (k', b # vs, Inr (tot + n))
          else (case wasi_readv H k' fd vs (tot + n) of (k'', bs, r) \<Rightarrow> (k'', b # bs, r)))"

definition wasi_monotonic :: "'k wasi_host \<Rightarrow> 'k \<Rightarrow> 'k \<times> u64 \<times> u32" where
  "wasi_monotonic H k = wasi_clock H k 1"

definition wasi_gettimeofday :: "'k wasi_host \<Rightarrow> 'k \<Rightarrow> 'k \<times> (Errno + u64 \<times> u64)" where
  "wasi_gettimeofday H k =
     (case wasi_clock H k 0 of (k', secs, nanos) \<Rightarrow> (k', Inr (secs, ucast (nanos div 1000))))"

text \<open>Every file system, socket and process call of this target, from \<open>open\<close> to \<open>fork\<close>, is this value.\<close>

definition wasi_unsupported :: "Errno + 'a" where
  "wasi_unsupported = Inl (Errno 38)"

lemma wasi_unsupported_kind:
  "\<not> is_macos t \<Longrightarrow> \<exists>e. io_result (wasi_unsupported :: Errno + 'a) = Inl e \<and> error_kind t e = Unsupported"
  by (simp add: wasi_unsupported_def error_kind_def error_from_errno_def errno_kind_def)

section \<open>What the loops transfer\<close>

text \<open>
  \<open>out\<close> is what a descriptor has received. A successful write delivers the reported count of bytes from the front of
  the buffer, a failed one none.
\<close>

definition wasi_writes :: "'k wasi_host \<Rightarrow> ('k \<Rightarrow> u32 \<Rightarrow> byte list) \<Rightarrow> bool" where
  "wasi_writes H out \<longleftrightarrow>
     (\<forall>k fd b k' e n. wh_fd_write H k fd [b] = (k', e, n) \<longrightarrow>
        (if e = 0 then unat n \<le> length b \<and> out k' fd = out k fd @ take (unat n) b else out k' fd = out k fd))"

lemma wasi_write_out:
  assumes "wasi_writes H out" "wasi_write H k fd b = (k', r)"
  shows "case r of Inl _ \<Rightarrow> out k' fd = out k fd
    | Inr n \<Rightarrow> unat n \<le> length b \<and> out k' fd = out k fd @ take (unat n) b"
proof -
  obtain e n where call: "wh_fd_write H k fd [b] = (k', e, n)" and r: "r = map_ok (\<lambda>_. n) (wasi_check e)"
    using assms(2) by (auto simp: wasi_write_def split: prod.splits)
  show ?thesis using assms(1) [unfolded wasi_writes_def, rule_format, OF call]
    by (cases "e = 0") (simp_all add: r wasi_check_def map_ok_def)
qed

text \<open>An \<open>Ok\<close> of \<open>writev\<close> counts exactly the delivered bytes, which are the front of the buffers in order.\<close>

lemma wasi_writev_ok:
  assumes C: "wasi_writes H out"
  shows "wasi_writev H k fd vs tot = (k', Inr n) \<Longrightarrow> unat tot + length (concat vs) < 2 ^ 32 \<Longrightarrow>
    \<exists>m \<le> length (concat vs). unat n = unat tot + m \<and> out k' fd = out k fd @ take m (concat vs)"
proof (induction vs arbitrary: k tot)
  case Nil
  then show ?case by simp
next
  case (Cons v vs)
  obtain k1 r where w: "wasi_write H k fd v = (k1, r)" by fastforce
  note o1 = wasi_write_out [OF C w]
  obtain c where r: "r = Inr c" using Cons.prems(1) w by (cases r) auto
  have c: "unat c \<le> length v" "out k1 fd = out k fd @ take (unat c) v" using o1 r by simp_all
  have len: "unat (of_nat (length v) :: u32) = length v" using Cons.prems(2) by (intro unat_of_nat_u32) simp
  have sum: "unat (tot + c) = unat tot + unat c"
    using c(1) Cons.prems(2) by (subst unat_add_lem [THEN iffD1]) simp_all
  show ?case
  proof (cases "c < of_nat (length v)")
    case True
    then have "k' = k1" "n = tot + c" using Cons.prems(1) w r by simp_all
    then show ?thesis using c sum by (intro exI [of _ "unat c"]) simp
  next
    case False
    then have full: "unat c = length v" using c(1) len by (simp add: word_less_nat_alt)
    have rest: "wasi_writev H k1 fd vs (tot + c) = (k', Inr n)" using Cons.prems(1) w r False by simp
    have "unat (tot + c) + length (concat vs) < 2 ^ 32" using Cons.prems(2) sum full by simp
    from Cons.IH [OF rest this] obtain m where
      "m \<le> length (concat vs)" "unat n = unat (tot + c) + m" "out k' fd = out k1 fd @ take m (concat vs)" by blast
    then show ?thesis using c(2) sum full by (intro exI [of _ "length v + m"]) simp
  qed
qed

text \<open>A host whose descriptor takes three bytes in all, and then fails with WASI's \<open>EIO\<close>.\<close>

definition short_host :: "byte list wasi_host" where
  "short_host =
     \<lparr> wh_fd_write = (\<lambda>k fd bs. if length k + length (concat bs) \<le> 3 then (k @ concat bs, 0, of_nat (length (concat bs))) else (k, 29, 0)),
       wh_fd_read = (\<lambda>k fd n. (k, 0, 0, [])),
       wh_fd_close = (\<lambda>k fd. (k, 0)),
       wh_random_get = (\<lambda>k n. (k, 0, [])),
       wh_clock_time_get = (\<lambda>k i p. (k, 0, None)) \<rparr>"

text \<open>An error after a delivered buffer is returned as the error alone: the count of the delivered bytes is lost.\<close>

lemma wasi_writev_loses_count:
  "wasi_writev short_host [] 1 [[1, 2, 3], [4]] 0 = ([1, 2, 3], Inl (Errno 5))"
  by (simp add: wasi_write_def short_host_def wasi_check_def wasi_to_linux_def map_ok_def)

end
