(* ===== verification/Spec2Isabelle.thy ===== *)
theory Spec2Isabelle
  imports Allocator Barrier_Wakes Channel_Wakes Fs_Dir Hash_Set Linux32 Once_Cells Owned_Fds Parking Process_Run
    Rw_Locks Scoped_Threads Socket_Options Thread_Joins Thread_Locals Thread_Spawn Wasi_Calls
begin

text \<open>
  A verification library for \<open>purestd\<close>, a standard library for Rust programs that runs directly on system calls.

  \<^bold>\<open>The program.\<close> Every module of \<open>src/\<close> ends in the wrappers of \<open>syscall.rs\<close>, which put arguments into
  registers and decode the returned word. \<open>io.rs\<close> builds readers, writers and buffers on descriptors; \<open>fs.rs\<close>,
  \<open>net.rs\<close> and \<open>process.rs\<close> build files, sockets and child processes on those. \<open>allocator.rs\<close> takes memory from
  \<open>mmap\<close>. \<open>sys_thread.rs\<close> gives threads and the futex, on which \<open>sync.rs\<close> and \<open>thread.rs\<close> build locks,
  channels, barriers, joining and parking. \<open>hash.rs\<close> and \<open>collections.rs\<close> give the hash tables, which \<open>env.rs\<close>
  and \<open>process.rs\<close> use for the environment.

  \<^bold>\<open>Conventions.\<close> A panic, an index out of range and a loop that never ends are the value \<^term>\<open>None\<close>; \<open>Err\<close> is
  \<^term>\<open>Inl\<close> and \<open>Ok\<close> is \<^term>\<open>Inr\<close>; structs are records, enums are datatypes, machine integers are words of their
  width. Operations that reach the kernel take its state and return it. The kernel is a parameter, a record
  \<open>platform\<close> with the target and the effect of a call; what is relied on is a named predicate over it
  (\<open>fd_contract\<close>, \<open>mmap_contract\<close>, \<open>thread_contract\<close>, \<open>futex_contract\<close>, \<open>time32_abi\<close>), shown satisfiable
  by a concrete kernel where a theorem assumes it.

  \<^bold>\<open>Base.\<close>
  \<^item> \<open>Prelude\<close>: slices, checked subtraction, byte order, masks. \<open>Str_Text\<close>: string functions of the core library.
  \<^item> \<open>Syscalls\<close> (\<open>syscall.rs\<close>): the wrappers for 64-bit Linux and macOS, alternatives decided by the target.
  \<^item> \<open>Linux32\<close> (\<open>syscall.rs\<close>, \<open>sys_thread.rs\<close>): seeking, truncating, clocks and sleeping on i686 and ARM. Offsets
    reach the kernel whole; the times are misread.
  \<^item> \<open>Wasi_Calls\<close> (\<open>syscall_wasi.rs\<close>, \<open>arch/wasi.rs\<close>): the WebAssembly wrappers. A successful \<open>writev\<close>
    counts exactly what it delivered; an error after a partial transfer loses the count.
  \<^item> \<open>Allocator\<close> (\<open>allocator.rs\<close>): size classes, arenas, free lists in memory. Blocks are mapped, aligned up to a
    page and disjoint.

  \<^bold>\<open>Hashing and collections.\<close>
  \<^item> \<open>Sip_Hash\<close> (\<open>hash.rs\<close>): the streaming hasher implements the one-shot definition however the input is cut.
  \<^item> \<open>Hash_Map\<close>, \<open>Hash_Table\<close>, \<open>Hash_Map_Spec\<close>, \<open>Hash_Set\<close> (\<open>collections.rs\<close>): operations, table
    invariant, refinement of finite maps and sets for every hash function.

  \<^bold>\<open>Input, output and the system.\<close>
  \<^item> \<open>Io_Error\<close>, \<open>Io_Read\<close>, \<open>Io_Buf_Read\<close>, \<open>Io_Write\<close>, \<open>Io_Fd\<close> (\<open>io.rs\<close>): the contracts of readers and
    writers are locales; the provided methods are proved once and interpreted on slices, cursors, vectors and descriptors.
  \<^item> \<open>Paths\<close> (\<open>path.rs\<close>), \<open>Os_Strings\<close> (\<open>ffi.rs\<close>, \<open>os.rs\<close>), \<open>Times\<close> (\<open>time.rs\<close>), \<open>Env\<close>
    (\<open>env.rs\<close>).
  \<^item> \<open>Fs\<close>, \<open>Fs_Dir\<close> (\<open>fs.rs\<close>): files, metadata, directory iteration.
  \<^item> \<open>Descriptors\<close>, \<open>Owned_Fds\<close>: the effect of calls on the descriptor table, and \<open>OwnedFd\<close> of \<open>os.rs\<close>.
  \<^item> \<open>Net_Addr\<close>, \<open>Dns\<close>, \<open>Sockets\<close>, \<open>Socket_Options\<close> (\<open>net.rs\<close>): addresses, resolution, sockets.
  \<^item> \<open>Process\<close>, \<open>Process_Run\<close> (\<open>process.rs\<close>, with \<open>rt.rs\<close> and \<open>panic.rs\<close>): pipes, fork and exec on
    both sides, environment, waiting, output, exit codes.

  \<^bold>\<open>Threads.\<close> A thread is a position in its operation; one step is one atomic access or kernel call, and threads
  interleave arbitrarily. \<open>Interleaving_Steps\<close> holds the step relation, reachability, and the locales for invariants,
  projections and bounded progress; each primitive interprets them. Memory is sequentially consistent.
  \<^item> \<open>Futex\<close> (\<open>sys_thread.rs\<close>): waiting and waking over the kernel's queues, spurious returns included.
  \<^item> \<open>Mutexes\<close>, \<open>Rw_Locks\<close>, \<open>Once_Cells\<close>, \<open>Condvars\<close> (\<open>sync.rs\<close>): exclusion, progress, one initialisation.
  \<^item> \<open>Channels\<close>, \<open>Channel_Wakes\<close> (\<open>sync.rs\<close>, \<open>mpsc\<close>): order of messages, wakeups, and the wakeup that
    dropping the last sender can lose.
  \<^item> \<open>Barriers\<close>, \<open>Barrier_Wakes\<close> (\<open>sync.rs\<close>): rounds of exactly \<open>n\<close> members and one leader; no member sleeps
    through the end of its round.
  \<^item> \<open>Thread_Joins\<close>, \<open>Parking\<close>, \<open>Scoped_Threads\<close>, \<open>Thread_Spawn\<close> (\<open>thread.rs\<close>, \<open>sys_thread.rs\<close>): the
    joined value, the parking token, waiting for scoped threads and the write that can follow the return of \<open>scope\<close>, the
    stack of a new thread.
  \<^item> \<open>Thread_Locals\<close> (\<open>tls.rs\<close>): values are private while thread identifiers differ; a reused identifier finds the old
    value.

  \<^bold>\<open>Bounds.\<close> Loops whose end depends on the kernel are partial functions into \<^typ>\<open>'a option\<close>, and the theorems
  show the value \<^term>\<open>Some\<close> under the contracts; loops over data are total. \<open>remove_dir_all\<close>
  recurses with the depth of the tree as an argument, and is \<^term>\<open>None\<close> below it. Name resolution uses depth 2, and
  \<open>resolve_depth_stable\<close> shows that a greater depth gives the same result. Progress theorems bound the steps by a multiple of the number of threads.
  \<open>RwLock\<close> assumes fewer than \<open>2 ^ 31 - 1\<close> readers, scoped threads fewer than \<open>2 ^ 62\<close> threads, and
  \<open>Barrier\<close>'s wakeups fewer than \<open>2 ^ 31\<close> threads and \<open>2 ^ 32\<close> rounds, after which the counters in the code wrap
  around. A requested stack is positive and does not wrap when rounded.

  \<^bold>\<open>Not modelled.\<close>
  \<^item> Assembly: the \<open>syscallN\<close> functions and number tables of \<open>arch/\<close> and the process entry point are below the
    kernel parameter. Of the clone wrappers the three 64-bit ones are modelled by what they store and pass on.
  \<^item> Orderings of atomics weaker than sequential consistency; \<open>Arc\<close> counts; the text of \<open>Debug\<close> output.
  \<^item> The Mach message is modelled by its contents and not by its layout; the spin lock around it is one step.
  \<^item> On 32-bit Linux the \<open>socketcall\<close> multiplexer, socket timeouts and file metadata.
  \<^item> On WebAssembly the allocator's growth, arguments and environment, the entry point, and the constant answers.
  \<^item> \<open>lib.rs\<close>, \<open>macros.rs\<close>, \<open>error.rs\<close>, \<open>prelude.rs\<close>: re-exports, and macros that forward to modelled functions.
\<close>

end
